(* ===== verification/Prelude.thy ===== *)
theory Prelude
  imports Main "HOL-Library.Word" "HOL-Library.While_Combinator" "HOL-Library.Code_Target_Nat"
begin

text \<open>
  Shared vocabulary of the development.

  The kernel is 32-bit C code. An operation that can fail an \<open>ASSERT\<close>, call \<open>PANIC\<close>, trap or
  reach undefined behaviour returns a value of \<open>'a res\<close>, the sum of a \<open>fault\<close> and the normal
  result; \<open>bind_r\<close> sequences two such operations and \<open>ASSERT\<close> is the macro of
  \<^verbatim>\<open>lib/debug.h\<close>. Ordinary error returns (null pointers, \<open>false\<close>, \<open>-1\<close>) are ordinary values.
  A \<open>size_t\<close> is a \<open>nat\<close> below \<open>u32_mod\<close>, with the wrap-around written out where the code adds or
  multiplies; bit patterns are \<open>32 word\<close>, \<open>64 word\<close> and \<open>8 word\<close>.
\<close>

section \<open>Faults and results\<close>

datatype fault =
    Assert_failed        \<comment> \<open>an \<open>ASSERT\<close> condition is false\<close>
  | Panic                \<comment> \<open>a call of \<open>PANIC\<close>\<close>
  | Not_reached          \<comment> \<open>\<open>NOT_REACHED ()\<close> is executed\<close>
  | Divide_error         \<comment> \<open>the CPU's #DE trap\<close>
  | Null_deref           \<comment> \<open>a null or dangling pointer is dereferenced\<close>
  | Out_of_bounds        \<comment> \<open>an access outside an object\<close>
  | Diverges             \<comment> \<open>a loop runs forever\<close>

type_synonym 'a res = "fault + 'a"

type_synonym byte = "8 word"

definition bind_r :: "'a res \<Rightarrow> ('a \<Rightarrow> 'b res) \<Rightarrow> 'b res" where
  "bind_r m f = (case m of Inl e \<Rightarrow> Inl e | Inr x \<Rightarrow> f x)"

definition ASSERT :: "bool \<Rightarrow> 'a res \<Rightarrow> 'a res" where
  "ASSERT c k = (if c then k else Inl Assert_failed)"

text \<open>Reading and writing an array cell: outside the array the access is a fault.\<close>

definition arr_get :: "'a list \<Rightarrow> nat \<Rightarrow> 'a res" where
  "arr_get xs i = (if i < length xs then Inr (xs ! i) else Inl Out_of_bounds)"

definition arr_set :: "'a list \<Rightarrow> nat \<Rightarrow> 'a \<Rightarrow> 'a list res" where
  "arr_set xs i v = (if i < length xs then Inr (xs[i := v]) else Inl Out_of_bounds)"

text \<open>Following a pointer, where \<open>None\<close> is the null pointer.\<close>

definition deref :: "'a option \<Rightarrow> 'a res" where
  "deref p = (case p of None \<Rightarrow> Inl Null_deref | Some x \<Rightarrow> Inr x)"

named_theorems res_simps \<open>evaluation of results\<close>

lemma bind_r_Inr [simp, res_simps]: "bind_r (Inr x) f = f x"
  by (simp add: bind_r_def)

lemma bind_r_Inl [simp, res_simps]: "bind_r (Inl e) f = Inl e"
  by (simp add: bind_r_def)

lemma bind_r_eq_Inr: "bind_r m f = Inr y \<longleftrightarrow> (\<exists>x. m = Inr x \<and> f x = Inr y)"
  by (cases m) auto

lemma bind_r_eq_InrE:
  assumes "bind_r m f = Inr y"
  obtains x where "m = Inr x" and "f x = Inr y"
  using assms by (auto simp: bind_r_eq_Inr)

lemma bind_r_cong [fundef_cong]:
  "m = m' \<Longrightarrow> (\<And>x. m' = Inr x \<Longrightarrow> f x = f' x) \<Longrightarrow> bind_r m f = bind_r m' f'"
  by (cases m') auto

lemma bind_r_assoc [res_simps]: "bind_r (bind_r m f) g = bind_r m (\<lambda>x. bind_r (f x) g)"
  by (cases m) auto

lemma ASSERT_True [simp, res_simps]: "c \<Longrightarrow> ASSERT c k = k"
  by (simp add: ASSERT_def)

lemma ASSERT_False [simp, res_simps]: "\<not> c \<Longrightarrow> ASSERT c k = Inl Assert_failed"
  by (simp add: ASSERT_def)

lemma ASSERT_eq_Inr: "ASSERT c k = Inr x \<longleftrightarrow> c \<and> k = Inr x"
  by (simp add: ASSERT_def)

lemma ASSERT_cong [fundef_cong]: "c = c' \<Longrightarrow> (c' \<Longrightarrow> k = k') \<Longrightarrow> ASSERT c k = ASSERT c' k'"
  by (simp add: ASSERT_def)

lemma arr_get_in [simp, res_simps]: "i < length xs \<Longrightarrow> arr_get xs i = Inr (xs ! i)"
  by (simp add: arr_get_def)

lemma arr_set_in [simp, res_simps]: "i < length xs \<Longrightarrow> arr_set xs i v = Inr (xs[i := v])"
  by (simp add: arr_set_def)

lemma arr_get_eq_Inr: "arr_get xs i = Inr x \<longleftrightarrow> i < length xs \<and> x = xs ! i"
  by (auto simp: arr_get_def)

lemma arr_set_eq_Inr: "arr_set xs i v = Inr ys \<longleftrightarrow> i < length xs \<and> ys = xs[i := v]"
  by (auto simp: arr_set_def)

lemma deref_Some [simp, res_simps]: "deref (Some x) = Inr x"
  by (simp add: deref_def)

lemma deref_None [simp, res_simps]: "deref None = Inl Null_deref"
  by (simp add: deref_def)

lemma deref_eq_Inr: "deref p = Inr x \<longleftrightarrow> p = Some x"
  by (cases p) auto

lemmas res_inv = bind_r_eq_Inr ASSERT_eq_Inr arr_get_eq_Inr arr_set_eq_Inr deref_eq_Inr

section \<open>Loops\<close>

text \<open>\<open>while (c) b;\<close> on a loop state, where the condition and the body may fault. A loop that never
  ends has the value \<open>Inl Diverges\<close>, so that a statement of the form \<open>while_r c b s = Inr t\<close> includes
  termination. The equation \<open>while_r_unfold\<close> makes it executable.\<close>

definition while_r :: "('s \<Rightarrow> bool res) \<Rightarrow> ('s \<Rightarrow> 's res) \<Rightarrow> 's \<Rightarrow> 's res" where
  "while_r c b s =
     (case while_option (\<lambda>r. case r of Inl e \<Rightarrow> False | Inr t \<Rightarrow> (case c t of Inl e \<Rightarrow> True | Inr g \<Rightarrow> g))
             (\<lambda>r. bind_r r (\<lambda>t. bind_r (c t) (\<lambda>_. b t))) (Inr s) of
        None \<Rightarrow> Inl Diverges
      | Some r \<Rightarrow> r)"

lemma while_r_unfold [code]:
  "while_r c b s = bind_r (c s) (\<lambda>g. if g then bind_r (b s) (while_r c b) else Inr s)"
proof -
  let ?c = "\<lambda>r. case r of Inl e \<Rightarrow> False | Inr t \<Rightarrow> (case c t of Inl e \<Rightarrow> True | Inr g \<Rightarrow> g)"
  let ?b = "\<lambda>r. bind_r r (\<lambda>t. bind_r (c t) (\<lambda>_. b t))"
  have stop: "while_option ?c ?b (Inl e) = Some (Inl e)" for e
    by (subst while_option_unfold) simp
  show ?thesis
  proof (cases "c s")
    case (Inl e)
    then show ?thesis by (simp add: while_r_def) (subst while_option_unfold, simp add: stop)
  next
    case (Inr g)
    then show ?thesis
      by (cases g; cases "b s") (simp_all add: while_r_def, (subst while_option_unfold, simp add: stop)+)
  qed
qed

lemma while_r_False: "c s = Inr False \<Longrightarrow> while_r c b s = Inr s"
  by (subst while_r_unfold) simp

lemma while_r_step: "c s = Inr True \<Longrightarrow> b s = Inr t \<Longrightarrow> while_r c b s = while_r c b t"
  by (subst while_r_unfold) simp

text \<open>The rule of total correctness.\<close>

lemma while_r_rule:
  assumes "I s"
    and cond: "\<And>t. I t \<Longrightarrow> \<exists>g. c t = Inr g"
    and body: "\<And>t. I t \<Longrightarrow> c t = Inr True \<Longrightarrow> \<exists>t'. b t = Inr t' \<and> I t' \<and> m t' < (m t :: nat)"
  shows "\<exists>t. while_r c b s = Inr t \<and> I t \<and> c t = Inr False"
  using assms(1)
proof (induction "m s" arbitrary: s rule: less_induct)
  case less
  obtain g where g: "c s = Inr g" using cond [OF less.prems] by blast
  show ?case
  proof (cases g)
    case True
    obtain t where "b s = Inr t" "I t" "m t < m s" using body [OF less.prems] g True by auto
    then show ?thesis using less.hyps [of t] g True while_r_step [of c s b t] by auto
  next
    case False
    then show ?thesis using g less.prems while_r_False [of c s b] by auto
  qed
qed

text \<open>The rule of partial correctness, for a loop that is known to end.\<close>

lemma while_r_inv:
  assumes "while_r c b s = Inr t" "I s" and step: "\<And>u v. I u \<Longrightarrow> c u = Inr True \<Longrightarrow> b u = Inr v \<Longrightarrow> I v"
  shows "I t \<and> c t = Inr False"
proof -
  let ?c = "\<lambda>r. case r of Inl e \<Rightarrow> False | Inr t \<Rightarrow> (case c t of Inl e \<Rightarrow> True | Inr g \<Rightarrow> g)"
  let ?b = "\<lambda>r. bind_r r (\<lambda>t. bind_r (c t) (\<lambda>_. b t))"
  let ?P = "\<lambda>r. case r of Inl (e :: fault) \<Rightarrow> True | Inr u \<Rightarrow> I u"
  have w: "while_option ?c ?b (Inr s) = Some (Inr t)" using assms(1) by (auto simp: while_r_def split: option.splits)
  have "?P (Inr t)"
    by (rule while_option_rule [where P = ?P, OF _ w]) (use assms(2) step in \<open>auto simp: bind_r_def split: sum.splits\<close>)
  moreover have "c t = Inr False" using while_option_stop [OF w] by (cases "c t") auto
  ultimately show ?thesis by simp
qed

section \<open>32-bit sizes\<close>

abbreviation u32_mod :: nat where
  "u32_mod \<equiv> 4294967296"

text \<open>\<open>SIZE_MAX\<close>, which is also \<open>BITMAP_ERROR\<close>.\<close>

definition SIZE_MAX :: nat where
  "SIZE_MAX = 4294967295"

definition add32 :: "nat \<Rightarrow> nat \<Rightarrow> nat" where
  "add32 a b = (a + b) mod u32_mod"

definition mul32 :: "nat \<Rightarrow> nat \<Rightarrow> nat" where
  "mul32 a b = (a * b) mod u32_mod"

definition sub32 :: "nat \<Rightarrow> nat \<Rightarrow> nat" where
  "sub32 a b = (a + u32_mod - b) mod u32_mod"

lemma add32_small [simp]: "a + b < u32_mod \<Longrightarrow> add32 a b = a + b"
  by (simp add: add32_def)

lemma mul32_small [simp]: "a * b < u32_mod \<Longrightarrow> mul32 a b = a * b"
  by (simp add: mul32_def)

lemma sub32_small [simp]:
  assumes "b \<le> a" "a < u32_mod"
  shows "sub32 a b = a - b"
proof -
  have "a + u32_mod - b = (a - b) + u32_mod" using assms(1) by linarith
  moreover have "a - b < u32_mod" using assms(2) by linarith
  ultimately show ?thesis unfolding sub32_def by (metis mod_add_self2 mod_less)
qed

lemma add32_less [simp]: "add32 a b < u32_mod"
  by (simp add: add32_def)

section \<open>Rounding (lib/round.h)\<close>

text \<open>The macros at type \<open>size_t\<close>: the sum \<open>x + step\<close> wraps, so the results are those of the
  comments only when it does not.\<close>

definition ROUND_UP :: "nat \<Rightarrow> nat \<Rightarrow> nat" where
  "ROUND_UP x step = (x + step - 1) mod u32_mod div step * step"

definition DIV_ROUND_UP :: "nat \<Rightarrow> nat \<Rightarrow> nat" where
  "DIV_ROUND_UP x step = (x + step - 1) mod u32_mod div step"

definition ROUND_DOWN :: "nat \<Rightarrow> nat \<Rightarrow> nat" where
  "ROUND_DOWN x step = x div step * step"

lemma DIV_ROUND_UP_bounds:
  assumes "0 < s" "x + s \<le> u32_mod"
  shows "x \<le> DIV_ROUND_UP x s * s" and "DIV_ROUND_UP x s * s < x + s"
proof -
  define m where "m = x + s - 1"
  have eq: "m div s * s + m mod s = m" by (rule div_mult_mod_eq)
  have "m mod s < s" using assms by simp
  moreover have m: "m + 1 = x + s" using assms by (simp add: m_def)
  moreover have "DIV_ROUND_UP x s * s = m div s * s"
  proof -
    have "m < u32_mod" using m assms(2) by linarith
    then show ?thesis by (simp only: DIV_ROUND_UP_def m_def [symmetric] mod_less)
  qed
  ultimately show "x \<le> DIV_ROUND_UP x s * s" and "DIV_ROUND_UP x s * s < x + s"
    using eq by linarith+
qed

lemma DIV_ROUND_UP_least:
  assumes "0 < s" "x + s \<le> u32_mod" "x \<le> k * s"
  shows "DIV_ROUND_UP x s \<le> k"
proof -
  have "DIV_ROUND_UP x s * s < Suc k * s"
    using DIV_ROUND_UP_bounds(2) [OF assms(1,2)] assms(3) by simp
  then have "DIV_ROUND_UP x s < Suc k" by (metis mult_less_cancel2)
  then show ?thesis by simp
qed

lemma DIV_ROUND_UP_eq_0_iff: "0 < s \<Longrightarrow> x + s \<le> u32_mod \<Longrightarrow> DIV_ROUND_UP x s = 0 \<longleftrightarrow> x = 0"
  using DIV_ROUND_UP_bounds(1) [of s x] DIV_ROUND_UP_least [of s x 0] by auto

lemma ROUND_UP_eq: "ROUND_UP x s = DIV_ROUND_UP x s * s"
  by (simp only: ROUND_UP_def DIV_ROUND_UP_def)

section \<open>Lists\<close>

lemma nth_list_update': "i < length xs \<Longrightarrow> xs[j := v] ! i = (if i = j then v else xs ! i)"
  by (auto simp: nth_list_update)

text \<open>Storing \<open>v\<close> in the \<open>n\<close> cells from \<open>i\<close> on.\<close>

definition set_range :: "'a list \<Rightarrow> nat \<Rightarrow> nat \<Rightarrow> 'a \<Rightarrow> 'a list" where
  "set_range xs i n v = map (\<lambda>k. if i \<le> k \<and> k < i + n then v else xs ! k) [0..<length xs]"

lemma length_set_range [simp]: "length (set_range xs i n v) = length xs"
  by (simp add: set_range_def)

lemma nth_set_range [simp]:
  "k < length xs \<Longrightarrow> set_range xs i n v ! k = (if i \<le> k \<and> k < i + n then v else xs ! k)"
  by (simp add: set_range_def)

lemma set_range_0 [simp]: "set_range xs i 0 v = xs"
  by (rule nth_equalityI) auto

lemma set_range_Suc:
  "i < length xs \<Longrightarrow> set_range (xs[i := v]) (Suc i) n v = set_range xs i (Suc n) v"
  by (rule nth_equalityI) (auto simp: nth_list_update')

lemma set_range_same:
  assumes "i + n \<le> length xs" and "\<forall>k<n. xs ! (i + k) = v"
  shows "set_range xs i n v = xs"
proof (rule nth_equalityI)
  fix k assume "k < length (set_range xs i n v)"
  moreover have "xs ! k = v" if "i \<le> k" "k < i + n"
    using assms(2) [rule_format, of "k - i"] that by simp
  ultimately show "set_range xs i n v ! k = xs ! k" by simp
qed simp

lemma set_range_set_range [simp]: "set_range (set_range xs i n u) i n v = set_range xs i n v"
  by (rule nth_equalityI) auto

lemma set_range_all: "set_range xs 0 (length xs) v = replicate (length xs) v"
  by (rule nth_equalityI) auto

text \<open>The \<open>n\<close> cells from \<open>i\<close> on all hold \<open>v\<close>.\<close>

definition group_at :: "'a list \<Rightarrow> nat \<Rightarrow> nat \<Rightarrow> 'a \<Rightarrow> bool" where
  "group_at xs i n v \<longleftrightarrow> i + n \<le> length xs \<and> (\<forall>k<n. xs ! (i + k) = v)"

lemma group_at_set_range: "i + n \<le> length xs \<Longrightarrow> group_at (set_range xs i n v) i n v"
  by (auto simp: group_at_def)

lemma set_range_group: "group_at xs i n v \<Longrightarrow> set_range xs i n v = xs"
  by (simp add: group_at_def set_range_same)

end
