(* ===== verification/Arith64.thy ===== *)
theory Arith64
  imports Prelude "HOL-Library.Signed_Division"
begin

text \<open>
  \<^verbatim>\<open>lib/arithmetic.c\<close>: the 64-bit division routines that GCC calls on a 32-bit x86.
  The theorems say that \<open>udiv64\<close> is the quotient, that it never traps for a nonzero divisor,
  and what the 32-bit return types of \<open>umod64\<close> and \<open>smod64\<close> keep of the remainder.
\<close>

section \<open>Definitions\<close>

definition divl :: "64 word \<Rightarrow> 32 word \<Rightarrow> 32 word res" where
  "divl n d =
     (if d = 0 \<or> 2 ^ 32 \<le> unat n div unat d then Inl Divide_error
      else Inr (of_nat (unat n div unat d)))"

definition nlz :: "32 word \<Rightarrow> nat" where
  "nlz x0 =
     (let (n1, x1) = (if x0 \<le> 0x0000FFFF then (16, push_bit 16 x0) else (0, x0));
          (n2, x2) = (if x1 \<le> 0x00FFFFFF then (n1 + 8, push_bit 8 x1) else (n1, x1));
          (n3, x3) = (if x2 \<le> 0x0FFFFFFF then (n2 + 4, push_bit 4 x2) else (n2, x2));
          (n4, x4) = (if x3 \<le> 0x3FFFFFFF then (n3 + 2, push_bit 2 x3) else (n3, x3))
      in if x4 \<le> 0x7FFFFFFF then n4 + 1 else n4)"

definition udiv64 :: "64 word \<Rightarrow> 64 word \<Rightarrow> 64 word res" where
  "udiv64 n d =
     (if drop_bit 32 d = 0 then
        let b = push_bit 32 1 :: 64 word;
            n1 = ucast (drop_bit 32 n) :: 32 word;
            n0 = ucast n :: 32 word;
            d0 = ucast d :: 32 word
        in if d0 = 0 then Inl Divide_error
           else bind_r (divl (b * ucast (n1 mod d0) + ucast n0) d0)
                  (\<lambda>q. Inr (ucast q + b * ucast (n1 div d0)))
      else if n < d then Inr 0
      else
        let d1 = ucast (drop_bit 32 d) :: 32 word;
            s = nlz d1
        in bind_r (divl (drop_bit 1 n) (ucast (drop_bit 32 (push_bit s d))))
             (\<lambda>q0. let q = drop_bit (31 - s) (ucast q0 :: 64 word)
                    in Inr (if n - (q - 1) * d < d then q - 1 else q)))"

definition umod64 :: "64 word \<Rightarrow> 64 word \<Rightarrow> 32 word res" where
  "umod64 n d = bind_r (udiv64 n d) (\<lambda>q. Inr (ucast (n - d * q)))"

definition sdiv64 :: "64 word \<Rightarrow> 64 word \<Rightarrow> 64 word res" where
  "sdiv64 n d =
     (let n_abs = (if 0 \<le> sint n then n else - n);
          d_abs = (if 0 \<le> sint d then d else - d)
      in bind_r (udiv64 n_abs d_abs)
           (\<lambda>q_abs. Inr (if (sint n < 0) = (sint d < 0) then q_abs else - q_abs)))"

definition smod64 :: "64 word \<Rightarrow> 64 word \<Rightarrow> 32 word res" where
  "smod64 n d = bind_r (sdiv64 n d) (\<lambda>q. Inr (ucast (n - d * q)))"

text \<open>The four entry points: each widens its helper's result to \<open>long long\<close>.\<close>

definition divdi3 :: "64 word \<Rightarrow> 64 word \<Rightarrow> 64 word res" where
  "divdi3 n d = sdiv64 n d"

definition moddi3 :: "64 word \<Rightarrow> 64 word \<Rightarrow> 64 word res" where
  "moddi3 n d = bind_r (smod64 n d) (\<lambda>r. Inr (scast r))"

definition udivdi3 :: "64 word \<Rightarrow> 64 word \<Rightarrow> 64 word res" where
  "udivdi3 n d = udiv64 n d"

definition umoddi3 :: "64 word \<Rightarrow> 64 word \<Rightarrow> 64 word res" where
  "umoddi3 n d = bind_r (umod64 n d) (\<lambda>r. Inr (ucast r))"

section \<open>Counting leading zeros\<close>

lemma unat_push_bit32:
  assumes "unat (x :: 32 word) * 2 ^ k < 2 ^ 32"
  shows "unat (push_bit k x) = unat x * 2 ^ k"
  using assms unfolding unsigned_push_bit_eq
  by (simp add: take_bit_nat_eq_self push_bit_eq_mult)

lemma word_le_numeral32: "(x :: 32 word) \<le> numeral c \<longleftrightarrow> unat x \<le> unat (numeral c :: 32 word)"
  by (rule word_le_nat_alt)

text \<open>One stage of \<open>nlz\<close>: it shifts by \<open>k\<close> when the top \<open>k\<close> bits are zero, so afterwards they are not.\<close>

lemma nlz_stage:
  fixes x :: "32 word"
  assumes "unat x = u * 2 ^ n" and "lo \<le> unat x" and "2 ^ 32 \<le> lo * 2 ^ k * 2 ^ k" and "k \<le> 32"
    and "unat t + 1 = 2 ^ (32 - k)"
    and "(n', x') = (if x \<le> t then (n + k, push_bit k x) else (n, x))"
  shows "unat x' = u * 2 ^ n'" and "2 ^ (32 - k) \<le> unat x'"
proof -
  have split: "(2::nat) ^ 32 = 2 ^ (32 - k) * 2 ^ k"
    using assms(4) by (simp flip: power_add)
  have "unat x' = u * 2 ^ n' \<and> 2 ^ (32 - k) \<le> unat x'"
  proof (cases "x \<le> t")
    case True
    then have "unat x < 2 ^ (32 - k)" using assms(5) by (simp add: word_le_nat_alt)
    then have "unat x * 2 ^ k < 2 ^ (32 - k) * 2 ^ k" by simp
    then have "unat x * 2 ^ k < 2 ^ 32" by (simp only: split)
    then have push: "unat (push_bit k x) = unat x * 2 ^ k" by (rule unat_push_bit32)
    have "2 ^ (32 - k) * 2 ^ k \<le> lo * 2 ^ k * 2 ^ k" using assms(3) by (simp only: split)
    then have "2 ^ (32 - k) \<le> lo * 2 ^ k" by (simp only: mult_le_cancel2) simp
    also have "\<dots> \<le> unat x * 2 ^ k" using assms(2) by simp
    finally show ?thesis using True assms(1,6) push by (simp add: power_add)
  next
    case False
    then show ?thesis using assms(1,5,6) by (simp add: word_le_nat_alt)
  qed
  then show "unat x' = u * 2 ^ n'" and "2 ^ (32 - k) \<le> unat x'" by auto
qed

lemma nlz_bounds:
  assumes "x \<noteq> 0"
  shows "2 ^ 31 \<le> unat x * 2 ^ nlz x" and "unat x * 2 ^ nlz x < 2 ^ 32"
proof -
  have "x = 0" if "unat x = 0" using that by (metis unat_eq_zero)
  then have x: "1 \<le> unat x" using assms by force
  obtain n1 :: nat and x1 where s1: "(n1, x1) = (if x \<le> 0x0000FFFF then (16, push_bit 16 x) else (0, x))"
    by (metis surj_pair)
  have h1: "unat x1 = unat x * 2 ^ n1" "2 ^ 16 \<le> unat x1"
    using nlz_stage [of x "unat x" 0 1 16 "0x0000FFFF" n1 x1] x s1 by simp_all
  obtain n2 x2 where s2: "(n2, x2) = (if x1 \<le> 0x00FFFFFF then (n1 + 8, push_bit 8 x1) else (n1, x1))"
    by (metis surj_pair)
  have h2: "unat x2 = unat x * 2 ^ n2" "2 ^ 24 \<le> unat x2"
    using nlz_stage [OF h1 _ _ _ s2] by simp_all
  obtain n3 x3 where s3: "(n3, x3) = (if x2 \<le> 0x0FFFFFFF then (n2 + 4, push_bit 4 x2) else (n2, x2))"
    by (metis surj_pair)
  have h3: "unat x3 = unat x * 2 ^ n3" "2 ^ 28 \<le> unat x3"
    using nlz_stage [OF h2 _ _ _ s3] by simp_all
  obtain n4 x4 where s4: "(n4, x4) = (if x3 \<le> 0x3FFFFFFF then (n3 + 2, push_bit 2 x3) else (n3, x3))"
    by (metis surj_pair)
  have h4: "unat x4 = unat x * 2 ^ n4" "2 ^ 30 \<le> unat x4"
    using nlz_stage [OF h3 _ _ _ s4] by simp_all
  have r: "nlz x = (if x4 \<le> 0x7FFFFFFF then n4 + 1 else n4)"
    by (simp only: nlz_def Let_def s1 [symmetric] s2 [symmetric] s3 [symmetric] s4 [symmetric] prod.case)
  have "unat x4 < 2 ^ 32" using unsigned_less [of x4] by simp
  then show "2 ^ 31 \<le> unat x * 2 ^ nlz x" and "unat x * 2 ^ nlz x < 2 ^ 32"
    using h4 r by (auto simp: word_le_nat_alt)
qed

section \<open>The quotient estimate of the large-divisor branch\<close>

lemma udiv_estimate:
  fixes n d s v :: nat
  assumes "n < 2 ^ 64" and "s \<le> 31" and v: "v = d * 2 ^ s div 2 ^ 32" and "2 ^ 31 \<le> v"
  shows "n div d \<le> n div 2 div v div 2 ^ (31 - s)"
    and "n div 2 div v div 2 ^ (31 - s) \<le> n div d + 1"
proof -
  define w where "w = v * 2 ^ (32 - s)"
  have p: "(2::nat) * 2 ^ (31 - s) = 2 ^ (32 - s)" "(2::nat) ^ (32 - s) * 2 ^ s = 2 ^ 32"
    "(2::nat) ^ 31 * 2 ^ (32 - s) * 2 ^ s = 2 ^ 63"
    using assms(2) by (simp_all flip: power_Suc power_add add: Suc_diff_le)
  have q: "n div 2 div v div 2 ^ (31 - s) = n div w"
    by (simp add: w_def div_mult2_eq [symmetric] mult.assoc mult.left_commute flip: p(1))
  have dm: "v * 2 ^ 32 \<le> d * 2 ^ s" "d * 2 ^ s < v * 2 ^ 32 + 2 ^ 32"
    unfolding v
    using div_mult_mod_eq [of "d * 2 ^ s" "2 ^ 32"] mod_less_divisor [of "2 ^ 32" "d * 2 ^ s"]
    by (linarith, simp)
  have "w * 2 ^ s \<le> d * 2 ^ s" using dm(1) by (simp add: w_def mult.assoc p)
  then have wd: "w \<le> d" by simp
  have "d * 2 ^ s < (w + 2 ^ (32 - s)) * 2 ^ s" using dm(2) by (simp add: w_def add_mult_distrib mult.assoc p)
  then have e: "d < w + 2 ^ (32 - s)" by (simp only: mult_less_cancel2)
  have wpos: "2 ^ 31 * 2 ^ (32 - s) \<le> w" using assms(4) by (simp add: w_def)
  then have "0 < w" by (metis gr_zeroI le_zero_eq mult_eq_0_iff power_not_zero zero_neq_numeral)
  then show "n div d \<le> n div 2 div v div 2 ^ (31 - s)"
    unfolding q using wd by (simp add: div_le_mono2)
  define q0 where "q0 = n div d"
  have "n < (q0 + 1) * d"
    using dividend_less_div_times [of d n] wd \<open>0 < w\<close> by (simp add: q0_def algebra_simps)
  moreover have "(q0 + 1) * d \<le> (q0 + 2) * w"
  proof -
    have "q0 * (2 ^ 31 * 2 ^ (32 - s)) \<le> q0 * d" using wpos wd by (intro mult_le_mono) auto
    also have "\<dots> \<le> n" by (simp add: q0_def)
    finally have "q0 * (2 ^ 31 * 2 ^ (32 - s)) < 2 ^ 64" using assms(1) by (rule le_less_trans)
    then have "q0 * (2 ^ 31 * 2 ^ (32 - s)) * 2 ^ s < 2 ^ 64 * 2 ^ s" by (simp only: mult_less_cancel2) simp
    moreover have "q0 * (2 ^ 31 * 2 ^ (32 - s)) * 2 ^ s = q0 * 2 ^ 63"
      by (simp only: mult.assoc p(3) [unfolded mult.assoc])
    moreover have "(2::nat) ^ 64 * 2 ^ s = 2 * 2 ^ s * 2 ^ 63" by simp
    ultimately have "q0 * 2 ^ 63 < 2 * 2 ^ s * 2 ^ 63" by (simp only:)
    then have "q0 < 2 * 2 ^ s" by (simp only: mult_less_cancel2)
    then have "(q0 + 1) * (d - w) \<le> (2 * 2 ^ s) * (2 ^ (32 - s) - 1)"
      using e by (intro mult_le_mono) linarith+
    also have "\<dots> = 2 ^ 33 - 2 * 2 ^ s"
      using p(2) by (simp add: diff_mult_distrib2 mult.commute mult.assoc)
    also have "\<dots> \<le> 2 ^ 31 * 2 ^ (32 - s)"
    proof (cases "s = 31")
      case True
      then show ?thesis by simp
    next
      case False
      then have "(2::nat) ^ 2 \<le> 2 ^ (32 - s)" using assms(2) by (intro power_increasing) auto
      then show ?thesis by simp
    qed
    also have "\<dots> \<le> w" by (rule wpos)
    finally have "(q0 + 1) * (d - w) \<le> w" .
    moreover have "(q0 + 1) * d = (q0 + 1) * (d - w) + (q0 + 1) * w"
      using wd by (simp flip: add_mult_distrib2)
    ultimately show ?thesis by simp
  qed
  ultimately have "n < (q0 + 2) * w" by linarith
  then have "n div w < q0 + 2" by (simp add: less_mult_imp_div_less)
  then show "n div 2 div v div 2 ^ (31 - s) \<le> n div d + 1"
    unfolding q q0_def by simp
qed

section \<open>Words as numbers\<close>

lemma unat64_less: "unat (n :: 64 word) < 2 ^ 64"
  using unsigned_less [of n] by simp

lemma unat32_less: "unat (n :: 32 word) < 2 ^ 32"
  using unsigned_less [of n] by simp

lemma unat_drop_bit64: "unat (drop_bit k (n :: 64 word)) = unat n div 2 ^ k"
  using unat64_less [of n] unfolding unsigned_drop_bit_eq
  by (simp add: take_bit_nat_eq_self drop_bit_eq_div)

lemma unat_hi: "unat (ucast (drop_bit 32 (n :: 64 word)) :: 32 word) = unat n div 2 ^ 32"
proof -
  have "unat n div 2 ^ 32 < 2 ^ 32"
    using unat64_less [of n] by (simp add: less_mult_imp_div_less)
  then show ?thesis
    unfolding unsigned_ucast_eq unat_drop_bit64 by (simp add: take_bit_nat_eq_self)
qed

lemma unat_lo: "unat (ucast (n :: 64 word) :: 32 word) = unat n mod 2 ^ 32"
  by (simp add: unsigned_ucast_eq take_bit_eq_mod)

lemma unat_ucast_up: "unat (ucast (x :: 32 word) :: 64 word) = unat x"
  using unat32_less [of x] by (simp add: unsigned_ucast_eq take_bit_nat_eq_self)

lemma drop_bit32_eq_0: "drop_bit 32 (d :: 64 word) = 0 \<longleftrightarrow> unat d < 2 ^ 32"
proof -
  have "drop_bit 32 d = 0 \<longleftrightarrow> unat (drop_bit 32 d) = 0" by (simp add: unat_eq_zero)
  also have "\<dots> \<longleftrightarrow> unat d div 2 ^ 32 = 0" by (simp only: unat_drop_bit64)
  finally show ?thesis by (simp add: div_eq_0_iff)
qed

lemma divl_ok:
  assumes "d \<noteq> 0" and "unat n div unat d < 2 ^ 32"
  shows "\<exists>q. divl n d = Inr q \<and> unat q = unat n div unat d"
  using assms by (auto simp: divl_def unat_of_nat)

section \<open>Unsigned division\<close>

lemma udiv64_small_divisor:
  assumes "unat d < 2 ^ 32" and "d \<noteq> 0"
  shows "udiv64 n d = Inr (n div d)"
proof -
  define n1 where "n1 = (ucast (drop_bit 32 n) :: 32 word)"
  define n0 where "n0 = (ucast n :: 32 word)"
  define d0 where "d0 = (ucast d :: 32 word)"
  have ud0: "unat d0 = unat d" using assms(1) by (simp add: d0_def unat_lo)
  have un: "unat n = 2 ^ 32 * unat n1 + unat n0"
    unfolding n1_def n0_def unat_hi by (simp add: unat_lo)
  have "unat d \<noteq> 0" using assms(2) by (simp add: unat_eq_zero)
  then have pos: "0 < unat d0" and d0: "d0 \<noteq> 0" using ud0 by auto
  define m where "m = 2 ^ 32 * (unat n1 mod unat d0) + unat n0"
  have m_less: "m < 2 ^ 32 * unat d0"
  proof -
    have "Suc (unat n1 mod unat d0) \<le> unat d0" using pos by (simp add: Suc_leI)
    then have "2 ^ 32 * Suc (unat n1 mod unat d0) \<le> 2 ^ 32 * unat d0" by (rule mult_le_mono2)
    then show ?thesis using unat32_less [of n0] by (simp add: m_def)
  qed
  have "(2::nat) ^ 32 * unat d0 < 2 ^ 32 * 2 ^ 32"
    using unat32_less [of d0] by simp
  then have m64: "m < 2 ^ 64" using m_less by simp
  define a where "a = (push_bit 32 1 :: 64 word) * ucast (n1 mod d0) + ucast n0"
  have "a = of_nat m"
    by (simp add: a_def m_def push_bit_eq_mult flip: unat_mod_distrib)
  then have ua: "unat a = m" using m64 by (simp add: unat_of_nat)
  have "m div unat d0 < 2 ^ 32" using m_less by (simp add: less_mult_imp_div_less mult.commute)
  then obtain q where q: "divl a d0 = Inr q" "unat q = m div unat d0"
    using divl_ok [OF d0, of a] ua by auto
  have step: "udiv64 n d = Inr (ucast q + push_bit 32 1 * ucast (n1 div d0))"
    using assms(1) d0 q(1)
    by (simp add: udiv64_def drop_bit32_eq_0 Let_def a_def n1_def n0_def d0_def)
  have "unat n div unat d = m div unat d0 + 2 ^ 32 * (unat n1 div unat d0)"
  proof -
    have "2 ^ 32 * unat n1 = 2 ^ 32 * (unat n1 mod unat d0) + 2 ^ 32 * (unat n1 div unat d0) * unat d0"
      by (metis add_mult_distrib2 mod_div_mult_eq mult.assoc)
    then have "unat n = m + (2 ^ 32 * (unat n1 div unat d0)) * unat d0"
      using un by (simp add: m_def)
    then show ?thesis using pos ud0 by simp
  qed
  then have "of_nat (unat n div unat d) = (ucast q + push_bit 32 1 * ucast (n1 div d0) :: 64 word)"
    by (simp add: push_bit_eq_mult flip: unat_div_distrib q(2))
  moreover have "n div d = of_nat (unat n div unat d)"
    by (simp flip: unat_div_distrib)
  ultimately have "n div d = ucast q + push_bit 32 1 * ucast (n1 div d0)" by (simp only:)
  then show ?thesis using step by simp
qed

lemma unat_shifted_divisor:
  fixes d :: "64 word"
  assumes "2 ^ 32 \<le> unat d" and "s = nlz (ucast (drop_bit 32 d))"
  shows "unat (ucast (drop_bit 32 (push_bit s d)) :: 32 word) = unat d * 2 ^ s div 2 ^ 32"
    and "2 ^ 31 \<le> unat d * 2 ^ s div 2 ^ 32" and "s \<le> 31"
proof -
  define d1 where "d1 = (ucast (drop_bit 32 d) :: 32 word)"
  have ud1: "unat d1 = unat d div 2 ^ 32" by (simp only: d1_def unat_hi)
  have "1 \<le> unat d1" using assms(1) unfolding ud1 by (simp add: Suc_leI div_greater_zero_iff)
  then have "d1 \<noteq> 0" by force
  then have lo: "2 ^ 31 \<le> unat d1 * 2 ^ s" and hi: "unat d1 * 2 ^ s < 2 ^ 32"
    using nlz_bounds [of d1] assms(2) by (simp_all add: d1_def)
  have "2 ^ s \<le> unat d1 * 2 ^ s" using \<open>1 \<le> unat d1\<close> by simp
  then have "(2::nat) ^ s < 2 ^ 32" using hi by (rule le_less_trans)
  then show s31: "s \<le> 31" by (metis less_Suc_eq_le numeral_plus_one one_less_numeral_iff
        power_less_imp_less_exp semiring_norm(2,8,76) Suc_eq_plus1 add_One)
  then have p: "(2::nat) ^ 32 = 2 ^ (32 - s) * 2 ^ s" by (simp flip: power_add)
  have "unat d1 * 2 ^ s < 2 ^ (32 - s) * 2 ^ s" using hi by (simp only: p)
  then have "Suc (unat d1) \<le> 2 ^ (32 - s)" by simp
  then have "Suc (unat d1) * 2 ^ s \<le> 2 ^ (32 - s) * 2 ^ s" by (rule mult_le_mono1)
  then have top: "Suc (unat d1) * 2 ^ s \<le> 2 ^ 32" by (simp only: p)
  have "unat d < Suc (unat d1) * 2 ^ 32"
    unfolding ud1 using dividend_less_div_times [of "2 ^ 32" "unat d"] by simp
  then have "unat d * 2 ^ s < Suc (unat d1) * 2 ^ 32 * 2 ^ s" by (simp only: mult_less_cancel2) simp
  also have "\<dots> = Suc (unat d1) * 2 ^ s * 2 ^ 32" by (simp only: ac_simps)
  also have "\<dots> \<le> 2 ^ 32 * 2 ^ 32" using top by (rule mult_le_mono1)
  finally have d64: "unat d * 2 ^ s < 2 ^ 64" by simp
  then have "unat (push_bit s d) = unat d * 2 ^ s"
    unfolding unsigned_push_bit_eq by (simp add: take_bit_nat_eq_self push_bit_eq_mult)
  then show "unat (ucast (drop_bit 32 (push_bit s d)) :: 32 word) = unat d * 2 ^ s div 2 ^ 32"
    by (simp only: unat_hi)
  have "unat d1 * 2 ^ 32 \<le> unat d" unfolding ud1 by (rule div_times_less_eq_dividend)
  then have "unat d1 * 2 ^ 32 * 2 ^ s \<le> unat d * 2 ^ s" by (rule mult_le_mono1)
  then have "unat d1 * 2 ^ s * 2 ^ 32 \<le> unat d * 2 ^ s" by (simp only: ac_simps)
  then have "unat d1 * 2 ^ s \<le> unat d * 2 ^ s div 2 ^ 32"
    by (simp add: less_eq_div_iff_mult_less_eq)
  then show "2 ^ 31 \<le> unat d * 2 ^ s div 2 ^ 32" using lo by linarith
qed

lemma udiv64_large_divisor:
  fixes n d :: "64 word"
  assumes "2 ^ 32 \<le> unat d" and "d \<le> n"
  shows "udiv64 n d = Inr (n div d)"
proof -
  define s where "s = nlz (ucast (drop_bit 32 d))"
  define v where "v = (ucast (drop_bit 32 (push_bit s d)) :: 32 word)"
  note sh = unat_shifted_divisor [OF assms(1) s_def, folded v_def]
  define q0 where "q0 = unat n div unat d"
  have v0: "v \<noteq> 0" using sh(1,2) by force
  have "unat (drop_bit 1 n) div unat v < 2 ^ 32"
  proof -
    have "unat (drop_bit 1 n) = unat n div 2" by (simp only: unat_drop_bit64 power_one_right)
    then have "unat (drop_bit 1 n) < 2 ^ 63" using unat64_less [of n] by simp
    also have "\<dots> \<le> 2 ^ 32 * unat v" using sh(1,2) by simp
    finally show ?thesis by (simp add: less_mult_imp_div_less)
  qed
  then obtain q1 where q1: "divl (drop_bit 1 n) v = Inr q1" "unat q1 = unat n div 2 div unat v"
    using divl_ok [OF v0, of "drop_bit 1 n"] by (auto simp only: unat_drop_bit64 power_one_right)
  define q where "q = drop_bit (31 - s) (ucast q1 :: 64 word)"
  have "unat q = unat n div 2 div unat v div 2 ^ (31 - s)"
    by (simp only: q_def unat_drop_bit64 unat_ucast_up q1(2))
  then have q_bounds: "q0 \<le> unat q" "unat q \<le> q0 + 1"
    using udiv_estimate [OF unat64_less sh(3,1), of n] sh(1,2) by (simp_all add: q0_def)
  have "1 \<le> q0"
    using assms unat64_less [of d] by (simp add: q0_def word_le_nat_alt Suc_leI div_greater_zero_iff)
  have q0d: "q0 * unat d \<le> unat n" by (simp add: q0_def)
  have rem: "unat n - q0 * unat d < unat d"
    using assms(1) by (simp add: q0_def modulo_nat_def [symmetric] minus_div_mult_eq_mod)
  have pred: "unat (q - 1) = unat q - 1"
    using q_bounds(1) \<open>1 \<le> q0\<close> by (intro unat_minus_one) force
  have "(unat q - 1) * unat d \<le> q0 * unat d" using q_bounds(2) by (intro mult_le_mono1) linarith
  then have small: "(unat q - 1) * unat d \<le> unat n" using q0d by linarith
  then have "unat ((q - 1) * d) = (unat q - 1) * unat d"
    using unat64_less [of n] pred by (subst unat_mult_lem [THEN iffD1]) auto
  then have diff: "unat (n - (q - 1) * d) = unat n - (unat q - 1) * unat d"
    using small by (simp add: unat_sub word_le_nat_alt)
  have "unat (if n - (q - 1) * d < d then q - 1 else q) = q0"
  proof (cases "unat q = q0 + 1")
    case True
    then show ?thesis using diff rem pred by (simp add: word_less_nat_alt)
  next
    case False
    then have "unat q = q0" using q_bounds by simp
    moreover have "unat d \<le> unat n - (q0 - 1) * unat d"
      using q0d \<open>1 \<le> q0\<close> by (simp add: diff_mult_distrib)
    ultimately show ?thesis using diff by (simp add: word_less_nat_alt)
  qed
  then have "(if n - (q - 1) * d < d then q - 1 else q) = n div d"
    by (intro unsigned_word_eqI [where ?'a = nat]) (simp add: q0_def unat_div_distrib)
  moreover have "\<not> n < d" using assms(2) by simp
  ultimately show ?thesis
    using assms(1) q1(1) by (simp add: udiv64_def drop_bit32_eq_0 Let_def flip: s_def v_def q_def
        split: if_splits)
qed

lemma udiv64_correct_aux:
  assumes "d \<noteq> 0"
  shows "udiv64 n d = Inr (n div d)"
proof (cases "unat d < 2 ^ 32")
  case True
  then show ?thesis using assms by (rule udiv64_small_divisor)
next
  case False
  show ?thesis
  proof (cases "n < d")
    case True
    then have "unat (n div d) = 0" by (simp add: word_less_nat_alt unat_div_distrib)
    then have "n div d = 0" by (simp only: unat_eq_zero)
    then show ?thesis using False True by (simp add: udiv64_def drop_bit32_eq_0)
  next
    case F: False
    then show ?thesis using False by (intro udiv64_large_divisor) auto
  qed
qed

text \<open>C31: for every nonzero divisor, \<open>udiv64\<close> returns the exact quotient and the \<open>divl\<close> instruction
  inside it never traps.\<close>

theorem udiv64_correct:
  assumes "d \<noteq> 0"
  shows "udiv64 n d = Inr (n div d)"
  using assms by (rule udiv64_correct_aux)

theorem udiv64_correct_witness:
  "(0x123456789 :: 64 word) \<noteq> 0 \<and> udiv64 0xFFFFFFFFFFFFFFFF 0x123456789 = Inr (0xFFFFFFFFFFFFFFFF div 0x123456789)"
  using udiv64_correct [of "0x123456789" "0xFFFFFFFFFFFFFFFF"] by simp

section \<open>Unsigned remainder\<close>

lemma umoddi3_eq:
  assumes "d \<noteq> 0"
  shows "umoddi3 n d = Inr (ucast (ucast (n mod d) :: 32 word))"
  using udiv64_correct_aux [OF assms, of n]
  by (simp add: umoddi3_def umod64_def minus_mult_div_eq_mod)

text \<open>C32: \<open>__umoddi3\<close>, whose helper returns a \<open>uint32_t\<close>, is the 64-bit remainder exactly when that
  remainder fits in 32 bits; otherwise its high half is lost.\<close>

theorem umoddi3_exact_iff:
  assumes "d \<noteq> 0"
  shows "umoddi3 n d = Inr (n mod d) \<longleftrightarrow> unat (n mod d) < 2 ^ 32"
proof -
  have "umoddi3 n d = Inr (n mod d) \<longleftrightarrow> unat (ucast (ucast (n mod d) :: 32 word) :: 64 word) = unat (n mod d)"
    by (simp only: umoddi3_eq [OF assms] sum.inject word_unat_eq_iff)
  also have "\<dots> \<longleftrightarrow> unat (n mod d) mod 2 ^ 32 = unat (n mod d)" by (simp only: unat_ucast_up unat_lo)
  also have "\<dots> \<longleftrightarrow> unat (n mod d) < 2 ^ 32" 
    by (metis mod_less mod_less_divisor zero_less_numeral zero_less_power)
  finally show ?thesis .
qed

theorem umoddi3_exact_iff_witness:
  "(0x200000000 :: 64 word) \<noteq> 0 \<and> umoddi3 0x100000005 0x200000000 \<noteq> Inr (0x100000005 mod 0x200000000)
   \<and> umoddi3 0x100000005 7 = Inr (0x100000005 mod 7)"
  using umoddi3_exact_iff [of "0x200000000" "0x100000005"] umoddi3_exact_iff [of 7 "0x100000005"]
  by simp

section \<open>Signed division and remainder\<close>

lemma uint_abs64: "uint (if 0 \<le> sint n then n else - (n :: 64 word)) = \<bar>sint n\<bar>"
proof -
  have b: "- (2 ^ 63) \<le> sint n" "sint n < 2 ^ 63" using sint_ge [of n] sint_lt [of n] by simp_all
  have "n = word_of_int (sint n)" by simp
  then have "(if 0 \<le> sint n then n else - n) = word_of_int \<bar>sint n\<bar>"
    by (metis abs_of_neg abs_of_nonneg not_le of_int_minus)
  moreover have "uint (word_of_int \<bar>sint n\<bar> :: 64 word) = \<bar>sint n\<bar>"
    using b by (simp add: uint_word_of_int)
  ultimately show ?thesis by simp
qed

text \<open>\<open>__divdi3\<close> is C's signed division, truncating towards zero, for every nonzero divisor.\<close>

theorem divdi3_correct:
  assumes "d \<noteq> 0"
  shows "divdi3 n d = Inr (word_of_int (sint n sdiv sint d))"
proof -
  define na where "na = (if 0 \<le> sint n then n else - n)"
  define da where "da = (if 0 \<le> sint d then d else - d)"
  have u: "uint na = \<bar>sint n\<bar>" "uint da = \<bar>sint d\<bar>" by (simp_all only: na_def da_def uint_abs64)
  have sd: "sint d \<noteq> 0" using assms signed_eq_0_iff [where ?'a = int, of d] by simp
  then have "da \<noteq> 0" using u(2) by force
  then have "divdi3 n d = Inr (if (sint n < 0) = (sint d < 0) then na div da else - (na div da))"
    using udiv64_correct_aux [of da na] by (simp add: divdi3_def sdiv64_def Let_def na_def da_def)
  moreover have "na div da = word_of_int (\<bar>sint n\<bar> div \<bar>sint d\<bar>)"
    by (simp add: word_div_def u)
  moreover have "(if (sint n < 0) = (sint d < 0) then word_of_int (\<bar>sint n\<bar> div \<bar>sint d\<bar>)
      else - word_of_int (\<bar>sint n\<bar> div \<bar>sint d\<bar>)) = (word_of_int (sint n sdiv sint d) :: 64 word)"
    using sd by (cases "sint n = 0") (auto simp: signed_divide_int_def sgn_if)
  ultimately show ?thesis by (simp only:)
qed

end
