(* ===== verification/Vaddr.thy ===== *)
theory Vaddr
  imports Prelude
begin

unbundle bit_operations_syntax

text \<open>
  \<^verbatim>\<open>threads/vaddr.h\<close> and \<^verbatim>\<open>threads/pte.h\<close>: virtual addresses, the 1:1 mapping of physical memory at
  \<open>PHYS_BASE\<close>, and the x86 page directory and page table entries. Addresses and entries are
  \<open>32 word\<close>. The lemmas give the arithmetic meaning of the bit operations; the properties say how
  an address decomposes and that an entry can be taken apart again.
\<close>

section \<open>Virtual addresses (threads/vaddr.h)\<close>

definition PGBITS :: nat where "PGBITS = 12"

definition PGSIZE :: nat where "PGSIZE = 4096"

definition PGMASK :: "32 word" where "PGMASK = 0xfff"

definition PHYS_BASE :: "32 word" where "PHYS_BASE = 0xc0000000"

definition pg_ofs :: "32 word \<Rightarrow> 32 word" where
  "pg_ofs va = va AND PGMASK"

definition pg_no :: "32 word \<Rightarrow> 32 word" where
  "pg_no va = drop_bit PGBITS va"

definition pg_round_up :: "32 word \<Rightarrow> 32 word" where
  "pg_round_up va = (va + of_nat PGSIZE - 1) AND NOT PGMASK"

definition pg_round_down :: "32 word \<Rightarrow> 32 word" where
  "pg_round_down va = va AND NOT PGMASK"

definition is_user_vaddr :: "32 word \<Rightarrow> bool" where
  "is_user_vaddr va \<longleftrightarrow> va < PHYS_BASE"

definition is_kernel_vaddr :: "32 word \<Rightarrow> bool" where
  "is_kernel_vaddr va \<longleftrightarrow> va \<ge> PHYS_BASE"

definition ptov :: "32 word \<Rightarrow> 32 word res" where
  "ptov paddr = ASSERT (paddr < PHYS_BASE) (Inr (paddr + PHYS_BASE))"

definition vtop :: "32 word \<Rightarrow> 32 word res" where
  "vtop va = ASSERT (is_kernel_vaddr va) (Inr (va - PHYS_BASE))"

section \<open>Page tables (threads/pte.h)\<close>

definition PTMASK :: "32 word" where "PTMASK = 0x003ff000"

definition pt_no :: "32 word \<Rightarrow> 32 word" where
  "pt_no va = drop_bit 12 (va AND PTMASK)"

definition pd_no :: "32 word \<Rightarrow> 32 word" where
  "pd_no va = drop_bit 22 va"

definition PTE_ADDR :: "32 word" where "PTE_ADDR = 0xfffff000"
definition PTE_P :: "32 word" where "PTE_P = 0x1"
definition PTE_W :: "32 word" where "PTE_W = 0x2"
definition PTE_U :: "32 word" where "PTE_U = 0x4"
definition PTE_A :: "32 word" where "PTE_A = 0x20"
definition PTE_D :: "32 word" where "PTE_D = 0x40"

definition pde_create :: "32 word \<Rightarrow> 32 word res" where
  "pde_create pt = ASSERT (pg_ofs pt = 0) (bind_r (vtop pt) (\<lambda>p. Inr (p OR PTE_U OR PTE_P OR PTE_W)))"

definition pde_get_pt :: "32 word \<Rightarrow> 32 word res" where
  "pde_get_pt pde = ASSERT (pde AND PTE_P \<noteq> 0) (ptov (pde AND PTE_ADDR))"

definition pte_create_kernel :: "32 word \<Rightarrow> bool \<Rightarrow> 32 word res" where
  "pte_create_kernel page writable =
     ASSERT (pg_ofs page = 0)
       (bind_r (vtop page) (\<lambda>p. Inr (p OR PTE_P OR (if writable then PTE_W else 0))))"

definition pte_create_user :: "32 word \<Rightarrow> bool \<Rightarrow> 32 word res" where
  "pte_create_user page writable = bind_r (pte_create_kernel page writable) (\<lambda>e. Inr (e OR PTE_U))"

definition pte_get_page :: "32 word \<Rightarrow> 32 word res" where
  "pte_get_page pte = ptov (pte AND PTE_ADDR)"

lemmas vaddr_consts = PGBITS_def PGSIZE_def PGMASK_def PHYS_BASE_def PTMASK_def
lemmas pte_consts = PTE_ADDR_def PTE_P_def PTE_W_def PTE_U_def PTE_A_def PTE_D_def

section \<open>Arithmetic meaning of the bit operations\<close>

lemma PGMASK_mask: "PGMASK = mask 12"
  by (simp add: PGMASK_def mask_eq_exp_minus_1)

lemma PTE_ADDR_eq: "PTE_ADDR = NOT PGMASK"
  by (simp add: PTE_ADDR_def PGMASK_def)

lemma pg_ofs_take_bit: "pg_ofs va = take_bit 12 va"
  by (simp add: pg_ofs_def PGMASK_mask take_bit_eq_mask)

lemma unat_take_bit32: "unat (take_bit k (x :: 32 word)) = unat x mod 2 ^ k"
  unfolding unsigned_take_bit_eq by (simp add: take_bit_eq_mod)

lemma unat_drop_bit32: "unat (drop_bit k (x :: 32 word)) = unat x div 2 ^ k"
proof -
  have "unat x < 2 ^ 32" using unsigned_less [of x] by simp
  then show ?thesis
    unfolding unsigned_drop_bit_eq by (simp add: take_bit_nat_eq_self drop_bit_eq_div)
qed

lemma unat_pg_ofs: "unat (pg_ofs va) = unat va mod 4096"
  by (simp add: pg_ofs_take_bit unat_take_bit32)

lemma unat_pg_no: "unat (pg_no va) = unat va div 4096"
  by (simp only: pg_no_def PGBITS_def unat_drop_bit32) simp

lemma unat_pd_no: "unat (pd_no va) = unat va div 4194304"
  by (simp only: pd_no_def unat_drop_bit32) simp

lemma pt_no_take_bit: "pt_no va = take_bit 10 (drop_bit 12 va)"
proof -
  have "drop_bit 12 PTMASK = mask 10" by (simp add: PTMASK_def mask_eq_exp_minus_1)
  then have "drop_bit 12 (va AND PTMASK) = drop_bit 12 va AND mask 10"
    by (simp add: drop_bit_and)
  then show ?thesis by (simp add: pt_no_def take_bit_eq_mask)
qed

lemma unat_pt_no: "unat (pt_no va) = unat va div 4096 mod 1024"
  by (simp only: pt_no_take_bit unat_take_bit32 unat_drop_bit32) simp

lemma pg_round_down_plus_ofs: "va = pg_round_down va + pg_ofs va"
proof -
  have "(va AND NOT PGMASK) + (va AND PGMASK) = (va AND NOT PGMASK) OR (va AND PGMASK)"
    by (rule disjunctive_add_eq_or) (simp add: bit_eq_iff bit_simps)
  also have "\<dots> = va" by (rule bit_word_eqI) (auto simp: bit_simps)
  finally show ?thesis by (simp add: pg_round_down_def pg_ofs_def)
qed

lemma unat_pg_round_down: "unat (pg_round_down va) = unat va div 4096 * 4096"
proof -
  have "pg_ofs va \<le> va" by (simp add: word_le_nat_alt unat_pg_ofs)
  moreover have "pg_round_down va = va - pg_ofs va" by (metis add_diff_cancel_right' pg_round_down_plus_ofs)
  ultimately have "unat (pg_round_down va) = unat va - unat va mod 4096"
    by (simp add: unat_sub unat_pg_ofs)
  then show ?thesis by (simp add: minus_mod_eq_div_mult)
qed

text \<open>the page directory index, page table index and page offset of an address are in range and
  determine it.\<close>

theorem va_decompose:
  "unat va = unat (pd_no va) * 2 ^ 22 + unat (pt_no va) * 2 ^ 12 + unat (pg_ofs va)
   \<and> unat (pd_no va) < 1024 \<and> unat (pt_no va) < 1024 \<and> unat (pg_ofs va) < 4096"
proof -
  define u where "u = unat va"
  define p where "p = u div 4096"
  have u: "u < 4294967296" using unsigned_less [of va] by (simp add: u_def)
  have pd: "u div 4194304 = p div 1024"
    unfolding p_def div_mult2_eq [symmetric] by simp
  have "u = p * 4096 + u mod 4096" and "p = p div 1024 * 1024 + p mod 1024"
    by (simp_all add: p_def)
  moreover have "p div 1024 < 1024" using u unfolding p_def div_mult2_eq [symmetric]
    by (simp add: less_mult_imp_div_less)
  ultimately have "u = p div 1024 * 4194304 + p mod 1024 * 4096 + u mod 4096" "p div 1024 < 1024"
    by linarith+
  then show ?thesis
    unfolding unat_pd_no unat_pt_no unat_pg_ofs u_def [symmetric] pd p_def [symmetric] by simp
qed

section \<open>Physical and kernel virtual addresses\<close>

lemma vtop_kernel: "is_kernel_vaddr va \<Longrightarrow> vtop va = Inr (va - PHYS_BASE)"
  by (simp add: vtop_def)

lemma unat_kernel_offset: "is_kernel_vaddr va \<Longrightarrow> unat va = unat (va - PHYS_BASE) + 3221225472"
  by (simp add: is_kernel_vaddr_def unat_sub PHYS_BASE_def word_le_nat_alt)

lemma kernel_offset_less: "is_kernel_vaddr va \<Longrightarrow> unat (va - PHYS_BASE) < 2 ^ 30"
  using unsigned_less [of va, where ?'a = nat] unat_kernel_offset [of va] by simp

lemma ptov_vtop: "is_kernel_vaddr va \<Longrightarrow> ptov (va - PHYS_BASE) = Inr va"
  using kernel_offset_less [of va] by (simp add: ptov_def PHYS_BASE_def word_less_nat_alt)

lemma pg_ofs_minus_base: "is_kernel_vaddr va \<Longrightarrow> pg_ofs (va - PHYS_BASE) = pg_ofs va"
  using mod_mult_self1 [of "unat (va - PHYS_BASE)" 786432 4096]
  by (simp add: word_unat_eq_iff unat_pg_ofs unat_kernel_offset)

section \<open>Entries\<close>

text \<open>An entry is a page-aligned address and flags below the page size.\<close>

lemma aligned_bit: "pg_ofs p = 0 \<Longrightarrow> i < 12 \<Longrightarrow> \<not> bit p i"
  by (metis bit_0_eq bit_take_bit_iff bot_apply bot_bool_def pg_ofs_take_bit)

lemma flags_bit: "take_bit 12 f = f \<Longrightarrow> 12 \<le> i \<Longrightarrow> \<not> bit f i"
  by (metis bit_take_bit_iff not_le)

lemma entry_addr:
  assumes "pg_ofs p = 0" and "take_bit 12 f = f"
  shows "(p OR f) AND PTE_ADDR = p"
proof (rule bit_word_eqI)
  fix i assume "i < LENGTH(32)"
  then show "bit ((p OR f) AND PTE_ADDR) i = bit p i"
    using aligned_bit [OF assms(1), of i] flags_bit [OF assms(2), of i]
    by (cases "i < 12") (auto simp: PTE_ADDR_eq PGMASK_mask bit_simps)
qed

lemma entry_flag:
  assumes "pg_ofs p = 0" and "take_bit 12 m = m"
  shows "(p OR f) AND m = f AND m"
proof (rule bit_word_eqI)
  fix i
  show "bit ((p OR f) AND m) i = bit (f AND m) i"
    using aligned_bit [OF assms(1), of i] flags_bit [OF assms(2), of i]
    by (cases "i < 12") (auto simp: bit_simps)
qed

lemma pte_create_user_eq:
  assumes "is_kernel_vaddr page" and "pg_ofs page = 0"
  shows "pte_create_user page w
           = Inr ((page - PHYS_BASE) OR (PTE_P OR (if w then PTE_W else 0) OR PTE_U))"
  using assms by (simp add: pte_create_user_def pte_create_kernel_def vtop_kernel or.assoc)

lemma pde_create_eq:
  assumes "is_kernel_vaddr pt" and "pg_ofs pt = 0"
  shows "pde_create pt = Inr ((pt - PHYS_BASE) OR (PTE_U OR PTE_P OR PTE_W))"
  using assms by (simp add: pde_create_def vtop_kernel or.assoc)

lemma pte_create_user_roundtrip_aux:
  assumes "is_kernel_vaddr page" and "pg_ofs page = 0"
  shows "\<exists>pte. pte_create_user page w = Inr pte \<and> pte_get_page pte = Inr page
           \<and> pte AND PTE_P \<noteq> 0 \<and> pte AND PTE_U \<noteq> 0 \<and> (pte AND PTE_W \<noteq> 0 \<longleftrightarrow> w)
           \<and> pte AND PTE_D = 0 \<and> pte AND PTE_A = 0"
proof -
  define f where "f = PTE_P OR (if w then PTE_W else 0) OR PTE_U"
  have p: "pg_ofs (page - PHYS_BASE) = 0" using assms by (simp add: pg_ofs_minus_base)
  have f: "take_bit 12 f = f" by (simp add: f_def pte_consts)
  have "pte_get_page ((page - PHYS_BASE) OR f) = Inr page"
    using ptov_vtop [OF assms(1)] by (simp add: pte_get_page_def entry_addr [OF p f])
  then show ?thesis
    unfolding pte_create_user_eq [OF assms] f_def [symmetric]
    by (simp add: entry_flag [OF p] pte_consts f_def)
qed

text \<open>a user page table entry built for a kernel page gives that page back, is present and
  user-accessible, and is writable exactly when asked.\<close>

theorem pte_create_user_roundtrip:
  assumes "is_kernel_vaddr page" and "pg_ofs page = 0"
  shows "\<exists>pte. pte_create_user page w = Inr pte \<and> pte_get_page pte = Inr page
           \<and> pte AND PTE_P \<noteq> 0 \<and> pte AND PTE_U \<noteq> 0 \<and> (pte AND PTE_W \<noteq> 0 \<longleftrightarrow> w)
           \<and> pte AND PTE_D = 0 \<and> pte AND PTE_A = 0"
  by (rule pte_create_user_roundtrip_aux [OF assms])

lemma pde_create_roundtrip:
  assumes "is_kernel_vaddr pt" and "pg_ofs pt = 0"
  shows "\<exists>pde. pde_create pt = Inr pde \<and> pde_get_pt pde = Inr pt \<and> pde AND PTE_P \<noteq> 0 \<and> pde \<noteq> 0"
proof -
  define f where "f = PTE_U OR PTE_P OR PTE_W"
  have p: "pg_ofs (pt - PHYS_BASE) = 0" using assms by (simp add: pg_ofs_minus_base)
  have f: "take_bit 12 f = f" by (simp add: f_def pte_consts)
  have present: "((pt - PHYS_BASE) OR f) AND PTE_P \<noteq> 0"
    by (simp add: entry_flag [OF p] f_def pte_consts)
  then have "pde_get_pt ((pt - PHYS_BASE) OR f) = Inr pt"
    using ptov_vtop [OF assms(1)] by (simp add: pde_get_pt_def entry_addr [OF p f])
  moreover have "(pt - PHYS_BASE) OR f \<noteq> 0" using present by force
  ultimately show ?thesis
    using present pde_create_eq [OF assms] by (simp add: f_def)
qed

end
