(* ===== verification/Bitmap.thy ===== *)
theory Bitmap
  imports Prelude
begin

unbundle bit_operations_syntax

text \<open>
  \<^verbatim>\<open>lib/kernel/bitmap.c\<close>: arrays of bits packed into 32-bit elements. A \<open>struct bitmap *\<close>
  argument is the record it points to, so \<open>ASSERT (b != NULL)\<close> holds by construction; an
  operation that mutates the bitmap returns the new record. The memory that \<open>malloc\<close> returns is a
  parameter of the creation functions.

  \<open>bitmap_ok\<close> is the representation invariant and \<open>bitmap_abs\<close> the list of bits a bitmap
  stands for; each operation is shown to act on that list. The locale \<open>region_allocator\<close> is the
  contract that the page allocator and the free map rely on.
\<close>

section \<open>The data structure\<close>

definition ELEM_BITS :: nat where "ELEM_BITS = 32"

record bitmap =
  bit_cnt :: nat
  bits :: "32 word list"

definition elem_idx :: "nat \<Rightarrow> nat" where
  "elem_idx bit_idx = bit_idx div ELEM_BITS"

definition bit_mask :: "nat \<Rightarrow> 32 word" where
  "bit_mask bit_idx = push_bit (bit_idx mod ELEM_BITS) 1"

definition elem_cnt :: "nat \<Rightarrow> nat" where
  "elem_cnt n = DIV_ROUND_UP n ELEM_BITS"

definition byte_cnt :: "nat \<Rightarrow> nat" where
  "byte_cnt n = mul32 4 (elem_cnt n)"

definition last_mask :: "bitmap \<Rightarrow> 32 word" where
  "last_mask b = (let last_bits = bit_cnt b mod ELEM_BITS in
     if last_bits \<noteq> 0 then push_bit last_bits 1 - 1 else - 1)"

section \<open>Single bits\<close>

definition bitmap_size :: "bitmap \<Rightarrow> nat" where
  "bitmap_size b = bit_cnt b"

definition bitmap_mark :: "bitmap \<Rightarrow> nat \<Rightarrow> bitmap res" where
  "bitmap_mark b bit_idx =
     (let idx = elem_idx bit_idx; mask = bit_mask bit_idx in
      bind_r (arr_get (bits b) idx) (\<lambda>w.
      bind_r (arr_set (bits b) idx (w OR mask)) (\<lambda>bs. Inr (b\<lparr>bits := bs\<rparr>))))"

definition bitmap_reset :: "bitmap \<Rightarrow> nat \<Rightarrow> bitmap res" where
  "bitmap_reset b bit_idx =
     (let idx = elem_idx bit_idx; mask = bit_mask bit_idx in
      bind_r (arr_get (bits b) idx) (\<lambda>w.
      bind_r (arr_set (bits b) idx (w AND NOT mask)) (\<lambda>bs. Inr (b\<lparr>bits := bs\<rparr>))))"

definition bitmap_flip :: "bitmap \<Rightarrow> nat \<Rightarrow> bitmap res" where
  "bitmap_flip b bit_idx =
     (let idx = elem_idx bit_idx; mask = bit_mask bit_idx in
      bind_r (arr_get (bits b) idx) (\<lambda>w.
      bind_r (arr_set (bits b) idx (w XOR mask)) (\<lambda>bs. Inr (b\<lparr>bits := bs\<rparr>))))"

definition bitmap_set :: "bitmap \<Rightarrow> nat \<Rightarrow> bool \<Rightarrow> bitmap res" where
  "bitmap_set b idx value =
     ASSERT (idx < bit_cnt b) (if value then bitmap_mark b idx else bitmap_reset b idx)"

definition bitmap_test :: "bitmap \<Rightarrow> nat \<Rightarrow> bool res" where
  "bitmap_test b idx =
     ASSERT (idx < bit_cnt b)
       (bind_r (arr_get (bits b) (elem_idx idx)) (\<lambda>w. Inr (w AND bit_mask idx \<noteq> 0)))"

section \<open>Ranges of bits\<close>

function set_multiple_loop :: "bitmap \<Rightarrow> nat \<Rightarrow> nat \<Rightarrow> bool \<Rightarrow> nat \<Rightarrow> bitmap res" where
  "set_multiple_loop b start cnt value i =
     (if i < cnt
      then bind_r (bitmap_set b (add32 start i) value) (\<lambda>b'. set_multiple_loop b' start cnt value (Suc i))
      else Inr b)"
  by pat_completeness auto
termination by (relation "measure (\<lambda>(b, start, cnt, value, i). cnt - i)") auto

definition bitmap_set_multiple :: "bitmap \<Rightarrow> nat \<Rightarrow> nat \<Rightarrow> bool \<Rightarrow> bitmap res" where
  "bitmap_set_multiple b start cnt value =
     ASSERT (start \<le> bit_cnt b) (ASSERT (add32 start cnt \<le> bit_cnt b)
       (set_multiple_loop b start cnt value 0))"

definition bitmap_set_all :: "bitmap \<Rightarrow> bool \<Rightarrow> bitmap res" where
  "bitmap_set_all b value = bitmap_set_multiple b 0 (bitmap_size b) value"

function count_loop :: "bitmap \<Rightarrow> nat \<Rightarrow> nat \<Rightarrow> bool \<Rightarrow> nat \<Rightarrow> nat \<Rightarrow> nat res" where
  "count_loop b start cnt value i value_cnt =
     (if i < cnt
      then bind_r (bitmap_test b (add32 start i)) (\<lambda>t.
             count_loop b start cnt value (Suc i) (if t = value then Suc value_cnt else value_cnt))
      else Inr value_cnt)"
  by pat_completeness auto
termination by (relation "measure (\<lambda>(b, start, cnt, value, i, value_cnt). cnt - i)") auto

definition bitmap_count :: "bitmap \<Rightarrow> nat \<Rightarrow> nat \<Rightarrow> bool \<Rightarrow> nat res" where
  "bitmap_count b start cnt value =
     ASSERT (start \<le> bit_cnt b) (ASSERT (add32 start cnt \<le> bit_cnt b)
       (count_loop b start cnt value 0 0))"

function contains_loop :: "bitmap \<Rightarrow> nat \<Rightarrow> nat \<Rightarrow> bool \<Rightarrow> nat \<Rightarrow> bool res" where
  "contains_loop b start cnt value i =
     (if i < cnt
      then bind_r (bitmap_test b (add32 start i)) (\<lambda>t.
             if t = value then Inr True else contains_loop b start cnt value (Suc i))
      else Inr False)"
  by pat_completeness auto
termination by (relation "measure (\<lambda>(b, start, cnt, value, i). cnt - i)") auto

definition bitmap_contains :: "bitmap \<Rightarrow> nat \<Rightarrow> nat \<Rightarrow> bool \<Rightarrow> bool res" where
  "bitmap_contains b start cnt value =
     ASSERT (start \<le> bit_cnt b) (ASSERT (add32 start cnt \<le> bit_cnt b)
       (contains_loop b start cnt value 0))"

definition bitmap_any :: "bitmap \<Rightarrow> nat \<Rightarrow> nat \<Rightarrow> bool res" where
  "bitmap_any b start cnt = bitmap_contains b start cnt True"

definition bitmap_none :: "bitmap \<Rightarrow> nat \<Rightarrow> nat \<Rightarrow> bool res" where
  "bitmap_none b start cnt = bind_r (bitmap_contains b start cnt True) (\<lambda>r. Inr (\<not> r))"

definition bitmap_all :: "bitmap \<Rightarrow> nat \<Rightarrow> nat \<Rightarrow> bool res" where
  "bitmap_all b start cnt = bind_r (bitmap_contains b start cnt False) (\<lambda>r. Inr (\<not> r))"

section \<open>Scanning\<close>

definition BITMAP_ERROR :: nat where "BITMAP_ERROR = SIZE_MAX"

function scan_loop :: "bitmap \<Rightarrow> nat \<Rightarrow> bool \<Rightarrow> nat \<Rightarrow> nat \<Rightarrow> nat res" where
  "scan_loop b cnt value lst i =
     (if i \<le> lst
      then bind_r (bitmap_contains b i cnt (\<not> value)) (\<lambda>c.
             if \<not> c then Inr i else scan_loop b cnt value lst (Suc i))
      else Inr BITMAP_ERROR)"
  by pat_completeness auto
termination by (relation "measure (\<lambda>(b, cnt, value, lst, i). Suc lst - i)") auto

definition bitmap_scan :: "bitmap \<Rightarrow> nat \<Rightarrow> nat \<Rightarrow> bool \<Rightarrow> nat res" where
  "bitmap_scan b start cnt value =
     ASSERT (start \<le> bit_cnt b)
       (if cnt \<le> bit_cnt b then scan_loop b cnt value (bit_cnt b - cnt) start
        else Inr BITMAP_ERROR)"

definition bitmap_scan_and_flip :: "bitmap \<Rightarrow> nat \<Rightarrow> nat \<Rightarrow> bool \<Rightarrow> (bitmap \<times> nat) res" where
  "bitmap_scan_and_flip b start cnt value =
     bind_r (bitmap_scan b start cnt value) (\<lambda>idx.
     if idx \<noteq> BITMAP_ERROR
     then bind_r (bitmap_set_multiple b idx cnt (\<not> value)) (\<lambda>b'. Inr (b', idx))
     else Inr (b, idx))"

section \<open>Creation\<close>

text \<open>\<open>mem1\<close> says whether the first \<open>malloc\<close> succeeded; \<open>mem2\<close> is the block of the second one,
  with its arbitrary contents.\<close>

definition bitmap_create :: "nat \<Rightarrow> bool \<Rightarrow> 32 word list option \<Rightarrow> bitmap option res" where
  "bitmap_create n mem1 mem2 =
     (if mem1 then
        (if mem2 \<noteq> None \<or> n = 0
         then bind_r (bitmap_set_all \<lparr>bit_cnt = n, bits = (case mem2 of Some m \<Rightarrow> m | None \<Rightarrow> [])\<rparr> False)
                (\<lambda>b. Inr (Some b))
         else Inr None)
      else Inr None)"

definition bitmap_buf_size :: "nat \<Rightarrow> nat" where
  "bitmap_buf_size n = add32 8 (byte_cnt n)"

text \<open>\<open>buf\<close> is the part of the block behind the \<open>struct bitmap\<close> placed at its start.\<close>

definition bitmap_create_in_buf :: "nat \<Rightarrow> 32 word list \<Rightarrow> nat \<Rightarrow> bitmap res" where
  "bitmap_create_in_buf n buf block_size =
     ASSERT (block_size \<ge> bitmap_buf_size n) (bitmap_set_all \<lparr>bit_cnt = n, bits = buf\<rparr> False)"

declare set_multiple_loop.simps [simp del] count_loop.simps [simp del]
  contains_loop.simps [simp del] scan_loop.simps [simp del]

section \<open>Representation invariant and abstraction\<close>

definition bitmap_ok :: "bitmap \<Rightarrow> bool" where
  "bitmap_ok b \<longleftrightarrow> bit_cnt b + 32 \<le> u32_mod \<and> elem_cnt (bit_cnt b) \<le> length (bits b)"

definition bitmap_abs :: "bitmap \<Rightarrow> bool list" where
  "bitmap_abs b = map (\<lambda>i. bit (bits b ! (i div 32)) (i mod 32)) [0..<bit_cnt b]"

lemma length_bitmap_abs [simp]: "length (bitmap_abs b) = bit_cnt b"
  by (simp add: bitmap_abs_def)

lemma nth_bitmap_abs: "i < bit_cnt b \<Longrightarrow> bitmap_abs b ! i = bit (bits b ! (i div 32)) (i mod 32)"
  by (simp add: bitmap_abs_def)

lemma bit_bit_mask: "n < 32 \<Longrightarrow> bit (bit_mask i) n \<longleftrightarrow> n = i mod 32"
  by (auto simp: bit_mask_def ELEM_BITS_def bit_simps)

lemma elem_idx_less:
  assumes "bitmap_ok b" "i < bit_cnt b"
  shows "elem_idx i < length (bits b)"
proof -
  have "bit_cnt b \<le> DIV_ROUND_UP (bit_cnt b) 32 * 32"
    using assms(1) by (intro DIV_ROUND_UP_bounds) (simp_all add: bitmap_ok_def)
  then have "i < length (bits b) * 32"
    using assms by (simp add: bitmap_ok_def elem_cnt_def ELEM_BITS_def)
  then show ?thesis by (simp add: elem_idx_def ELEM_BITS_def less_mult_imp_div_less)
qed

text \<open>Replacing the element that holds bit \<open>i\<close> by one that differs from it only there.\<close>

lemma bitmap_update_elem:
  assumes "bitmap_ok b" "i < bit_cnt b"
    and "\<And>n. n < 32 \<Longrightarrow> bit w n = (if n = i mod 32 then v else bit (bits b ! (i div 32)) n)"
  shows "bitmap_ok (b\<lparr>bits := (bits b)[i div 32 := w]\<rparr>)"
    and "bitmap_abs (b\<lparr>bits := (bits b)[i div 32 := w]\<rparr>) = (bitmap_abs b)[i := v]"
proof -
  show "bitmap_ok (b\<lparr>bits := (bits b)[i div 32 := w]\<rparr>)" using assms(1) by (simp add: bitmap_ok_def)
  show "bitmap_abs (b\<lparr>bits := (bits b)[i div 32 := w]\<rparr>) = (bitmap_abs b)[i := v]"
  proof (rule nth_equalityI)
    fix k assume "k < length (bitmap_abs (b\<lparr>bits := (bits b)[i div 32 := w]\<rparr>))"
    then have k: "k < bit_cnt b" by simp
    have len: "k div 32 < length (bits b)"
      using elem_idx_less [OF assms(1) k] by (simp add: elem_idx_def ELEM_BITS_def)
    have "k = i \<longleftrightarrow> k div 32 = i div 32 \<and> k mod 32 = i mod 32"
      by (metis div_mult_mod_eq)
    then show "bitmap_abs (b\<lparr>bits := (bits b)[i div 32 := w]\<rparr>) ! k = (bitmap_abs b)[i := v] ! k"
      using k len assms(3) [of "k mod 32"]
      by (auto simp: nth_bitmap_abs nth_list_update')
  qed simp
qed

text \<open>The shape of a successful update, shared by all mutators.\<close>

definition bitmap_becomes :: "bitmap \<Rightarrow> bool list \<Rightarrow> bitmap res \<Rightarrow> bool" where
  "bitmap_becomes b xs r \<longleftrightarrow>
     (\<exists>b'. r = Inr b' \<and> bitmap_ok b' \<and> bit_cnt b' = bit_cnt b \<and> bitmap_abs b' = xs)"

lemma bitmap_becomesI:
  assumes "bitmap_ok b" "i < bit_cnt b" "r = Inr (b\<lparr>bits := (bits b)[elem_idx i := w]\<rparr>)"
    and "\<And>n. n < 32 \<Longrightarrow> bit w n = (if n = i mod 32 then v else bit (bits b ! (i div 32)) n)"
  shows "bitmap_becomes b ((bitmap_abs b)[i := v]) r"
  using bitmap_update_elem [OF assms(1,2,4)] assms(3)
  by (simp add: bitmap_becomes_def elem_idx_def ELEM_BITS_def)

lemma bitmap_mark_becomes:
  assumes "bitmap_ok b" "i < bit_cnt b"
  shows "bitmap_becomes b ((bitmap_abs b)[i := True]) (bitmap_mark b i)"
  by (rule bitmap_becomesI [OF assms, of _ "(bits b ! elem_idx i) OR bit_mask i"])
     (use elem_idx_less [OF assms] in \<open>auto simp: bitmap_mark_def Let_def bit_or_iff bit_bit_mask elem_idx_def ELEM_BITS_def\<close>)

lemma bitmap_reset_becomes:
  assumes "bitmap_ok b" "i < bit_cnt b"
  shows "bitmap_becomes b ((bitmap_abs b)[i := False]) (bitmap_reset b i)"
  by (rule bitmap_becomesI [OF assms, of _ "(bits b ! elem_idx i) AND NOT (bit_mask i)"])
     (use elem_idx_less [OF assms] in \<open>auto simp: bitmap_reset_def Let_def bit_and_iff bit_not_iff bit_bit_mask elem_idx_def ELEM_BITS_def\<close>)

lemma bitmap_flip_becomes:
  assumes "bitmap_ok b" "i < bit_cnt b"
  shows "bitmap_becomes b ((bitmap_abs b)[i := \<not> bitmap_abs b ! i]) (bitmap_flip b i)"
  by (rule bitmap_becomesI [OF assms, of _ "(bits b ! elem_idx i) XOR bit_mask i"])
     (use elem_idx_less [OF assms] assms(2) in \<open>auto simp: bitmap_flip_def Let_def bit_xor_iff bit_bit_mask nth_bitmap_abs elem_idx_def ELEM_BITS_def\<close>)

lemma bitmap_set_becomes:
  "bitmap_ok b \<Longrightarrow> i < bit_cnt b \<Longrightarrow> bitmap_becomes b ((bitmap_abs b)[i := v]) (bitmap_set b i v)"
  using bitmap_mark_becomes bitmap_reset_becomes by (simp add: bitmap_set_def)

lemma bitmap_test_eq:
  assumes "bitmap_ok b" "i < bit_cnt b"
  shows "bitmap_test b i = Inr (bitmap_abs b ! i)"
proof -
  have "w AND bit_mask i \<noteq> 0 \<longleftrightarrow> bit w (i mod 32)" for w
  proof -
    have "w AND bit_mask i = (if bit w (i mod 32) then bit_mask i else 0)"
      by (rule bit_word_eqI) (auto simp: bit_and_iff bit_bit_mask)
    moreover have "bit_mask i \<noteq> 0" by (metis bit_0_eq bit_bit_mask bot_apply bot_bool_def mod_less_divisor zero_less_numeral)
    ultimately show ?thesis by simp
  qed
  then show ?thesis using elem_idx_less [OF assms] assms(2)
    by (simp add: bitmap_test_def nth_bitmap_abs elem_idx_def ELEM_BITS_def)
qed

lemma bitmap_test_out: "\<not> i < bit_cnt b \<Longrightarrow> bitmap_test b i = Inl Assert_failed"
  by (simp add: bitmap_test_def)

section \<open>Ranges\<close>

lemma bitmap_becomes_bind:
  assumes "bitmap_becomes b xs r"
    and "\<And>b'. bitmap_ok b' \<Longrightarrow> bit_cnt b' = bit_cnt b \<Longrightarrow> bitmap_abs b' = xs \<Longrightarrow> bitmap_becomes b' ys (f b')"
  shows "bitmap_becomes b ys (bind_r r f)"
proof -
  obtain b' where b': "r = Inr b'" "bitmap_ok b'" "bit_cnt b' = bit_cnt b" "bitmap_abs b' = xs"
    using assms(1) by (auto simp: bitmap_becomes_def)
  then show ?thesis using assms(2) [of b'] by (simp add: bitmap_becomes_def)
qed

lemma bitmap_becomes_refl: "bitmap_ok b \<Longrightarrow> bitmap_becomes b (bitmap_abs b) (Inr b)"
  by (simp add: bitmap_becomes_def)

lemma index_no_wrap: "bitmap_ok b \<Longrightarrow> start + cnt \<le> bit_cnt b \<Longrightarrow> add32 start cnt = start + cnt"
  unfolding bitmap_ok_def by (rule add32_small) linarith

lemma set_multiple_loop_becomes:
  assumes "bitmap_ok b" "start + cnt \<le> bit_cnt b" "i \<le> cnt"
  shows "bitmap_becomes b (set_range (bitmap_abs b) (start + i) (cnt - i) v) (set_multiple_loop b start cnt v i)"
  using assms
proof (induction "cnt - i" arbitrary: b i)
  case 0
  then show ?case by (subst set_multiple_loop.simps) (simp add: bitmap_becomes_refl)
next
  case (Suc n)
  then have i: "i < cnt" "n = cnt - Suc i" "start + i < bit_cnt b" by auto
  have "bitmap_becomes b (set_range (bitmap_abs b) (start + i) (cnt - i) v)
          (bind_r (bitmap_set b (start + i) v) (\<lambda>b'. set_multiple_loop b' start cnt v (Suc i)))"
  proof (rule bitmap_becomes_bind [OF bitmap_set_becomes])
    fix b' assume b': "bitmap_ok b'" "bit_cnt b' = bit_cnt b" "bitmap_abs b' = (bitmap_abs b)[start + i := v]"
    have "set_range (bitmap_abs b') (start + Suc i) n v = set_range (bitmap_abs b) (start + i) (cnt - i) v"
      using Suc.hyps(2) i(3) b'(3) set_range_Suc [of "start + i" "bitmap_abs b" v n] by simp
    moreover have "start + cnt \<le> bit_cnt b'" "Suc i \<le> cnt" using Suc.prems b' i by auto
    ultimately show "bitmap_becomes b' (set_range (bitmap_abs b) (start + i) (cnt - i) v) (set_multiple_loop b' start cnt v (Suc i))"
      using Suc.hyps(1) [OF i(2) b'(1)] i(2) by simp
  qed (use Suc.prems i in auto)
  then show ?case
    using i Suc.prems(1) index_no_wrap [OF Suc.prems(1), of start i]
    by (subst set_multiple_loop.simps) simp
qed

lemma bitmap_set_multiple_becomes:
  assumes "bitmap_ok b" "start + cnt \<le> bit_cnt b"
  shows "bitmap_becomes b (set_range (bitmap_abs b) start cnt v) (bitmap_set_multiple b start cnt v)"
  using set_multiple_loop_becomes [OF assms, of 0 v] assms index_no_wrap [OF assms]
  by (simp add: bitmap_set_multiple_def)

lemma bitmap_set_all_becomes:
  assumes "bitmap_ok b"
  shows "bitmap_becomes b (replicate (bit_cnt b) v) (bitmap_set_all b v)"
  using bitmap_set_multiple_becomes [OF assms, of 0 "bit_cnt b" v] set_range_all [of "bitmap_abs b" v]
  by (simp add: bitmap_set_all_def bitmap_size_def)

lemma count_loop_eq:
  assumes "bitmap_ok b" "start + cnt \<le> bit_cnt b" "i \<le> cnt"
  shows "count_loop b start cnt v i c
           = Inr (c + count_list (take (cnt - i) (drop (start + i) (bitmap_abs b))) v)"
  using assms(3)
proof (induction "cnt - i" arbitrary: i c)
  case 0
  then show ?case by (subst count_loop.simps) simp
next
  case (Suc n)
  then have i: "i < cnt" "n = cnt - Suc i" "start + i < bit_cnt b" using assms(2) by auto
  have "take (cnt - i) (drop (start + i) (bitmap_abs b))
          = bitmap_abs b ! (start + i) # take n (drop (start + Suc i) (bitmap_abs b))"
    using i by (simp add: Cons_nth_drop_Suc [symmetric] Suc.hyps(2) [symmetric])
  then show ?case
    using Suc.hyps(1) [OF i(2)] i assms(1) index_no_wrap [OF assms(1), of start i]
    by (subst count_loop.simps) (simp add: bitmap_test_eq)
qed

lemma bitmap_count_eq:
  assumes "bitmap_ok b" "start + cnt \<le> bit_cnt b"
  shows "bitmap_count b start cnt v = Inr (count_list (take cnt (drop start (bitmap_abs b))) v)"
  using count_loop_eq [OF assms, of 0 v 0] assms index_no_wrap [OF assms]
  by (simp add: bitmap_count_def)

lemma contains_loop_eq:
  assumes "bitmap_ok b" "start + cnt \<le> bit_cnt b" "i \<le> cnt"
  shows "contains_loop b start cnt v i = Inr (\<exists>k. i \<le> k \<and> k < cnt \<and> bitmap_abs b ! (start + k) = v)"
  using assms(3)
proof (induction "cnt - i" arbitrary: i)
  case 0
  then show ?case by (subst contains_loop.simps) auto
next
  case (Suc n)
  then have i: "i < cnt" "n = cnt - Suc i" "start + i < bit_cnt b" using assms(2) by auto
  have "(\<exists>k. i \<le> k \<and> k < cnt \<and> bitmap_abs b ! (start + k) = v) \<longleftrightarrow>
          bitmap_abs b ! (start + i) = v \<or> (\<exists>k. Suc i \<le> k \<and> k < cnt \<and> bitmap_abs b ! (start + k) = v)"
    using i(1) by (metis Suc_leD not_less_eq_eq order_antisym order_refl)
  then show ?case
    using Suc.hyps(1) [OF i(2)] i assms(1) index_no_wrap [OF assms(1), of start i]
    by (subst contains_loop.simps) (simp add: bitmap_test_eq)
qed

lemma bitmap_contains_eq:
  assumes "bitmap_ok b" "start + cnt \<le> bit_cnt b"
  shows "bitmap_contains b start cnt v = Inr (\<not> group_at (bitmap_abs b) start cnt (\<not> v))"
  using contains_loop_eq [OF assms, of 0 v] assms index_no_wrap [OF assms]
  by (auto simp: bitmap_contains_def group_at_def)

lemma bitmap_all_eq:
  "bitmap_ok b \<Longrightarrow> start + cnt \<le> bit_cnt b \<Longrightarrow> bitmap_all b start cnt = Inr (group_at (bitmap_abs b) start cnt True)"
  by (simp add: bitmap_all_def bitmap_contains_eq)

lemma bitmap_none_eq:
  "bitmap_ok b \<Longrightarrow> start + cnt \<le> bit_cnt b \<Longrightarrow> bitmap_none b start cnt = Inr (group_at (bitmap_abs b) start cnt False)"
  by (simp add: bitmap_none_def bitmap_contains_eq)

lemma bitmap_any_eq:
  "bitmap_ok b \<Longrightarrow> start + cnt \<le> bit_cnt b \<Longrightarrow> bitmap_any b start cnt = Inr (\<not> group_at (bitmap_abs b) start cnt False)"
  by (simp add: bitmap_any_def bitmap_contains_eq)

section \<open>Scanning\<close>

definition first_group :: "bool list \<Rightarrow> nat \<Rightarrow> nat \<Rightarrow> bool \<Rightarrow> nat \<Rightarrow> bool" where
  "first_group xs start n v r \<longleftrightarrow>
     (if \<exists>i\<ge>start. group_at xs i n v
      then start \<le> r \<and> group_at xs r n v \<and> (\<forall>j. start \<le> j \<and> j < r \<longrightarrow> \<not> group_at xs j n v)
      else r = BITMAP_ERROR)"

lemma first_group_Suc:
  assumes "\<not> group_at xs i n v" and "first_group xs (Suc i) n v r"
  shows "first_group xs i n v r"
proof (cases "\<exists>j\<ge>Suc i. group_at xs j n v")
  case True
  have r: "Suc i \<le> r" "group_at xs r n v" "\<forall>j. Suc i \<le> j \<and> j < r \<longrightarrow> \<not> group_at xs j n v"
    using assms(2) unfolding first_group_def if_P [OF True] by blast+
  have "\<not> group_at xs j n v" if "i \<le> j" "j < r" for j
    using assms(1) r(3) that by (cases "i = j") auto
  moreover have ex: "\<exists>j\<ge>i. group_at xs j n v" using r(1,2) Suc_leD by blast
  ultimately show ?thesis unfolding first_group_def if_P [OF ex] using r(1,2) by simp
next
  case False
  then have none: "\<not> (\<exists>j\<ge>i. group_at xs j n v)" using assms(1) by (metis le_antisym not_less_eq_eq)
  show ?thesis
    using assms(2) unfolding first_group_def if_not_P [OF none] if_not_P [OF False] .
qed

lemma scan_loop_first:
  assumes "bitmap_ok b" "cnt \<le> bit_cnt b"
  shows "\<exists>r. scan_loop b cnt v (bit_cnt b - cnt) i = Inr r \<and> first_group (bitmap_abs b) i cnt v r"
proof (induction "Suc (bit_cnt b - cnt) - i" arbitrary: i)
  case 0
  then have "\<not> group_at (bitmap_abs b) j cnt v" if "i \<le> j" for j
    using that assms(2) by (auto simp: group_at_def)
  then show ?case using 0 by (subst scan_loop.simps) (auto simp: first_group_def)
next
  case (Suc n)
  then have i: "i \<le> bit_cnt b - cnt" "n = Suc (bit_cnt b - cnt) - Suc i" by auto
  then have "i + cnt \<le> bit_cnt b" using assms(2) by linarith
  then have c: "bitmap_contains b i cnt (\<not> v) = Inr (\<not> group_at (bitmap_abs b) i cnt v)"
    using bitmap_contains_eq [OF assms(1)] by simp
  show ?case
  proof (cases "group_at (bitmap_abs b) i cnt v")
    case True
    then show ?thesis using c i(1) by (subst scan_loop.simps) (auto simp: first_group_def)
  next
    case False
    obtain r where r: "scan_loop b cnt v (bit_cnt b - cnt) (Suc i) = Inr r"
        "first_group (bitmap_abs b) (Suc i) cnt v r"
      using Suc.hyps(1) [OF i(2)] by blast
    show ?thesis using r(1) first_group_Suc [OF False r(2)] False c i(1)
      by (subst scan_loop.simps) simp
  qed
qed

lemma bitmap_scan_first:
  assumes "bitmap_ok b" "start \<le> bit_cnt b"
  shows "\<exists>r. bitmap_scan b start cnt v = Inr r \<and> first_group (bitmap_abs b) start cnt v r"
proof (cases "cnt \<le> bit_cnt b")
  case True
  then show ?thesis using scan_loop_first [OF assms(1) True] assms(2) by (simp add: bitmap_scan_def)
next
  case False
  then have "\<not> group_at (bitmap_abs b) j cnt v" for j by (simp add: group_at_def)
  then show ?thesis using False assms(2) by (simp add: bitmap_scan_def first_group_def)
qed

lemma group_not_error: "bitmap_ok b \<Longrightarrow> group_at (bitmap_abs b) i cnt v \<Longrightarrow> i \<noteq> BITMAP_ERROR"
  by (auto simp: group_at_def BITMAP_ERROR_def SIZE_MAX_def bitmap_ok_def)

lemma first_group_error_iff:
  "bitmap_ok b \<Longrightarrow> first_group (bitmap_abs b) start cnt v r \<Longrightarrow>
     r = BITMAP_ERROR \<longleftrightarrow> \<not> (\<exists>i\<ge>start. group_at (bitmap_abs b) i cnt v)"
  by (metis first_group_def group_not_error)

text \<open>The three outcomes of \<open>bitmap_scan_and_flip\<close> in one rule.\<close>

lemma scan_and_flip_cases:
  assumes "bitmap_ok b" "start \<le> bit_cnt b"
  obtains (found) r b' where "bitmap_scan_and_flip b start cnt v = Inr (b', r)"
      and "first_group (bitmap_abs b) start cnt v r" and "r \<noteq> BITMAP_ERROR" and "group_at (bitmap_abs b) r cnt v"
      and "bitmap_ok b'" and "bit_cnt b' = bit_cnt b"
      and "bitmap_abs b' = set_range (bitmap_abs b) r cnt (\<not> v)"
  | (none) "bitmap_scan_and_flip b start cnt v = Inr (b, BITMAP_ERROR)"
      and "\<not> (\<exists>i\<ge>start. group_at (bitmap_abs b) i cnt v)"
proof -
  obtain r where r: "bitmap_scan b start cnt v = Inr r" "first_group (bitmap_abs b) start cnt v r"
    using bitmap_scan_first [OF assms] by blast
  show thesis
  proof (cases "r = BITMAP_ERROR")
    case True
    then show thesis using none r first_group_error_iff [OF assms(1) r(2)] by (simp add: bitmap_scan_and_flip_def)
  next
    case False
    then have g: "group_at (bitmap_abs b) r cnt v" using r(2) first_group_error_iff [OF assms(1) r(2)] by (auto simp: first_group_def)
    then have "r + cnt \<le> bit_cnt b" by (simp add: group_at_def)
    then obtain b' where "bitmap_set_multiple b r cnt (\<not> v) = Inr b'" "bitmap_ok b'" "bit_cnt b' = bit_cnt b"
        "bitmap_abs b' = set_range (bitmap_abs b) r cnt (\<not> v)"
      using bitmap_set_multiple_becomes [OF assms(1), of r cnt "\<not> v"] by (auto simp: bitmap_becomes_def)
    then show thesis using found [of b' r] r g False by (simp add: bitmap_scan_and_flip_def)
  qed
qed

section \<open>The allocator contract\<close>

text \<open>What the page allocator and the free map use of a bitmap: take the first run of \<open>n\<close> free
  cells, and give a run back. \<open>used\<close> is the abstract state.\<close>

locale region_allocator =
  fixes inv :: "'s \<Rightarrow> bool"
    and used :: "'s \<Rightarrow> bool list"
    and alloc :: "'s \<Rightarrow> nat \<Rightarrow> ('s \<times> nat) res"
    and release :: "'s \<Rightarrow> nat \<Rightarrow> nat \<Rightarrow> 's res"
    and err :: nat
  assumes alloc_total: "inv s \<Longrightarrow> \<exists>s' r. alloc s n = Inr (s', r)"
    and alloc_found: "inv s \<Longrightarrow> alloc s n = Inr (s', r) \<Longrightarrow> r \<noteq> err \<Longrightarrow>
          inv s' \<and> group_at (used s) r n False \<and> used s' = set_range (used s) r n True"
    and alloc_none: "inv s \<Longrightarrow> alloc s n = Inr (s', err) \<Longrightarrow> s' = s \<and> (\<forall>i. \<not> group_at (used s) i n False)"
    and release_ok: "inv s \<Longrightarrow> r + n \<le> length (used s) \<Longrightarrow>
          \<exists>s'. release s r n = Inr s' \<and> inv s' \<and> used s' = set_range (used s) r n False"
begin

lemma alloc_bound: "inv s \<Longrightarrow> alloc s n = Inr (s', r) \<Longrightarrow> r \<noteq> err \<Longrightarrow> r + n \<le> length (used s)"
  using alloc_found [of s n s' r] by (simp add: group_at_def)

lemma alloc_length: "inv s \<Longrightarrow> alloc s n = Inr (s', r) \<Longrightarrow> length (used s') = length (used s)"
  using alloc_found [of s n s' r] alloc_none [of s n s'] by (cases "r = err") auto

lemma alloc_inv: "inv s \<Longrightarrow> alloc s n = Inr (s', r) \<Longrightarrow> inv s'"
  using alloc_found [of s n s' r] alloc_none [of s n s'] by (cases "r = err") auto

text \<open>A cell in use stays in use, and a region handed out holds no cell that was in use before: two
  live regions never overlap.\<close>

lemma alloc_keeps: "inv s \<Longrightarrow> alloc s n = Inr (s', r) \<Longrightarrow> k < length (used s) \<Longrightarrow> used s ! k \<Longrightarrow> used s' ! k"
  using alloc_found [of s n s' r] alloc_none [of s n s'] by (cases "r = err") auto

lemma alloc_disjoint:
  assumes "inv s" "alloc s n = Inr (s1, r1)" "r1 \<noteq> err" "alloc s1 m = Inr (s2, r2)" "r2 \<noteq> err"
  shows "{r1..<r1 + n} \<inter> {r2..<r2 + m} = {}"
proof -
  note f1 = alloc_found [OF assms(1,2,3)]
  note f2 = alloc_found [OF conjunct1 [OF f1] assms(4,5)]
  have "\<not> (r1 \<le> k \<and> k < r1 + n)" if "r2 \<le> k" "k < r2 + m" for k
  proof -
    have "\<not> used s1 ! k" using f2 that by (auto simp: group_at_def dest!: spec [of _ "k - r2"])
    moreover have "k < length (used s)" using f1 f2 that by (auto simp: group_at_def)
    ultimately show ?thesis using f1 by auto
  qed
  then show ?thesis unfolding disjoint_iff atLeastLessThan_iff by blast
qed

lemma alloc_release:
  assumes "inv s" "alloc s n = Inr (s1, r)" "r \<noteq> err"
  shows "\<exists>s2. release s1 r n = Inr s2 \<and> inv s2 \<and> used s2 = used s"
proof -
  note f = alloc_found [OF assms]
  then have "r + n \<le> length (used s1)" by (simp add: group_at_def)
  from release_ok [OF conjunct1 [OF f] this] obtain s2 where
    "release s1 r n = Inr s2" "inv s2" "used s2 = set_range (used s1) r n False" by blast
  then show ?thesis using f by (simp add: set_range_group)
qed

end

interpretation bm: region_allocator bitmap_ok bitmap_abs
  "\<lambda>b n. bitmap_scan_and_flip b 0 n False" "\<lambda>b r n. bitmap_set_multiple b r n False" BITMAP_ERROR
proof unfold_locales
  fix b :: bitmap and n b' r assume b: "bitmap_ok b"
  show "\<exists>b' r. bitmap_scan_and_flip b 0 n False = Inr (b', r)"
    by (rule scan_and_flip_cases [OF b, of 0 n False]) auto
  show "bitmap_scan_and_flip b 0 n False = Inr (b', r) \<Longrightarrow> r \<noteq> BITMAP_ERROR \<Longrightarrow>
      bitmap_ok b' \<and> group_at (bitmap_abs b) r n False \<and> bitmap_abs b' = set_range (bitmap_abs b) r n True"
    by (rule scan_and_flip_cases [OF b, of 0 n False]) auto
  show "bitmap_scan_and_flip b 0 n False = Inr (b', BITMAP_ERROR) \<Longrightarrow>
      b' = b \<and> (\<forall>i. \<not> group_at (bitmap_abs b) i n False)"
    by (rule scan_and_flip_cases [OF b, of 0 n False]) auto
  show "r + n \<le> length (bitmap_abs b) \<Longrightarrow>
      \<exists>b'. bitmap_set_multiple b r n False = Inr b' \<and> bitmap_ok b' \<and> bitmap_abs b' = set_range (bitmap_abs b) r n False"
    using bitmap_set_multiple_becomes [OF b, of r n False] by (auto simp: bitmap_becomes_def)
qed

section \<open>Properties\<close>

lemma set_multiple_loop_overrun:
  assumes "bitmap_ok b" "bit_cnt b < start + cnt" "start + i \<le> bit_cnt b"
  shows "set_multiple_loop b start cnt v i = Inl Assert_failed"
  using assms
proof (induction "bit_cnt b - (start + i)" arbitrary: b i)
  case 0
  then have i: "start + i = bit_cnt b" by simp
  have "add32 start i = bit_cnt b" using index_no_wrap [OF 0(2), of start i] i by simp
  then show ?case using i 0(3) by (subst set_multiple_loop.simps) (simp add: bitmap_set_def)
next
  case (Suc n)
  then have i: "start + i < bit_cnt b" "i < cnt" by auto
  obtain b' where b': "bitmap_set b (start + i) v = Inr b'" "bitmap_ok b'" "bit_cnt b' = bit_cnt b"
    using bitmap_set_becomes [OF Suc.prems(1) i(1)] by (auto simp: bitmap_becomes_def)
  then show ?case
    using Suc.hyps Suc.prems i index_no_wrap [OF Suc.prems(1), of start i]
    by (subst set_multiple_loop.simps) auto
qed

text \<open>\<open>bitmap_set_multiple\<close> stores the value in exactly the bits of the range when the range
  lies in the bitmap, and otherwise fails an assertion, also when \<open>start + cnt\<close> wraps around: it
  never touches memory outside the bitmap.\<close>

theorem bitmap_set_multiple_refines:
  assumes "bitmap_ok b"
  shows "if start + cnt \<le> bit_cnt b
         then \<exists>b'. bitmap_set_multiple b start cnt v = Inr b' \<and> bitmap_ok b' \<and> bit_cnt b' = bit_cnt b
                \<and> bitmap_abs b' = set_range (bitmap_abs b) start cnt v
         else bitmap_set_multiple b start cnt v = Inl Assert_failed"
  using bitmap_set_multiple_becomes [OF assms] set_multiple_loop_overrun [OF assms, of start cnt 0 v]
  by (simp add: bitmap_becomes_def bitmap_set_multiple_def ASSERT_def)

definition bitmap_example :: bitmap where
  "bitmap_example = \<lparr>bit_cnt = 40, bits = [0xf, 0]\<rparr>"

lemma bitmap_example_ok: "bitmap_ok bitmap_example"
  by (simp add: bitmap_ok_def bitmap_example_def elem_cnt_def ELEM_BITS_def DIV_ROUND_UP_def)

text \<open>C29: \<open>bitmap_scan\<close> returns the first index at or after \<open>start\<close> of a group of \<open>cnt\<close> bits that
  all have the value, and \<open>BITMAP_ERROR\<close> exactly when there is no such group.\<close>

theorem bitmap_scan_correct:
  assumes "bitmap_ok b" "start \<le> bit_cnt b"
  shows "\<exists>r. bitmap_scan b start cnt v = Inr r
           \<and> (r = BITMAP_ERROR \<longleftrightarrow> (\<forall>i\<ge>start. \<not> group_at (bitmap_abs b) i cnt v))
           \<and> (r \<noteq> BITMAP_ERROR \<longrightarrow> start \<le> r \<and> group_at (bitmap_abs b) r cnt v
                \<and> (\<forall>j. start \<le> j \<and> j < r \<longrightarrow> \<not> group_at (bitmap_abs b) j cnt v))"
proof -
  obtain r where r: "bitmap_scan b start cnt v = Inr r" "first_group (bitmap_abs b) start cnt v r"
    using bitmap_scan_first [OF assms] by blast
  note e = first_group_error_iff [OF assms(1) r(2)]
  show ?thesis
  proof (cases "r = BITMAP_ERROR")
    case True
    then show ?thesis using r(1) e by blast
  next
    case False
    then have ex: "\<exists>i\<ge>start. group_at (bitmap_abs b) i cnt v" using e by blast
    show ?thesis using r(1) False ex r(2) [unfolded first_group_def if_P [OF ex]] by blast
  qed
qed

theorem bitmap_scan_correct_witness:
  "\<exists>r. bitmap_scan bitmap_example 2 3 False = Inr r
     \<and> (r = BITMAP_ERROR \<longleftrightarrow> (\<forall>i\<ge>2. \<not> group_at (bitmap_abs bitmap_example) i 3 False))"
  using bitmap_scan_correct [OF bitmap_example_ok, of 2 3 False] by (auto simp: bitmap_example_def)

text \<open>two successive allocations from a bitmap never hand out overlapping regions.\<close>

theorem bitmap_alloc_disjoint:
  assumes "bitmap_ok b"
    and "bitmap_scan_and_flip b 0 n False = Inr (b1, r1)" "r1 \<noteq> BITMAP_ERROR"
    and "bitmap_scan_and_flip b1 0 m False = Inr (b2, r2)" "r2 \<noteq> BITMAP_ERROR"
  shows "{r1..<r1 + n} \<inter> {r2..<r2 + m} = {}"
  using assms by (rule bm.alloc_disjoint)

lemma scan_and_flip_example:
  "case bitmap_scan_and_flip bitmap_example 0 2 False of Inl _ \<Rightarrow> False
   | Inr (b1, r1) \<Rightarrow> r1 = 4 \<and> (case bitmap_scan_and_flip b1 0 3 False of Inl _ \<Rightarrow> False | Inr (b2, r2) \<Rightarrow> r2 = 6)"
  by code_simp

text \<open>for \<open>cnt = 0\<close> \<open>bitmap_scan_and_flip\<close> returns \<open>start\<close> (the comment says it returns 0)
  and changes nothing.\<close>

theorem bitmap_scan_and_flip_zero:
  "bitmap_scan_and_flip b start 0 v = (if start \<le> bit_cnt b then Inr (b, start) else Inl Assert_failed)"
proof (cases "start \<le> bit_cnt b")
  case True
  then have "bitmap_contains b start 0 w = Inr False" for w
    by (subst bitmap_contains_def, subst contains_loop.simps) (simp add: ASSERT_def add32_def)
  moreover have "bitmap_set_multiple b start 0 w = Inr b" for w
    using True by (subst bitmap_set_multiple_def, subst set_multiple_loop.simps) (simp add: ASSERT_def add32_def)
  ultimately show ?thesis using True
    by (simp add: bitmap_scan_and_flip_def bitmap_scan_def scan_loop.simps [of b 0 v "bit_cnt b" start])
qed (simp add: bitmap_scan_and_flip_def bitmap_scan_def)

lemma bitmap_create_zeroed:
  assumes "n + 32 \<le> u32_mod" "elem_cnt n \<le> length mem"
  shows "\<exists>b. bitmap_create n True (Some mem) = Inr (Some b) \<and> bitmap_ok b \<and> bitmap_abs b = replicate n False"
proof -
  have "bitmap_ok \<lparr>bit_cnt = n, bits = mem\<rparr>" using assms by (simp add: bitmap_ok_def)
  from bitmap_set_all_becomes [OF this, of False] show ?thesis
    by (auto simp: bitmap_create_def bitmap_becomes_def)
qed

lemma bitmap_create_in_buf_zeroed:
  assumes "n + 32 \<le> u32_mod" "elem_cnt n \<le> length mem" "bitmap_buf_size n \<le> block_size"
  shows "bitmap_becomes \<lparr>bit_cnt = n, bits = mem\<rparr> (replicate n False) (bitmap_create_in_buf n mem block_size)"
proof -
  have "bitmap_ok \<lparr>bit_cnt = n, bits = mem\<rparr>" using assms by (simp add: bitmap_ok_def)
  from bitmap_set_all_becomes [OF this, of False] show ?thesis using assms(3)
    by (simp add: bitmap_create_in_buf_def)
qed

end
