(* ===== verification/Intq.thy ===== *)
theory Intq
  imports Prelude
begin

text \<open>
  \<^verbatim>\<open>devices/intq.c\<close>: the circular buffer between interrupt handlers and threads.

  The CPU state that the functions consult (interrupt level, interrupt context, current thread) is
  the record \<open>cpu\<close>. A call of \<open>intq_getc\<close> or \<open>intq_putc\<close> is modelled up to its next scheduling
  point: it either returns, naming the thread that \<open>signal\<close> unblocks, or goes to sleep, with the
  caller registered as the waiter; a thread that wakes up runs the loop test again, which is another
  call. The lock that keeps a second thread from waiting is held across the sleep only.

  \<open>intq_abs\<close> is the sequence of bytes in the buffer, and the operations are those of a bounded
  queue on it. The locale \<open>bounded_queue\<close> is the contract, which the input buffer relies on.
\<close>

section \<open>The queue\<close>

definition INTQ_BUFSIZE :: nat where "INTQ_BUFSIZE = 64"

type_synonym tid = nat

record cpu =
  intr_off :: bool
  intr_context :: bool
  current :: tid

record intq =
  not_full :: "tid option"
  not_empty :: "tid option"
  buf :: "8 word list"
  head :: nat
  tail :: nat

datatype waiter = Not_full | Not_empty

datatype 'a call =
    Sleep intq
  | Return 'a intq "tid option"

definition intq_next :: "nat \<Rightarrow> nat" where
  "intq_next pos = (pos + 1) mod INTQ_BUFSIZE"

definition intq_init :: "intq \<Rightarrow> intq" where
  "intq_init q = q\<lparr>not_full := None, not_empty := None, head := 0, tail := 0\<rparr>"

definition intq_empty :: "cpu \<Rightarrow> intq \<Rightarrow> bool res" where
  "intq_empty c q = ASSERT (intr_off c) (Inr (head q = tail q))"

definition intq_full :: "cpu \<Rightarrow> intq \<Rightarrow> bool res" where
  "intq_full c q = ASSERT (intr_off c) (Inr (intq_next (head q) = tail q))"

text \<open>The condition that each of the two waiters waits for.\<close>

definition wait_condition :: "cpu \<Rightarrow> intq \<Rightarrow> waiter \<Rightarrow> bool res" where
  "wait_condition c q w = (case w of Not_empty \<Rightarrow> intq_empty c q | Not_full \<Rightarrow> intq_full c q)"

definition set_waiter :: "intq \<Rightarrow> waiter \<Rightarrow> tid option \<Rightarrow> intq" where
  "set_waiter q w t = (case w of Not_empty \<Rightarrow> q\<lparr>not_empty := t\<rparr> | Not_full \<Rightarrow> q\<lparr>not_full := t\<rparr>)"

definition get_waiter :: "intq \<Rightarrow> waiter \<Rightarrow> tid option" where
  "get_waiter q w = (case w of Not_empty \<Rightarrow> not_empty q | Not_full \<Rightarrow> not_full q)"

definition intq_wait :: "cpu \<Rightarrow> intq \<Rightarrow> waiter \<Rightarrow> intq res" where
  "intq_wait c q w =
     ASSERT (\<not> intr_context c) (ASSERT (intr_off c)
       (bind_r (wait_condition c q w) (\<lambda>b. ASSERT b (Inr (set_waiter q w (Some (current c)))))))"

definition intq_signal :: "cpu \<Rightarrow> intq \<Rightarrow> waiter \<Rightarrow> (intq \<times> tid option) res" where
  "intq_signal c q w =
     ASSERT (intr_off c)
       (bind_r (wait_condition c q w) (\<lambda>b. ASSERT (\<not> b)
         (if get_waiter q w \<noteq> None then Inr (set_waiter q w None, get_waiter q w) else Inr (q, None))))"

definition intq_getc :: "cpu \<Rightarrow> intq \<Rightarrow> 8 word call res" where
  "intq_getc c q =
     ASSERT (intr_off c)
       (bind_r (intq_empty c q) (\<lambda>e.
        if e then ASSERT (\<not> intr_context c) (bind_r (intq_wait c q Not_empty) (\<lambda>q'. Inr (Sleep q')))
        else bind_r (arr_get (buf q) (tail q)) (\<lambda>byte.
             bind_r (intq_signal c (q\<lparr>tail := intq_next (tail q)\<rparr>) Not_full) (\<lambda>(q', woken).
             Inr (Return byte q' woken)))))"

definition intq_putc :: "cpu \<Rightarrow> intq \<Rightarrow> 8 word \<Rightarrow> unit call res" where
  "intq_putc c q byte =
     ASSERT (intr_off c)
       (bind_r (intq_full c q) (\<lambda>f.
        if f then ASSERT (\<not> intr_context c) (bind_r (intq_wait c q Not_full) (\<lambda>q'. Inr (Sleep q')))
        else bind_r (arr_set (buf q) (head q) byte) (\<lambda>b.
             bind_r (intq_signal c (q\<lparr>buf := b, head := intq_next (head q)\<rparr>) Not_empty) (\<lambda>(q', woken).
             Inr (Return () q' woken)))))"

section \<open>Invariant and abstraction\<close>

definition intq_ok :: "intq \<Rightarrow> bool" where
  "intq_ok q \<longleftrightarrow> length (buf q) = INTQ_BUFSIZE \<and> head q < INTQ_BUFSIZE \<and> tail q < INTQ_BUFSIZE"

definition intq_size :: "intq \<Rightarrow> nat" where
  "intq_size q = (if tail q \<le> head q then head q - tail q else head q + INTQ_BUFSIZE - tail q)"

definition intq_abs :: "intq \<Rightarrow> 8 word list" where
  "intq_abs q = map (\<lambda>k. buf q ! ((tail q + k) mod INTQ_BUFSIZE)) [0..<intq_size q]"

lemma length_intq_abs [simp]: "length (intq_abs q) = intq_size q"
  by (simp add: intq_abs_def)

lemma nth_intq_abs: "k < intq_size q \<Longrightarrow> intq_abs q ! k = buf q ! ((tail q + k) mod INTQ_BUFSIZE)"
  by (simp add: intq_abs_def)

lemma intq_next_alt: "pos < 64 \<Longrightarrow> intq_next pos = (if pos = 63 then 0 else pos + 1)"
  by (auto simp: intq_next_def INTQ_BUFSIZE_def)

lemma intq_size_less: "intq_ok q \<Longrightarrow> intq_size q < INTQ_BUFSIZE"
  by (auto simp: intq_ok_def intq_size_def)

lemma empty_iff: "intq_ok q \<Longrightarrow> head q = tail q \<longleftrightarrow> intq_abs q = []"
  by (auto simp: intq_ok_def intq_size_def intq_abs_def split: if_splits)

lemma full_iff: "intq_ok q \<Longrightarrow> intq_next (head q) = tail q \<longleftrightarrow> length (intq_abs q) = INTQ_BUFSIZE - 1"
  by (auto simp: intq_ok_def intq_size_def intq_next_alt INTQ_BUFSIZE_def)

lemma abs_set_waiter [simp]: "intq_abs (set_waiter q w t) = intq_abs q"
  by (cases w) (simp_all add: intq_abs_def intq_size_def set_waiter_def)

lemma ok_set_waiter [simp]: "intq_ok (set_waiter q w t) = intq_ok q"
  by (cases w) (simp_all add: intq_ok_def set_waiter_def)

lemma sel_set_waiter [simp]:
  "not_full (set_waiter q w t) = (if w = Not_full then t else not_full q)"
  "not_empty (set_waiter q w t) = (if w = Not_empty then t else not_empty q)"
  by (cases w; simp add: set_waiter_def)+

lemma get_set_waiter [simp]: "get_waiter (set_waiter q w t) v = (if v = w then t else get_waiter q v)"
  by (cases w; cases v) (simp_all add: get_waiter_def set_waiter_def)

lemma dequeue_abs:
  assumes "intq_ok q" "intq_abs q \<noteq> []"
  shows "intq_abs q = buf q ! tail q # intq_abs (q\<lparr>tail := intq_next (tail q)\<rparr>)"
proof -
  let ?q' = "q\<lparr>tail := intq_next (tail q)\<rparr>"
  have t: "tail q < 64" "head q < 64" "head q \<noteq> tail q"
    using assms empty_iff [OF assms(1)] by (auto simp: intq_ok_def INTQ_BUFSIZE_def)
  then have sz: "intq_size q = Suc (intq_size ?q')"
    by (auto simp: intq_size_def intq_next_alt INTQ_BUFSIZE_def)
  have "buf q ! ((tail q + Suc k) mod 64) = buf q ! ((intq_next (tail q) + k) mod 64)" for k
    by (simp add: intq_next_def INTQ_BUFSIZE_def mod_add_left_eq)
  then show ?thesis using t sz
    by (simp add: intq_abs_def INTQ_BUFSIZE_def map_upt_Suc del: upt_Suc)
qed

lemma enqueue_abs:
  assumes "intq_ok q" "length (intq_abs q) < INTQ_BUFSIZE - 1"
  shows "intq_abs (q\<lparr>buf := (buf q)[head q := b], head := intq_next (head q)\<rparr>) = intq_abs q @ [b]"
proof -
  let ?q' = "q\<lparr>buf := (buf q)[head q := b], head := intq_next (head q)\<rparr>"
  have t: "tail q < 64" "head q < 64" "length (buf q) = 64" "intq_size q < 63"
    using assms by (auto simp: intq_ok_def INTQ_BUFSIZE_def)
  then have sz: "intq_size ?q' = Suc (intq_size q)"
    by (auto simp: intq_size_def intq_next_alt INTQ_BUFSIZE_def)
  have hd: "(tail q + intq_size q) mod 64 = head q"
    using t by (auto simp: intq_size_def INTQ_BUFSIZE_def)
  have "(tail q + k) mod 64 \<noteq> head q" if "k < intq_size q" for k
    using t that by (auto simp: intq_size_def INTQ_BUFSIZE_def mod_if split: if_splits)
  then show ?thesis using t sz hd
    by (auto simp: intq_abs_def INTQ_BUFSIZE_def nth_list_update')
qed

section \<open>Behaviour of the operations\<close>

definition may_wait :: "cpu \<Rightarrow> bool" where
  "may_wait c \<longleftrightarrow> intr_off c \<and> \<not> intr_context c"

lemma intq_getc_nonempty:
  assumes "intr_off c" "intq_ok q" "intq_abs q \<noteq> []"
  shows "\<exists>q'. intq_getc c q = Inr (Return (hd (intq_abs q)) q' (not_full q))
           \<and> intq_ok q' \<and> intq_abs q' = tl (intq_abs q) \<and> not_full q' = None \<and> not_empty q' = not_empty q"
proof -
  let ?q = "q\<lparr>tail := intq_next (tail q)\<rparr>"
  have ne: "head q \<noteq> tail q" using assms empty_iff by blast
  have ok: "intq_ok ?q" using assms(2) by (simp add: intq_ok_def intq_next_def INTQ_BUFSIZE_def)
  have d: "intq_abs q = buf q ! tail q # intq_abs ?q" by (rule dequeue_abs [OF assms(2,3)])
  have "length (intq_abs ?q) < 63"
    using arg_cong [OF d, of length] intq_size_less [OF assms(2)] by (simp add: INTQ_BUFSIZE_def)
  then have nf: "intq_next (head ?q) \<noteq> tail ?q" using full_iff [OF ok] by (simp add: INTQ_BUFSIZE_def)
  have sig: "intq_signal c ?q Not_full = Inr (set_waiter ?q Not_full None, not_full q)"
    using nf assms(1)
    by (cases "not_full q") (simp_all add: intq_signal_def wait_condition_def intq_full_def get_waiter_def set_waiter_def)
  have "tail q < length (buf q)" using assms(2) by (simp add: intq_ok_def)
  then have "intq_getc c q = Inr (Return (buf q ! tail q) (set_waiter ?q Not_full None) (not_full q))"
    using sig assms(1) ne by (simp add: intq_getc_def intq_empty_def)
  then show ?thesis using d ok by simp
qed

lemma intq_getc_empty:
  assumes "intq_ok q" "intq_abs q = []"
  shows "intq_getc c q = (if may_wait c then Inr (Sleep (set_waiter q Not_empty (Some (current c))))
                          else Inl Assert_failed)"
  using assms empty_iff [OF assms(1)]
  by (simp add: intq_getc_def intq_empty_def intq_wait_def wait_condition_def may_wait_def ASSERT_def)

lemma intq_putc_room:
  assumes "intr_off c" "intq_ok q" "length (intq_abs q) < INTQ_BUFSIZE - 1"
  shows "\<exists>q'. intq_putc c q b = Inr (Return () q' (not_empty q))
           \<and> intq_ok q' \<and> intq_abs q' = intq_abs q @ [b] \<and> not_empty q' = None \<and> not_full q' = not_full q"
proof -
  let ?q = "q\<lparr>buf := (buf q)[head q := b], head := intq_next (head q)\<rparr>"
  have nf: "intq_next (head q) \<noteq> tail q" using assms full_iff [OF assms(2)] by simp
  have ok: "intq_ok ?q" using assms(2) by (simp add: intq_ok_def intq_next_def INTQ_BUFSIZE_def)
  have e: "intq_abs ?q = intq_abs q @ [b]" by (rule enqueue_abs [OF assms(2,3)])
  then have ne: "head ?q \<noteq> tail ?q" using empty_iff [OF ok] by simp
  have sig: "intq_signal c ?q Not_empty = Inr (set_waiter ?q Not_empty None, not_empty q)"
    using ne assms(1)
    by (cases "not_empty q") (simp_all add: intq_signal_def wait_condition_def intq_empty_def get_waiter_def set_waiter_def)
  have "head q < length (buf q)" using assms(2) by (simp add: intq_ok_def)
  then have "intq_putc c q b = Inr (Return () (set_waiter ?q Not_empty None) (not_empty q))"
    using sig assms(1) nf by (simp add: intq_putc_def intq_full_def)
  then show ?thesis using e ok by simp
qed

lemma intq_putc_full:
  assumes "intq_ok q" "length (intq_abs q) = INTQ_BUFSIZE - 1"
  shows "intq_putc c q b = (if may_wait c then Inr (Sleep (set_waiter q Not_full (Some (current c))))
                            else Inl Assert_failed)"
  using assms full_iff [OF assms(1)]
  by (simp add: intq_putc_def intq_full_def intq_wait_def wait_condition_def may_wait_def ASSERT_def)

section \<open>The bounded queue contract\<close>

text \<open>Calls that return, as a client that never sleeps sees them.\<close>

definition try_getc :: "cpu \<Rightarrow> intq \<Rightarrow> (8 word \<times> intq) option" where
  "try_getc c q = (case intq_getc c q of Inr (Return b q' _) \<Rightarrow> Some (b, q') | _ \<Rightarrow> None)"

definition try_putc :: "cpu \<Rightarrow> intq \<Rightarrow> 8 word \<Rightarrow> intq option" where
  "try_putc c q b = (case intq_putc c q b of Inr (Return _ q' _) \<Rightarrow> Some q' | _ \<Rightarrow> None)"

primrec feed :: "('s \<Rightarrow> 'a \<Rightarrow> 's option) \<Rightarrow> 's \<Rightarrow> 'a list \<Rightarrow> 's option" where
  "feed put s [] = Some s"
| "feed put s (x # xs) = (case put s x of None \<Rightarrow> None | Some s' \<Rightarrow> feed put s' xs)"

primrec drain :: "('s \<Rightarrow> ('a \<times> 's) option) \<Rightarrow> nat \<Rightarrow> 's \<Rightarrow> ('a list \<times> 's) option" where
  "drain get 0 s = Some ([], s)"
| "drain get (Suc n) s =
     (case get s of None \<Rightarrow> None
      | Some (x, s') \<Rightarrow> (case drain get n s' of None \<Rightarrow> None | Some (xs, s'') \<Rightarrow> Some (x # xs, s'')))"

locale bounded_queue =
  fixes ok :: "'s \<Rightarrow> bool"
    and seq :: "'s \<Rightarrow> 'a list"
    and get :: "'s \<Rightarrow> ('a \<times> 's) option"
    and put :: "'s \<Rightarrow> 'a \<Rightarrow> 's option"
    and cap :: nat
  assumes get_some: "ok s \<Longrightarrow> seq s = x # xs \<Longrightarrow> \<exists>s'. get s = Some (x, s') \<and> ok s' \<and> seq s' = xs"
    and get_none: "ok s \<Longrightarrow> seq s = [] \<Longrightarrow> get s = None"
    and put_some: "ok s \<Longrightarrow> length (seq s) < cap \<Longrightarrow> \<exists>s'. put s x = Some s' \<and> ok s' \<and> seq s' = seq s @ [x]"
    and put_none: "ok s \<Longrightarrow> length (seq s) = cap \<Longrightarrow> put s x = None"
begin

lemma feed_fits:
  "ok s \<Longrightarrow> length (seq s) + length xs \<le> cap \<Longrightarrow> \<exists>s'. feed put s xs = Some s' \<and> ok s' \<and> seq s' = seq s @ xs"
proof (induction xs arbitrary: s)
  case (Cons x xs)
  then obtain s' where "put s x = Some s'" "ok s'" "seq s' = seq s @ [x]"
    using put_some [of s x] by auto
  then show ?case using Cons.IH [of s'] Cons.prems by auto
qed simp

lemma drain_all: "ok s \<Longrightarrow> seq s = xs \<Longrightarrow> \<exists>s'. drain get (length xs) s = Some (xs, s') \<and> ok s' \<and> seq s' = []"
proof (induction xs arbitrary: s)
  case (Cons x xs)
  then obtain s' where "get s = Some (x, s')" "ok s'" "seq s' = xs"
    using get_some [of s x xs] by auto
  then show ?case using Cons.IH [of s'] by auto
qed simp

lemma feed_drain:
  assumes "ok s" "length (seq s) + length xs \<le> cap"
  shows "\<exists>s1 s2. feed put s xs = Some s1 \<and> drain get (length (seq s) + length xs) s1 = Some (seq s @ xs, s2)
           \<and> ok s2 \<and> seq s2 = []"
  using feed_fits [OF assms] drain_all by fastforce

end

text \<open>A caller with interrupts off, in interrupt context or not.\<close>

definition off_cpu :: "bool \<Rightarrow> tid \<Rightarrow> cpu" where
  "off_cpu ctx t = \<lparr>intr_off = True, intr_context = ctx, current = t\<rparr>"

lemma off_cpu_off [simp]: "intr_off (off_cpu ctx t)"
  by (simp add: off_cpu_def)

interpretation iq: bounded_queue intq_ok intq_abs "try_getc (off_cpu ctx t)" "try_putc (off_cpu ctx t)" "INTQ_BUFSIZE - 1"
  for ctx t
proof (unfold_locales, goal_cases)
  case (1 q x xs)
  then show ?case using intq_getc_nonempty [OF off_cpu_off 1(1), of ctx t] by (auto simp: try_getc_def)
next
  case (2 q)
  then show ?case by (simp add: try_getc_def intq_getc_empty)
next
  case (3 q x)
  then show ?case using intq_putc_room [OF off_cpu_off 3(1), of ctx t x] by (fastforce simp: try_putc_def)
next
  case (4 q x)
  then show ?case by (simp add: try_putc_def intq_putc_full)
qed

section \<open>Properties\<close>

lemma intq_getc_spec:
  assumes "intq_ok q" "intr_off c"
  shows "case intq_abs q of
           [] \<Rightarrow> intq_getc c q = (if intr_context c then Inl Assert_failed
                                 else Inr (Sleep (set_waiter q Not_empty (Some (current c)))))
         | x # xs \<Rightarrow> \<exists>q'. intq_getc c q = Inr (Return x q' (not_full q)) \<and> intq_ok q' \<and> intq_abs q' = xs
                        \<and> not_full q' = None \<and> not_empty q' = not_empty q"
  using intq_getc_empty [OF assms(1), of c] intq_getc_nonempty [OF assms(2,1)] assms(2)
  by (auto simp: may_wait_def split: list.split)

lemma intq_putc_spec:
  assumes "intq_ok q" "intr_off c"
  shows "if length (intq_abs q) = INTQ_BUFSIZE - 1
         then intq_putc c q b = (if intr_context c then Inl Assert_failed
                                 else Inr (Sleep (set_waiter q Not_full (Some (current c)))))
         else \<exists>q'. intq_putc c q b = Inr (Return () q' (not_empty q)) \<and> intq_ok q'
                \<and> intq_abs q' = intq_abs q @ [b] \<and> not_empty q' = None \<and> not_full q' = not_full q"
proof (cases "length (intq_abs q) = INTQ_BUFSIZE - 1")
  case True
  then show ?thesis using intq_putc_full [OF assms(1), of c b] assms(2) by (simp add: may_wait_def)
next
  case False
  then have "length (intq_abs q) < INTQ_BUFSIZE - 1" using intq_size_less [OF assms(1)] by simp
  then show ?thesis using intq_putc_room [OF assms(2,1), of b] False by simp
qed


definition intq_example :: intq where
  "intq_example = \<lparr>not_full = None, not_empty = Some 7, buf = replicate 64 0, head = 63, tail = 63\<rparr>"

lemma intq_example_ok: "intq_ok intq_example" "intq_abs intq_example = []" "intq_size intq_example = 0"
    "not_empty intq_example = Some 7"
  by (simp_all add: intq_ok_def intq_abs_def intq_size_def intq_example_def INTQ_BUFSIZE_def)


text \<open>bytes come out of an interrupt queue in the order they went in: whatever the buffer
  holds, adding bytes that fit and then removing everything yields the old bytes and then the new.\<close>

theorem intq_fifo:
  assumes "intq_ok q" "length (intq_abs q) + length xs \<le> 63"
  shows "\<exists>q1 q2. feed (try_putc (off_cpu ctx t)) q xs = Some q1
           \<and> drain (try_getc (off_cpu ctx u)) (length (intq_abs q) + length xs) q1 = Some (intq_abs q @ xs, q2)
           \<and> intq_abs q2 = []"
proof -
  obtain q1 where "feed (try_putc (off_cpu ctx t)) q xs = Some q1" "intq_ok q1" "intq_abs q1 = intq_abs q @ xs"
    using iq.feed_fits [OF assms(1), of xs ctx t] assms(2) by (auto simp: INTQ_BUFSIZE_def)
  then show ?thesis using iq.drain_all [of q1 "intq_abs q @ xs" ctx u] by auto
qed

end
