(* ===== verification/Klist.thy ===== *)
theory Klist
  imports Prelude "HOL-Library.Multiset"
begin

text \<open>
  \<^verbatim>\<open>lib/kernel/list.c\<close>: intrusive doubly linked lists with a head and a tail sentinel, modelled at
  the level of pointers. A \<open>heap\<close> maps the address of every \<open>struct list_elem\<close> to its two links, a
  pointer is \<open>None\<close> (null) or an address, and a \<open>struct list\<close> is the pair of addresses of its
  sentinels. A comparison function \<open>lt\<close> (with its auxiliary data) is a relation on addresses: it
  reads the objects that contain the elements, never the links.

  \<open>list_rep h l xs\<close> says that in heap \<open>h\<close> the list \<open>l\<close> holds the elements \<open>xs\<close> in order.
\<close>

section \<open>Elements and pointers\<close>

type_synonym addr = nat
type_synonym ptr = "addr option"

record list_elem =
  e_prev :: ptr
  e_next :: ptr

type_synonym heap = "addr \<Rightarrow> list_elem option"

record klist =
  lhead :: addr
  ltail :: addr

definition load_elem :: "heap \<Rightarrow> ptr \<Rightarrow> list_elem res" where
  "load_elem h p = bind_r (deref p) (\<lambda>a. deref (h a))"

definition store :: "heap \<Rightarrow> ptr \<Rightarrow> (list_elem \<Rightarrow> list_elem) \<Rightarrow> heap res" where
  "store h p f = bind_r (deref p) (\<lambda>a. bind_r (deref (h a)) (\<lambda>e. Inr (h(a \<mapsto> f e))))"

definition set_prev :: "heap \<Rightarrow> ptr \<Rightarrow> ptr \<Rightarrow> heap res" where
  "set_prev h p v = store h p (\<lambda>e. e\<lparr>e_prev := v\<rparr>)"

definition set_next :: "heap \<Rightarrow> ptr \<Rightarrow> ptr \<Rightarrow> heap res" where
  "set_next h p v = store h p (\<lambda>e. e\<lparr>e_next := v\<rparr>)"

definition get_prev :: "heap \<Rightarrow> ptr \<Rightarrow> ptr res" where
  "get_prev h p = bind_r (load_elem h p) (\<lambda>e. Inr (e_prev e))"

definition get_next :: "heap \<Rightarrow> ptr \<Rightarrow> ptr res" where
  "get_next h p = bind_r (load_elem h p) (\<lambda>e. Inr (e_next e))"

definition is_head :: "heap \<Rightarrow> ptr \<Rightarrow> bool res" where
  "is_head h p = (if p = None then Inr False
                  else bind_r (load_elem h p) (\<lambda>e. Inr (e_prev e = None \<and> e_next e \<noteq> None)))"

definition is_interior :: "heap \<Rightarrow> ptr \<Rightarrow> bool res" where
  "is_interior h p = (if p = None then Inr False
                      else bind_r (load_elem h p) (\<lambda>e. Inr (e_prev e \<noteq> None \<and> e_next e \<noteq> None)))"

definition is_tail :: "heap \<Rightarrow> ptr \<Rightarrow> bool res" where
  "is_tail h p = (if p = None then Inr False
                  else bind_r (load_elem h p) (\<lambda>e. Inr (e_prev e \<noteq> None \<and> e_next e = None)))"

text \<open>\<open>ASSERT (a || b)\<close> with conditions that read the heap.\<close>

definition assert_or :: "bool res \<Rightarrow> bool res \<Rightarrow> 'a res \<Rightarrow> 'a res" where
  "assert_or a b k = bind_r a (\<lambda>x. if x then k else bind_r b (\<lambda>y. ASSERT y k))"

definition assert_r :: "bool res \<Rightarrow> 'a res \<Rightarrow> 'a res" where
  "assert_r a k = bind_r a (\<lambda>x. ASSERT x k)"

section \<open>Basic operations\<close>

definition list_init :: "heap \<Rightarrow> klist \<Rightarrow> heap" where
  "list_init h l =
     (h(lhead l \<mapsto> \<lparr>e_prev = None, e_next = Some (ltail l)\<rparr>))
       (ltail l \<mapsto> \<lparr>e_prev = Some (lhead l), e_next = None\<rparr>)"

definition list_begin :: "heap \<Rightarrow> klist \<Rightarrow> ptr res" where
  "list_begin h l = get_next h (Some (lhead l))"

definition list_next :: "heap \<Rightarrow> ptr \<Rightarrow> ptr res" where
  "list_next h p = assert_or (is_head h p) (is_interior h p) (get_next h p)"

definition list_end :: "klist \<Rightarrow> ptr" where
  "list_end l = Some (ltail l)"

definition list_rbegin :: "heap \<Rightarrow> klist \<Rightarrow> ptr res" where
  "list_rbegin h l = get_prev h (Some (ltail l))"

definition list_prev :: "heap \<Rightarrow> ptr \<Rightarrow> ptr res" where
  "list_prev h p = assert_or (is_interior h p) (is_tail h p) (get_prev h p)"

definition list_rend :: "klist \<Rightarrow> ptr" where
  "list_rend l = Some (lhead l)"

definition list_head :: "klist \<Rightarrow> ptr" where
  "list_head l = Some (lhead l)"

definition list_tail :: "klist \<Rightarrow> ptr" where
  "list_tail l = Some (ltail l)"

definition list_insert :: "heap \<Rightarrow> ptr \<Rightarrow> ptr \<Rightarrow> heap res" where
  "list_insert h before elem =
     assert_or (is_interior h before) (is_tail h before) (ASSERT (elem \<noteq> None)
       (bind_r (get_prev h before) (\<lambda>p. bind_r (set_prev h elem p) (\<lambda>h.
        bind_r (set_next h elem before) (\<lambda>h.
        bind_r (get_prev h before) (\<lambda>p. bind_r (set_next h p elem) (\<lambda>h.
        set_prev h before elem)))))))"

definition list_splice :: "heap \<Rightarrow> ptr \<Rightarrow> ptr \<Rightarrow> ptr \<Rightarrow> heap res" where
  "list_splice h before fs lst =
     assert_or (is_interior h before) (is_tail h before)
       (if fs = lst then Inr h
        else bind_r (list_prev h lst) (\<lambda>lst.
          assert_r (is_interior h fs) (assert_r (is_interior h lst)
           (bind_r (get_prev h fs) (\<lambda>fp. bind_r (get_next h lst) (\<lambda>ln. bind_r (set_next h fp ln) (\<lambda>h.
            bind_r (get_next h lst) (\<lambda>ln. bind_r (get_prev h fs) (\<lambda>fp. bind_r (set_prev h ln fp) (\<lambda>h.
            bind_r (get_prev h before) (\<lambda>bp. bind_r (set_prev h fs bp) (\<lambda>h.
            bind_r (set_next h lst before) (\<lambda>h.
            bind_r (get_prev h before) (\<lambda>bp. bind_r (set_next h bp fs) (\<lambda>h.
            set_prev h before lst)))))))))))))))"

definition list_push_front :: "heap \<Rightarrow> klist \<Rightarrow> ptr \<Rightarrow> heap res" where
  "list_push_front h l elem = bind_r (list_begin h l) (\<lambda>b. list_insert h b elem)"

definition list_push_back :: "heap \<Rightarrow> klist \<Rightarrow> ptr \<Rightarrow> heap res" where
  "list_push_back h l elem = list_insert h (list_end l) elem"

definition list_remove :: "heap \<Rightarrow> ptr \<Rightarrow> (heap \<times> ptr) res" where
  "list_remove h elem =
     assert_r (is_interior h elem)
       (bind_r (get_prev h elem) (\<lambda>p. bind_r (get_next h elem) (\<lambda>n. bind_r (set_next h p n) (\<lambda>h.
        bind_r (get_next h elem) (\<lambda>n. bind_r (get_prev h elem) (\<lambda>p. bind_r (set_prev h n p) (\<lambda>h.
        bind_r (get_next h elem) (\<lambda>n. Inr (h, n)))))))))"

definition list_empty :: "heap \<Rightarrow> klist \<Rightarrow> bool res" where
  "list_empty h l = bind_r (list_begin h l) (\<lambda>b. Inr (b = list_end l))"

definition list_front :: "heap \<Rightarrow> klist \<Rightarrow> ptr res" where
  "list_front h l = bind_r (list_empty h l) (\<lambda>e. ASSERT (\<not> e) (get_next h (Some (lhead l))))"

definition list_back :: "heap \<Rightarrow> klist \<Rightarrow> ptr res" where
  "list_back h l = bind_r (list_empty h l) (\<lambda>e. ASSERT (\<not> e) (get_prev h (Some (ltail l))))"

definition list_pop_front :: "heap \<Rightarrow> klist \<Rightarrow> (heap \<times> ptr) res" where
  "list_pop_front h l =
     bind_r (list_front h l) (\<lambda>front. bind_r (list_remove h front) (\<lambda>(h, _). Inr (h, front)))"

definition list_pop_back :: "heap \<Rightarrow> klist \<Rightarrow> (heap \<times> ptr) res" where
  "list_pop_back h l =
     bind_r (list_back h l) (\<lambda>back. bind_r (list_remove h back) (\<lambda>(h, _). Inr (h, back)))"

section \<open>Operations with loops\<close>

definition list_size :: "heap \<Rightarrow> klist \<Rightarrow> nat res" where
  "list_size h l =
     bind_r (list_begin h l) (\<lambda>e.
     bind_r (while_r (\<lambda>(e, cnt). Inr (e \<noteq> list_end l))
               (\<lambda>(e, cnt). bind_r (list_next h e) (\<lambda>e'. Inr (e', add32 cnt 1))) (e, 0))
       (\<lambda>(e, cnt). Inr cnt))"

text \<open>\<open>swap (&e->prev, &e->next)\<close>.\<close>

definition swap_links :: "heap \<Rightarrow> ptr \<Rightarrow> heap res" where
  "swap_links h p = store h p (\<lambda>e. \<lparr>e_prev = e_next e, e_next = e_prev e\<rparr>)"

definition list_reverse :: "heap \<Rightarrow> klist \<Rightarrow> heap res" where
  "list_reverse h l =
     bind_r (list_empty h l) (\<lambda>em. if em then Inr h else
     bind_r (list_begin h l) (\<lambda>e.
     bind_r (while_r (\<lambda>(h, e). Inr (e \<noteq> list_end l))
               (\<lambda>(h, e). bind_r (swap_links h e) (\<lambda>h. bind_r (get_prev h e) (\<lambda>e'. Inr (h, e')))) (h, e))
       (\<lambda>(h, e).
        bind_r (get_next h (Some (lhead l))) (\<lambda>hn. bind_r (get_prev h (Some (ltail l))) (\<lambda>tp.
        bind_r (set_next h (Some (lhead l)) tp) (\<lambda>h. bind_r (set_prev h (Some (ltail l)) hn) (\<lambda>h.
        bind_r (get_next h (Some (lhead l))) (\<lambda>hn. bind_r (get_prev h (Some (ltail l))) (\<lambda>tp.
        bind_r (get_prev h hn) (\<lambda>a. bind_r (get_next h tp) (\<lambda>b.
        bind_r (set_prev h hn b) (\<lambda>h. set_next h tp a))))))))))))"

text \<open>Calling a comparison function on two pointers.\<close>

definition call_less :: "(addr \<Rightarrow> addr \<Rightarrow> bool) \<Rightarrow> ptr \<Rightarrow> ptr \<Rightarrow> bool res" where
  "call_less lt p q = bind_r (deref p) (\<lambda>a. bind_r (deref q) (\<lambda>b. Inr (lt a b)))"

text \<open>The loop state of \<open>is_sorted\<close> is the element and the result, once known.\<close>

definition is_sorted :: "heap \<Rightarrow> ptr \<Rightarrow> ptr \<Rightarrow> (addr \<Rightarrow> addr \<Rightarrow> bool) \<Rightarrow> bool res" where
  "is_sorted h a b lt =
     (if a \<noteq> b
      then bind_r (while_r (\<lambda>(a, r). Inr (r = None))
                     (\<lambda>(a, r). bind_r (list_next h a) (\<lambda>a'.
                        if a' \<noteq> b
                        then bind_r (list_prev h a') (\<lambda>p. bind_r (call_less lt a' p) (\<lambda>c.
                               Inr (a', if c then Some False else None)))
                        else Inr (a', Some True)))
                     (a, None))
             (\<lambda>(a, r). Inr (r = Some True))
      else Inr True)"

definition find_end_of_run :: "heap \<Rightarrow> ptr \<Rightarrow> ptr \<Rightarrow> (addr \<Rightarrow> addr \<Rightarrow> bool) \<Rightarrow> ptr res" where
  "find_end_of_run h a b lt =
     ASSERT (a \<noteq> None) (ASSERT (b \<noteq> None) (ASSERT (a \<noteq> b)
       (bind_r (while_r (\<lambda>(a, go). Inr go)
                  (\<lambda>(a, go). bind_r (list_next h a) (\<lambda>a'.
                     if a' \<noteq> b
                     then bind_r (list_prev h a') (\<lambda>p. bind_r (call_less lt a' p) (\<lambda>c. Inr (a', \<not> c)))
                     else Inr (a', False)))
                  (a, True))
          (\<lambda>(a, go). Inr a))))"

definition inplace_merge :: "heap \<Rightarrow> ptr \<Rightarrow> ptr \<Rightarrow> ptr \<Rightarrow> (addr \<Rightarrow> addr \<Rightarrow> bool) \<Rightarrow> heap res" where
  "inplace_merge h a0 a1b0 b1 lt =
     ASSERT (a0 \<noteq> None) (ASSERT (a1b0 \<noteq> None) (ASSERT (b1 \<noteq> None)
      (assert_r (is_sorted h a0 a1b0 lt) (assert_r (is_sorted h a1b0 b1 lt)
       (bind_r (while_r (\<lambda>(h, a0, a1b0). Inr (a0 \<noteq> a1b0 \<and> a1b0 \<noteq> b1))
                  (\<lambda>(h, a0, a1b0). bind_r (call_less lt a1b0 a0) (\<lambda>c.
                     if \<not> c then bind_r (list_next h a0) (\<lambda>a0. Inr (h, a0, a1b0))
                     else bind_r (list_next h a1b0) (\<lambda>a1b0.
                          bind_r (list_prev h a1b0) (\<lambda>p.
                          bind_r (list_splice h a0 p a1b0) (\<lambda>h. Inr (h, a0, a1b0))))))
                  (h, a0, a1b0))
          (\<lambda>(h, a0, a1b0). Inr h))))))"

text \<open>The inner loop of \<open>list_sort\<close>. Its state is the heap, \<open>a0\<close>, the run count and whether \<open>break\<close>
  was executed.\<close>

definition pass_cond :: "klist \<Rightarrow> heap \<times> ptr \<times> nat \<times> bool \<Rightarrow> bool res" where
  "pass_cond l = (\<lambda>(h, a0, cnt, brk). Inr (\<not> brk \<and> a0 \<noteq> list_end l))"

definition pass_body :: "klist \<Rightarrow> (addr \<Rightarrow> addr \<Rightarrow> bool) \<Rightarrow> heap \<times> ptr \<times> nat \<times> bool \<Rightarrow> (heap \<times> ptr \<times> nat \<times> bool) res" where
  "pass_body l lt = (\<lambda>(h, a0, cnt, brk).
     bind_r (find_end_of_run h a0 (list_end l) lt) (\<lambda>a1b0.
     if a1b0 = list_end l then Inr (h, a0, add32 cnt 1, True)
     else bind_r (find_end_of_run h a1b0 (list_end l) lt) (\<lambda>b1.
          bind_r (inplace_merge h a0 a1b0 b1 lt) (\<lambda>h. Inr (h, b1, add32 cnt 1, False)))))"

definition sort_pass :: "heap \<Rightarrow> klist \<Rightarrow> (addr \<Rightarrow> addr \<Rightarrow> bool) \<Rightarrow> (heap \<times> nat) res" where
  "sort_pass h l lt =
     bind_r (list_begin h l) (\<lambda>a0.
     bind_r (while_r (pass_cond l) (pass_body l lt) (h, a0, 0, False)) (\<lambda>(h, a0, cnt, brk). Inr (h, cnt)))"

definition list_sort :: "heap \<Rightarrow> klist \<Rightarrow> (addr \<Rightarrow> addr \<Rightarrow> bool) \<Rightarrow> heap res" where
  "list_sort h l lt =
     bind_r (sort_pass h l lt) (\<lambda>s.
     bind_r (while_r (\<lambda>(h, cnt). Inr (cnt > 1)) (\<lambda>(h, cnt). sort_pass h l lt) s) (\<lambda>(h, cnt).
     bind_r (list_begin h l) (\<lambda>b. assert_r (is_sorted h b (list_end l) lt) (Inr h))))"

definition list_insert_ordered :: "heap \<Rightarrow> klist \<Rightarrow> ptr \<Rightarrow> (addr \<Rightarrow> addr \<Rightarrow> bool) \<Rightarrow> heap res" where
  "list_insert_ordered h l elem lt =
     ASSERT (elem \<noteq> None)
       (bind_r (list_begin h l) (\<lambda>e.
        bind_r (while_r (\<lambda>(e, brk). Inr (\<not> brk \<and> e \<noteq> list_end l))
                  (\<lambda>(e, brk). bind_r (call_less lt elem e) (\<lambda>c.
                     if c then Inr (e, True) else bind_r (list_next h e) (\<lambda>e. Inr (e, False))))
                  (e, False))
          (\<lambda>(e, brk). list_insert h e elem)))"

definition unique_cond :: "klist \<Rightarrow> heap \<times> ptr \<Rightarrow> bool res" where
  "unique_cond l = (\<lambda>(h, elem). bind_r (list_next h elem) (\<lambda>n. Inr (n \<noteq> list_end l)))"

definition unique_body :: "klist option \<Rightarrow> (addr \<Rightarrow> addr \<Rightarrow> bool) \<Rightarrow> heap \<times> ptr \<Rightarrow> (heap \<times> ptr) res" where
  "unique_body duplicates lt = (\<lambda>(h, elem). bind_r (list_next h elem) (\<lambda>n.
     bind_r (call_less lt elem n) (\<lambda>c1. bind_r (call_less lt n elem) (\<lambda>c2.
     if \<not> c1 \<and> \<not> c2
     then bind_r (list_remove h n) (\<lambda>(h, _).
          case duplicates of None \<Rightarrow> Inr (h, elem)
          | Some d \<Rightarrow> bind_r (list_push_back h d n) (\<lambda>h. Inr (h, elem)))
     else Inr (h, n)))))"

definition list_unique :: "heap \<Rightarrow> klist \<Rightarrow> klist option \<Rightarrow> (addr \<Rightarrow> addr \<Rightarrow> bool) \<Rightarrow> heap res" where
  "list_unique h l duplicates lt =
     bind_r (list_empty h l) (\<lambda>em. if em then Inr h else
     bind_r (list_begin h l) (\<lambda>elem.
     bind_r (while_r (unique_cond l) (unique_body duplicates lt) (h, elem)) (\<lambda>(h, elem). Inr h)))"

definition list_max :: "heap \<Rightarrow> klist \<Rightarrow> (addr \<Rightarrow> addr \<Rightarrow> bool) \<Rightarrow> ptr res" where
  "list_max h l lt =
     bind_r (list_begin h l) (\<lambda>mx.
     if mx \<noteq> list_end l
     then bind_r (list_next h mx) (\<lambda>e.
          bind_r (while_r (\<lambda>(e, mx). Inr (e \<noteq> list_end l))
                    (\<lambda>(e, mx). bind_r (call_less lt mx e) (\<lambda>c.
                       bind_r (list_next h e) (\<lambda>e'. Inr (e', if c then e else mx))))
                    (e, mx))
            (\<lambda>(e, mx). Inr mx))
     else Inr mx)"

definition list_min :: "heap \<Rightarrow> klist \<Rightarrow> (addr \<Rightarrow> addr \<Rightarrow> bool) \<Rightarrow> ptr res" where
  "list_min h l lt =
     bind_r (list_begin h l) (\<lambda>mn.
     if mn \<noteq> list_end l
     then bind_r (list_next h mn) (\<lambda>e.
          bind_r (while_r (\<lambda>(e, mn). Inr (e \<noteq> list_end l))
                    (\<lambda>(e, mn). bind_r (call_less lt e mn) (\<lambda>c.
                       bind_r (list_next h e) (\<lambda>e'. Inr (e', if c then e else mn))))
                    (e, mn))
            (\<lambda>(e, mn). Inr mn))
     else Inr mn)"

section \<open>Segments of doubly linked elements\<close>

definition first_or :: "addr list \<Rightarrow> ptr \<Rightarrow> ptr" where
  "first_or xs q = (case xs of [] \<Rightarrow> q | x # _ \<Rightarrow> Some x)"

definition last_or :: "addr list \<Rightarrow> ptr \<Rightarrow> ptr" where
  "last_or xs p = (if xs = [] then p else Some (last xs))"

lemma first_or_simps [simp]:
  "first_or [] q = q" "first_or (x # xs) q = Some x" "first_or (xs @ ys) q = first_or xs (first_or ys q)"
  by (simp_all add: first_or_def split: list.split)

lemma last_or_simps [simp]:
  "last_or [] p = p" "last_or (xs @ [x]) p = Some x" "last_or (x # xs) p = last_or xs (Some x)"
  by (simp_all add: last_or_def)

lemma last_or_append [simp]: "last_or (xs @ ys) p = last_or ys (last_or xs p)"
  by (simp add: last_or_def)

text \<open>The elements \<open>xs\<close> are linked in order, \<open>p\<close> is the link to the left of them and \<open>q\<close> the one to the
  right.\<close>

primrec dll :: "heap \<Rightarrow> ptr \<Rightarrow> addr list \<Rightarrow> ptr \<Rightarrow> bool" where
  "dll h p [] q = True"
| "dll h p (x # xs) q = (h x = Some \<lparr>e_prev = p, e_next = first_or xs q\<rparr> \<and> dll h (Some x) xs q)"

lemma dll_append [simp]:
  "dll h p (xs @ ys) q \<longleftrightarrow> dll h p xs (first_or ys q) \<and> dll h (last_or xs p) ys q"
  by (induction xs arbitrary: p) auto

lemma dll_upd [simp]: "a \<notin> set xs \<Longrightarrow> dll (h(a := v)) p xs q = dll h p xs q"
  by (induction xs arbitrary: p) auto

lemma dll_cong: "(\<And>a. a \<in> set xs \<Longrightarrow> h' a = h a) \<Longrightarrow> dll h' p xs q = dll h p xs q"
  by (induction xs arbitrary: p) auto

definition nodes :: "klist \<Rightarrow> addr list \<Rightarrow> addr list" where
  "nodes l xs = lhead l # xs @ [ltail l]"

definition list_rep :: "heap \<Rightarrow> klist \<Rightarrow> addr list \<Rightarrow> bool" where
  "list_rep h l xs \<longleftrightarrow> dll h None (nodes l xs) None \<and> distinct (nodes l xs)"

text \<open>\<open>h'\<close> differs from \<open>h\<close> at the addresses in \<open>S\<close> only.\<close>

definition same_outside :: "addr set \<Rightarrow> heap \<Rightarrow> heap \<Rightarrow> bool" where
  "same_outside S h h' \<longleftrightarrow> (\<forall>a. a \<notin> S \<longrightarrow> h' a = h a)"

lemma same_outside_trans:
  "same_outside S h1 h2 \<Longrightarrow> same_outside T h2 h3 \<Longrightarrow> S \<subseteq> U \<Longrightarrow> T \<subseteq> U \<Longrightarrow> same_outside U h1 h3"
  unfolding same_outside_def by (metis subsetD)

lemma same_outside_mono: "same_outside S h1 h2 \<Longrightarrow> S \<subseteq> U \<Longrightarrow> same_outside U h1 h2"
  by (auto simp: same_outside_def)

lemma list_rep_frame:
  "list_rep h l xs \<Longrightarrow> same_outside S h h' \<Longrightarrow> set (nodes l xs) \<inter> S = {} \<Longrightarrow> list_rep h' l xs"
  unfolding list_rep_def same_outside_def
  by (subst dll_cong [of "nodes l xs" h' h]) auto

section \<open>Evaluation of the primitives\<close>

named_theorems link_simps \<open>evaluation of link accesses\<close>

lemma get_links [link_simps]:
  assumes "h a = Some e"
  shows "get_prev h (Some a) = Inr (e_prev e)" "get_next h (Some a) = Inr (e_next e)"
    "is_head h (Some a) = Inr (e_prev e = None \<and> e_next e \<noteq> None)"
    "is_interior h (Some a) = Inr (e_prev e \<noteq> None \<and> e_next e \<noteq> None)"
    "is_tail h (Some a) = Inr (e_prev e \<noteq> None \<and> e_next e = None)"
  using assms by (simp_all add: get_prev_def get_next_def load_elem_def is_head_def is_interior_def is_tail_def)

lemma set_links [link_simps]:
  assumes "h a = Some e"
  shows "set_prev h (Some a) v = Inr (h(a \<mapsto> e\<lparr>e_prev := v\<rparr>))"
    "set_next h (Some a) v = Inr (h(a \<mapsto> e\<lparr>e_next := v\<rparr>))"
    "swap_links h (Some a) = Inr (h(a \<mapsto> \<lparr>e_prev = e_next e, e_next = e_prev e\<rparr>))"
  using assms by (simp_all add: set_prev_def set_next_def store_def swap_links_def)

lemma assert_simps [link_simps]:
  "assert_or (Inr x) (Inr y) k = ASSERT (x \<or> y) k" "assert_r (Inr x) k = ASSERT x k"
  by (auto simp: assert_or_def assert_r_def ASSERT_def)

lemma call_less_simp [link_simps]: "call_less lt (Some a) (Some b) = Inr (lt a b)"
  by (simp add: call_less_def)

lemma list_next_eq [link_simps]:
  "h a = Some e \<Longrightarrow> list_next h (Some a) = ASSERT (e_next e \<noteq> None) (Inr (e_next e))"
  by (auto simp: list_next_def link_simps ASSERT_def)

lemma list_prev_eq [link_simps]:
  "h a = Some e \<Longrightarrow> list_prev h (Some a) = ASSERT (e_prev e \<noteq> None) (Inr (e_prev e))"
  by (auto simp: list_prev_def link_simps ASSERT_def)

section \<open>Insertion and removal\<close>

lemma list_insert_dll:
  assumes "dll h None (us @ p # b # vs) None" "distinct (us @ p # b # vs)"
    and "e \<notin> set (us @ p # b # vs)" "h e \<noteq> None"
  shows "\<exists>h'. list_insert h (Some b) (Some e) = Inr h' \<and> dll h' None (us @ p # e # b # vs) None
           \<and> same_outside {p, e, b} h h'"
proof -
  obtain n where "h e = Some n" using assms(4) by auto
  moreover define h' where "h' = h(e \<mapsto> n\<lparr>e_prev := Some p, e_next := Some b\<rparr>,
     p \<mapsto> \<lparr>e_prev = last_or us None, e_next = Some e\<rparr>, b \<mapsto> \<lparr>e_prev = Some e, e_next = first_or vs None\<rparr>)"
  ultimately have "list_insert h (Some b) (Some e) = Inr h'"
    using assms(1,2,3) by (auto simp: list_insert_def link_simps ASSERT_def)
  moreover have "dll h' None (us @ p # e # b # vs) None"
    using assms(1,2,3) by (auto simp: h'_def)
  moreover have "same_outside {p, e, b} h h'" by (simp add: same_outside_def h'_def)
  ultimately show ?thesis by blast
qed

lemma list_remove_dll:
  assumes "dll h None (us @ p # e # n # vs) None" "distinct (us @ p # e # n # vs)"
  shows "\<exists>h'. list_remove h (Some e) = Inr (h', Some n) \<and> dll h' None (us @ p # n # vs) None
           \<and> same_outside {p, n} h h' \<and> h' e = h e"
proof -
  define h' where "h' = h(p \<mapsto> \<lparr>e_prev = last_or us None, e_next = Some n\<rparr>,
     n \<mapsto> \<lparr>e_prev = Some p, e_next = first_or vs None\<rparr>)"
  then have "list_remove h (Some e) = Inr (h', Some n)"
    using assms by (auto simp: list_remove_def link_simps)
  moreover have "dll h' None (us @ p # n # vs) None"
    using assms by (auto simp: h'_def)
  moreover have "same_outside {p, n} h h'" by (simp add: same_outside_def h'_def)
  moreover have "h' e = h e" using assms(2) by (auto simp: h'_def)
  ultimately show ?thesis by blast
qed

lemma split_at_node:
  obtains us' p b vs' where "lhead l # us = us' @ [p]" "vs @ [ltail l] = b # vs'"
    "nodes l (us @ vs) = us' @ p # b # vs'" "first_or vs (list_end l) = Some b"
proof -
  obtain us' p where u: "lhead l # us = us' @ [p]" by (metis list.distinct(1) rev_exhaust)
  obtain b vs' where v: "vs @ [ltail l] = b # vs'" by (metis append_is_Nil_conv list.distinct(1) neq_Nil_conv)
  have "nodes l (us @ vs) = (lhead l # us) @ (vs @ [ltail l])" by (simp add: nodes_def)
  then have "nodes l (us @ vs) = us' @ p # b # vs'" unfolding u v by simp
  moreover have "first_or vs (list_end l) = Some b" using v by (cases vs) (auto simp: list_end_def)
  ultimately show thesis using that u v by blast
qed

lemma nodes_insert: "set (nodes l (us @ e # vs)) = insert e (set (nodes l (us @ vs)))"
  by (auto simp: nodes_def)

lemma list_insert_rep:
  assumes "list_rep h l (us @ vs)" "e \<notin> set (nodes l (us @ vs))" "h e \<noteq> None"
  shows "\<exists>h'. list_insert h (first_or vs (list_end l)) (Some e) = Inr h' \<and> list_rep h' l (us @ e # vs)
           \<and> same_outside (set (nodes l (us @ e # vs))) h h'"
proof -
  obtain us' p b vs' where s: "lhead l # us = us' @ [p]" "vs @ [ltail l] = b # vs'"
      "nodes l (us @ vs) = us' @ p # b # vs'" "first_or vs (list_end l) = Some b"
    by (rule split_at_node)
  obtain h' where h': "list_insert h (Some b) (Some e) = Inr h'" "dll h' None (us' @ p # e # b # vs') None"
      "same_outside {p, e, b} h h'"
    using list_insert_dll [of h us' p b vs' e] assms unfolding list_rep_def s(3) by blast
  have n: "nodes l (us @ e # vs) = us' @ p # e # b # vs'" using s(1,2) by (simp add: nodes_def)
  have "list_rep h' l (us @ e # vs)"
    using h'(2) assms(1,2) unfolding list_rep_def s(3) n by auto
  moreover have "same_outside (set (nodes l (us @ e # vs))) h h'"
    by (rule same_outside_mono [OF h'(3)]) (simp add: n)
  ultimately show ?thesis using h'(1) s(4) by auto
qed

lemma list_remove_rep:
  assumes "list_rep h l (us @ e # vs)"
  shows "\<exists>h'. list_remove h (Some e) = Inr (h', first_or vs (list_end l)) \<and> list_rep h' l (us @ vs)
           \<and> same_outside (set (nodes l (us @ vs))) h h' \<and> h' e = h e"
proof -
  obtain us' p b vs' where s: "lhead l # us = us' @ [p]" "vs @ [ltail l] = b # vs'"
      "nodes l (us @ vs) = us' @ p # b # vs'" "first_or vs (list_end l) = Some b"
    by (rule split_at_node)
  have n: "nodes l (us @ e # vs) = us' @ p # e # b # vs'" using s(1,2) by (simp add: nodes_def)
  obtain h' where h': "list_remove h (Some e) = Inr (h', Some b)" "dll h' None (us' @ p # b # vs') None"
      "same_outside {p, b} h h'" "h' e = h e"
    using list_remove_dll [of h us' p e b vs'] assms unfolding list_rep_def n by blast
  have "list_rep h' l (us @ vs)"
    using h'(2) assms unfolding list_rep_def s(3) n by auto
  moreover have "same_outside (set (nodes l (us @ vs))) h h'"
    by (rule same_outside_mono [OF h'(3)]) (simp add: s(3))
  ultimately show ?thesis using h'(1,4) s(4) by auto
qed

lemma list_init_rep: "lhead l \<noteq> ltail l \<Longrightarrow> list_rep (list_init h l) l []"
  by (simp add: list_rep_def nodes_def list_init_def)

lemma list_begin_rep: "list_rep h l xs \<Longrightarrow> list_begin h l = Inr (first_or xs (list_end l))"
  by (cases xs) (auto simp: list_rep_def nodes_def list_begin_def link_simps list_end_def)

lemma list_rbegin_rep: "list_rep h l xs \<Longrightarrow> list_rbegin h l = Inr (last_or xs (list_rend l))"
  by (auto simp: list_rep_def nodes_def list_rbegin_def link_simps list_rend_def)

lemma list_empty_rep: "list_rep h l xs \<Longrightarrow> list_empty h l = Inr (xs = [])"
  unfolding list_empty_def
  by (subst list_begin_rep, assumption) (cases xs, auto simp: list_end_def list_rep_def nodes_def)

lemma list_front_rep: "list_rep h l xs \<Longrightarrow> list_front h l = ASSERT (xs \<noteq> []) (Inr (first_or xs None))"
  using list_begin_rep [of h l xs]
  by (cases xs) (auto simp: list_front_def list_empty_rep list_begin_def ASSERT_def)

lemma list_back_rep: "list_rep h l xs \<Longrightarrow> list_back h l = ASSERT (xs \<noteq> []) (Inr (last_or xs None))"
  using list_rbegin_rep [of h l xs]
  by (cases xs rule: rev_cases) (auto simp: list_back_def list_empty_rep list_rbegin_def ASSERT_def)

lemma list_push_front_rep:
  assumes "list_rep h l xs" "e \<notin> set (nodes l xs)" "h e \<noteq> None"
  shows "\<exists>h'. list_push_front h l (Some e) = Inr h' \<and> list_rep h' l (e # xs)
           \<and> same_outside (set (nodes l (e # xs))) h h'"
  using list_insert_rep [of h l "[]" xs e] assms by (simp add: list_push_front_def list_begin_rep)

lemma list_push_back_rep:
  assumes "list_rep h l xs" "e \<notin> set (nodes l xs)" "h e \<noteq> None"
  shows "\<exists>h'. list_push_back h l (Some e) = Inr h' \<and> list_rep h' l (xs @ [e])
           \<and> same_outside (set (nodes l (xs @ [e]))) h h'"
  using list_insert_rep [of h l xs "[]" e] assms by (simp add: list_push_back_def)

lemma list_pop_front_rep:
  assumes "list_rep h l (e # xs)"
  shows "\<exists>h'. list_pop_front h l = Inr (h', Some e) \<and> list_rep h' l xs
           \<and> same_outside (set (nodes l xs)) h h' \<and> h' e = h e"
  using list_remove_rep [of h l "[]" e xs] assms by (auto simp: list_pop_front_def list_front_rep)

lemma list_pop_back_rep:
  assumes "list_rep h l (xs @ [e])"
  shows "\<exists>h'. list_pop_back h l = Inr (h', Some e) \<and> list_rep h' l xs
           \<and> same_outside (set (nodes l xs)) h h' \<and> h' e = h e"
  using list_remove_rep [of h l xs e "[]"] assms by (auto simp: list_pop_back_def list_back_rep)

lemma list_rep_alloc: "list_rep h l xs \<Longrightarrow> x \<in> set (nodes l xs) \<Longrightarrow> h x \<noteq> None"
proof -
  have "dll h p ys q \<Longrightarrow> x \<in> set ys \<Longrightarrow> h x \<noteq> None" for p ys q
    by (induction ys arbitrary: p) auto
  then show "list_rep h l xs \<Longrightarrow> x \<in> set (nodes l xs) \<Longrightarrow> h x \<noteq> None"
    by (auto simp: list_rep_def)
qed

lemma list_rep_next:
  assumes "list_rep h l (us @ v # vs)"
  shows "list_next h (Some v) = Inr (first_or vs (list_end l))"
    and "list_prev h (Some v) = Inr (last_or us (list_rend l))"
    and "Some v \<noteq> list_end l"
  using assms
  by (auto simp: list_rep_def nodes_def link_simps list_end_def list_rend_def last_or_def first_or_def split: list.split)

lemma list_rep_ends:
  assumes "list_rep h l xs"
  shows "list_next h (list_head l) = Inr (first_or xs (list_end l))"
    and "list_prev h (list_end l) = Inr (last_or xs (list_rend l))"
  using assms
  by (auto simp: list_rep_def nodes_def link_simps list_end_def list_rend_def list_head_def last_or_def first_or_def split: list.split)

lemma list_prev_first:
  assumes "list_rep h l (us @ v # vs)"
  shows "list_prev h (first_or vs (list_end l)) = Inr (Some v)"
proof (cases vs)
  case Nil
  then show ?thesis using list_rep_ends(2) [of h l "us @ [v]"] assms by simp
next
  case (Cons w ws)
  then show ?thesis using list_rep_next(2) [of h l "us @ [v]" w ws] assms by simp
qed

text \<open>Two positions of a list are the same node only if they are the same position.\<close>

lemma first_or_eq_iff:
  assumes "list_rep h l (us @ ms @ vs)"
  shows "first_or (ms @ vs) (list_end l) = first_or vs (list_end l) \<longleftrightarrow> ms = []"
  using assms by (cases ms; cases vs) (auto simp: list_rep_def nodes_def list_end_def)

section \<open>The list contract\<close>

text \<open>What the users of a list (ready queue, waiting threads, buckets) rely on. \<open>foot l xs\<close> are the
  addresses a list with the elements \<open>xs\<close> occupies; operations on a list leave everything else
  alone, so that several lists live in one heap.\<close>

locale linked_list =
  fixes rep :: "'h \<Rightarrow> 'l \<Rightarrow> 'e list \<Rightarrow> bool"
    and foot :: "'l \<Rightarrow> 'e list \<Rightarrow> 'e set"
    and valid :: "'h \<Rightarrow> 'e \<Rightarrow> bool"
    and push_back :: "'h \<Rightarrow> 'l \<Rightarrow> 'e \<Rightarrow> 'h res"
    and pop_front :: "'h \<Rightarrow> 'l \<Rightarrow> ('h \<times> 'e option) res"
    and frame :: "'e set \<Rightarrow> 'h \<Rightarrow> 'h \<Rightarrow> bool"
  assumes push: "rep h l xs \<Longrightarrow> e \<notin> foot l xs \<Longrightarrow> valid h e \<Longrightarrow>
            \<exists>h'. push_back h l e = Inr h' \<and> rep h' l (xs @ [e]) \<and> frame (foot l (xs @ [e])) h h'"
    and pop: "rep h l (e # xs) \<Longrightarrow>
            \<exists>h'. pop_front h l = Inr (h', Some e) \<and> rep h' l xs \<and> valid h' e \<and> frame (foot l xs) h h'"
    and rep_frame: "rep h l xs \<Longrightarrow> frame S h h' \<Longrightarrow> foot l xs \<inter> S = {} \<Longrightarrow> rep h' l xs"
    and foot_Cons: "foot l (e # xs) = insert e (foot l xs)"
    and foot_snoc: "foot l (xs @ [e]) = insert e (foot l xs)"
    and foot_fresh: "rep h l (e # xs) \<Longrightarrow> e \<notin> foot l xs"
begin

text \<open>Taking the first element and appending it again rotates the list: round robin.\<close>

lemma rotate:
  assumes "rep h l (e # xs)"
  shows "\<exists>h1 h2. pop_front h l = Inr (h1, Some e) \<and> push_back h1 l e = Inr h2 \<and> rep h2 l (xs @ [e])"
  using pop [OF assms] push foot_fresh [OF assms] by blast

text \<open>Moving the first element of one list to the end of another.\<close>

lemma transfer:
  assumes "rep h l (e # xs)" "rep h m ys" "foot l (e # xs) \<inter> foot m ys = {}"
  shows "\<exists>h1 h2. pop_front h l = Inr (h1, Some e) \<and> push_back h1 m e = Inr h2 \<and> rep h2 l xs \<and> rep h2 m (ys @ [e])"
proof -
  obtain h1 where h1: "pop_front h l = Inr (h1, Some e)" "rep h1 l xs" "valid h1 e" "frame (foot l xs) h h1"
    using pop [OF assms(1)] by blast
  have "rep h1 m ys" using rep_frame [OF assms(2) h1(4)] assms(3) by (auto simp: foot_Cons)
  moreover have "e \<notin> foot m ys" using assms(3) by (auto simp: foot_Cons)
  ultimately obtain h2 where h2: "push_back h1 m e = Inr h2" "rep h2 m (ys @ [e])" "frame (foot m (ys @ [e])) h1 h2"
    using push h1(3) by blast
  have "rep h2 l xs"
    using rep_frame [OF h1(2) h2(3)] assms(3) foot_fresh [OF assms(1)] by (auto simp: foot_Cons foot_snoc)
  then show ?thesis using h1(1) h2(1,2) by blast
qed

end

interpretation kl: linked_list list_rep "\<lambda>l xs. set (nodes l xs)" "\<lambda>h e. h e \<noteq> None"
  "\<lambda>h l e. list_push_back h l (Some e)" list_pop_front same_outside
proof (unfold_locales, goal_cases)
  case (1 h l xs e)
  then show ?case by (rule list_push_back_rep)
next
  case (2 h l e xs)
  then have "h e \<noteq> None" by (rule list_rep_alloc) (simp add: nodes_def)
  then show ?case using list_pop_front_rep [OF 2] by auto
next
  case (3 h l xs S h')
  then show ?case by (rule list_rep_frame)
qed (auto simp: nodes_def list_rep_def)

end
