(* ===== verification/KlistSort.thy ===== *)
theory KlistSort
  imports Klist
begin

text \<open>
  The operations of \<^verbatim>\<open>lib/kernel/list.c\<close> that walk over a list: each pointer loop is shown to end and
  to compute a function of the represented sequence. \<open>list_sort\<close> is shown to be a stable sort.
\<close>

section \<open>Counting and searching\<close>

lemma size_loop:
  assumes "list_rep h l (us @ vs)" "c < u32_mod"
  shows "while_r (\<lambda>(e, cnt). Inr (e \<noteq> list_end l))
           (\<lambda>(e, cnt). bind_r (list_next h e) (\<lambda>e'. Inr (e', add32 cnt 1))) (first_or vs (list_end l), c)
         = Inr (list_end l, (c + length vs) mod u32_mod)"
  using assms
proof (induction vs arbitrary: us c)
  case Nil
  then show ?case by (subst while_r_unfold) simp
next
  case (Cons v vs)
  note n = list_rep_next [OF Cons.prems(1)]
  have "(add32 c 1 + length vs) mod u32_mod = (c + length (v # vs)) mod u32_mod"
    unfolding add32_def by (simp add: mod_add_left_eq)
  then show ?case
    using Cons.IH [of "us @ [v]" "add32 c 1"] Cons.prems(1) n by (subst while_r_unfold) simp
qed

lemma list_size_rep: "list_rep h l xs \<Longrightarrow> list_size h l = Inr (length xs mod u32_mod)"
  using size_loop [of h l "[]" xs 0] by (simp add: list_size_def list_begin_rep)

text \<open>\<open>list_max\<close> and \<open>list_min\<close> pick the first extremal element.\<close>

definition pick :: "(addr \<Rightarrow> addr \<Rightarrow> bool) \<Rightarrow> addr \<Rightarrow> addr list \<Rightarrow> addr" where
  "pick better x xs = foldl (\<lambda>m y. if better m y then y else m) x xs"

lemma max_loop:
  assumes "list_rep h l (us @ vs)"
  shows "while_r (\<lambda>(e, mx). Inr (e \<noteq> list_end l))
           (\<lambda>(e, mx). bind_r (call_less lt mx e) (\<lambda>c. bind_r (list_next h e) (\<lambda>e'. Inr (e', if c then e else mx))))
           (first_or vs (list_end l), Some m)
         = Inr (list_end l, Some (pick lt m vs))"
  using assms
proof (induction vs arbitrary: us m)
  case Nil
  then show ?case by (subst while_r_unfold) (simp add: pick_def)
next
  case (Cons v vs)
  note n = list_rep_next [OF Cons.prems]
  show ?case
    using Cons.IH [of "us @ [v]" "if lt m v then v else m"] Cons.prems n
    by (subst while_r_unfold) (simp add: link_simps pick_def split: if_splits)
qed

lemma min_loop:
  assumes "list_rep h l (us @ vs)"
  shows "while_r (\<lambda>(e, mn). Inr (e \<noteq> list_end l))
           (\<lambda>(e, mn). bind_r (call_less lt e mn) (\<lambda>c. bind_r (list_next h e) (\<lambda>e'. Inr (e', if c then e else mn))))
           (first_or vs (list_end l), Some m)
         = Inr (list_end l, Some (pick (\<lambda>m y. lt y m) m vs))"
  using assms
proof (induction vs arbitrary: us m)
  case Nil
  then show ?case by (subst while_r_unfold) (simp add: pick_def)
next
  case (Cons v vs)
  note n = list_rep_next [OF Cons.prems]
  show ?case
    using Cons.IH [of "us @ [v]" "if lt v m then v else m"] Cons.prems n
    by (subst while_r_unfold) (simp add: link_simps pick_def split: if_splits)
qed

lemma list_max_rep:
  "list_rep h l xs \<Longrightarrow>
     list_max h l lt = Inr (case xs of [] \<Rightarrow> list_end l | x # xs \<Rightarrow> Some (pick lt x xs))"
  using max_loop [of h l "[hd xs]" "tl xs" lt "hd xs"] list_rep_next [of h l "[]" "hd xs" "tl xs"]
  by (cases xs) (auto simp: list_max_def list_begin_rep)

lemma list_min_rep:
  "list_rep h l xs \<Longrightarrow>
     list_min h l lt = Inr (case xs of [] \<Rightarrow> list_end l | x # xs \<Rightarrow> Some (pick (\<lambda>m y. lt y m) x xs))"
  using min_loop [of h l "[hd xs]" "tl xs" lt "hd xs"] list_rep_next [of h l "[]" "hd xs" "tl xs"]
  by (cases xs) (auto simp: list_min_def list_begin_rep)

lemma insert_ordered_loop:
  assumes "list_rep h l (us @ vs)"
  shows "\<exists>b. while_r (\<lambda>(e, brk). Inr (\<not> brk \<and> e \<noteq> list_end l))
           (\<lambda>(e, brk). bind_r (call_less lt (Some x) e) (\<lambda>c.
              if c then Inr (e, True) else bind_r (list_next h e) (\<lambda>e. Inr (e, False))))
           (first_or vs (list_end l), False)
         = Inr (first_or (dropWhile (\<lambda>y. \<not> lt x y) vs) (list_end l), b)"
  using assms
proof (induction vs arbitrary: us)
  case Nil
  then show ?case by (subst while_r_unfold) auto
next
  case (Cons v vs)
  note n = list_rep_next [OF Cons.prems]
  show ?case
  proof (cases "lt x v")
    case True
    then show ?thesis using n(3) by (subst while_r_unfold) (auto simp: link_simps while_r_False)
  next
    case False
    then show ?thesis using Cons.IH [of "us @ [v]"] Cons.prems n
      by (subst while_r_unfold) (simp add: link_simps)
  qed
qed

lemma list_insert_ordered_rep:
  assumes "list_rep h l xs" "e \<notin> set (nodes l xs)" "h e \<noteq> None"
  shows "\<exists>h'. list_insert_ordered h l (Some e) lt = Inr h'
           \<and> list_rep h' l (takeWhile (\<lambda>y. \<not> lt e y) xs @ e # dropWhile (\<lambda>y. \<not> lt e y) xs)
           \<and> same_outside (insert e (set (nodes l xs))) h h'"
proof -
  let ?P = "\<lambda>y. \<not> lt e y"
  have xs: "takeWhile ?P xs @ dropWhile ?P xs = xs" by simp
  obtain b where b: "while_r (\<lambda>(e, brk). Inr (\<not> brk \<and> e \<noteq> list_end l))
           (\<lambda>(e', brk). bind_r (call_less lt (Some e) e') (\<lambda>c.
              if c then Inr (e', True) else bind_r (list_next h e') (\<lambda>e. Inr (e, False))))
           (first_or xs (list_end l), False) = Inr (first_or (dropWhile ?P xs) (list_end l), b)"
    using insert_ordered_loop [of h l "[]" xs lt e] assms(1) by auto
  obtain h' where "list_insert h (first_or (dropWhile ?P xs) (list_end l)) (Some e) = Inr h'"
      "list_rep h' l (takeWhile ?P xs @ e # dropWhile ?P xs)"
      "same_outside (set (nodes l (takeWhile ?P xs @ e # dropWhile ?P xs))) h h'"
    using list_insert_rep [of h l "takeWhile ?P xs" "dropWhile ?P xs" e] assms unfolding xs by blast
  then show ?thesis using b assms(1)
    by (simp add: list_insert_ordered_def list_begin_rep nodes_insert xs)
qed

section \<open>Runs\<close>

text \<open>Nondecreasing order: no element is less than its predecessor.\<close>

abbreviation ordered :: "(addr \<Rightarrow> addr \<Rightarrow> bool) \<Rightarrow> addr list \<Rightarrow> bool" where
  "ordered lt \<equiv> successively (\<lambda>x y. \<not> lt y x)"

lemma is_sorted_loop:
  assumes "list_rep h l (us @ x # as @ vs)"
  shows "\<exists>a. while_r (\<lambda>(a, r). Inr (r = None))
           (\<lambda>(a, r). bind_r (list_next h a) (\<lambda>a'.
              if a' \<noteq> first_or vs (list_end l)
              then bind_r (list_prev h a') (\<lambda>p. bind_r (call_less lt a' p) (\<lambda>c.
                     Inr (a', if c then Some False else None)))
              else Inr (a', Some True)))
           (Some x, None)
         = Inr (a, Some (ordered lt (x # as)))"
  using assms
proof (induction as arbitrary: us x)
  case Nil
  then show ?case using list_rep_next [OF Nil]
    by (subst while_r_unfold) (simp add: while_r_False)
next
  case (Cons y as)
  have n: "list_next h (Some x) = Inr (Some y)" using list_rep_next(1) [of h l us x "y # as @ vs"] Cons.prems by simp
  have p: "list_prev h (Some y) = Inr (Some x)" using list_rep_next(2) [of h l "us @ [x]" y "as @ vs"] Cons.prems by simp
  have ne: "Some y \<noteq> first_or vs (list_end l)"
    using first_or_eq_iff [of h l "us @ [x]" "y # as" vs] Cons.prems by simp
  show ?case
  proof (cases "lt y x")
    case True
    then show ?thesis using n p ne by (subst while_r_unfold) (simp add: link_simps while_r_False)
  next
    case False
    then show ?thesis using n p ne Cons.IH [of "us @ [x]" y] Cons.prems
      by (subst while_r_unfold) (simp add: link_simps)
  qed
qed

lemma is_sorted_rep:
  assumes "list_rep h l (us @ as @ vs)"
  shows "is_sorted h (first_or (as @ vs) (list_end l)) (first_or vs (list_end l)) lt = Inr (ordered lt as)"
proof (cases as)
  case Nil
  then show ?thesis by (simp add: is_sorted_def)
next
  case (Cons x xs)
  then show ?thesis
    using is_sorted_loop [of h l us x xs vs lt] first_or_eq_iff [OF assms] assms
    by (auto simp: is_sorted_def)
qed

text \<open>Splitting off the run that starts at \<open>x\<close>.\<close>

fun split_run :: "(addr \<Rightarrow> addr \<Rightarrow> bool) \<Rightarrow> addr \<Rightarrow> addr list \<Rightarrow> addr list \<times> addr list" where
  "split_run lt x [] = ([], [])"
| "split_run lt x (y # ys) =
     (if lt y x then ([], y # ys) else let (r, s) = split_run lt y ys in (y # r, s))"

lemma split_run_append: "split_run lt x xs = (r, s) \<Longrightarrow> xs = r @ s"
  by (induction lt x xs arbitrary: r s rule: split_run.induct) (auto split: if_splits prod.splits)

lemma split_run_ordered: "split_run lt x xs = (r, s) \<Longrightarrow> ordered lt (x # r)"
  by (induction lt x xs arbitrary: r s rule: split_run.induct)
     (auto split: if_splits prod.splits simp: successively_Cons)

lemma find_end_loop:
  assumes "list_rep h l (us @ x # vs)"
  shows "while_r (\<lambda>(a, go). Inr go)
           (\<lambda>(a, go). bind_r (list_next h a) (\<lambda>a'.
              if a' \<noteq> list_end l
              then bind_r (list_prev h a') (\<lambda>p. bind_r (call_less lt a' p) (\<lambda>c. Inr (a', \<not> c)))
              else Inr (a', False)))
           (Some x, True)
         = Inr (first_or (snd (split_run lt x vs)) (list_end l), False)"
  using assms
proof (induction vs arbitrary: us x)
  case Nil
  then show ?case using list_rep_next [OF Nil]
    by (subst while_r_unfold) (simp add: while_r_False)
next
  case (Cons y vs)
  have n: "list_next h (Some x) = Inr (Some y)" using list_rep_next(1) [of h l us x "y # vs"] Cons.prems by simp
  have p: "list_prev h (Some y) = Inr (Some x)" "Some y \<noteq> list_end l"
    using list_rep_next(2,3) [of h l "us @ [x]" y vs] Cons.prems by simp_all
  show ?case
  proof (cases "lt y x")
    case True
    then show ?thesis using n p by (subst while_r_unfold) (simp add: link_simps while_r_False)
  next
    case False
    then show ?thesis using n p Cons.IH [of "us @ [x]" y] Cons.prems
      by (subst while_r_unfold) (simp add: link_simps split: prod.split)
  qed
qed

lemma find_end_of_run_rep:
  assumes "list_rep h l (us @ x # vs)"
  shows "find_end_of_run h (Some x) (list_end l) lt = Inr (first_or (snd (split_run lt x vs)) (list_end l))"
  using find_end_loop [OF assms, of lt] list_rep_next(3) [OF assms]
  by (simp add: find_end_of_run_def) (simp add: list_end_def)

section \<open>Splicing and merging\<close>

lemma list_splice_dll:
  assumes "dll h None (us @ p # a # ms @ b # n # vs) None" "distinct (us @ p # a # ms @ b # n # vs)"
  shows "\<exists>h'. list_splice h (Some a) (Some b) (Some n) = Inr h'
           \<and> dll h' None (us @ p # b # a # ms @ n # vs) None
           \<and> same_outside (set (us @ p # b # a # ms @ n # vs)) h h'"
proof (cases ms rule: rev_cases)
  case Nil
  define h' where "h' = h(p \<mapsto> \<lparr>e_prev = last_or us None, e_next = Some b\<rparr>,
     b \<mapsto> \<lparr>e_prev = Some p, e_next = Some a\<rparr>, a \<mapsto> \<lparr>e_prev = Some b, e_next = Some n\<rparr>,
     n \<mapsto> \<lparr>e_prev = Some a, e_next = first_or vs None\<rparr>)"
  have "list_splice h (Some a) (Some b) (Some n) = Inr h'"
    using assms Nil by (auto simp: list_splice_def link_simps h'_def fun_upd_twist ASSERT_def)
  moreover have "dll h' None (us @ p # b # a # ms @ n # vs) None"
    using assms Nil by (auto simp: h'_def)
  moreover have "same_outside (set (us @ p # b # a # ms @ n # vs)) h h'"
    by (auto simp: same_outside_def h'_def)
  ultimately show ?thesis by blast
next
  case (snoc ks k)
  define h' where "h' = h(p \<mapsto> \<lparr>e_prev = last_or us None, e_next = Some b\<rparr>,
     b \<mapsto> \<lparr>e_prev = Some p, e_next = Some a\<rparr>, a \<mapsto> \<lparr>e_prev = Some b, e_next = first_or ms None\<rparr>,
     k \<mapsto> \<lparr>e_prev = last_or ks (Some a), e_next = Some n\<rparr>,
     n \<mapsto> \<lparr>e_prev = Some k, e_next = first_or vs None\<rparr>)"
  have "list_splice h (Some a) (Some b) (Some n) = Inr h'"
    using assms snoc by (auto simp: list_splice_def link_simps h'_def fun_upd_twist ASSERT_def)
  moreover have "dll h' None (us @ p # b # a # ms @ n # vs) None"
    using assms snoc by (auto simp: h'_def)
  moreover have "same_outside (set (us @ p # b # a # ms @ n # vs)) h h'"
    using snoc by (auto simp: same_outside_def h'_def)
  ultimately show ?thesis by blast
qed

lemma list_splice_rep:
  assumes "list_rep h l (us @ a # ms @ b # vs)"
  shows "\<exists>h'. list_splice h (Some a) (Some b) (first_or vs (list_end l)) = Inr h'
           \<and> list_rep h' l (us @ b # a # ms @ vs) \<and> same_outside (set (nodes l (us @ b # a # ms @ vs))) h h'"
proof -
  obtain us' p where u: "lhead l # us = us' @ [p]" by (metis list.distinct(1) rev_exhaust)
  obtain n vs' where v: "vs @ [ltail l] = n # vs'" by (metis append_is_Nil_conv list.distinct(1) neq_Nil_conv)
  have f: "first_or vs (list_end l) = Some n" using v by (cases vs) (auto simp: list_end_def)
  have "nodes l (us @ xs @ vs) = (lhead l # us) @ xs @ (vs @ [ltail l])" for xs by (simp add: nodes_def)
  then have nodes: "nodes l (us @ xs @ vs) = us' @ p # xs @ n # vs'" for xs unfolding u v by simp
  have n1: "nodes l (us @ a # ms @ b # vs) = us' @ p # a # ms @ b # n # vs'" using nodes [of "a # ms @ [b]"] by simp
  have n2: "nodes l (us @ b # a # ms @ vs) = us' @ p # b # a # ms @ n # vs'" using nodes [of "b # a # ms"] by simp
  obtain h' where "list_splice h (Some a) (Some b) (Some n) = Inr h'"
      "dll h' None (us' @ p # b # a # ms @ n # vs') None" "same_outside (set (us' @ p # b # a # ms @ n # vs')) h h'"
    using list_splice_dll [of h us' p a ms b n vs'] assms unfolding list_rep_def n1 by blast
  moreover have "distinct (us' @ p # b # a # ms @ n # vs')" using assms unfolding list_rep_def n1 by auto
  ultimately show ?thesis unfolding list_rep_def n2 f by blast
qed

fun merge_runs :: "(addr \<Rightarrow> addr \<Rightarrow> bool) \<Rightarrow> addr list \<Rightarrow> addr list \<Rightarrow> addr list" where
  "merge_runs lt [] bs = bs"
| "merge_runs lt as [] = as"
| "merge_runs lt (a # as) (b # bs) =
     (if \<not> lt b a then a # merge_runs lt as (b # bs) else b # merge_runs lt (a # as) bs)"

lemma merge_loop:
  assumes "list_rep h l (us @ as @ bs @ vs)"
  shows "\<exists>h' p q. while_r (\<lambda>(h, a0, a1b0). Inr (a0 \<noteq> a1b0 \<and> a1b0 \<noteq> first_or vs (list_end l)))
           (\<lambda>(h, a0, a1b0). bind_r (call_less lt a1b0 a0) (\<lambda>c.
              if \<not> c then bind_r (list_next h a0) (\<lambda>a0. Inr (h, a0, a1b0))
              else bind_r (list_next h a1b0) (\<lambda>a1b0.
                   bind_r (list_prev h a1b0) (\<lambda>p.
                   bind_r (list_splice h a0 p a1b0) (\<lambda>h. Inr (h, a0, a1b0))))))
           (h, first_or (as @ bs @ vs) (list_end l), first_or (bs @ vs) (list_end l))
         = Inr (h', p, q)
       \<and> list_rep h' l (us @ merge_runs lt as bs @ vs) \<and> same_outside (set (nodes l (us @ as @ bs @ vs))) h h'"
  using assms
proof (induction lt as bs arbitrary: us h rule: merge_runs.induct)
  case (1 lt bs)
  then show ?case by (subst while_r_unfold) (simp add: same_outside_def)
next
  case (2 lt a as)
  then show ?case by (subst while_r_unfold) (simp add: same_outside_def)
next
  case (3 lt a as b bs)
  note rep = 3(3)
  have ne: "Some a \<noteq> Some b" "Some b \<noteq> first_or vs (list_end l)"
    using first_or_eq_iff [of h l us "a # as" "b # bs @ vs"]
      first_or_eq_iff [of h l "us @ a # as" "b # bs" vs] rep by simp_all
  show ?case
  proof (cases "lt b a")
    case False
    have "list_next h (Some a) = Inr (first_or (as @ b # bs @ vs) (list_end l))"
      using list_rep_next(1) [of h l us a "as @ b # bs @ vs"] rep by simp
    then show ?thesis using 3(1) [of h "us @ [a]"] False rep ne
      by (subst while_r_unfold) (simp add: link_simps)
  next
    case True
    have n: "list_next h (Some b) = Inr (first_or (bs @ vs) (list_end l))"
      using list_rep_next(1) [of h l "us @ a # as" b "bs @ vs"] rep by simp
    have p: "list_prev h (first_or (bs @ vs) (list_end l)) = Inr (Some b)"
      using list_prev_first [of h l "us @ a # as" b "bs @ vs"] rep by simp
    obtain h1 where h1: "list_splice h (Some a) (Some b) (first_or (bs @ vs) (list_end l)) = Inr h1"
        "list_rep h1 l (us @ b # a # as @ bs @ vs)" "same_outside (set (nodes l (us @ b # a # as @ bs @ vs))) h h1"
      using list_splice_rep [of h l us a as b "bs @ vs"] rep by auto
    have "same_outside (set (nodes l (us @ a # as @ b # bs @ vs))) h h'"
      if "same_outside (set (nodes l (us @ b # a # as @ bs @ vs))) h1 h'" for h'
      by (rule same_outside_trans [OF h1(3) that]) (auto simp: nodes_def)
    then show ?thesis using 3(2) [of h1 "us @ [b]"] True n p h1(1,2) ne
      by (subst while_r_unfold) (auto simp: link_simps)
  qed
qed

lemma inplace_merge_rep:
  assumes "list_rep h l (us @ as @ bs @ vs)" "ordered lt as" "ordered lt bs"
  shows "\<exists>h'. inplace_merge h (first_or (as @ bs @ vs) (list_end l)) (first_or (bs @ vs) (list_end l))
                (first_or vs (list_end l)) lt = Inr h'
           \<and> list_rep h' l (us @ merge_runs lt as bs @ vs) \<and> same_outside (set (nodes l (us @ as @ bs @ vs))) h h'"
proof -
  have nn: "first_or xs (list_end l) \<noteq> None" for xs by (cases xs) (simp_all add: list_end_def)
  have s: "is_sorted h (first_or (as @ bs @ vs) (list_end l)) (first_or (bs @ vs) (list_end l)) lt = Inr True"
    using is_sorted_rep [of h l us as "bs @ vs" lt] assms by simp
  have t: "is_sorted h (first_or (bs @ vs) (list_end l)) (first_or vs (list_end l)) lt = Inr True"
    using is_sorted_rep [of h l "us @ as" bs vs lt] assms by simp
  show ?thesis using merge_loop [OF assms(1), of lt]
    unfolding inplace_merge_def s t by (auto simp: link_simps nn simp del: first_or_simps)
qed

section \<open>Passes\<close>

text \<open>One pass as a function on sequences: adjacent runs are merged in pairs; the number is that of
  the runs written.\<close>

function merge_pass :: "(addr \<Rightarrow> addr \<Rightarrow> bool) \<Rightarrow> addr list \<Rightarrow> addr list \<times> nat" where
  "merge_pass lt [] = ([], 0)"
| "merge_pass lt (x # xs) =
     (case split_run lt x xs of
        (r, []) \<Rightarrow> (x # r, 1)
      | (r, y # ys) \<Rightarrow>
          (case split_run lt y ys of (r2, s) \<Rightarrow>
           case merge_pass lt s of (zs, n) \<Rightarrow> (merge_runs lt (x # r) (y # r2) @ zs, Suc n)))"
  by pat_completeness auto
termination
  by (relation "measure (\<lambda>(lt, xs). length xs)") (auto dest!: sym [THEN split_run_append])

lemma merge_pass_cases [consumes 1, case_names one two]:
  assumes "xs \<noteq> []"
  obtains x r where "xs = x # r" "ordered lt (x # r)" "merge_pass lt xs = (xs, 1)" "split_run lt x r = (r, [])"
  | x r y r2 s where "xs = (x # r) @ (y # r2) @ s" "ordered lt (x # r)" "ordered lt (y # r2)"
      "split_run lt x (r @ (y # r2) @ s) = (r, (y # r2) @ s)" "split_run lt y (r2 @ s) = (r2, s)"
      "merge_pass lt xs = (merge_runs lt (x # r) (y # r2) @ fst (merge_pass lt s), Suc (snd (merge_pass lt s)))"
proof -
  obtain x xs' where xs: "xs = x # xs'" using assms by (cases xs) auto
  obtain r s where rs: "split_run lt x xs' = (r, s)" by fastforce
  note app = split_run_append [OF rs] and ord = split_run_ordered [OF rs]
  show thesis
  proof (cases s)
    case Nil
    then show thesis using that(1) [of x r] xs rs app ord by simp
  next
    case (Cons y ys)
    obtain r2 s2 where rs2: "split_run lt y ys = (r2, s2)" by fastforce
    then show thesis
      using that(2) [of x r y r2 s2] xs rs app ord Cons split_run_append [OF rs2] split_run_ordered [OF rs2]
      by (simp split: prod.split)
  qed
qed

lemma merge_pass_le: "snd (merge_pass lt xs) \<le> length xs"
proof (induction "length xs" arbitrary: xs rule: less_induct)
  case less
  show ?case
  proof (cases "xs = []")
    case False
    then show ?thesis
    proof (cases rule: merge_pass_cases [of xs lt])
      case (two x r y r2 s)
      then show ?thesis using less [of s] by simp
    qed (use False in simp)
  qed simp
qed

lemma mset_merge_runs [simp]: "mset (merge_runs lt as bs) = mset as + mset bs"
  by (induction lt as bs rule: merge_runs.induct) auto

lemma set_merge_runs [simp]: "set (merge_runs lt as bs) = set as \<union> set bs"
  by (metis mset_merge_runs set_mset_mset set_mset_union)

lemma pass_loop:
  assumes "list_rep h l (us @ vs)" "c + length vs < u32_mod"
  shows "\<exists>h' p b. while_r (pass_cond l) (pass_body l lt) (h, first_or vs (list_end l), c, False)
           = Inr (h', p, c + snd (merge_pass lt vs), b)
       \<and> list_rep h' l (us @ fst (merge_pass lt vs)) \<and> same_outside (set (nodes l (us @ vs))) h h'"
  using assms
proof (induction "length vs" arbitrary: us vs h c rule: less_induct)
  case less
  show ?case
  proof (cases "vs = []")
    case True
    then show ?thesis using less.prems by (subst while_r_unfold) (auto simp: same_outside_def pass_cond_def)
  next
    case False
    then show ?thesis
    proof (cases rule: merge_pass_cases [of vs lt])
      case (one x r)
      then have "find_end_of_run h (Some x) (list_end l) lt = Inr (list_end l)"
        using find_end_of_run_rep [of h l us x r lt] less.prems(1) by simp
      then have "pass_body l lt (h, Some x, c, False) = Inr (h, Some x, Suc c, True)"
        using less.prems(2) one(1) by (simp add: pass_body_def)
      moreover have "Some x \<noteq> list_end l" using list_rep_next(3) [of h l us x r] less.prems(1) one(1) by simp
      ultimately have "while_r (pass_cond l) (pass_body l lt) (h, Some x, c, False) = Inr (h, Some x, Suc c, True)"
        by (subst while_r_unfold) (simp add: while_r_False pass_cond_def)
      then show ?thesis using one(1,3) less.prems(1)
        by (intro exI [of _ h] exI [of _ "Some x"] exI [of _ True]) (simp add: same_outside_def del: merge_pass.simps)
    next
      case (two x r y r2 s)
      let ?m = "merge_runs lt (x # r) (y # r2)"
      have rep: "list_rep h l (us @ (x # r) @ (y # r2) @ s)" using less.prems(1) two(1) by simp
      have f1: "find_end_of_run h (Some x) (list_end l) lt = Inr (Some y)"
        using find_end_of_run_rep [of h l us x "r @ (y # r2) @ s" lt] rep two(4) by simp
      have f2: "find_end_of_run h (Some y) (list_end l) lt = Inr (first_or s (list_end l))"
        using find_end_of_run_rep [of h l "us @ x # r" y "r2 @ s" lt] rep two(5) by simp
      have ne: "Some x \<noteq> list_end l" "Some y \<noteq> list_end l"
        using list_rep_next(3) [of h l us x] list_rep_next(3) [of h l "us @ x # r" y] rep by simp_all
      obtain h1 where h1: "inplace_merge h (Some x) (Some y) (first_or s (list_end l)) lt = Inr h1"
          "list_rep h1 l ((us @ ?m) @ s)" "same_outside (set (nodes l (us @ vs))) h h1"
        using inplace_merge_rep [OF rep two(2,3)] two(1) by auto
      have s: "length s < length vs" "Suc c + length s < u32_mod" "add32 c 1 = Suc c"
        using less.prems(2) two(1) by simp_all
      have step: "pass_cond l (h, Some x, c, False) = Inr True"
          "pass_body l lt (h, Some x, c, False) = Inr (h1, first_or s (list_end l), Suc c, False)"
        using f1 f2 h1(1) ne s(3) by (simp_all add: pass_cond_def pass_body_def)
      have fr: "same_outside (set (nodes l (us @ vs))) h h'"
        if "same_outside (set (nodes l ((us @ ?m) @ s))) h1 h'" for h'
        by (rule same_outside_trans [OF h1(3) that]) (auto simp: nodes_def two(1))
      show ?thesis
        using less.hyps [OF s(1) h1(2) s(2)] while_r_step [of "pass_cond l" _ "pass_body l lt", OF step] two(1,6) fr
        by auto
    qed
  qed
qed

lemma sort_pass_rep:
  assumes "list_rep h l xs" "length xs < u32_mod"
  shows "\<exists>h'. sort_pass h l lt = Inr (h', snd (merge_pass lt xs)) \<and> list_rep h' l (fst (merge_pass lt xs))
           \<and> same_outside (set (nodes l xs)) h h'"
  using pass_loop [of h l "[]" xs 0 lt] assms by (auto simp: sort_pass_def list_begin_rep)

section \<open>Termination: the number of descents\<close>

fun descents :: "(addr \<Rightarrow> addr \<Rightarrow> bool) \<Rightarrow> addr list \<Rightarrow> nat" where
  "descents lt (x # y # ys) = (if lt y x then 1 else 0) + descents lt (y # ys)"
| "descents lt xs = 0"

lemma ordered_iff_descents: "ordered lt xs \<longleftrightarrow> descents lt xs = 0"
  by (induction lt xs rule: descents.induct) auto

lemma descents_append: "descents lt (xs @ ys) \<le> descents lt xs + descents lt ys + 1"
proof -
  have "descents lt (x # ys) \<le> descents lt ys + 1" for x by (cases ys) auto
  then show ?thesis by (induction lt xs rule: descents.induct) auto
qed

lemma descents_split_run:
  "split_run lt x xs = (r, s) \<Longrightarrow> descents lt (x # xs) = (if s = [] then 0 else Suc (descents lt s))"
  by (induction lt x xs arbitrary: r s rule: split_run.induct) (auto split: if_splits prod.splits)

lemma ordered_merge_runs:
  "(\<forall>a b. lt a b \<longrightarrow> \<not> lt b a) \<Longrightarrow> ordered lt as \<Longrightarrow> ordered lt bs \<Longrightarrow> ordered lt (merge_runs lt as bs)"
proof (induction lt as bs rule: merge_runs.induct)
  case (3 lt a as b bs)
  then show ?case by (cases as; cases bs) (auto simp: successively_Cons)
qed auto

lemma descents_merge_pass:
  assumes "\<forall>a b. lt a b \<longrightarrow> \<not> lt b a" and "xs \<noteq> []"
  shows "descents lt (fst (merge_pass lt xs)) < snd (merge_pass lt xs)"
    and "2 * snd (merge_pass lt xs) \<le> descents lt xs + 2"
proof -
  have "descents lt (fst (merge_pass lt xs)) < snd (merge_pass lt xs) \<and> 2 * snd (merge_pass lt xs) \<le> descents lt xs + 2"
    using assms(2)
  proof (induction "length xs" arbitrary: xs rule: less_induct)
    case less
    from less.prems show ?case
    proof (cases rule: merge_pass_cases [of xs lt])
      case (one x r)
      then show ?thesis by (simp add: ordered_iff_descents del: merge_pass.simps)
    next
      case (two x r y r2 s)
      let ?m = "merge_runs lt (x # r) (y # r2)" and ?z = "fst (merge_pass lt s)"
      have m: "descents lt ?m = 0"
        using ordered_merge_runs [OF assms(1) two(2,3)] ordered_iff_descents by blast
      have d: "descents lt xs = Suc (if s = [] then 0 else Suc (descents lt s))"
        using descents_split_run [OF two(4)] descents_split_run [OF two(5)] two(1) by simp
      show ?thesis
      proof (cases "s = []")
        case True
        then show ?thesis using two(6) m d by (simp del: merge_runs.simps)
      next
        case False
        then have "descents lt ?z < snd (merge_pass lt s)" "2 * snd (merge_pass lt s) \<le> descents lt s + 2"
          using less.hyps [of s] two(1) by simp_all
        then show ?thesis using two(6) m d False descents_append [of lt ?m ?z] by (simp del: merge_runs.simps)
      qed
    qed
  qed
  then show "descents lt (fst (merge_pass lt xs)) < snd (merge_pass lt xs)"
    and "2 * snd (merge_pass lt xs) \<le> descents lt xs + 2" by simp_all
qed

section \<open>Stability\<close>

text \<open>From here on the comparison is by a key: \<open>key_lt f\<close>.\<close>

abbreviation key_lt :: "(addr \<Rightarrow> 'k::linorder) \<Rightarrow> addr \<Rightarrow> addr \<Rightarrow> bool" where
  "key_lt f \<equiv> \<lambda>a b. f a < f b"

lemma key_asym: "\<forall>a b. key_lt f a b \<longrightarrow> \<not> key_lt f b a"
  by (auto dest: less_asym)

lemma ordered_key_iff: "ordered (key_lt f) xs \<longleftrightarrow> sorted (map f xs)"
proof -
  have "transp (\<lambda>x y. f x \<le> f y)" by (auto intro: transpI)
  then show ?thesis by (simp add: not_less successively_conv_sorted_wrt sorted_map)
qed

lemma filter_merge_runs:
  assumes "sorted (map f as)"
  shows "filter (\<lambda>x. f x = k) (merge_runs (key_lt f) as bs) = filter (\<lambda>x. f x = k) as @ filter (\<lambda>x. f x = k) bs"
  using assms
proof (induction as arbitrary: bs)
  case (Cons a as)
  note outer = Cons.IH and sorted = Cons.prems
  show ?case
  proof (induction bs)
    case (Cons b bs)
    have "filter (\<lambda>x. f x = k) (a # as) = []" if "f b < f a" "f b = k"
      using sorted that by (auto simp: filter_empty_conv)
    then show ?case using outer [of "b # bs"] Cons sorted by auto
  qed simp
qed simp

lemma merge_pass_stable:
  "mset (fst (merge_pass (key_lt f) xs)) = mset xs
     \<and> filter (\<lambda>x. f x = k) (fst (merge_pass (key_lt f) xs)) = filter (\<lambda>x. f x = k) xs"
proof (induction "length xs" arbitrary: xs rule: less_induct)
  case less
  show ?case
  proof (cases "xs = []")
    case False
    then show ?thesis
    proof (cases rule: merge_pass_cases [of xs "key_lt f"])
      case (one x r)
      then show ?thesis by (simp del: merge_pass.simps)
    next
      case (two x r y r2 s)
      have s: "mset (fst (merge_pass (key_lt f) s)) = mset s"
          "filter (\<lambda>x. f x = k) (fst (merge_pass (key_lt f) s)) = filter (\<lambda>x. f x = k) s"
        using less [of s] two(1) by simp_all
      have "filter (\<lambda>x. f x = k) (merge_runs (key_lt f) (x # r) (y # r2))
              = filter (\<lambda>x. f x = k) (x # r) @ filter (\<lambda>x. f x = k) (y # r2)"
        using two(2) unfolding ordered_key_iff by (rule filter_merge_runs)
      then show ?thesis using s two(6) unfolding two(1) by (simp del: merge_pass.simps merge_runs.simps)
    qed
  qed simp
qed

section \<open>The sort\<close>

definition permuted :: "(addr \<Rightarrow> 'k::linorder) \<Rightarrow> addr list \<Rightarrow> addr list \<Rightarrow> bool" where
  "permuted f xs ys \<longleftrightarrow> mset ys = mset xs \<and> (\<forall>k. filter (\<lambda>x. f x = k) ys = filter (\<lambda>x. f x = k) xs)"

lemma permuted_merge_pass: "permuted f xs ys \<Longrightarrow> permuted f xs (fst (merge_pass (key_lt f) ys))"
  by (simp add: permuted_def merge_pass_stable)

lemma permuted_nodes: "permuted f xs ys \<Longrightarrow> set (nodes l ys) = set (nodes l xs)"
  by (auto simp: permuted_def nodes_def dest: mset_eq_setD)

lemma permuted_sorted: "permuted f xs ys \<Longrightarrow> sorted (map f ys) \<Longrightarrow> ys = sort_key f xs"
  by (rule properties_for_sort_key [symmetric]) (auto simp: permuted_def eq_commute)

text \<open>The state between two passes: after a pass that wrote \<open>cnt\<close> runs.\<close>

definition pass_inv :: "(addr \<Rightarrow> 'k::linorder) \<Rightarrow> heap \<Rightarrow> klist \<Rightarrow> addr list \<Rightarrow> heap \<times> nat \<Rightarrow> bool" where
  "pass_inv f h0 l xs = (\<lambda>(h, cnt). \<exists>ys. list_rep h l ys \<and> permuted f xs ys \<and> same_outside (set (nodes l xs)) h0 h
      \<and> (ys = [] \<or> descents (key_lt f) ys < cnt))"

lemma pass_inv_step:
  assumes "list_rep h l ys" "permuted f xs ys" "same_outside (set (nodes l xs)) h0 h" "length xs < u32_mod"
  shows "\<exists>h'. sort_pass h l (key_lt f) = Inr (h', snd (merge_pass (key_lt f) ys))
           \<and> pass_inv f h0 l xs (h', snd (merge_pass (key_lt f) ys))"
proof -
  let ?zs = "fst (merge_pass (key_lt f) ys)"
  have "length ys = length xs" using assms(2) unfolding permuted_def by (metis size_mset)
  then obtain h' where h': "sort_pass h l (key_lt f) = Inr (h', snd (merge_pass (key_lt f) ys))"
      "list_rep h' l ?zs" "same_outside (set (nodes l ys)) h h'"
    using sort_pass_rep [OF assms(1)] assms(4) by metis
  have "permuted f xs ?zs" using assms(2) by (rule permuted_merge_pass)
  moreover have "?zs = [] \<or> descents (key_lt f) ?zs < snd (merge_pass (key_lt f) ys)"
    using descents_merge_pass(1) [OF key_asym, of ys f] by (cases "ys = []") auto
  moreover have "same_outside (set (nodes l xs)) h0 h'"
    using same_outside_trans [OF assms(3) h'(3) order_refl] permuted_nodes [OF assms(2), of l] by simp
  ultimately show ?thesis using h' unfolding pass_inv_def by auto
qed

lemma list_sort_rep:
  assumes "list_rep h l xs" "length xs < u32_mod"
  shows "\<exists>h'. list_sort h l (key_lt f) = Inr h' \<and> list_rep h' l (sort_key f xs)
           \<and> same_outside (set (nodes l xs)) h h'"
proof -
  let ?c = "\<lambda>(h :: heap, cnt :: nat). Inr (cnt > 1)" and ?b = "\<lambda>(h, cnt :: nat). sort_pass h l (key_lt f)"
  have "permuted f xs xs" by (simp add: permuted_def)
  then obtain h1 n where h1: "sort_pass h l (key_lt f) = Inr (h1, n)" "pass_inv f h l xs (h1, n)"
    using pass_inv_step [OF assms(1) _ _ assms(2), of f h] by (auto simp: same_outside_def)
  have body: "\<exists>t'. ?b t = Inr t' \<and> pass_inv f h l xs t' \<and> snd t' < snd t"
    if I: "pass_inv f h l xs t" and C: "?c t = Inr True" for t
  proof -
    obtain h2 cnt ys where t: "t = (h2, cnt)" "list_rep h2 l ys" "permuted f xs ys" "same_outside (set (nodes l xs)) h h2"
        "ys = [] \<or> descents (key_lt f) ys < cnt" "1 < cnt"
      using I C by (cases t) (auto simp: pass_inv_def)
    have "snd (merge_pass (key_lt f) ys) < cnt"
      using t(5,6) descents_merge_pass(2) [OF key_asym, of ys f] by (cases "ys = []") auto
    then show ?thesis using pass_inv_step [OF t(2-4) assms(2)] t(1) by auto
  qed
  obtain h2 cnt where w: "while_r ?c ?b (h1, n) = Inr (h2, cnt)" "pass_inv f h l xs (h2, cnt)" "\<not> 1 < cnt"
    using while_r_rule [of "pass_inv f h l xs" "(h1, n)" ?c ?b snd] h1(2) body by auto
  obtain ys where ys: "list_rep h2 l ys" "permuted f xs ys" "same_outside (set (nodes l xs)) h h2"
      "ys = [] \<or> descents (key_lt f) ys < cnt"
    using w(2) by (auto simp: pass_inv_def)
  then have "ordered (key_lt f) ys" using w(3) by (cases "ys = []") (simp_all add: ordered_iff_descents)
  moreover from this have "ys = sort_key f xs" using permuted_sorted [OF ys(2)] by (simp add: ordered_key_iff)
  ultimately show ?thesis
    using h1(1) w(1) ys(1,3) is_sorted_rep [of h2 l "[]" ys "[]" "key_lt f"] list_begin_rep [OF ys(1)]
    by (auto simp: list_sort_def link_simps)
qed

end
