(* ===== verification/KlistMore.thy ===== *)
theory KlistMore
  imports KlistSort
begin

text \<open>\<open>list_reverse\<close> and \<open>list_unique\<close> of \<^verbatim>\<open>lib/kernel/list.c\<close>, and the properties of the list library.\<close>

section \<open>Reversal\<close>

definition swapped :: "addr set \<Rightarrow> heap \<Rightarrow> heap" where
  "swapped S h = (\<lambda>a. if a \<in> S then map_option (\<lambda>e. \<lparr>e_prev = e_next e, e_next = e_prev e\<rparr>) (h a) else h a)"

lemma dll_swapped: "dll h p xs q \<Longrightarrow> set xs \<subseteq> S \<Longrightarrow> dll (swapped S h) q (rev xs) p"
proof (induction xs arbitrary: p)
  case (Cons x xs)
  have "last_or (rev xs) q = first_or xs q" by (cases xs) simp_all
  then show ?case using Cons by (auto simp: swapped_def)
qed simp

lemma swapped_insert:
  "h x = Some e \<Longrightarrow> x \<notin> S \<Longrightarrow>
     swapped S (h(x \<mapsto> \<lparr>e_prev = e_next e, e_next = e_prev e\<rparr>)) = swapped (insert x S) h"
  by (rule ext) (simp add: swapped_def)

lemma reverse_loop:
  assumes "dll h p vs (list_end l)" "distinct vs" "list_end l = Some t" "t \<notin> set vs"
  shows "while_r (\<lambda>(h, e). Inr (e \<noteq> list_end l))
           (\<lambda>(h, e). bind_r (swap_links h e) (\<lambda>h. bind_r (get_prev h e) (\<lambda>e'. Inr (h, e'))))
           (h, first_or vs (list_end l))
         = Inr (swapped (set vs) h, list_end l)"
  using assms
proof (induction vs arbitrary: h p)
  case Nil
  then show ?case by (subst while_r_unfold) (simp add: swapped_def)
next
  case (Cons v vs)
  let ?h = "h(v \<mapsto> \<lparr>e_prev = first_or vs (list_end l), e_next = p\<rparr>)"
  have v: "h v = Some \<lparr>e_prev = p, e_next = first_or vs (list_end l)\<rparr>" using Cons.prems(1) by simp
  have "swapped (set vs) ?h = swapped (set (v # vs)) h"
    using swapped_insert [of h v _ "set vs", OF v] Cons.prems(2) by simp
  moreover have "dll ?h (Some v) vs (list_end l)" using Cons.prems by simp
  ultimately have ih: "while_r (\<lambda>(h, e). Inr (e \<noteq> list_end l))
           (\<lambda>(h, e). bind_r (swap_links h e) (\<lambda>h. bind_r (get_prev h e) (\<lambda>e'. Inr (h, e'))))
           (?h, first_or vs (list_end l)) = Inr (swapped (set (v # vs)) h, list_end l)"
    using Cons.IH [of ?h "Some v"] Cons.prems(2-4) by (simp del: fun_upd_apply)
  have "Some v \<noteq> list_end l" using Cons.prems by auto
  then show ?case using ih v by (subst while_r_unfold) (simp add: link_simps)
qed

lemma first_or_rev: "first_or xs q = last_or (rev xs) q"
  by (induction xs arbitrary: q) simp_all

lemma last_or_rev: "last_or xs q = first_or (rev xs) q"
  by (induction xs arbitrary: q) simp_all

lemma list_reverse_rep:
  assumes "list_rep h l xs"
  shows "\<exists>h'. list_reverse h l = Inr h' \<and> list_rep h' l (rev xs) \<and> same_outside (set (nodes l xs)) h h'"
proof (cases "xs = []")
  case True
  then show ?thesis using assms by (simp add: list_reverse_def list_empty_rep same_outside_def)
next
  case False
  let ?t = "ltail l" and ?h = "lhead l" and ?g = "swapped (set xs) h"
  have d: "distinct (nodes l xs)" "h ?h = Some \<lparr>e_prev = None, e_next = first_or xs (Some ?t)\<rparr>"
      "dll h (Some ?h) xs (Some ?t)" "h ?t = Some \<lparr>e_prev = last_or xs (Some ?h), e_next = None\<rparr>"
    using assms by (auto simp: list_rep_def nodes_def)
  have loop: "while_r (\<lambda>(h, e). Inr (e \<noteq> list_end l))
           (\<lambda>(h, e). bind_r (swap_links h e) (\<lambda>h. bind_r (get_prev h e) (\<lambda>e'. Inr (h, e'))))
           (h, first_or xs (list_end l)) = Inr (?g, list_end l)"
    by (rule reverse_loop [where t = ?t]) (use d in \<open>auto simp: list_end_def nodes_def\<close>)
  have rev: "dll ?g (Some ?t) (rev xs) (Some ?h)" by (rule dll_swapped [OF d(3)]) simp
  have g: "?g ?h = Some \<lparr>e_prev = None, e_next = last_or (rev xs) (Some ?t)\<rparr>"
      "?g ?t = Some \<lparr>e_prev = first_or (rev xs) (Some ?h), e_next = None\<rparr>"
    using d first_or_rev [of xs] last_or_rev [of xs] by (auto simp: swapped_def nodes_def)
  have fr: "same_outside (set (nodes l xs)) h h'" if "same_outside (set (nodes l xs)) ?g h'" for h'
    using that by (auto simp: same_outside_def swapped_def nodes_def)
  define g where "g = ?g"
  define ys where "ys = rev xs"
  have dist: "distinct (nodes l ys)" "set (nodes l xs) = set (nodes l ys)" "ys \<noteq> []"
    using d(1) False by (auto simp: ys_def nodes_def)
  have eq: "list_reverse h l = 
        bind_r (get_next g (Some ?h)) (\<lambda>hn. bind_r (get_prev g (Some ?t)) (\<lambda>tp.
        bind_r (set_next g (Some ?h) tp) (\<lambda>h. bind_r (set_prev h (Some ?t) hn) (\<lambda>h.
        bind_r (get_next h (Some ?h)) (\<lambda>hn. bind_r (get_prev h (Some ?t)) (\<lambda>tp.
        bind_r (get_prev h hn) (\<lambda>a. bind_r (get_next h tp) (\<lambda>b.
        bind_r (set_prev h hn b) (\<lambda>h. set_next h tp a)))))))))"
    using False loop assms by (simp add: list_reverse_def list_empty_rep list_begin_rep g_def)
  have "\<exists>h'. list_reverse h l = Inr h' \<and> dll h' None (nodes l ys) None \<and> same_outside (set (nodes l ys)) g h'"
  proof -
    obtain z zs where z: "ys = z # zs" using dist(3) by (cases ys) auto
    show ?thesis
    proof (cases zs rule: rev_cases)
      case Nil
      then show ?thesis
        using g rev dist(1) z unfolding eq g_def [symmetric] ys_def [symmetric]
        by (auto simp: link_simps nodes_def same_outside_def)
    next
      case (snoc ks k)
      then show ?thesis
        using g rev dist(1) z unfolding eq g_def [symmetric] ys_def [symmetric]
        by (auto simp: link_simps nodes_def same_outside_def)
    qed
  qed
  then show ?thesis using fr dist unfolding list_rep_def ys_def [symmetric] g_def by auto
qed

section \<open>Removing adjacent duplicates\<close>

text \<open>The elements kept after \<open>x\<close> and those removed.\<close>

fun unique_from :: "(addr \<Rightarrow> addr \<Rightarrow> bool) \<Rightarrow> addr \<Rightarrow> addr list \<Rightarrow> addr list \<times> addr list" where
  "unique_from lt x [] = ([], [])"
| "unique_from lt x (y # ys) =
     (if \<not> lt x y \<and> \<not> lt y x then (case unique_from lt x ys of (k, d) \<Rightarrow> (k, y # d))
      else (case unique_from lt y ys of (k, d) \<Rightarrow> (y # k, d)))"

text \<open>The list of duplicates, when there is one, is a list of its own.\<close>

definition dup_rep :: "heap \<Rightarrow> klist option \<Rightarrow> addr list \<Rightarrow> addr set \<Rightarrow> bool" where
  "dup_rep h duplicates ds S \<longleftrightarrow>
     (case duplicates of None \<Rightarrow> True | Some d \<Rightarrow> list_rep h d ds \<and> set (nodes d ds) \<inter> S = {})"

lemma unique_remove_step:
  assumes "list_rep h l (us @ x # y # ys)" "dup_rep h dups ds (set (nodes l (us @ x # y # ys)))"
    and "\<not> lt x y" "\<not> lt y x"
  shows "\<exists>h'. unique_body dups lt (h, Some x) = Inr (h', Some x) \<and> list_rep h' l (us @ x # ys)
           \<and> dup_rep h' dups (ds @ [y]) (set (nodes l (us @ x # ys)))"
proof -
  have n: "list_next h (Some x) = Inr (Some y)" using list_rep_next(1) [of h l us x "y # ys"] assms(1) by simp
  obtain h1 p where h1: "list_remove h (Some y) = Inr (h1, p)" "list_rep h1 l (us @ x # ys)"
      "same_outside (set (nodes l (us @ x # ys))) h h1" "h1 y = h y"
    using list_remove_rep [of h l "us @ [x]" y ys] assms(1) by auto
  have y: "y \<notin> set (nodes l (us @ x # ys))" "h y \<noteq> None"
    using assms(1) list_rep_alloc [OF assms(1), of y] by (auto simp: list_rep_def nodes_def)
  show ?thesis
  proof (cases dups)
    case None
    then show ?thesis using n h1 assms(3,4) by (simp add: unique_body_def link_simps dup_rep_def)
  next
    case (Some d)
    have d: "list_rep h d ds" "set (nodes d ds) \<inter> insert y (set (nodes l (us @ x # ys))) = {}"
      using assms(2) Some nodes_insert [of l "us @ [x]" y ys] by (simp_all add: dup_rep_def)
    have "list_rep h1 d ds" using list_rep_frame [OF d(1) h1(3)] d(2) by blast
    then obtain h2 where h2: "list_push_back h1 d (Some y) = Inr h2" "list_rep h2 d (ds @ [y])"
        "same_outside (set (nodes d (ds @ [y]))) h1 h2"
      using list_push_back_rep [of h1 d ds y] d(2) h1(4) y(2) by auto
    have dn: "set (nodes d (ds @ [y])) = insert y (set (nodes d ds))" by (simp add: nodes_def insert_commute)
    then have disj: "set (nodes d (ds @ [y])) \<inter> set (nodes l (us @ x # ys)) = {}"
      using d(2) y(1) by auto
    then have "list_rep h2 l (us @ x # ys)" using list_rep_frame [OF h1(2) h2(3)] by blast
    then show ?thesis using n h1(1) h2(1,2) assms(3,4) Some disj by (simp add: unique_body_def link_simps dup_rep_def)
  qed
qed

lemma unique_loop:
  assumes "list_rep h l (us @ x # vs)" "dup_rep h dups ds (set (nodes l (us @ x # vs)))"
  shows "\<exists>h' p. while_r (unique_cond l) (unique_body dups lt) (h, Some x) = Inr (h', p)
           \<and> list_rep h' l (us @ x # fst (unique_from lt x vs))
           \<and> dup_rep h' dups (ds @ snd (unique_from lt x vs)) (set (nodes l (us @ x # fst (unique_from lt x vs))))"
  using assms
proof (induction vs arbitrary: us x h ds)
  case Nil
  then have "unique_cond l (h, Some x) = Inr False"
    using list_rep_next(1) [of h l us x "[]"] by (simp add: unique_cond_def)
  then show ?case using Nil by (simp add: while_r_False)
next
  case (Cons y ys)
  have n: "list_next h (Some x) = Inr (Some y)" using list_rep_next(1) [of h l us x "y # ys"] Cons.prems(1) by simp
  have "Some y \<noteq> list_end l" using list_rep_next(3) [of h l "us @ [x]" y ys] Cons.prems(1) by simp
  with n have c: "unique_cond l (h, Some x) = Inr True" by (simp add: unique_cond_def)
  show ?case
  proof (cases "\<not> lt x y \<and> \<not> lt y x")
    case True
    then obtain h1 where h1: "unique_body dups lt (h, Some x) = Inr (h1, Some x)" "list_rep h1 l (us @ x # ys)"
        "dup_rep h1 dups (ds @ [y]) (set (nodes l (us @ x # ys)))"
      using unique_remove_step [OF Cons.prems] by blast
    show ?thesis using Cons.IH [OF h1(2,3)] True while_r_step [of "unique_cond l" _ "unique_body dups lt", OF c h1(1)]
      by (auto split: prod.split)
  next
    case False
    then have b: "unique_body dups lt (h, Some x) = Inr (h, Some y)"
      using n by (auto simp: unique_body_def link_simps)
    show ?thesis using Cons.IH [of h "us @ [x]" y ds] Cons.prems False
        while_r_step [of "unique_cond l" _ "unique_body dups lt", OF c b]
      by (auto split: prod.split)
  qed
qed

lemma unique_from_key:
  "map f (x # fst (unique_from (key_lt f) x xs)) = remdups_adj (map f (x # xs))
     \<and> mset (fst (unique_from (key_lt f) x xs)) + mset (snd (unique_from (key_lt f) x xs)) = mset xs"
proof (induction xs arbitrary: x)
  case (Cons y ys)
  have "(\<not> f x < f y \<and> \<not> f y < f x) \<longleftrightarrow> f x = f y" by auto
  then show ?case using Cons [of x] Cons [of y] by (auto split: prod.split)
qed simp

lemma sorted_insert_mid:
  assumes "sorted (map f as)" "sorted (map f bs)" "\<forall>x\<in>set as. f x \<le> f e" "\<forall>y\<in>set bs. f e \<le> f y"
  shows "sorted (map f (as @ e # bs))"
proof -
  have "f x \<le> f y" if "x \<in> set as" "y \<in> set bs" for x y using assms(3,4) that order.trans by blast
  then show ?thesis using assms by (simp add: sorted_append)
qed

section \<open>Properties\<close>

definition example_list :: klist where
  "example_list = \<lparr>lhead = 1, ltail = 2\<rparr>"

definition example_heap :: heap where
  "example_heap = [1 \<mapsto> \<lparr>e_prev = None, e_next = Some 5\<rparr>, 5 \<mapsto> \<lparr>e_prev = Some 1, e_next = Some 4\<rparr>,
     4 \<mapsto> \<lparr>e_prev = Some 5, e_next = Some 6\<rparr>, 6 \<mapsto> \<lparr>e_prev = Some 4, e_next = Some 2\<rparr>,
     2 \<mapsto> \<lparr>e_prev = Some 6, e_next = None\<rparr>, 7 \<mapsto> \<lparr>e_prev = None, e_next = None\<rparr>,
     8 \<mapsto> \<lparr>e_prev = None, e_next = Some 9\<rparr>, 9 \<mapsto> \<lparr>e_prev = Some 8, e_next = None\<rparr>]"

lemma example_rep: "list_rep example_heap example_list [5, 4, 6]"
  by (simp add: list_rep_def nodes_def example_heap_def example_list_def)

lemma example_rep2: "list_rep example_heap \<lparr>lhead = 8, ltail = 9\<rparr> []"
  by (simp add: list_rep_def nodes_def example_heap_def)

text \<open>C33: \<open>list_sort\<close> terminates, fails no assertion, and leaves in the list the stable sort of its
  elements by the key that the comparison function compares; memory outside the list is untouched.\<close>

theorem list_sort_stable:
  fixes f :: "addr \<Rightarrow> 'k::linorder"
  assumes "list_rep h l xs" and "length xs < 2 ^ 32"
  shows "\<exists>h'. list_sort h l (\<lambda>a b. f a < f b) = Inr h' \<and> list_rep h' l (sort_key f xs)
           \<and> (\<forall>a. a \<notin> set (nodes l xs) \<longrightarrow> h' a = h a)"
  using list_sort_rep [OF assms(1), of f] assms(2) by (simp add: same_outside_def)

theorem list_sort_stable_witness:
  "\<exists>h'. list_sort example_heap example_list (\<lambda>a b. a div 2 < b div 2) = Inr h' \<and> list_rep h' example_list [5, 4, 6]"
  using list_sort_stable [OF example_rep, of "\<lambda>a. a div 2"] by (auto simp: sort_key_simps)

text \<open>\<open>list_insert_ordered\<close> inserts an element into a sorted list behind every element that is not
  greater: the list holds the stable sort of its elements followed by the new one.\<close>

theorem list_insert_ordered_correct:
  fixes f :: "addr \<Rightarrow> 'k::linorder"
  assumes "list_rep h l xs" "sorted (map f xs)" "e \<notin> set (nodes l xs)" "h e \<noteq> None"
  shows "\<exists>h'. list_insert_ordered h l (Some e) (\<lambda>a b. f a < f b) = Inr h' \<and> list_rep h' l (sort_key f (xs @ [e]))"
proof -
  let ?P = "\<lambda>y. \<not> f e < f y"
  let ?ys = "takeWhile ?P xs @ e # dropWhile ?P xs"
  have d: "f e < f y" if y: "y \<in> set (dropWhile ?P xs)" for y
  proof -
    obtain z zs where z: "dropWhile ?P xs = z # zs" using y by (cases "dropWhile ?P xs") auto
    have "sorted (map f (dropWhile ?P xs))"
      using assms(2) by (metis map_append sorted_append takeWhile_dropWhile_id)
    moreover have "f e < f z" using z by (metis hd_dropWhile list.discI list.sel(1))
    ultimately show ?thesis using y z by auto
  qed
  have t: "f y \<le> f e" if "y \<in> set (takeWhile ?P xs)" for y using set_takeWhileD [OF that] by (simp add: not_less)
  have sp: "takeWhile ?P xs @ dropWhile ?P xs = xs" by simp
  have st: "sorted (map f (takeWhile ?P xs))" "sorted (map f (dropWhile ?P xs))"
    using assms(2) by (metis map_append sorted_append sp)+
  have "\<forall>x\<in>set (takeWhile ?P xs). f x \<le> f e" by (rule ballI) (rule t)
  moreover have "\<forall>y\<in>set (dropWhile ?P xs). f e \<le> f y" by (rule ballI) (rule less_imp_le [OF d])
  ultimately have s: "sorted (map f ?ys)" by (rule sorted_insert_mid [OF st])
  have "filter (\<lambda>x. f x = k) ?ys = filter (\<lambda>x. f x = k) (xs @ [e])" for k
  proof -
    have "filter (\<lambda>x. f x = k) (dropWhile ?P xs) = []" if k: "f e = k"
      unfolding filter_empty_conv
    proof
      fix y assume "y \<in> set (dropWhile ?P xs)"
      from d [OF this] k show "f y \<noteq> k" by order
    qed
    moreover have "filter (\<lambda>x. f x = k) xs = filter (\<lambda>x. f x = k) (takeWhile ?P xs) @ filter (\<lambda>x. f x = k) (dropWhile ?P xs)"
      using arg_cong [OF sp, of "filter (\<lambda>x. f x = k)"] unfolding filter_append by (rule sym)
    ultimately show ?thesis unfolding filter_append by simp
  qed
  moreover have "mset (takeWhile ?P xs) + mset (dropWhile ?P xs) = mset xs"
    using arg_cong [OF sp, of mset] unfolding mset_append .
  then have "mset ?ys = mset (xs @ [e])" by simp
  ultimately have "?ys = sort_key f (xs @ [e])" using permuted_sorted [OF _ s] by (simp add: permuted_def)
  then show ?thesis using list_insert_ordered_rep [OF assms(1,3,4), of "\<lambda>a b. f a < f b"] by auto
qed

text \<open>\<open>list_unique\<close> keeps the first element of every group of adjacent equal elements, in order,
  and appends exactly the others to the list of duplicates, if there is one.\<close>

theorem list_unique_correct:
  fixes f :: "addr \<Rightarrow> 'k::linorder"
  assumes "list_rep h l xs" "dup_rep h dups ds (set (nodes l xs))"
  shows "\<exists>h' ks es. list_unique h l dups (\<lambda>a b. f a < f b) = Inr h'
           \<and> list_rep h' l ks \<and> map f ks = remdups_adj (map f xs)
           \<and> dup_rep h' dups (ds @ es) (set (nodes l ks)) \<and> mset ks + mset es = mset xs"
proof (cases xs)
  case Nil
  then show ?thesis using assms
    by (intro exI [of _ h] exI [of _ "[]"]) (simp add: list_unique_def list_empty_rep)
next
  case (Cons x ys)
  let ?u = "unique_from (key_lt f) x ys"
  obtain h' p where "while_r (unique_cond l) (unique_body dups (key_lt f)) (h, Some x) = Inr (h', p)"
      "list_rep h' l (x # fst ?u)" "dup_rep h' dups (ds @ snd ?u) (set (nodes l (x # fst ?u)))"
    using unique_loop [of h l "[]" x ys dups ds "key_lt f"] assms Cons by auto
  then show ?thesis using unique_from_key [of f x ys] assms(1) Cons
    by (intro exI [of _ h'] exI [of _ "x # fst ?u"] exI [of _ "snd ?u"])
       (simp add: list_unique_def list_empty_rep list_begin_rep)
qed

text \<open>moving the first element of a list to the end of another one, as \<open>sema_up\<close> does with the
  waiting thread and the ready list, leaves both lists well formed and changes nothing else in them.\<close>

theorem list_transfer:
  assumes "list_rep h l (e # xs)" "list_rep h m ys" "set (nodes l (e # xs)) \<inter> set (nodes m ys) = {}"
  shows "\<exists>h1 h2. list_pop_front h l = Inr (h1, Some e) \<and> list_push_back h1 m (Some e) = Inr h2
           \<and> list_rep h2 l xs \<and> list_rep h2 m (ys @ [e])"
  using assms by (rule kl.transfer)

end
