(* ===== verification/Hash.thy ===== *)
theory Hash
  imports Prelude "HOL-Library.Multiset"
begin

unbundle bit_operations_syntax

text \<open>
  \<^verbatim>\<open>lib/kernel/hash.c\<close>: the hash table with chaining. A bucket is the sequence of the elements of its
  \<open>struct list\<close> (the theories \<open>Klist\<close> and \<open>KlistSort\<close> show that the linked lists implement such
  sequences); elements are of an arbitrary type, with the hash and comparison functions in the
  table as in the source. The outcome of a \<open>malloc\<close> call is a parameter, and the calls of an action
  or destructor are returned as the sequence of their arguments.

  Under the contract of the callbacks (the comparison is that of a key and equal keys have equal
  hashes) the table represents a finite map from keys to elements; \<open>hash_ok\<close> is its invariant.
\<close>

section \<open>The table\<close>

record 'e hash =
  h_elem_cnt :: nat
  h_bucket_cnt :: nat
  h_buckets :: "'e list list"
  h_hash :: "'e \<Rightarrow> 32 word"
  h_less :: "'e \<Rightarrow> 'e \<Rightarrow> bool"

primrec clear_buckets :: "'e list list \<Rightarrow> 'e list list \<times> 'e list" where
  "clear_buckets [] = ([], [])"
| "clear_buckets (b # bs) = (case clear_buckets bs of (bs', es) \<Rightarrow> ([] # bs', b @ es))"

definition hash_clear :: "'e hash \<Rightarrow> bool \<Rightarrow> 'e hash \<times> 'e list" where
  "hash_clear h destructor =
     (case clear_buckets (h_buckets h) of (bs, es) \<Rightarrow>
        (h\<lparr>h_buckets := bs, h_elem_cnt := 0\<rparr>, if destructor then es else []))"

text \<open>\<open>mem\<close> is the array of (uninitialised) buckets that \<open>malloc\<close> returned, if it did.\<close>

definition hash_init :: "('e \<Rightarrow> 32 word) \<Rightarrow> ('e \<Rightarrow> 'e \<Rightarrow> bool) \<Rightarrow> 'e list list option \<Rightarrow> 'e hash option" where
  "hash_init hf lt mem =
     (case mem of
        None \<Rightarrow> None
      | Some bs \<Rightarrow>
          Some (fst (hash_clear \<lparr>h_elem_cnt = 0, h_bucket_cnt = 4, h_buckets = bs, h_hash = hf, h_less = lt\<rparr> False)))"

definition hash_destroy :: "'e hash \<Rightarrow> bool \<Rightarrow> 'e list" where
  "hash_destroy h destructor = (if destructor then snd (hash_clear h True) else [])"

definition find_bucket :: "'e hash \<Rightarrow> 'e \<Rightarrow> nat" where
  "find_bucket h e = unat (h_hash h e AND of_nat (sub32 (h_bucket_cnt h) 1))"

primrec find_elem :: "'e hash \<Rightarrow> 'e list \<Rightarrow> 'e \<Rightarrow> 'e option" where
  "find_elem h [] e = None"
| "find_elem h (hi # bucket) e =
     (if \<not> h_less h hi e \<and> \<not> h_less h e hi then Some hi else find_elem h bucket e)"

definition turn_off_least_1bit :: "nat \<Rightarrow> nat" where
  "turn_off_least_1bit x = x AND (x - 1)"

definition is_power_of_2 :: "nat \<Rightarrow> bool" where
  "is_power_of_2 x \<longleftrightarrow> x \<noteq> 0 \<and> turn_off_least_1bit x = 0"

definition BEST_ELEMS_PER_BUCKET :: nat where "BEST_ELEMS_PER_BUCKET = 2"

text \<open>The bucket count that \<open>rehash\<close> aims at.\<close>

definition new_bucket_cnt :: "nat \<Rightarrow> nat res" where
  "new_bucket_cnt cnt =
     (let n = cnt div BEST_ELEMS_PER_BUCKET; n = (if n < 4 then 4 else n) in
      while_r (\<lambda>n. Inr (\<not> is_power_of_2 n)) (\<lambda>n. Inr (turn_off_least_1bit n)) n)"

definition push_bucket :: "'e hash \<Rightarrow> nat \<Rightarrow> 'e \<Rightarrow> 'e hash res" where
  "push_bucket h i e =
     bind_r (arr_get (h_buckets h) i) (\<lambda>b. bind_r (arr_set (h_buckets h) i (e # b)) (\<lambda>bs. Inr (h\<lparr>h_buckets := bs\<rparr>)))"

primrec move_elems :: "'e hash \<Rightarrow> 'e list \<Rightarrow> 'e hash res" where
  "move_elems h [] = Inr h"
| "move_elems h (e # es) = bind_r (push_bucket h (find_bucket h e) e) (\<lambda>h. move_elems h es)"

primrec move_buckets :: "'e hash \<Rightarrow> 'e list list \<Rightarrow> 'e hash res" where
  "move_buckets h [] = Inr h"
| "move_buckets h (b # bs) = bind_r (move_elems h b) (\<lambda>h. move_buckets h bs)"

definition rehash :: "'e hash \<Rightarrow> bool \<Rightarrow> 'e hash res" where
  "rehash h mem =
     bind_r (new_bucket_cnt (h_elem_cnt h)) (\<lambda>n.
     if n = h_bucket_cnt h then Inr h
     else if \<not> mem then Inr h
     else move_buckets (h\<lparr>h_buckets := replicate n [], h_bucket_cnt := n\<rparr>) (h_buckets h))"

definition insert_elem :: "'e hash \<Rightarrow> nat \<Rightarrow> 'e \<Rightarrow> 'e hash res" where
  "insert_elem h bucket e = push_bucket (h\<lparr>h_elem_cnt := add32 (h_elem_cnt h) 1\<rparr>) bucket e"

text \<open>\<open>list_remove\<close> takes the element out of the list it is in.\<close>

definition remove_elem :: "'e hash \<Rightarrow> 'e \<Rightarrow> 'e hash" where
  "remove_elem h e = h\<lparr>h_elem_cnt := sub32 (h_elem_cnt h) 1, h_buckets := map (remove1 e) (h_buckets h)\<rparr>"

definition hash_insert :: "'e hash \<Rightarrow> 'e \<Rightarrow> bool \<Rightarrow> ('e hash \<times> 'e option) res" where
  "hash_insert h new mem =
     (let bucket = find_bucket h new in
      bind_r (arr_get (h_buckets h) bucket) (\<lambda>b.
      let old = find_elem h b new in
      bind_r (if old = None then insert_elem h bucket new else Inr h) (\<lambda>h.
      bind_r (rehash h mem) (\<lambda>h. Inr (h, old)))))"

definition hash_replace :: "'e hash \<Rightarrow> 'e \<Rightarrow> bool \<Rightarrow> ('e hash \<times> 'e option) res" where
  "hash_replace h new mem =
     (let bucket = find_bucket h new in
      bind_r (arr_get (h_buckets h) bucket) (\<lambda>b.
      let old = find_elem h b new in
      let h = (case old of None \<Rightarrow> h | Some e \<Rightarrow> remove_elem h e) in
      bind_r (insert_elem h bucket new) (\<lambda>h.
      bind_r (rehash h mem) (\<lambda>h. Inr (h, old)))))"

definition hash_find :: "'e hash \<Rightarrow> 'e \<Rightarrow> 'e option res" where
  "hash_find h e = bind_r (arr_get (h_buckets h) (find_bucket h e)) (\<lambda>b. Inr (find_elem h b e))"

definition hash_delete :: "'e hash \<Rightarrow> 'e \<Rightarrow> bool \<Rightarrow> ('e hash \<times> 'e option) res" where
  "hash_delete h e mem =
     bind_r (arr_get (h_buckets h) (find_bucket h e)) (\<lambda>b.
     case find_elem h b e of
       None \<Rightarrow> Inr (h, None)
     | Some found \<Rightarrow> bind_r (rehash (remove_elem h found) mem) (\<lambda>h. Inr (h, Some found)))"

primrec apply_buckets :: "'e list list \<Rightarrow> 'e list" where
  "apply_buckets [] = []"
| "apply_buckets (b # bs) = b @ apply_buckets bs"

definition hash_apply :: "'e hash \<Rightarrow> 'e list" where
  "hash_apply h = apply_buckets (h_buckets h)"

definition hash_size :: "'e hash \<Rightarrow> nat" where
  "hash_size h = h_elem_cnt h"

definition hash_empty :: "'e hash \<Rightarrow> bool" where
  "hash_empty h \<longleftrightarrow> h_elem_cnt h = 0"

section \<open>Iterators\<close>

text \<open>The current element is a position in the current bucket: 0 is the head of the list, \<open>Suc j\<close> its
  element number \<open>j\<close>, and the position after the last element the tail; \<open>None\<close> is the null pointer.\<close>

record hash_iterator =
  i_bucket :: nat
  i_elem :: "nat option"

definition hash_first :: "hash_iterator" where
  "hash_first = \<lparr>i_bucket = 0, i_elem = Some 0\<rparr>"

text \<open>The loop of \<open>hash_next\<close> over the buckets.\<close>

definition next_cond :: "'e hash \<Rightarrow> hash_iterator \<Rightarrow> bool res" where
  "next_cond h i =
     (case i_elem i of
        None \<Rightarrow> Inr False
      | Some p \<Rightarrow> bind_r (arr_get (h_buckets h) (i_bucket i)) (\<lambda>b. Inr (p = Suc (length b))))"

definition next_body :: "'e hash \<Rightarrow> hash_iterator \<Rightarrow> hash_iterator res" where
  "next_body h i =
     (if Suc (i_bucket i) \<ge> h_bucket_cnt h then Inr \<lparr>i_bucket = Suc (i_bucket i), i_elem = None\<rparr>
      else Inr \<lparr>i_bucket = Suc (i_bucket i), i_elem = Some 1\<rparr>)"

definition hash_cur :: "'e hash \<Rightarrow> hash_iterator \<Rightarrow> 'e option res" where
  "hash_cur h i =
     (case i_elem i of
        None \<Rightarrow> Inr None
      | Some p \<Rightarrow> bind_r (arr_get (h_buckets h) (i_bucket i)) (\<lambda>b. bind_r (arr_get b (p - 1)) (\<lambda>e. Inr (Some e))))"

definition hash_next :: "'e hash \<Rightarrow> hash_iterator \<Rightarrow> (hash_iterator \<times> 'e option) res" where
  "hash_next h i =
     (case i_elem i of
        None \<Rightarrow> Inl Assert_failed
      | Some p \<Rightarrow>
          bind_r (while_r (next_cond h) (next_body h) (i\<lparr>i_elem := Some (Suc p)\<rparr>)) (\<lambda>i.
          bind_r (hash_cur h i) (\<lambda>e. Inr (i, e))))"

section \<open>Hash functions\<close>

definition FNV_32_PRIME :: "32 word" where "FNV_32_PRIME = 16777619"
definition FNV_32_BASIS :: "32 word" where "FNV_32_BASIS = 2166136261"

definition fnv_step :: "32 word \<Rightarrow> 8 word \<Rightarrow> 32 word" where
  "fnv_step hash b = (hash * FNV_32_PRIME) XOR ucast b"

text \<open>\<open>hash_bytes\<close> reads \<open>size\<close> bytes of the buffer, \<open>hash_string\<close> up to the null byte.\<close>

fun hash_bytes_loop :: "32 word \<Rightarrow> 8 word list \<Rightarrow> nat \<Rightarrow> 32 word res" where
  "hash_bytes_loop hash buf 0 = Inr hash"
| "hash_bytes_loop hash [] (Suc sz) = Inl Out_of_bounds"
| "hash_bytes_loop hash (b # buf) (Suc sz) = hash_bytes_loop (fnv_step hash b) buf sz"

definition hash_bytes :: "8 word list \<Rightarrow> nat \<Rightarrow> 32 word res" where
  "hash_bytes buf sz = hash_bytes_loop FNV_32_BASIS buf sz"

fun hash_string_loop :: "32 word \<Rightarrow> 8 word list \<Rightarrow> 32 word res" where
  "hash_string_loop hash [] = Inl Out_of_bounds"
| "hash_string_loop hash (c # s) = (if c \<noteq> 0 then hash_string_loop (fnv_step hash c) s else Inr hash)"

definition hash_string :: "8 word list \<Rightarrow> 32 word res" where
  "hash_string s = hash_string_loop FNV_32_BASIS s"

definition hash_int :: "32 word \<Rightarrow> 32 word res" where
  "hash_int i = hash_bytes [ucast i, ucast (drop_bit 8 i), ucast (drop_bit 16 i), ucast (drop_bit 24 i)] 4"

section \<open>The bucket count\<close>

lemma bit_imp_ge: "bit (n :: nat) k \<Longrightarrow> 2 ^ k \<le> n"
  by (metis bit_iff_odd div_less even_zero not_le)

lemma bit_top: "2 ^ k \<le> (n :: nat) \<Longrightarrow> n < 2 ^ Suc k \<Longrightarrow> bit n k"
proof -
  assume "2 ^ k \<le> n" "n < 2 ^ Suc k"
  then have "n div 2 ^ k = 1" by (intro div_nat_eqI) simp_all
  then show ?thesis by (simp add: bit_iff_odd)
qed

lemma and_nat_le: "(x :: nat) AND y \<le> y"
proof (induction y arbitrary: x rule: less_induct)
  case (less y)
  show ?case
  proof (cases "y = 0")
    case False
    then have "x div 2 AND y div 2 \<le> y div 2" by (intro less) simp
    then show ?thesis by (subst and_rec) (auto simp: of_bool_def elim: oddE evenE)
  qed simp
qed

lemma turn_off_less: "n \<noteq> 0 \<Longrightarrow> turn_off_least_1bit n < n"
  using and_nat_le [of n "n - 1"] by (simp add: turn_off_least_1bit_def)

lemma turn_off_top:
  assumes "2 ^ k < n" "n < 2 ^ Suc k"
  shows "2 ^ k \<le> turn_off_least_1bit n"
proof (rule bit_imp_ge)
  show "bit (turn_off_least_1bit n) k"
    using assms bit_top [of k n] bit_top [of k "n - 1"] by (simp add: turn_off_least_1bit_def bit_and_iff)
qed

lemma is_power_of_2_top:
  assumes "2 ^ k \<le> n" "n < 2 ^ Suc k"
  shows "is_power_of_2 n \<longleftrightarrow> n = 2 ^ k"
proof
  assume "is_power_of_2 n"
  then have "turn_off_least_1bit n = 0" by (simp add: is_power_of_2_def)
  then have "\<not> 2 ^ k < n" using turn_off_top [OF _ assms(2)] by fastforce
  then show "n = 2 ^ k" using assms(1) by simp
next
  assume n: "n = 2 ^ k"
  have "\<not> bit (turn_off_least_1bit n) j" for j
  proof
    assume "bit (turn_off_least_1bit n) j"
    then have "bit n j" "bit (n - 1) j" by (simp_all add: turn_off_least_1bit_def bit_and_iff)
    then have "j = k" using n by (simp add: bit_exp_iff)
    then have "2 ^ k \<le> n - 1" using \<open>bit (n - 1) j\<close> bit_imp_ge by blast
    then show False using n by (metis diff_less less_numeral_extra(1) not_le zero_less_numeral zero_less_power)
  qed
  then have "turn_off_least_1bit n = 0" by (auto intro: bit_eqI)
  then show "is_power_of_2 n" using n by (simp add: is_power_of_2_def)
qed

lemma ex_top_bit: "0 < (n :: nat) \<Longrightarrow> \<exists>k. 2 ^ k \<le> n \<and> n < 2 ^ Suc k"
  using ex_power_ivl1 [of 2 n] by (auto simp: le_less_trans)

lemma shrink_to_power:
  assumes "2 ^ k \<le> n" "n < 2 ^ Suc k"
  shows "while_r (\<lambda>n. Inr (\<not> is_power_of_2 n)) (\<lambda>n. Inr (turn_off_least_1bit n)) n = Inr (2 ^ k)"
proof -
  let ?I = "\<lambda>m. 2 ^ k \<le> m \<and> m < 2 ^ Suc k"
  have "\<exists>t. while_r (\<lambda>n. Inr (\<not> is_power_of_2 n)) (\<lambda>n. Inr (turn_off_least_1bit n)) n = Inr t
          \<and> ?I t \<and> Inr (\<not> is_power_of_2 t) = (Inr False :: bool res)"
  proof (rule while_r_rule [where m = id])
    fix m assume m: "?I m" "Inr (\<not> is_power_of_2 m) = (Inr True :: bool res)"
    then have "2 ^ k < m" using is_power_of_2_top [of k m] by auto
    then have "2 ^ k \<le> turn_off_least_1bit m" "turn_off_least_1bit m < m"
      using m turn_off_top turn_off_less [of m] by auto
    then show "\<exists>t'. Inr (turn_off_least_1bit m) = Inr t' \<and> ?I t' \<and> id t' < id m" using m by auto
  qed (use assms in auto)
  then show ?thesis using is_power_of_2_top by auto
qed

lemma new_bucket_cnt_eq:
  "\<exists>k. new_bucket_cnt cnt = Inr (2 ^ k) \<and> 2 \<le> k \<and> 2 ^ k \<le> max 4 (cnt div 2) \<and> cnt div 2 < 2 * 2 ^ k"
proof -
  define n where "n = (if cnt div 2 < 4 then 4 else cnt div 2)"
  have "0 < n" by (simp add: n_def)
  then obtain k where k: "2 ^ k \<le> n" "n < 2 ^ Suc k" using ex_top_bit by blast
  have "(2 :: nat) ^ 2 < 2 ^ Suc k" using k(2) by (simp add: n_def split: if_splits)
  then have "2 \<le> k" by (metis One_nat_def Suc_less_eq Suc_1 Suc_leI nat_power_less_imp_less zero_less_numeral less_Suc_eq_le)
  moreover have "new_bucket_cnt cnt = Inr (2 ^ k)"
    using shrink_to_power [OF k] by (simp add: new_bucket_cnt_def BEST_ELEMS_PER_BUCKET_def n_def Let_def)
  ultimately show ?thesis using k by (auto simp: n_def split: if_splits)
qed

section \<open>Invariant and contents\<close>

definition elems :: "'e hash \<Rightarrow> 'e list" where
  "elems h = concat (h_buckets h)"

text \<open>Every element is in the bucket its hash value selects.\<close>

definition placed :: "'e hash \<Rightarrow> bool" where
  "placed h \<longleftrightarrow> (\<exists>k<32. h_bucket_cnt h = 2 ^ k) \<and> length (h_buckets h) = h_bucket_cnt h
     \<and> (\<forall>i<length (h_buckets h). \<forall>e\<in>set (h_buckets h ! i). find_bucket h e = i)"

definition hash_ok :: "('e \<Rightarrow> 'k::linorder) \<Rightarrow> ('k \<Rightarrow> 32 word) \<Rightarrow> 'e hash \<Rightarrow> bool" where
  "hash_ok key hf h \<longleftrightarrow> placed h \<and> h_hash h = (\<lambda>e. hf (key e)) \<and> h_less h = (\<lambda>a b. key a < key b)
     \<and> distinct (map key (elems h)) \<and> h_elem_cnt h = length (elems h) \<and> h_elem_cnt h < u32_mod"

definition hash_map :: "('e \<Rightarrow> 'k) \<Rightarrow> 'e hash \<Rightarrow> 'k \<Rightarrow> 'e option" where
  "hash_map key h = map_of (map (\<lambda>e. (key e, e)) (elems h))"

lemma find_bucket_upd [simp]:
  "find_bucket (h\<lparr>h_buckets := bs\<rparr>) e = find_bucket h e" "find_bucket (h\<lparr>h_elem_cnt := n\<rparr>) e = find_bucket h e"
  by (simp_all add: find_bucket_def)

lemma find_bucket_less:
  assumes "k < 32" "h_bucket_cnt h = 2 ^ k"
  shows "find_bucket h e = unat (h_hash h e) mod 2 ^ k"
proof -
  have lt: "(2 :: nat) ^ k < u32_mod" using power_strict_increasing [OF assms(1), of "2 :: nat"] by simp
  have "sub32 (2 ^ k) 1 = 2 ^ k - 1" using lt by (intro sub32_small) simp_all
  moreover have "of_nat (2 ^ k - 1) = (mask k :: 32 word)"
    by (simp add: mask_eq_exp_minus_1 of_nat_diff)
  ultimately have "find_bucket h e = unat (take_bit k (h_hash h e))"
    using assms(2) unfolding find_bucket_def take_bit_eq_mask by simp
  then show ?thesis unfolding unsigned_take_bit_eq by (simp add: take_bit_eq_mod)
qed

lemma placed_bucket: "placed h \<Longrightarrow> find_bucket h e < length (h_buckets h)"
  by (auto simp: placed_def find_bucket_less)

lemma placed_elem:
  assumes "placed h"
  shows "e \<in> set (elems h) \<longleftrightarrow> e \<in> set (h_buckets h ! find_bucket h e)"
proof
  assume "e \<in> set (elems h)"
  then obtain b where "b \<in> set (h_buckets h)" "e \<in> set b" by (auto simp: elems_def)
  then obtain i where "i < length (h_buckets h)" "e \<in> set (h_buckets h ! i)" by (auto simp: in_set_conv_nth [of b])
  then show "e \<in> set (h_buckets h ! find_bucket h e)" using assms by (auto simp: placed_def)
next
  assume "e \<in> set (h_buckets h ! find_bucket h e)"
  then show "e \<in> set (elems h)" using nth_mem [OF placed_bucket [OF assms, of e]] by (auto simp: elems_def)
qed

lemma mset_concat_update:
  "i < length bs \<Longrightarrow> mset (concat (bs[i := xs])) + mset (bs ! i) = mset (concat bs) + mset xs"
  by (induction bs arbitrary: i) (auto split: nat.splits simp: nth_Cons add_ac)

lemma push_bucket_placed:
  assumes "placed h"
  shows "\<exists>bs. push_bucket h (find_bucket h e) e = Inr (h\<lparr>h_buckets := bs\<rparr>) \<and> placed (h\<lparr>h_buckets := bs\<rparr>)
           \<and> mset (concat bs) = add_mset e (mset (elems h))"
proof -
  define i where "i = find_bucket h e"
  let ?bs = "(h_buckets h)[i := e # h_buckets h ! i]"
  have i: "i < length (h_buckets h)" using placed_bucket [OF assms] by (simp add: i_def)
  then have "push_bucket h i e = Inr (h\<lparr>h_buckets := ?bs\<rparr>)" by (simp add: push_bucket_def)
  moreover have "placed (h\<lparr>h_buckets := ?bs\<rparr>)"
    using assms i by (auto simp: placed_def nth_list_update i_def)
  moreover have "mset (concat ?bs) = add_mset e (mset (elems h))"
    using mset_concat_update [OF i, of "e # h_buckets h ! i"] by (simp add: elems_def)
  ultimately show ?thesis unfolding i_def by blast
qed

lemma move_elems_placed:
  "placed h \<Longrightarrow> \<exists>bs. move_elems h es = Inr (h\<lparr>h_buckets := bs\<rparr>) \<and> placed (h\<lparr>h_buckets := bs\<rparr>)
     \<and> mset (concat bs) = mset (elems h) + mset es"
proof (induction es arbitrary: h)
  case Nil
  then show ?case by (intro exI [of _ "h_buckets h"]) (simp add: elems_def)
next
  case (Cons e es)
  obtain bs where "push_bucket h (find_bucket h e) e = Inr (h\<lparr>h_buckets := bs\<rparr>)" "placed (h\<lparr>h_buckets := bs\<rparr>)"
      "mset (concat bs) = add_mset e (mset (elems h))"
    using push_bucket_placed [OF Cons.prems] by blast
  then show ?case using Cons.IH [of "h\<lparr>h_buckets := bs\<rparr>"] by (auto simp: elems_def)
qed

lemma move_buckets_placed:
  "placed h \<Longrightarrow> \<exists>bs. move_buckets h old = Inr (h\<lparr>h_buckets := bs\<rparr>) \<and> placed (h\<lparr>h_buckets := bs\<rparr>)
     \<and> mset (concat bs) = mset (elems h) + mset (concat old)"
proof (induction old arbitrary: h)
  case Nil
  then show ?case by (intro exI [of _ "h_buckets h"]) (simp add: elems_def)
next
  case (Cons b old)
  obtain bs where "move_elems h b = Inr (h\<lparr>h_buckets := bs\<rparr>)" "placed (h\<lparr>h_buckets := bs\<rparr>)"
      "mset (concat bs) = mset (elems h) + mset b"
    using move_elems_placed [OF Cons.prems] by blast
  then show ?case using Cons.IH [of "h\<lparr>h_buckets := bs\<rparr>"] by (auto simp: elems_def add_ac)
qed

lemma rehash_placed:
  assumes "placed h" "h_elem_cnt h < u32_mod"
  shows "\<exists>h'. rehash h mem = Inr h' \<and> placed h' \<and> mset (elems h') = mset (elems h)
           \<and> h_elem_cnt h' = h_elem_cnt h \<and> h_hash h' = h_hash h \<and> h_less h' = h_less h"
proof -
  obtain k where k: "new_bucket_cnt (h_elem_cnt h) = Inr (2 ^ k)" "2 ^ k \<le> max 4 (h_elem_cnt h div 2)"
    using new_bucket_cnt_eq by blast
  have "(2 :: nat) ^ k < 2 ^ 32" using k(2) assms(2) by (simp add: max_def split: if_splits)
  then have k32: "k < 32" by (rule power_less_imp_less_exp [rotated]) simp
  show ?thesis
  proof (cases "2 ^ k = h_bucket_cnt h \<or> \<not> mem")
    case True
    then show ?thesis using k assms(1) by (auto simp: rehash_def)
  next
    case False
    let ?h = "h\<lparr>h_buckets := replicate (2 ^ k) [], h_bucket_cnt := 2 ^ k\<rparr>"
    have "placed ?h" using k32 by (auto simp: placed_def)
    moreover have "elems ?h = []" by (simp add: elems_def)
    ultimately obtain bs where "move_buckets ?h (h_buckets h) = Inr (?h\<lparr>h_buckets := bs\<rparr>)"
        "placed (?h\<lparr>h_buckets := bs\<rparr>)" "mset (concat bs) = mset (concat (h_buckets h))"
      using move_buckets_placed [of ?h "h_buckets h"] by auto
    then show ?thesis using k False by (simp add: rehash_def elems_def)
  qed
qed

section \<open>The map a table represents\<close>

lemma map_of_key_Some:
  "distinct (map key es) \<Longrightarrow> map_of (map (\<lambda>e. (key e, e)) es) k = Some e \<longleftrightarrow> e \<in> set es \<and> key e = k"
  by (induction es) (auto simp: image_iff)

lemma hash_map_Some:
  "distinct (map key (elems h)) \<Longrightarrow> hash_map key h k = Some e \<longleftrightarrow> e \<in> set (elems h) \<and> key e = k"
  unfolding hash_map_def by (rule map_of_key_Some)

lemma hash_map_cong:
  assumes "mset (elems h') = mset (elems h)" "distinct (map key (elems h))"
  shows "hash_map key h' = hash_map key h"
proof -
  have "mset (map key (elems h')) = mset (map key (elems h))" using assms(1) by (metis mset_map)
  then have "distinct (map key (elems h'))" using assms(2) by (metis mset_eq_imp_distinct_iff)
  moreover have "set (elems h') = set (elems h)" using assms(1) by (metis set_mset_mset)
  ultimately have "hash_map key h' k = Some e \<longleftrightarrow> hash_map key h k = Some e" for k e
    using assms(2) by (simp add: hash_map_Some)
  then show ?thesis by (intro ext) (metis option.exhaust)
qed

lemma hash_ok_rehash:
  assumes "hash_ok key hf h"
  shows "\<exists>h'. rehash h mem = Inr h' \<and> hash_ok key hf h' \<and> hash_map key h' = hash_map key h"
proof -
  have d: "placed h" "h_elem_cnt h < u32_mod" "distinct (map key (elems h))" using assms by (auto simp: hash_ok_def)
  obtain h' where h': "rehash h mem = Inr h'" "placed h'" "mset (elems h') = mset (elems h)"
      "h_elem_cnt h' = h_elem_cnt h" "h_hash h' = h_hash h" "h_less h' = h_less h"
    using rehash_placed [OF d(1,2)] by blast
  have "mset (map key (elems h')) = mset (map key (elems h))" using h'(3) by (metis mset_map)
  then have "distinct (map key (elems h'))" using d(3) by (metis mset_eq_imp_distinct_iff)
  moreover have "length (elems h') = length (elems h)" using h'(3) by (metis size_mset)
  ultimately have "hash_ok key hf h'" using h' assms by (simp add: hash_ok_def)
  then show ?thesis using h'(1) hash_map_cong [OF h'(3) d(3)] by blast
qed

lemma find_elem_eq:
  "h_less h = (\<lambda>a b. key a < (key b :: 'k::linorder)) \<Longrightarrow> find_elem h b e = find (\<lambda>x. key x = key e) b"
  by (induction b) (auto simp: not_less)

lemma find_in_bucket:
  assumes "hash_ok key hf h"
  shows "find_elem h (h_buckets h ! find_bucket h e) e = hash_map key h (key e)"
proof -
  have h: "placed h" "h_hash h = (\<lambda>e. hf (key e))" "h_less h = (\<lambda>a b. key a < key b)" "distinct (map key (elems h))"
    using assms by (auto simp: hash_ok_def)
  let ?b = "h_buckets h ! find_bucket h e"
  have same: "x \<in> set ?b \<longleftrightarrow> x \<in> set (elems h)" if "key x = key e" for x
    using placed_elem [OF h(1), of x] that h(2) by (simp add: find_bucket_def)
  show ?thesis
  proof (cases "find (\<lambda>x. key x = key e) ?b")
    case None
    then have "\<not> (\<exists>x. x \<in> set (elems h) \<and> key x = key e)" using same by (auto simp: find_None_iff)
    then have "hash_map key h (key e) = None" using hash_map_Some [OF h(4)] by (metis option.exhaust)
    then show ?thesis using None find_elem_eq [of h key ?b e] h(3) by simp
  next
    case (Some x)
    then have "x \<in> set ?b" "key x = key e" by (auto simp: find_Some_iff)
    then have "hash_map key h (key e) = Some x" using same hash_map_Some [OF h(4)] by blast
    then show ?thesis using Some find_elem_eq [of h key ?b e] h(3) by simp
  qed
qed

lemma hash_find_map:
  "hash_ok key hf h \<Longrightarrow> hash_find h e = Inr (hash_map key h (key e))"
  using find_in_bucket [of key hf h e] placed_bucket [of h e] by (simp add: hash_find_def hash_ok_def)

section \<open>Insertion and deletion\<close>

lemma insert_elem_ok:
  assumes "hash_ok key hf h" "hash_map key h (key e) = None" "Suc (h_elem_cnt h) < u32_mod"
  shows "\<exists>h'. insert_elem h (find_bucket h e) e = Inr h' \<and> hash_ok key hf h' \<and> hash_map key h' = (hash_map key h)(key e \<mapsto> e)"
proof -
  have h: "placed h" "distinct (map key (elems h))" "h_elem_cnt h = length (elems h)"
    using assms(1) by (auto simp: hash_ok_def)
  let ?h = "h\<lparr>h_elem_cnt := Suc (h_elem_cnt h)\<rparr>"
  have "placed ?h" "find_bucket ?h e = find_bucket h e" "elems ?h = elems h"
    using h(1) by (auto simp: placed_def elems_def)
  then obtain bs where bs: "push_bucket ?h (find_bucket h e) e = Inr (?h\<lparr>h_buckets := bs\<rparr>)" "placed (?h\<lparr>h_buckets := bs\<rparr>)"
      "mset (concat bs) = add_mset e (mset (elems h))"
    using push_bucket_placed [of ?h e] by auto
  let ?h' = "?h\<lparr>h_buckets := bs\<rparr>"
  have el: "elems ?h' = concat bs" by (simp add: elems_def)
  have fresh: "key e \<notin> key ` set (elems h)"
    using assms(2) hash_map_Some [OF h(2)] by (metis imageE option.distinct(1))
  have "mset (map key (concat bs)) = mset (map key (e # elems h))" using bs(3) by (metis mset.simps(2) mset_map)
  then have d: "distinct (map key (concat bs))"
    using fresh h(2) by (metis distinct.simps(2) list.set_map list.simps(9) mset_eq_imp_distinct_iff)
  have set: "set (concat bs) = insert e (set (elems h))" using bs(3) by (metis set_mset_add_mset_insert set_mset_mset)
  have len: "length (concat bs) = Suc (length (elems h))" using bs(3) by (metis size_add_mset size_mset)
  have ok: "hash_ok key hf ?h'"
    using assms(1,3) bs(2) d len h(3) unfolding hash_ok_def el by simp
  have "hash_map key ?h' k = Some x \<longleftrightarrow> ((hash_map key h)(key e \<mapsto> e)) k = Some x" for k x
    using hash_map_Some [of key ?h' k x] hash_map_Some [OF h(2), of k x] d fresh unfolding el set by (auto simp: image_iff)
  then have "hash_map key ?h' = (hash_map key h)(key e \<mapsto> e)" by (intro ext) (metis option.exhaust)
  then show ?thesis using bs(1) ok assms(3) by (simp add: insert_elem_def)
qed

lemma concat_remove1: "distinct (concat bs) \<Longrightarrow> concat (map (remove1 x) bs) = remove1 x (concat bs)"
proof (induction bs)
  case (Cons b bs)
  show ?case
  proof (cases "x \<in> set b")
    case True
    then have "x \<notin> set (concat bs)" using Cons.prems by auto
    then have "map (remove1 x) bs = bs" by (auto intro!: map_idI remove1_idem)
    then show ?thesis using True by (simp add: remove1_append)
  next
    case False
    then show ?thesis using Cons by (simp add: remove1_append remove1_idem)
  qed
qed simp

lemma find_bucket_remove: "find_bucket (remove_elem h x) e = find_bucket h e"
  by (simp add: find_bucket_def remove_elem_def)

lemma remove_elem_ok:
  assumes "hash_ok key hf h" "hash_map key h k = Some x"
  shows "hash_ok key hf (remove_elem h x) \<and> hash_map key (remove_elem h x) = (hash_map key h)(k := None)
           \<and> h_elem_cnt h = Suc (h_elem_cnt (remove_elem h x))"
proof -
  have h: "placed h" "distinct (map key (elems h))" "h_elem_cnt h = length (elems h)" "h_elem_cnt h < u32_mod"
    using assms(1) by (auto simp: hash_ok_def)
  have x: "x \<in> set (elems h)" "key x = k" using assms(2) hash_map_Some [OF h(2)] by auto
  have dist: "distinct (elems h)" using h(2) by (simp add: distinct_map)
  let ?h = "remove_elem h x"
  have el: "elems ?h = remove1 x (elems h)" using concat_remove1 dist by (simp add: remove_elem_def elems_def)
  have pl: "placed ?h"
    using h(1) unfolding placed_def remove_elem_def by (auto simp: find_bucket_def dest!: subsetD [OF set_remove1_subset])
  have len: "length (elems h) = Suc (length (elems ?h))" using x(1) el by (simp add: length_remove1) (metis Suc_pred length_pos_if_in_set)
  have "h_elem_cnt ?h = sub32 (h_elem_cnt h) 1" by (simp add: remove_elem_def)
  also have "\<dots> = h_elem_cnt h - 1" using len h(3,4) by (intro sub32_small) simp_all
  finally have cnt: "h_elem_cnt ?h = length (elems ?h)" using len h(3) by simp
  have sub: "set (elems ?h) = set (elems h) - {x}" using el dist by simp
  have "inj_on key (set (elems ?h))" using h(2) unfolding sub distinct_map by (blast intro: inj_on_subset)
  moreover have "distinct (elems ?h)" using dist unfolding el by (rule distinct_remove1)
  ultimately have d: "distinct (map key (elems ?h))" unfolding distinct_map by blast
  have "h_hash ?h = h_hash h" "h_less ?h = h_less h" by (simp_all add: remove_elem_def)
  moreover have "h_elem_cnt ?h < u32_mod" using cnt len h(3,4) by simp
  ultimately have ok: "hash_ok key hf ?h"
    using assms(1) pl cnt d unfolding hash_ok_def by simp
  have "hash_map key ?h j = Some y \<longleftrightarrow> ((hash_map key h)(k := None)) j = Some y" for j y
  proof -
    have "key y \<noteq> k" if "y \<in> set (elems h)" "y \<noteq> x" using that x h(2) by (auto simp: distinct_map dest: inj_onD)
    then show ?thesis using hash_map_Some [OF d, of j y] hash_map_Some [OF h(2), of j y] x sub by auto
  qed
  then have "hash_map key ?h = (hash_map key h)(k := None)" by (intro ext) (metis option.exhaust)
  then show ?thesis using ok len cnt h(3) by simp
qed

lemma hash_insert_ok:
  assumes "hash_ok key hf h" "Suc (h_elem_cnt h) < u32_mod"
  shows "\<exists>h'. hash_insert h e mem = Inr (h', hash_map key h (key e)) \<and> hash_ok key hf h'
           \<and> hash_map key h' = (if hash_map key h (key e) = None then (hash_map key h)(key e \<mapsto> e) else hash_map key h)"
proof -
  have b: "find_bucket h e < length (h_buckets h)" using assms(1) placed_bucket by (auto simp: hash_ok_def)
  note f = find_in_bucket [OF assms(1), of e]
  show ?thesis
  proof (cases "hash_map key h (key e)")
    case None
    obtain h1 where h1: "insert_elem h (find_bucket h e) e = Inr h1" "hash_ok key hf h1" "hash_map key h1 = (hash_map key h)(key e \<mapsto> e)"
      using insert_elem_ok [OF assms(1) None assms(2)] by blast
    obtain h2 where "rehash h1 mem = Inr h2" "hash_ok key hf h2" "hash_map key h2 = hash_map key h1"
      using hash_ok_rehash [OF h1(2)] by blast
    then show ?thesis using b f None h1 by (simp add: hash_insert_def Let_def)
  next
    case (Some x)
    obtain h2 where "rehash h mem = Inr h2" "hash_ok key hf h2" "hash_map key h2 = hash_map key h"
      using hash_ok_rehash [OF assms(1)] by blast
    then show ?thesis using b f Some by (simp add: hash_insert_def Let_def)
  qed
qed

lemma hash_delete_ok:
  assumes "hash_ok key hf h"
  shows "\<exists>h'. hash_delete h e mem = Inr (h', hash_map key h (key e)) \<and> hash_ok key hf h'
           \<and> hash_map key h' = (hash_map key h)(key e := None)"
proof -
  have b: "find_bucket h e < length (h_buckets h)" using assms(1) placed_bucket by (auto simp: hash_ok_def)
  note f = find_in_bucket [OF assms(1), of e]
  show ?thesis
  proof (cases "hash_map key h (key e)")
    case None
    then show ?thesis using b f assms by (auto simp: hash_delete_def)
  next
    case (Some x)
    note r = remove_elem_ok [OF assms Some]
    obtain h2 where "rehash (remove_elem h x) mem = Inr h2" "hash_ok key hf h2"
        "hash_map key h2 = hash_map key (remove_elem h x)"
      using hash_ok_rehash r by blast
    then show ?thesis using b f Some r by (simp add: hash_delete_def)
  qed
qed

lemma hash_replace_ok:
  assumes "hash_ok key hf h" "Suc (h_elem_cnt h) < u32_mod"
  shows "\<exists>h'. hash_replace h e mem = Inr (h', hash_map key h (key e)) \<and> hash_ok key hf h'
           \<and> hash_map key h' = (hash_map key h)(key e \<mapsto> e)"
proof -
  have b: "find_bucket h e < length (h_buckets h)" using assms(1) placed_bucket by (auto simp: hash_ok_def)
  note f = find_in_bucket [OF assms(1), of e]
  define g where "g = (case hash_map key h (key e) of None \<Rightarrow> h | Some x \<Rightarrow> remove_elem h x)"
  have g: "hash_ok key hf g" "hash_map key g (key e) = None" "Suc (h_elem_cnt g) < u32_mod"
      "(hash_map key g)(key e \<mapsto> e) = (hash_map key h)(key e \<mapsto> e)" "find_bucket g e = find_bucket h e"
    using assms remove_elem_ok [OF assms(1), of "key e"] by (auto simp: g_def find_bucket_remove split: option.split)
  obtain h1 where h1: "insert_elem g (find_bucket g e) e = Inr h1" "hash_ok key hf h1" "hash_map key h1 = (hash_map key g)(key e \<mapsto> e)"
    using insert_elem_ok [OF g(1-3)] by blast
  obtain h2 where "rehash h1 mem = Inr h2" "hash_ok key hf h2" "hash_map key h2 = hash_map key h1"
    using hash_ok_rehash [OF h1(2)] by blast
  then show ?thesis using b f h1 g(4,5) by (simp add: hash_replace_def Let_def g_def [symmetric])
qed

section \<open>Iteration\<close>

lemma apply_buckets_concat: "apply_buckets bs = concat bs"
  by (induction bs) auto

text \<open>The iteration idiom of the source's comment, collecting the elements it visits.\<close>

definition iterate_body :: "'e hash \<Rightarrow> hash_iterator \<times> 'e list \<times> bool \<Rightarrow> (hash_iterator \<times> 'e list \<times> bool) res" where
  "iterate_body h = (\<lambda>(i, es, go). bind_r (hash_next h i) (\<lambda>(i', e).
     Inr (case e of None \<Rightarrow> (i', es, False) | Some x \<Rightarrow> (i', es @ [x], True))))"

definition hash_iterate :: "'e hash \<Rightarrow> 'e list res" where
  "hash_iterate h =
     bind_r (while_r (\<lambda>(i, es, go). Inr go) (iterate_body h) (hash_first, [], True)) (\<lambda>(i, es, go). Inr es)"

text \<open>What an iterator has still to visit.\<close>

definition rest_of :: "'e hash \<Rightarrow> nat \<Rightarrow> nat \<Rightarrow> 'e list" where
  "rest_of h j p = drop p (h_buckets h ! j) @ concat (drop (Suc j) (h_buckets h))"

lemma next_loop:
  assumes "length (h_buckets h) = h_bucket_cnt h" "j < length (h_buckets h)" "p \<le> length (h_buckets h ! j)"
  shows "\<exists>i. while_r (next_cond h) (next_body h) \<lparr>i_bucket = j, i_elem = Some (Suc p)\<rparr> = Inr i
           \<and> (case rest_of h j p of
                [] \<Rightarrow> i_elem i = None
              | x # xs \<Rightarrow> (\<exists>j' p'. i = \<lparr>i_bucket = j', i_elem = Some (Suc p')\<rparr> \<and> j' < length (h_buckets h)
                            \<and> p' < length (h_buckets h ! j') \<and> h_buckets h ! j' ! p' = x \<and> rest_of h j' (Suc p') = xs))"
  using assms(2,3)
proof (induction "length (h_buckets h) - j" arbitrary: j p rule: less_induct)
  case less
  let ?b = "h_buckets h ! j" and ?i = "\<lparr>i_bucket = j, i_elem = Some (Suc p)\<rparr>"
  have c: "next_cond h ?i = Inr (p = length ?b)" using less.prems by (simp add: next_cond_def)
  show ?case
  proof (cases "p = length ?b")
    case False
    then have "p < length ?b" using less.prems by simp
    then have "rest_of h j p = ?b ! p # rest_of h j (Suc p)" by (simp add: rest_of_def Cons_nth_drop_Suc [symmetric])
    then show ?thesis using c False less.prems \<open>p < length ?b\<close> by (simp add: while_r_False)
  next
    case p: True
    show ?thesis
    proof (cases "Suc j < length (h_buckets h)")
      case True
      then have b: "next_body h ?i = Inr \<lparr>i_bucket = Suc j, i_elem = Some (Suc 0)\<rparr>"
        using assms(1) by (simp add: next_body_def)
      have "rest_of h j p = rest_of h (Suc j) 0"
        using p True by (simp add: rest_of_def Cons_nth_drop_Suc [symmetric])
      then show ?thesis
        using less.hyps [of "Suc j" 0] True while_r_step [of "next_cond h" _ "next_body h", OF _ b] c p by simp
    next
      case False
      then have b: "next_body h ?i = Inr \<lparr>i_bucket = Suc j, i_elem = None\<rparr>"
        using assms(1) by (simp add: next_body_def)
      have "next_cond h \<lparr>i_bucket = Suc j, i_elem = None\<rparr> = Inr False" by (simp add: next_cond_def)
      then have "while_r (next_cond h) (next_body h) ?i = Inr \<lparr>i_bucket = Suc j, i_elem = None\<rparr>"
        using while_r_step [of "next_cond h" _ "next_body h", OF _ b] c p while_r_False [of "next_cond h"] by simp
      moreover have "rest_of h j p = []" using p False by (simp add: rest_of_def)
      ultimately show ?thesis by simp
    qed
  qed
qed

lemma iterate_loop:
  assumes "length (h_buckets h) = h_bucket_cnt h" "j < length (h_buckets h)" "p \<le> length (h_buckets h ! j)"
  shows "\<exists>i. while_r (\<lambda>(i, es, go). Inr go) (iterate_body h) (\<lparr>i_bucket = j, i_elem = Some p\<rparr>, es, True)
           = Inr (i, es @ rest_of h j p, False)"
  using assms(2,3)
proof (induction "rest_of h j p" arbitrary: j p es)
  case Nil
  then obtain i where "hash_next h \<lparr>i_bucket = j, i_elem = Some p\<rparr> = Inr (i, None)"
    using next_loop [OF assms(1) Nil(2,3)] by (auto simp: hash_next_def hash_cur_def Nil(1) [symmetric])
  then have "iterate_body h (\<lparr>i_bucket = j, i_elem = Some p\<rparr>, es, True) = Inr (i, es, False)"
    by (simp add: iterate_body_def)
  then show ?case using Nil(1) by (subst while_r_unfold) (simp add: while_r_False)
next
  case (Cons x xs)
  obtain j' p' where n: "hash_next h \<lparr>i_bucket = j, i_elem = Some p\<rparr> = Inr (\<lparr>i_bucket = j', i_elem = Some (Suc p')\<rparr>, Some x)"
      "j' < length (h_buckets h)" "p' < length (h_buckets h ! j')" "rest_of h j' (Suc p') = xs"
    using next_loop [OF assms(1) Cons(3,4)] by (auto simp: hash_next_def hash_cur_def Cons(2) [symmetric])
  have "iterate_body h (\<lparr>i_bucket = j, i_elem = Some p\<rparr>, es, True) = Inr (\<lparr>i_bucket = j', i_elem = Some (Suc p')\<rparr>, es @ [x], True)"
    using n(1) by (simp add: iterate_body_def)
  moreover obtain i where "while_r (\<lambda>(i, es, go). Inr go) (iterate_body h) (\<lparr>i_bucket = j', i_elem = Some (Suc p')\<rparr>, es @ [x], True)
      = Inr (i, (es @ [x]) @ xs, False)"
    using Cons.hyps(1) [OF n(4) [symmetric] n(2), of "es @ [x]"] n(3,4) by auto
  ultimately show ?case unfolding Cons(2) [symmetric] by (intro exI [of _ i], subst while_r_unfold) simp
qed

lemma hash_iterate_elems:
  assumes "placed h"
  shows "hash_iterate h = Inr (elems h)"
proof -
  have h: "length (h_buckets h) = h_bucket_cnt h" "0 < length (h_buckets h)" using assms by (auto simp: placed_def)
  have "rest_of h 0 0 = elems h"
    using h(2) by (cases "h_buckets h") (simp_all add: rest_of_def elems_def)
  then show ?thesis using iterate_loop [OF h, of 0 "[]"] by (auto simp: hash_iterate_def hash_first_def)
qed

section \<open>The dictionary contract\<close>

text \<open>A dictionary of elements that carry their own key, as its users see it.\<close>

locale dictionary =
  fixes ok :: "'s \<Rightarrow> bool"
    and room :: "'s \<Rightarrow> bool"
    and look :: "'s \<Rightarrow> 'k \<Rightarrow> 'e option"
    and key :: "'e \<Rightarrow> 'k"
    and find :: "'s \<Rightarrow> 'e \<Rightarrow> 'e option res"
    and ins :: "'s \<Rightarrow> 'e \<Rightarrow> ('s \<times> 'e option) res"
    and del :: "'s \<Rightarrow> 'e \<Rightarrow> ('s \<times> 'e option) res"
  assumes find_look: "ok s \<Longrightarrow> find s e = Inr (look s (key e))"
    and ins_look: "ok s \<Longrightarrow> room s \<Longrightarrow> \<exists>s'. ins s e = Inr (s', look s (key e)) \<and> ok s'
           \<and> look s' = (if look s (key e) = None then (look s)(key e \<mapsto> e) else look s)"
    and del_look: "ok s \<Longrightarrow> \<exists>s'. del s e = Inr (s', look s (key e)) \<and> ok s' \<and> look s' = (look s)(key e := None)"
begin

lemma find_after_insert:
  assumes "ok s" "room s"
  shows "\<exists>s' old. ins s e = Inr (s', old) \<and> find s' e = Inr (Some (case old of None \<Rightarrow> e | Some x \<Rightarrow> x))
           \<and> (\<forall>x. key x \<noteq> key e \<longrightarrow> find s' x = find s x)"
proof -
  obtain s' where s': "ins s e = Inr (s', look s (key e))" "ok s'"
      "look s' = (if look s (key e) = None then (look s)(key e \<mapsto> e) else look s)"
    using ins_look [OF assms] by blast
  then show ?thesis using find_look [OF assms(1)] find_look [OF s'(2)]
    by (intro exI [of _ s'] exI [of _ "look s (key e)"]) (auto split: option.splits)
qed

lemma insert_delete:
  assumes "ok s" "room s" "look s (key e) = None"
  shows "\<exists>s1 s2. ins s e = Inr (s1, None) \<and> del s1 e = Inr (s2, Some e) \<and> ok s2 \<and> look s2 = look s"
proof -
  obtain s1 where s1: "ins s e = Inr (s1, None)" "ok s1" "look s1 = (look s)(key e \<mapsto> e)"
    using ins_look [OF assms(1,2), of e] assms(3) by auto
  then obtain s2 where "del s1 e = Inr (s2, Some e)" "ok s2" "look s2 = (look s1)(key e := None)"
    using del_look [OF s1(2), of e] by auto
  moreover have "(look s1)(key e := None) = look s" using s1(3) assms(3) by auto
  ultimately show ?thesis using s1(1) by auto
qed

end

interpretation hd: dictionary "hash_ok key hf" "\<lambda>h. Suc (h_elem_cnt h) < u32_mod" "hash_map key" key
  hash_find "\<lambda>h e. hash_insert h e m1" "\<lambda>h e. hash_delete h e m2"
  for key :: "'e \<Rightarrow> 'k::linorder" and hf m1 m2
proof (unfold_locales, goal_cases)
  case (1 h e)
  then show ?case by (rule hash_find_map)
next
  case (2 h e)
  then show ?case by (rule hash_insert_ok)
next
  case (3 h e)
  then show ?case by (rule hash_delete_ok)
qed

section \<open>Properties\<close>

lemma fst_clear_buckets: "fst (clear_buckets bs) = replicate (length bs) []"
  by (induction bs) (auto split: prod.split)

lemma hash_init_ok:
  assumes "length mem = 4"
  shows "\<exists>h. hash_init (\<lambda>e. hf (key e)) (\<lambda>a b. key a < key b) (Some mem) = Some h
           \<and> hash_ok key hf h \<and> hash_map key h = Map.empty \<and> h_elem_cnt h = 0"
proof -
  obtain es where "clear_buckets mem = (replicate 4 [], es)"
    by (metis assms fst_clear_buckets prod.collapse)
  then have init: "hash_init (\<lambda>e. hf (key e)) (\<lambda>a b. key a < key b) (Some mem) =
      Some \<lparr>h_elem_cnt = 0, h_bucket_cnt = 4, h_buckets = replicate 4 [], h_hash = (\<lambda>e. hf (key e)), h_less = (\<lambda>a b. key a < key b)\<rparr>"
    (is "_ = Some ?h") by (simp add: hash_init_def hash_clear_def)
  have "\<exists>k<32. (4 :: nat) = 2 ^ k" by (intro exI [of _ 2]) simp
  then have "placed ?h" by (simp add: placed_def)
  moreover have "elems ?h = []" by (simp add: elems_def)
  ultimately show ?thesis using init by (simp add: hash_ok_def hash_map_def)
qed

definition hash_example :: "nat hash" where
  "hash_example = \<lparr>h_elem_cnt = 2, h_bucket_cnt = 4, h_buckets = [[4], [], [], [103]],
     h_hash = (\<lambda>e. of_nat (e mod 100)), h_less = (\<lambda>a b. a mod 100 < b mod 100)\<rparr>"

lemma hash_example_ok: "hash_ok (\<lambda>e. e mod 100) of_nat hash_example"
proof -
  have "\<exists>k<32. (4 :: nat) = 2 ^ k" by (intro exI [of _ 2]) simp
  moreover have "find_bucket hash_example 4 = 0" "find_bucket hash_example 103 = 3" by code_simp+
  ultimately have "placed hash_example" by (simp add: placed_def hash_example_def less_Suc_eq all_conj_distrib)
  then show ?thesis by (simp add: hash_ok_def elems_def hash_example_def)
qed

text \<open>C34: the hash table implements a finite map from keys to elements: \<open>hash_find\<close> looks a key up,
  \<open>hash_insert\<close> adds an element unless its key is present, \<open>hash_replace\<close> always, \<open>hash_delete\<close>
  removes a key, all three return the element found before, and every operation keeps the invariant,
  whether or not the allocation inside \<open>rehash\<close> succeeds.\<close>

theorem hash_refines_map:
  fixes key :: "'e \<Rightarrow> 'k::linorder"
  assumes "hash_ok key hf h" and "h_elem_cnt h + 1 < 2 ^ 32"
  shows "hash_find h e = Inr (hash_map key h (key e))
     \<and> (\<exists>h'. hash_insert h e mem = Inr (h', hash_map key h (key e)) \<and> hash_ok key hf h'
          \<and> hash_map key h' = (if hash_map key h (key e) = None then (hash_map key h)(key e \<mapsto> e) else hash_map key h))
     \<and> (\<exists>h'. hash_replace h e mem = Inr (h', hash_map key h (key e)) \<and> hash_ok key hf h'
          \<and> hash_map key h' = (hash_map key h)(key e \<mapsto> e))
     \<and> (\<exists>h'. hash_delete h e mem = Inr (h', hash_map key h (key e)) \<and> hash_ok key hf h'
          \<and> hash_map key h' = (hash_map key h)(key e := None))"
proof -
  have "Suc (h_elem_cnt h) < u32_mod" using assms(2) by simp
  then show ?thesis
    using hash_find_map [OF assms(1)] hash_insert_ok [OF assms(1)] hash_replace_ok [OF assms(1)]
      hash_delete_ok [OF assms(1)] by blast
qed

theorem hash_refines_map_witness:
  "\<exists>h'. hash_insert hash_example 7 True = Inr (h', hash_map (\<lambda>e. e mod 100) hash_example 7)
      \<and> hash_ok (\<lambda>e. e mod 100) of_nat h'"
  using hash_refines_map [OF hash_example_ok, of 7 True] by (auto simp: hash_example_def)

text \<open>an element that \<open>hash_insert\<close> added is found and \<open>hash_delete\<close> takes it out again, leaving
  the table with its former contents.\<close>

theorem hash_insert_delete:
  fixes key :: "'e \<Rightarrow> 'k::linorder"
  assumes "hash_ok key hf h" "h_elem_cnt h + 1 < 2 ^ 32" "hash_map key h (key e) = None"
  shows "\<exists>h1 h2. hash_insert h e m1 = Inr (h1, None) \<and> hash_delete h1 e m2 = Inr (h2, Some e)
           \<and> hash_ok key hf h2 \<and> hash_map key h2 = hash_map key h"
  using hd.insert_delete [OF assms(1) _ assms(3), of m1 m2] assms(2) by simp

text \<open>the iteration idiom visits every element of the table exactly once and then ends.\<close>

theorem hash_iterate_complete:
  fixes key :: "'e \<Rightarrow> 'k::linorder"
  assumes "hash_ok key hf h"
  shows "\<exists>es. hash_iterate h = Inr es \<and> distinct es \<and> set es = ran (hash_map key h) \<and> length es = hash_size h"
proof -
  have d: "distinct (map key (elems h))" "placed h" "h_elem_cnt h = length (elems h)" using assms by (auto simp: hash_ok_def)
  have "set (elems h) = ran (hash_map key h)"
    using hash_map_Some [OF d(1)] by (auto simp: ran_def)
  moreover have "distinct (elems h)" using d(1) by (simp add: distinct_map)
  ultimately show ?thesis using hash_iterate_elems [OF d(2)] d(3) by (simp add: hash_size_def)
qed

text \<open>the loop in \<open>rehash\<close> that computes the number of buckets ends, with a power of two that is
  at least 4 and within a factor of two of half the number of elements.\<close>

theorem new_bucket_cnt_power:
  "\<exists>k. new_bucket_cnt cnt = Inr (2 ^ k) \<and> 4 \<le> (2 :: nat) ^ k \<and> 2 ^ k \<le> max 4 (cnt div 2) \<and> cnt div 2 < 2 * 2 ^ k"
proof -
  obtain k where k: "new_bucket_cnt cnt = Inr (2 ^ k)" "2 \<le> k" "2 ^ k \<le> max 4 (cnt div 2)" "cnt div 2 < 2 * 2 ^ k"
    using new_bucket_cnt_eq by blast
  have "(2 :: nat) ^ 2 \<le> 2 ^ k" using k(2) by (intro power_increasing) simp_all
  then show ?thesis using k by auto
qed

end
