(* ===== verification/Cstring.thy ===== *)
theory Cstring
  imports Prelude
begin

text \<open>
  \<^verbatim>\<open>lib/ctype.h\<close> and \<^verbatim>\<open>lib/string.c\<close>: bytes in memory. Memory is a partial map from addresses to bytes;
  reading or writing an unmapped address is a fault, and address 0 is the null pointer. Every loop
  is the loop of the source. \<open>bytes_at\<close> and \<open>cstr\<close> say that memory holds a sequence of bytes or a
  null-terminated string at an address, and \<open>put\<close> is memory after storing a sequence.
\<close>

section \<open>Character classes (lib/ctype.h)\<close>

text \<open>A character is an \<open>int\<close>, as in the source.\<close>

definition islower :: "int \<Rightarrow> bool" where "islower c \<longleftrightarrow> c \<ge> 97 \<and> c \<le> 122"
definition isupper :: "int \<Rightarrow> bool" where "isupper c \<longleftrightarrow> c \<ge> 65 \<and> c \<le> 90"
definition isalpha :: "int \<Rightarrow> bool" where "isalpha c \<longleftrightarrow> islower c \<or> isupper c"
definition isdigit :: "int \<Rightarrow> bool" where "isdigit c \<longleftrightarrow> c \<ge> 48 \<and> c \<le> 57"
definition isalnum :: "int \<Rightarrow> bool" where "isalnum c \<longleftrightarrow> isalpha c \<or> isdigit c"

definition isxdigit :: "int \<Rightarrow> bool" where
  "isxdigit c \<longleftrightarrow> isdigit c \<or> (c \<ge> 97 \<and> c \<le> 102) \<or> (c \<ge> 65 \<and> c \<le> 70)"

definition isspace :: "int \<Rightarrow> bool" where
  "isspace c \<longleftrightarrow> c = 32 \<or> c = 12 \<or> c = 10 \<or> c = 13 \<or> c = 9 \<or> c = 11"

definition isblank :: "int \<Rightarrow> bool" where "isblank c \<longleftrightarrow> c = 32 \<or> c = 9"
definition isgraph :: "int \<Rightarrow> bool" where "isgraph c \<longleftrightarrow> c > 32 \<and> c < 127"
definition isprint :: "int \<Rightarrow> bool" where "isprint c \<longleftrightarrow> c \<ge> 32 \<and> c < 127"
definition iscntrl :: "int \<Rightarrow> bool" where "iscntrl c \<longleftrightarrow> (c \<ge> 0 \<and> c < 32) \<or> c = 127"
definition isascii :: "int \<Rightarrow> bool" where "isascii c \<longleftrightarrow> c \<ge> 0 \<and> c < 128"
definition ispunct :: "int \<Rightarrow> bool" where "ispunct c \<longleftrightarrow> isprint c \<and> \<not> isalnum c \<and> \<not> isspace c"
definition tolower :: "int \<Rightarrow> int" where "tolower c = (if isupper c then c - 65 + 97 else c)"
definition toupper :: "int \<Rightarrow> int" where "toupper c = (if islower c then c - 97 + 65 else c)"

section \<open>Memory\<close>

type_synonym mem = "nat \<Rightarrow> byte option"

definition rd :: "mem \<Rightarrow> nat \<Rightarrow> byte res" where
  "rd m a = (case m a of None \<Rightarrow> Inl Out_of_bounds | Some b \<Rightarrow> Inr b)"

definition wr :: "mem \<Rightarrow> nat \<Rightarrow> byte \<Rightarrow> mem res" where
  "wr m a b = (if m a = None then Inl Out_of_bounds else Inr (m(a \<mapsto> b)))"

section \<open>Blocks (lib/string.c)\<close>

text \<open>The state of a copying loop is the memory, the two pointers and the remaining size.\<close>

definition copy_cond :: "mem \<times> nat \<times> nat \<times> nat \<Rightarrow> bool res" where
  "copy_cond = (\<lambda>(m, dst, src, n). Inr (n > 0))"

definition copy_fwd :: "mem \<times> nat \<times> nat \<times> nat \<Rightarrow> (mem \<times> nat \<times> nat \<times> nat) res" where
  "copy_fwd = (\<lambda>(m, dst, src, n). bind_r (rd m src) (\<lambda>b. bind_r (wr m dst b) (\<lambda>m. Inr (m, dst + 1, src + 1, n - 1))))"

definition copy_bwd :: "mem \<times> nat \<times> nat \<times> nat \<Rightarrow> (mem \<times> nat \<times> nat \<times> nat) res" where
  "copy_bwd = (\<lambda>(m, dst, src, n). bind_r (rd m (src - 1)) (\<lambda>b. bind_r (wr m (dst - 1) b) (\<lambda>m. Inr (m, dst - 1, src - 1, n - 1))))"

definition memcpy :: "mem \<Rightarrow> nat \<Rightarrow> nat \<Rightarrow> nat \<Rightarrow> (mem \<times> nat) res" where
  "memcpy m dst src n =
     ASSERT (dst \<noteq> 0 \<or> n = 0) (ASSERT (src \<noteq> 0 \<or> n = 0)
       (bind_r (while_r copy_cond copy_fwd (m, dst, src, n)) (\<lambda>(m, _). Inr (m, dst))))"

definition memmove :: "mem \<Rightarrow> nat \<Rightarrow> nat \<Rightarrow> nat \<Rightarrow> (mem \<times> nat) res" where
  "memmove m dst src n =
     ASSERT (dst \<noteq> 0 \<or> n = 0) (ASSERT (src \<noteq> 0 \<or> n = 0)
       (bind_r (if dst < src then while_r copy_cond copy_fwd (m, dst, src, n)
                else while_r copy_cond copy_bwd (m, dst + n, src + n, n))
          (\<lambda>(m, dst', _). Inr (m, dst'))))"

text \<open>The result of \<open>memcmp\<close>, once known, is the last component of the loop state.\<close>

definition memcmp :: "mem \<Rightarrow> nat \<Rightarrow> nat \<Rightarrow> nat \<Rightarrow> int res" where
  "memcmp m a b n =
     ASSERT (a \<noteq> 0 \<or> n = 0) (ASSERT (b \<noteq> 0 \<or> n = 0)
       (bind_r (while_r (\<lambda>(a, b, n, r). Inr (r = 0 \<and> n > 0))
                  (\<lambda>(a, b, n, r). bind_r (rd m a) (\<lambda>x. bind_r (rd m b) (\<lambda>y.
                     Inr (a + 1, b + 1, n - 1, if x \<noteq> y then (if x > y then 1 else - 1) else 0))))
                  (a, b, n, 0 :: int))
          (\<lambda>(a, b, n, r). Inr r)))"

definition strcmp :: "mem \<Rightarrow> nat \<Rightarrow> nat \<Rightarrow> int res" where
  "strcmp m a b =
     ASSERT (a \<noteq> 0) (ASSERT (b \<noteq> 0)
       (bind_r (while_r (\<lambda>(a, b). bind_r (rd m a) (\<lambda>x. if x \<noteq> 0 then bind_r (rd m b) (\<lambda>y. Inr (x = y)) else Inr False))
                  (\<lambda>(a, b). Inr (a + 1, b + 1)) (a, b))
          (\<lambda>(a, b). bind_r (rd m a) (\<lambda>x. bind_r (rd m b) (\<lambda>y. Inr (if x < y then - 1 else if x > y then 1 else 0))))))"

text \<open>Searches return \<open>None\<close> for a null pointer.\<close>

definition memchr :: "mem \<Rightarrow> nat \<Rightarrow> byte \<Rightarrow> nat \<Rightarrow> nat option res" where
  "memchr m block ch n =
     ASSERT (block \<noteq> 0 \<or> n = 0)
       (bind_r (while_r (\<lambda>(p, n, r). Inr (r = None \<and> n > 0))
                  (\<lambda>(p, n, r). bind_r (rd m p) (\<lambda>x. Inr (if x = ch then (p, n, Some p) else (p + 1, n - 1, None))))
                  (block, n, None))
          (\<lambda>(p, n, r). Inr r))"

definition strchr_body :: "mem \<Rightarrow> byte \<Rightarrow> nat \<times> nat option option \<Rightarrow> (nat \<times> nat option option) res" where
  "strchr_body m c = (\<lambda>(p, r). bind_r (rd m p) (\<lambda>x.
     Inr (if x = c then (p, Some (Some p)) else if x = 0 then (p, Some None) else (p + 1, None))))"

definition strchr :: "mem \<Rightarrow> nat \<Rightarrow> byte \<Rightarrow> nat option res" where
  "strchr m s c =
     ASSERT (s \<noteq> 0)
       (bind_r (while_r (\<lambda>(p, r). Inr (r = None)) (strchr_body m c) (s, None))
          (\<lambda>(p, r). Inr (case r of Some q \<Rightarrow> q | None \<Rightarrow> None)))"

text \<open>\<open>strcspn\<close> and \<open>strspn\<close> differ in the test.\<close>

definition span_loop :: "mem \<Rightarrow> nat \<Rightarrow> nat \<Rightarrow> bool \<Rightarrow> nat res" where
  "span_loop m s cs stop_if_found =
     bind_r (while_r (\<lambda>(len, brk). if brk then Inr False else bind_r (rd m (s + len)) (\<lambda>x. Inr (x \<noteq> 0)))
               (\<lambda>(len, brk). bind_r (rd m (s + len)) (\<lambda>x. bind_r (strchr m cs x) (\<lambda>r.
                  Inr (if (r \<noteq> None) = stop_if_found then (len, True) else (len + 1, False)))))
               (0, False))
       (\<lambda>(len, brk). Inr len)"

definition strcspn :: "mem \<Rightarrow> nat \<Rightarrow> nat \<Rightarrow> nat res" where
  "strcspn m s stop = span_loop m s stop True"

definition strspn :: "mem \<Rightarrow> nat \<Rightarrow> nat \<Rightarrow> nat res" where
  "strspn m s skip = span_loop m s skip False"

definition strpbrk :: "mem \<Rightarrow> nat \<Rightarrow> nat \<Rightarrow> nat option res" where
  "strpbrk m s stop =
     bind_r (while_r (\<lambda>(p, r). if r \<noteq> None then Inr False else bind_r (rd m p) (\<lambda>x. Inr (x \<noteq> 0)))
               (\<lambda>(p, r). bind_r (rd m p) (\<lambda>x. bind_r (strchr m stop x) (\<lambda>q.
                  Inr (if q \<noteq> None then (p, Some p) else (p + 1, None)))))
               (s, None))
       (\<lambda>(p, r). Inr r)"

definition strrchr :: "mem \<Rightarrow> nat \<Rightarrow> byte \<Rightarrow> nat option res" where
  "strrchr m s c =
     bind_r (while_r (\<lambda>(q, p). bind_r (rd m q) (\<lambda>x. Inr (x \<noteq> 0)))
               (\<lambda>(q, p). bind_r (rd m q) (\<lambda>x. Inr (q + 1, if x = c then Some q else p)))
               (s, None))
       (\<lambda>(q, p). Inr p)"

definition strlen :: "mem \<Rightarrow> nat \<Rightarrow> nat res" where
  "strlen m s =
     ASSERT (s \<noteq> 0)
       (bind_r (while_r (\<lambda>p. bind_r (rd m p) (\<lambda>x. Inr (x \<noteq> 0))) (\<lambda>p. Inr (p + 1)) s) (\<lambda>p. Inr (p - s)))"

definition strnlen :: "mem \<Rightarrow> nat \<Rightarrow> nat \<Rightarrow> nat res" where
  "strnlen m s maxlen =
     while_r (\<lambda>len. bind_r (rd m (s + len)) (\<lambda>x. Inr (x \<noteq> 0 \<and> len < maxlen))) (\<lambda>len. Inr (len + 1)) 0"

definition strstr :: "mem \<Rightarrow> nat \<Rightarrow> nat \<Rightarrow> nat option res" where
  "strstr m haystack needle =
     bind_r (strlen m haystack) (\<lambda>hlen. bind_r (strlen m needle) (\<lambda>nlen.
     if hlen \<ge> nlen
     then bind_r (while_r (\<lambda>(i, r). Inr (r = None \<and> i \<le> hlen - nlen))
                    (\<lambda>(i, r). bind_r (memcmp m (haystack + i) needle nlen) (\<lambda>c.
                       Inr (if c = 0 then (i, Some (haystack + i)) else (i + 1, None))))
                    (0, None))
            (\<lambda>(i, r). Inr r)
     else Inr None))"

text \<open>\<open>strtok_r\<close> takes the string or, for \<open>None\<close>, the saved position; it returns memory, the token and the
  new saved position. Its loops skip delimiters, noticing the end of the string, and then the token.\<close>

definition skip_cond :: "mem \<Rightarrow> nat \<Rightarrow> nat \<times> bool \<Rightarrow> bool res" where
  "skip_cond m delims = (\<lambda>(s, fin). if fin then Inr False else
     bind_r (rd m s) (\<lambda>x. bind_r (strchr m delims x) (\<lambda>r. Inr (r \<noteq> None))))"

definition skip_body :: "mem \<Rightarrow> nat \<times> bool \<Rightarrow> (nat \<times> bool) res" where
  "skip_body m = (\<lambda>(s, fin). bind_r (rd m s) (\<lambda>x. Inr (if x = 0 then (s, True) else (s + 1, False))))"

definition token_cond :: "mem \<Rightarrow> nat \<Rightarrow> nat \<Rightarrow> bool res" where
  "token_cond m delims s = bind_r (rd m s) (\<lambda>x. bind_r (strchr m delims x) (\<lambda>r. Inr (r = None)))"

definition strtok_r :: "mem \<Rightarrow> nat option \<Rightarrow> nat \<Rightarrow> nat \<Rightarrow> (mem \<times> nat option \<times> nat) res" where
  "strtok_r m s_arg delims save =
     ASSERT (delims \<noteq> 0)
      (let s0 = (case s_arg of None \<Rightarrow> save | Some a \<Rightarrow> a) in
       ASSERT (s0 \<noteq> 0)
        (bind_r (while_r (skip_cond m delims) (skip_body m) (s0, False)) (\<lambda>(s, fin).
           if fin then Inr (m, None, s)
           else let token = s in
             bind_r (while_r (token_cond m delims) (\<lambda>s. Inr (s + 1)) s) (\<lambda>s. bind_r (rd m s) (\<lambda>x.
                 if x \<noteq> 0 then bind_r (wr m s 0) (\<lambda>m. Inr (m, Some token, s + 1))
                 else Inr (m, Some token, s))))))"

definition memset_cond :: "mem \<times> nat \<times> nat \<Rightarrow> bool res" where
  "memset_cond = (\<lambda>(m, p, n). Inr (n > 0))"

definition memset_body :: "byte \<Rightarrow> mem \<times> nat \<times> nat \<Rightarrow> (mem \<times> nat \<times> nat) res" where
  "memset_body value = (\<lambda>(m, p, n). bind_r (wr m p value) (\<lambda>m. Inr (m, p + 1, n - 1)))"

definition memset :: "mem \<Rightarrow> nat \<Rightarrow> byte \<Rightarrow> nat \<Rightarrow> (mem \<times> nat) res" where
  "memset m dst value n =
     ASSERT (dst \<noteq> 0 \<or> n = 0)
       (bind_r (while_r memset_cond (memset_body value) (m, dst, n)) (\<lambda>(m, _). Inr (m, dst)))"

definition strlcpy :: "mem \<Rightarrow> nat \<Rightarrow> nat \<Rightarrow> nat \<Rightarrow> (mem \<times> nat) res" where
  "strlcpy m dst src n =
     ASSERT (dst \<noteq> 0) (ASSERT (src \<noteq> 0)
       (bind_r (strlen m src) (\<lambda>src_len.
        if n > 0
        then let dst_len = (if src_len < n - 1 then src_len else n - 1) in
             bind_r (memcpy m dst src dst_len) (\<lambda>(m, _).
             bind_r (wr m (dst + dst_len) 0) (\<lambda>m. Inr (m, src_len)))
        else Inr (m, src_len))))"

definition strlcat :: "mem \<Rightarrow> nat \<Rightarrow> nat \<Rightarrow> nat \<Rightarrow> (mem \<times> nat) res" where
  "strlcat m dst src n =
     ASSERT (dst \<noteq> 0) (ASSERT (src \<noteq> 0)
       (bind_r (strlen m src) (\<lambda>src_len. bind_r (strlen m dst) (\<lambda>dst_len.
        if n > 0 \<and> dst_len < n
        then let copy_cnt = (if src_len < n - dst_len - 1 then src_len else n - dst_len - 1) in
             bind_r (memcpy m (dst + dst_len) src copy_cnt) (\<lambda>(m, _).
             bind_r (wr m (dst + dst_len + copy_cnt) 0) (\<lambda>m. Inr (m, add32 src_len dst_len)))
        else Inr (m, add32 src_len dst_len)))))"

section \<open>Contents of memory\<close>

definition bytes_at :: "mem \<Rightarrow> nat \<Rightarrow> byte list \<Rightarrow> bool" where
  "bytes_at m a xs \<longleftrightarrow> (\<forall>i<length xs. m (a + i) = Some (xs ! i))"

definition mapped :: "mem \<Rightarrow> nat \<Rightarrow> nat \<Rightarrow> bool" where
  "mapped m a n \<longleftrightarrow> (\<forall>i<n. m (a + i) \<noteq> None)"

definition cstr :: "mem \<Rightarrow> nat \<Rightarrow> byte list \<Rightarrow> bool" where
  "cstr m a s \<longleftrightarrow> bytes_at m a (s @ [0]) \<and> 0 \<notin> set s"

definition put :: "mem \<Rightarrow> nat \<Rightarrow> byte list \<Rightarrow> mem" where
  "put m a xs = (\<lambda>p. if a \<le> p \<and> p < a + length xs then Some (xs ! (p - a)) else m p)"

lemma bytes_at_Nil [simp]: "bytes_at m a []"
  by (simp add: bytes_at_def)

lemma bytes_at_Cons [simp]: "bytes_at m a (x # xs) \<longleftrightarrow> m a = Some x \<and> bytes_at m (Suc a) xs"
  by (auto simp: bytes_at_def less_Suc_eq_0_disj nth_Cons split: nat.splits)

lemma bytes_at_append: "bytes_at m a (xs @ ys) \<longleftrightarrow> bytes_at m a xs \<and> bytes_at m (a + length xs) ys"
  by (induction xs arbitrary: a) auto

lemma mapped_Suc: "mapped m a (Suc n) \<longleftrightarrow> m a \<noteq> None \<and> mapped m (Suc a) n"
  by (auto simp: mapped_def less_Suc_eq_0_disj)

lemma mapped_snoc: "mapped m a (Suc n) \<longleftrightarrow> mapped m a n \<and> m (a + n) \<noteq> None"
  by (auto simp: mapped_def less_Suc_eq)

lemma mapped_0 [simp]: "mapped m a 0"
  by (simp add: mapped_def)

lemma bytes_at_mapped: "bytes_at m a xs \<Longrightarrow> n \<le> length xs \<Longrightarrow> mapped m a n"
  by (auto simp: bytes_at_def mapped_def)

lemma mapped_mono: "mapped m a n \<Longrightarrow> k \<le> n \<Longrightarrow> mapped m a k"
  by (auto simp: mapped_def)

lemma mapped_upd [simp]: "mapped m a n \<Longrightarrow> mapped (m(p \<mapsto> v)) a n"
  by (auto simp: mapped_def)

lemma bytes_at_cong: "(\<And>i. i < length xs \<Longrightarrow> m (a + i) = m' (a + i)) \<Longrightarrow> bytes_at m a xs = bytes_at m' a xs"
  by (simp add: bytes_at_def)

lemma bytes_at_upd: "p < a \<or> a + length xs \<le> p \<Longrightarrow> bytes_at (m(p := v)) a xs = bytes_at m a xs"
  by (rule bytes_at_cong) auto

lemma put_Nil [simp]: "put m a [] = m"
  by (rule ext) (auto simp: put_def)

lemma put_Cons: "put (m(a \<mapsto> x)) (Suc a) xs = put m a (x # xs)"
proof
  fix p
  show "put (m(a \<mapsto> x)) (Suc a) xs p = put m a (x # xs) p"
    by (auto simp: put_def nth_Cons')
qed

lemma put_snoc: "put (m(a + length xs \<mapsto> x)) a xs = put m a (xs @ [x])"
  by (rule ext) (auto simp: put_def nth_append)

lemma bytes_at_put [simp]: "bytes_at (put m a xs) a xs"
  by (simp add: bytes_at_def put_def)

lemma bytes_at_put_other:
  "b + length ys \<le> a \<or> a + length xs \<le> b \<Longrightarrow> bytes_at (put m a xs) b ys = bytes_at m b ys"
  by (rule bytes_at_cong) (auto simp: put_def)

lemma rd_Some [simp]: "m a = Some b \<Longrightarrow> rd m a = Inr b"
  by (simp add: rd_def)

lemma wr_mapped [simp]: "m a \<noteq> None \<Longrightarrow> wr m a b = Inr (m(a \<mapsto> b))"
  by (simp add: wr_def)

lemma cstr_Nil [simp]: "cstr m a [] \<longleftrightarrow> m a = Some 0"
  by (simp add: cstr_def)

lemma cstr_Cons [simp]: "cstr m a (x # xs) \<longleftrightarrow> x \<noteq> 0 \<and> m a = Some x \<and> cstr m (Suc a) xs"
  by (auto simp: cstr_def)

section \<open>Copying\<close>

lemma copy_fwd_loop:
  assumes "bytes_at m src xs" "mapped m dst (length xs)" "dst \<le> src \<or> src + length xs \<le> dst"
  shows "while_r copy_cond copy_fwd (m, dst, src, length xs) = Inr (put m dst xs, dst + length xs, src + length xs, 0)"
  using assms
proof (induction xs arbitrary: m dst src)
  case Nil
  then show ?case by (simp add: while_r_False copy_cond_def)
next
  case (Cons x xs)
  have step: "copy_fwd (m, dst, src, length (x # xs)) = Inr (m(dst \<mapsto> x), Suc dst, Suc src, length xs)"
    using Cons.prems by (simp add: copy_fwd_def mapped_Suc)
  have "bytes_at (m(dst \<mapsto> x)) (Suc src) xs" using Cons.prems by (subst bytes_at_upd) auto
  moreover have "mapped (m(dst \<mapsto> x)) (Suc dst) (length xs)" using Cons.prems by (simp add: mapped_Suc)
  moreover have "Suc dst \<le> Suc src \<or> Suc src + length xs \<le> Suc dst" using Cons.prems(3) by auto
  ultimately have "while_r copy_cond copy_fwd (m(dst \<mapsto> x), Suc dst, Suc src, length xs)
      = Inr (put m dst (x # xs), dst + length (x # xs), src + length (x # xs), 0)"
    using Cons.IH [of "m(dst \<mapsto> x)" "Suc src" "Suc dst"] by (simp only: put_Cons) simp
  then show ?case using step while_r_step [of copy_cond _ copy_fwd, OF _ step] by (simp add: copy_cond_def)
qed

lemma copy_bwd_loop:
  assumes "bytes_at m src xs" "mapped m dst (length xs)" "src \<le> dst"
  shows "while_r copy_cond copy_bwd (m, dst + length xs, src + length xs, length xs) = Inr (put m dst xs, dst, src, 0)"
  using assms
proof (induction xs arbitrary: m rule: rev_induct)
  case Nil
  then show ?case by (simp add: while_r_False copy_cond_def)
next
  case (snoc x xs)
  let ?m = "m(dst + length xs \<mapsto> x)"
  have step: "copy_bwd (m, dst + length (xs @ [x]), src + length (xs @ [x]), length (xs @ [x])) = Inr (?m, dst + length xs, src + length xs, length xs)"
    using snoc.prems by (simp add: copy_bwd_def mapped_snoc bytes_at_append)
  have "bytes_at ?m src xs" using snoc.prems by (subst bytes_at_upd) (auto simp: bytes_at_append)
  moreover have "mapped ?m dst (length xs)" using snoc.prems by (simp add: mapped_snoc)
  ultimately have "while_r copy_cond copy_bwd (?m, dst + length xs, src + length xs, length xs) = Inr (put m dst (xs @ [x]), dst, src, 0)"
    using snoc.IH [of ?m] snoc.prems(3) by (simp only: put_snoc)
  then show ?case using step while_r_step [of copy_cond _ copy_bwd, OF _ step] by (simp add: copy_cond_def)
qed

lemma memcpy_eq:
  assumes "bytes_at m src xs" "mapped m dst (length xs)" "dst \<le> src \<or> src + length xs \<le> dst" "dst \<noteq> 0" "src \<noteq> 0"
  shows "memcpy m dst src (length xs) = Inr (put m dst xs, dst)"
  using copy_fwd_loop [OF assms(1-3)] assms(4,5) by (simp add: memcpy_def)

lemma memmove_eq:
  assumes "bytes_at m src xs" "mapped m dst (length xs)" "dst \<noteq> 0" "src \<noteq> 0"
  shows "memmove m dst src (length xs) = Inr (put m dst xs, if dst < src then dst + length xs else dst)"
proof (cases "dst < src")
  case True
  then show ?thesis using copy_fwd_loop [OF assms(1,2)] assms(3,4) by (simp add: memmove_def)
next
  case False
  then show ?thesis using copy_bwd_loop [OF assms(1,2)] assms(3,4) by (simp add: memmove_def)
qed

lemma memset_loop:
  "mapped m a n \<Longrightarrow> while_r memset_cond (memset_body v) (m, a, n) = Inr (put m a (replicate n v), a + n, 0)"
proof (induction n arbitrary: m a)
  case 0
  then show ?case by (simp add: while_r_False memset_cond_def)
next
  case (Suc n)
  have step: "memset_body v (m, a, Suc n) = Inr (m(a \<mapsto> v), Suc a, n)"
    using Suc.prems by (simp add: memset_body_def mapped_Suc)
  have "mapped (m(a \<mapsto> v)) (Suc a) n" using Suc.prems by (simp add: mapped_Suc)
  then have "while_r memset_cond (memset_body v) (m(a \<mapsto> v), Suc a, n) = Inr (put m a (replicate (Suc n) v), a + Suc n, 0)"
    using Suc.IH [of "m(a \<mapsto> v)" "Suc a"] by (simp add: put_Cons del: fun_upd_apply)
  then show ?case using while_r_step [of memset_cond _ "memset_body v", OF _ step] by (simp add: memset_cond_def)
qed

lemma memset_eq: "mapped m a n \<Longrightarrow> a \<noteq> 0 \<Longrightarrow> memset m a v n = Inr (put m a (replicate n v), a)"
  by (simp add: memset_def memset_loop)

section \<open>Strings\<close>

lemma strlen_loop:
  "cstr m p s \<Longrightarrow> while_r (\<lambda>p. bind_r (rd m p) (\<lambda>x. Inr (x \<noteq> 0))) (\<lambda>p. Inr (p + 1)) p = Inr (p + length s)"
proof (induction s arbitrary: p)
  case Nil
  then show ?case by (subst while_r_unfold) simp
next
  case (Cons x s)
  then show ?case using Cons.IH [of "Suc p"] by (subst while_r_unfold) simp
qed

lemma strlen_eq: "cstr m a s \<Longrightarrow> a \<noteq> 0 \<Longrightarrow> strlen m a = Inr (length s)"
  using strlen_loop [of m a s] by (simp add: strlen_def)

primrec first_pos :: "nat \<Rightarrow> byte \<Rightarrow> byte list \<Rightarrow> nat option" where
  "first_pos p c [] = None"
| "first_pos p c (x # xs) = (if x = c then Some p else first_pos (Suc p) c xs)"

lemma first_pos_None: "first_pos p c xs = None \<longleftrightarrow> c \<notin> set xs"
  by (induction xs arbitrary: p) auto

lemma strchr_loop:
  "cstr m p s \<Longrightarrow>
     \<exists>q. while_r (\<lambda>(p, r). Inr (r = None)) (strchr_body m c) (p, None) = Inr (q, Some (first_pos p c (s @ [0])))"
proof (induction s arbitrary: p)
  case Nil
  then show ?case by (subst while_r_unfold) (auto simp: while_r_False strchr_body_def)
next
  case (Cons x s)
  then show ?case using Cons.IH [of "Suc p"] by (subst while_r_unfold) (auto simp: while_r_False strchr_body_def)
qed

lemma strchr_eq: "cstr m a s \<Longrightarrow> a \<noteq> 0 \<Longrightarrow> strchr m a c = Inr (first_pos a c (s @ [0]))"
  using strchr_loop [of m a s c] by (auto simp: strchr_def)

text \<open>Byte strings in the order of \<open>strcmp\<close>.\<close>

fun str_order :: "byte list \<Rightarrow> byte list \<Rightarrow> int" where
  "str_order [] [] = 0"
| "str_order [] (y # ys) = - 1"
| "str_order (x # xs) [] = 1"
| "str_order (x # xs) (y # ys) = (if x = y then str_order xs ys else if x < y then - 1 else 1)"

lemma strcmp_loop:
  assumes "cstr m a s" "cstr m b t"
  shows "\<exists>p q. while_r (\<lambda>(a, b). bind_r (rd m a) (\<lambda>x. if x \<noteq> 0 then bind_r (rd m b) (\<lambda>y. Inr (x = y)) else Inr False))
           (\<lambda>(a, b). Inr (a + 1, b + 1)) (a, b) = Inr (p, q)
         \<and> (\<exists>x y. m p = Some x \<and> m q = Some y \<and> str_order s t = (if x < y then - 1 else if x > y then 1 else 0))"
  using assms
proof (induction s t arbitrary: a b rule: str_order.induct)
  case 1
  then show ?case by (subst while_r_unfold) simp
next
  case (2 y ys)
  then show ?case by (subst while_r_unfold) (auto simp: word_neq_0_conv)
next
  case (3 x xs)
  then show ?case by (subst while_r_unfold) (auto simp: word_neq_0_conv)
next
  case (4 x xs y ys)
  show ?case
  proof (cases "x = y")
    case True
    then show ?thesis using 4(1) [OF True, of "Suc a" "Suc b"] 4(2,3) by (subst while_r_unfold) simp
  next
    case False
    then show ?thesis using 4(2,3) by (subst while_r_unfold) auto
  qed
qed

lemma strcmp_eq: "cstr m a s \<Longrightarrow> cstr m b t \<Longrightarrow> a \<noteq> 0 \<Longrightarrow> b \<noteq> 0 \<Longrightarrow> strcmp m a b = Inr (str_order s t)"
  using strcmp_loop [of m a s b t] by (auto simp: strcmp_def)

lemma str_order_0: "str_order s t = 0 \<longleftrightarrow> s = t"
  by (induction s t rule: str_order.induct) auto

lemma str_order_lexord: "str_order s t < 0 \<longleftrightarrow> (s, t) \<in> lexord {(x, y). x < y}"
  by (induction s t rule: str_order.induct) auto

lemma strlcpy_eq:
  assumes "cstr m src s" "mapped m dst n" "0 < n" "dst \<noteq> 0" "src \<noteq> 0" "dst + n \<le> src \<or> src + length s < dst"
  shows "strlcpy m dst src n = Inr (put m dst (take (n - 1) s @ [0]), length s)"
proof -
  let ?xs = "take (n - 1) s"
  have len: "length ?xs = (if length s < n - 1 then length s else n - 1)" by (simp add: min_def)
  have "bytes_at m src ?xs"
    using assms(1) unfolding cstr_def by (metis append_assoc append_take_drop_id bytes_at_append)
  moreover have "mapped m dst (length ?xs)" using assms(2,3) by (rule_tac mapped_mono) (auto simp: len)
  moreover have "dst \<le> src \<or> src + length ?xs \<le> dst" using assms(6) by auto
  ultimately have "memcpy m dst src (length ?xs) = Inr (put m dst ?xs, dst)" by (rule memcpy_eq) (use assms in auto)
  moreover have "put m dst ?xs (dst + length ?xs) \<noteq> None"
    using assms(2,3) unfolding mapped_def put_def by (auto simp: len)
  moreover have "(put m dst ?xs)(dst + length ?xs \<mapsto> 0) = put m dst (?xs @ [0])"
    by (rule ext) (auto simp: put_def nth_append)
  ultimately show ?thesis
    using strlen_eq [OF assms(1,5)] assms(3-5) unfolding strlcpy_def len by (simp add: Let_def)
qed

section \<open>Tokens\<close>

lemma first_pos_delim: "first_pos d c (ds @ [0]) = None \<longleftrightarrow> c \<noteq> 0 \<and> c \<notin> set ds"
  by (auto simp: first_pos_None)

lemma skip_loop:
  assumes "cstr m d ds" "d \<noteq> 0" "cstr m p xs"
  shows "while_r (skip_cond m d) (skip_body m) (p, False) =
           Inr (p + length (takeWhile (\<lambda>c. c \<in> set ds) xs), dropWhile (\<lambda>c. c \<in> set ds) xs = [])"
  using assms(3)
proof (induction xs arbitrary: p)
  case Nil
  then have "skip_cond m d (p, False) = Inr True" "skip_body m (p, False) = Inr (p, True)"
    using strchr_eq [OF assms(1,2), of 0] first_pos_delim [of d 0 ds] by (auto simp: skip_cond_def skip_body_def)
  then show ?case by (subst while_r_unfold) (simp add: while_r_False skip_cond_def)
next
  case (Cons x xs)
  then have "skip_cond m d (p, False) = Inr (x \<in> set ds)" "skip_body m (p, False) = Inr (Suc p, False)"
    using strchr_eq [OF assms(1,2), of x] first_pos_delim [of d x ds] by (auto simp: skip_cond_def skip_body_def)
  then show ?case using Cons by (subst while_r_unfold) simp
qed

lemma token_loop:
  assumes "cstr m d ds" "d \<noteq> 0" "cstr m p xs"
  shows "while_r (token_cond m d) (\<lambda>s. Inr (s + 1)) p = Inr (p + length (takeWhile (\<lambda>c. c \<notin> set ds) xs))"
  using assms(3)
proof (induction xs arbitrary: p)
  case Nil
  then have "token_cond m d p = Inr False"
    using strchr_eq [OF assms(1,2), of 0] first_pos_delim [of d 0 ds] by (auto simp: token_cond_def)
  then show ?case by (simp add: while_r_False)
next
  case (Cons x xs)
  then have "token_cond m d p = Inr (x \<notin> set ds)"
    using strchr_eq [OF assms(1,2), of x] first_pos_delim [of d x ds] by (auto simp: token_cond_def)
  then show ?case using Cons by (subst while_r_unfold) simp
qed

lemma cstr_append: "cstr m a (xs @ ys) \<longleftrightarrow> bytes_at m a xs \<and> 0 \<notin> set xs \<and> cstr m (a + length xs) ys"
  by (auto simp: cstr_def bytes_at_append)

lemma strtok_r_eq:
  assumes d: "cstr m d ds" "d \<noteq> 0" and s: "cstr m s (pre @ tok @ rest)" "s \<noteq> 0" "s_arg = Some s \<or> (s_arg = None \<and> save = s)"
    and sp: "set pre \<subseteq> set ds" "set tok \<inter> set ds = {}" "rest = [] \<or> hd rest \<in> set ds" "tok = [] \<longrightarrow> rest = []"
  shows "strtok_r m s_arg d save =
           Inr (if tok = [] then (m, None, s + length pre)
                else if rest = [] then (m, Some (s + length pre), s + length pre + length tok)
                else (m(s + length pre + length tok \<mapsto> 0), Some (s + length pre), s + length pre + length tok + 1))"
proof -
  let ?D = "\<lambda>c. c \<in> set ds" and ?N = "\<lambda>c. c \<notin> set ds"
  have s0: "(case s_arg of None \<Rightarrow> save | Some a \<Rightarrow> a) = s" using s(3) by auto
  have tr: "takeWhile ?D (tok @ rest) = []" "dropWhile ?D (tok @ rest) = tok @ rest"
    using sp(2,4) by (cases tok; auto)+
  have t1: "takeWhile ?D (pre @ tok @ rest) = pre" and t2: "dropWhile ?D (pre @ tok @ rest) = tok @ rest"
    using sp(1) tr by (simp_all add: takeWhile_append2 dropWhile_append2 subset_iff)
  have t3: "takeWhile ?N (tok @ rest) = tok"
    using sp(2,3) by (cases rest) (auto simp: takeWhile_append2 disjoint_iff)
  have c: "cstr m (s + length pre) (tok @ rest)" using s(1) by (simp add: cstr_append)
  have loop1: "while_r (skip_cond m d) (skip_body m) (s, False) = Inr (s + length pre, tok @ rest = [])"
    using skip_loop [OF d s(1)] unfolding t1 t2 .
  have loop2: "while_r (token_cond m d) (\<lambda>s. Inr (s + 1)) (s + length pre) = Inr (s + length pre + length tok)"
    using token_loop [OF d c] unfolding t3 .
  have e: "cstr m (s + length pre + length tok) rest" using c by (simp add: cstr_append)
  show ?thesis
    using e d(2) s(2) loop1 loop2 sp(4) unfolding strtok_r_def s0
    by (cases "tok = []"; cases rest) (simp_all add: Let_def)
qed

text \<open>The maximal runs of non-delimiters of a string.\<close>

function tokens :: "byte set \<Rightarrow> byte list \<Rightarrow> byte list list" where
  "tokens D xs =
     (case dropWhile (\<lambda>c. c \<in> D) xs of
        [] \<Rightarrow> []
      | y # ys \<Rightarrow> takeWhile (\<lambda>c. c \<notin> D) (y # ys) # tokens D (dropWhile (\<lambda>c. c \<notin> D) ys))"
  by pat_completeness auto
termination
proof (relation "measure (\<lambda>(D, xs). length xs)", simp, clarsimp)
  fix D :: "byte set" and xs y ys
  assume "dropWhile (\<lambda>c. c \<in> D) xs = y # ys"
  then have "length (y # ys) \<le> length xs" by (metis length_dropWhile_le)
  then show "length (dropWhile (\<lambda>c. c \<notin> D) ys) < length xs"
    using length_dropWhile_le [of "\<lambda>c. c \<notin> D" ys] by simp
qed

declare tokens.simps [simp del]

text \<open>The usage example of the source: call \<open>strtok_r\<close> until it returns a null pointer, collecting the
  tokens.\<close>

definition next_token :: "nat \<Rightarrow> mem \<times> nat option \<times> nat \<times> nat list \<Rightarrow> (mem \<times> nat option \<times> nat \<times> nat list) res" where
  "next_token d = (\<lambda>(m, t, save, acc).
     bind_r (strtok_r m None d save) (\<lambda>(m, t', save). Inr (m, t', save, acc @ [the t])))"

definition strtok_all :: "mem \<Rightarrow> nat \<Rightarrow> nat \<Rightarrow> (mem \<times> nat list) res" where
  "strtok_all m s d =
     bind_r (strtok_r m (Some s) d 0) (\<lambda>(m, t, save).
     bind_r (while_r (\<lambda>(m, t, save, acc). Inr (t \<noteq> None)) (next_token d) (m, t, save, []))
       (\<lambda>(m, t, save, acc). Inr (m, acc)))"

lemma tokens_split:
  assumes "set pre \<subseteq> D" "set tok \<inter> D = {}" "rest = [] \<or> hd rest \<in> D" "tok \<noteq> []"
  shows "tokens D (pre @ tok @ rest) = tok # tokens D (tl rest)"
proof -
  obtain t ts where t: "tok = t # ts" using assms(4) by (cases tok) auto
  have d: "dropWhile (\<lambda>c. c \<in> D) (pre @ tok @ rest) = t # ts @ rest"
    using assms(1,2) t by (simp add: dropWhile_append2 subset_iff)
  have tw: "takeWhile (\<lambda>c. c \<notin> D) (t # ts @ rest) = tok" "dropWhile (\<lambda>c. c \<notin> D) (ts @ rest) = rest"
    using assms(2,3) t by (cases rest; auto simp: takeWhile_append2 dropWhile_append2 disjoint_iff)+
  have "tokens D rest = tokens D (tl rest)"
  proof (cases rest)
    case (Cons c r)
    then have "c \<in> D" using assms(3) by simp
    then show ?thesis unfolding Cons by (subst (1 2) tokens.simps) simp
  qed simp
  then show ?thesis by (subst tokens.simps) (simp only: d list.case tw)
qed

lemma tokens_none: "set pre \<subseteq> D \<Longrightarrow> tokens D pre = []"
proof -
  assume "set pre \<subseteq> D"
  then have "dropWhile (\<lambda>c. c \<in> D) pre = []" by (auto simp: dropWhile_eq_Nil_conv)
  then show ?thesis by (subst tokens.simps) (simp only: list.case)
qed

lemma split_token:
  obtains pre tok rest where "xs = pre @ tok @ rest" "set pre \<subseteq> D" "set tok \<inter> D = {}"
    "rest = [] \<or> hd rest \<in> D" "tok = [] \<longrightarrow> rest = []"
proof
  let ?ys = "dropWhile (\<lambda>c. c \<in> D) xs"
  show "xs = takeWhile (\<lambda>c. c \<in> D) xs @ takeWhile (\<lambda>c. c \<notin> D) ?ys @ dropWhile (\<lambda>c. c \<notin> D) ?ys" by simp
  show "set (takeWhile (\<lambda>c. c \<in> D) xs) \<subseteq> D" by (auto dest: set_takeWhileD)
  show "set (takeWhile (\<lambda>c. c \<notin> D) ?ys) \<inter> D = {}" by (auto dest: set_takeWhileD)
  show "dropWhile (\<lambda>c. c \<notin> D) ?ys = [] \<or> hd (dropWhile (\<lambda>c. c \<notin> D) ?ys) \<in> D"
    using hd_dropWhile [of "\<lambda>c. c \<notin> D" ?ys] by auto
  show "takeWhile (\<lambda>c. c \<notin> D) ?ys = [] \<longrightarrow> dropWhile (\<lambda>c. c \<notin> D) ?ys = []"
  proof (cases ?ys)
    case (Cons y ys)
    then have "y \<notin> D" using hd_dropWhile [of "\<lambda>c. c \<in> D" xs] by (metis list.distinct(1) list.sel(1))
    then show ?thesis unfolding Cons by simp
  next
    case Nil
    show ?thesis unfolding Nil by simp
  qed
qed

lemma cstr_cong: "(\<And>i. i \<le> length s \<Longrightarrow> m' (a + i) = m (a + i)) \<Longrightarrow> cstr m' a s = cstr m a s"
  unfolding cstr_def by (subst bytes_at_cong [of _ m' a m]) auto

lemma token_iter:
  assumes "cstr m d ds" "d \<noteq> 0" "cstr m s xs" "s \<noteq> 0" "s_arg = Some s \<or> (s_arg = None \<and> save = s)"
    and "d + length ds < s \<or> s + length xs < d"
  shows "\<exists>m' ps q. bind_r (strtok_r m s_arg d save) (\<lambda>(m, t, save).
             while_r (\<lambda>(m, t, save, acc). Inr (t \<noteq> None)) (next_token d) (m, t, save, acc)) = Inr (m', None, q, acc @ ps)
           \<and> list_all2 (cstr m') ps (tokens (set ds) xs) \<and> (\<forall>a. a < s \<or> s + length xs \<le> a \<longrightarrow> m' a = m a)"
  using assms
proof (induction "length xs" arbitrary: m s xs s_arg save acc rule: less_induct)
  case less
  obtain pre tok rest where x: "xs = pre @ tok @ rest" "set pre \<subseteq> set ds" "set tok \<inter> set ds = {}"
      "rest = [] \<or> hd rest \<in> set ds" "tok = [] \<longrightarrow> rest = []"
    using split_token by metis
  note eq = strtok_r_eq [OF less.prems(1,2) less.prems(3) [unfolded x(1)] less.prems(4,5) x(2-5)]
  show ?case
  proof (cases "tok = []")
    case True
    then show ?thesis using eq x(5) tokens_none [OF x(2)] by (simp add: while_r_False x(1))
  next
    case False
    define p where "p = s + length pre"
    define m1 where "m1 = (if rest = [] then m else m(p + length tok \<mapsto> 0))"
    define sv where "sv = (if rest = [] then p + length tok else p + length tok + 1)"
    have call: "strtok_r m s_arg d save = Inr (m1, Some p, sv)"
      using eq False by (simp add: p_def m1_def sv_def)
    have cs: "cstr m p (tok @ rest)" using less.prems(3) unfolding x(1) by (simp add: cstr_append p_def)
    have len: "s + length xs = p + length tok + length rest" by (simp add: x(1) p_def)
    have d1: "cstr m1 d ds"
      using less.prems(1,6) len unfolding m1_def p_def by (subst cstr_cong [of _ _ _ m]) auto
    have r1: "cstr m1 sv (tl rest)"
    proof (cases rest)
      case Nil
      then show ?thesis using cs [unfolded cstr_append] by (simp add: m1_def sv_def)
    next
      case (Cons c r)
      then have "cstr m (p + length tok + 1) r" using cs by (simp add: cstr_append)
      then show ?thesis unfolding m1_def sv_def Cons by (subst cstr_cong [of _ _ _ m]) auto
    qed
    have t1: "cstr m1 p tok"
      using cs unfolding cstr_def m1_def by (cases rest) (auto simp: bytes_at_append bytes_at_upd)
    have sv: "sv \<noteq> 0" "length (tl rest) < length xs" "d + length ds < sv \<or> sv + length (tl rest) < d"
      using False less.prems(4,6) len unfolding sv_def p_def x(1) by (cases rest; auto)+
    obtain m' ps q where ih: "bind_r (strtok_r m1 None d sv) (\<lambda>(m, t, save).
             while_r (\<lambda>(m, t, save, acc). Inr (t \<noteq> None)) (next_token d) (m, t, save, acc @ [p])) = Inr (m', None, q, (acc @ [p]) @ ps)"
        "list_all2 (cstr m') ps (tokens (set ds) (tl rest))" "\<forall>a. a < sv \<or> sv + length (tl rest) \<le> a \<longrightarrow> m' a = m1 a"
      using less.hyps [OF sv(2) d1 less.prems(2) r1 sv(1) _ sv(3), of None sv "acc @ [p]"] by auto
    have fr: "m' a = m1 a" if "a < sv \<or> s + length xs \<le> a" for a
      using ih(3) that len by (cases rest) (auto simp: sv_def)
    have t2: "cstr m' p tok"
    proof (cases rest)
      case Nil
      then have "m' = m1" using ih(3) by (intro ext) (simp add: not_less [symmetric])
      then show ?thesis using t1 by simp
    next
      case (Cons c r)
      then have "\<And>i. i \<le> length tok \<Longrightarrow> m' (p + i) = m1 (p + i)" using fr by (simp add: sv_def)
      then show ?thesis using t1 cstr_cong [of tok m' p m1] by simp
    qed
    have "m' a = m a" if "a < s \<or> s + length xs \<le> a" for a
      using fr [of a] that len False by (auto simp: m1_def sv_def p_def split: if_splits)
    moreover have "next_token d (m1, Some p, sv, acc) = bind_r (strtok_r m1 None d sv) (\<lambda>(m, t', save). Inr (m, t', save, acc @ [p]))"
      by (simp add: next_token_def)
    then have "while_r (\<lambda>(m, t, save, acc). Inr (t \<noteq> None)) (next_token d) (m1, Some p, sv, acc) = Inr (m', None, q, acc @ p # ps)"
      using ih(1) by (subst while_r_unfold) (cases "strtok_r m1 None d sv", auto)
    ultimately show ?thesis
      using call t2 ih(2) tokens_split [OF x(2,3,4) False] unfolding x(1)
      by (intro exI [of _ m'] exI [of _ "p # ps"] exI [of _ q]) (simp)
  qed
qed

section \<open>Properties\<close>

text \<open>Reading one byte too many: with no null byte among the first \<open>maxlen\<close> bytes, \<open>strnlen\<close> still
  reads the byte behind them.\<close>

lemma strnlen_overread:
  assumes "bytes_at m s xs" "0 \<notin> set xs" "m (s + length xs) = None"
  shows "strnlen m s (length xs) = Inl Out_of_bounds"
proof -
  have "while_r (\<lambda>len. bind_r (rd m (s + len)) (\<lambda>x. Inr (x \<noteq> 0 \<and> len < length xs))) (\<lambda>len. Inr (len + 1)) k = Inl Out_of_bounds"
    if "k \<le> length xs" for k
    using that
  proof (induction "length xs - k" arbitrary: k)
    case 0
    then have "rd m (s + k) = Inl Out_of_bounds" using assms(3) by (simp add: rd_def)
    then show ?case by (subst while_r_unfold) simp
  next
    case (Suc j)
    then have k: "k < length xs" "rd m (s + k) = Inr (xs ! k)" using assms(1) by (simp_all add: bytes_at_def)
    then have "xs ! k \<noteq> 0" using assms(2) by (metis nth_mem)
    then show ?case using Suc k by (subst while_r_unfold) simp
  qed
  from this [of 0] show ?thesis by (simp add: strnlen_def)
qed

text \<open>C36: \<open>memmove\<close> leaves the old contents of the source at the destination, however the two blocks
  overlap, and changes nothing else. The pointer it returns is the destination only when the copy
  runs backwards; otherwise it is the end of the destination, unlike its comment says.\<close>

theorem memmove_correct:
  assumes "bytes_at m src xs" "mapped m dst (length xs)" "dst \<noteq> 0" "src \<noteq> 0"
  shows "\<exists>m'. memmove m dst src (length xs) = Inr (m', if dst < src then dst + length xs else dst)
           \<and> bytes_at m' dst xs \<and> (\<forall>a. a < dst \<or> dst + length xs \<le> a \<longrightarrow> m' a = m a)"
  using memmove_eq [OF assms] by (auto simp: put_def intro: bytes_at_put [unfolded put_def])

theorem memmove_correct_witness:
  "\<exists>m'. memmove (put (\<lambda>_. None) 4 [1, 2, 3, 4]) 4 5 3 = Inr (m', 7) \<and> bytes_at m' 4 [2, 3, 4]"
proof -
  have "bytes_at (put (\<lambda>_. None) 4 [1, 2, 3, 4]) 5 [2, 3, 4]" by (simp add: put_def)
  moreover have "mapped (put (\<lambda>_. None) 4 [1, 2, 3, 4]) 4 (length [2, 3, 4 :: byte])" by (auto simp: mapped_def put_def)
  ultimately show ?thesis using memmove_correct [of "put (\<lambda>_. None) 4 [1, 2, 3, 4]" 5 "[2, 3, 4]" 4]
    by (auto simp: numeral_3_eq_3)
qed

text \<open>\<open>strcmp\<close> returns zero exactly for equal strings and otherwise the sign of their
  lexicographic order as unsigned bytes.\<close>

theorem strcmp_correct:
  assumes "cstr m a s" "cstr m b t" "a \<noteq> 0" "b \<noteq> 0"
  shows "\<exists>r. strcmp m a b = Inr r \<and> (r = 0 \<longleftrightarrow> s = t) \<and> (r < 0 \<longleftrightarrow> (s, t) \<in> lexord {(x, y). x < y})"
  using strcmp_eq [OF assms] str_order_0 str_order_lexord by blast

text \<open>C35: calling \<open>strtok_r\<close> until it returns a null pointer yields exactly the maximal runs of
  non-delimiters of the string, in order, each null-terminated in place; the calls end, and memory
  outside the string is untouched.\<close>

theorem strtok_r_tokenizes:
  assumes "cstr m s xs" "cstr m d ds" "s \<noteq> 0" "d \<noteq> 0" "d + length ds < s \<or> s + length xs < d"
  shows "\<exists>m' ps. strtok_all m s d = Inr (m', ps) \<and> list_all2 (cstr m') ps (tokens (set ds) xs)
           \<and> (\<forall>a. a < s \<or> s + length xs \<le> a \<longrightarrow> m' a = m a)"
proof -
  obtain m' ps q where r: "bind_r (strtok_r m (Some s) d 0) (\<lambda>(m, t, save).
             while_r (\<lambda>(m, t, save, acc). Inr (t \<noteq> None)) (next_token d) (m, t, save, [])) = Inr (m', None, q, [] @ ps)"
      "list_all2 (cstr m') ps (tokens (set ds) xs)" "\<forall>a. a < s \<or> s + length xs \<le> a \<longrightarrow> m' a = m a"
    using token_iter [OF assms(2,4,1,3) _ assms(5), of "Some s" 0 "[]"] by auto
  have "strtok_all m s d = Inr (m', ps)"
    using r(1) unfolding strtok_all_def by (cases "strtok_r m (Some s) d 0") auto
  then show ?thesis using r(2,3) by blast
qed

lemma tokens_example: "tokens {32} [32, 97, 98, 32, 32, 99] = [[97, 98], [99]]"
  by (simp add: tokens.simps)

theorem strtok_r_tokenizes_witness:
  "\<exists>m' p q. strtok_all (put (put (\<lambda>_. None) 4 [32, 97, 98, 32, 32, 99, 0]) 20 [32, 0]) 4 20 = Inr (m', [p, q])
     \<and> cstr m' p [97, 98] \<and> cstr m' q [99]"
proof -
  let ?m = "put (put (\<lambda>_. None) 4 [32, 97, 98, 32, 32, 99, 0]) 20 [32, 0]"
  have "cstr ?m 4 [32, 97, 98, 32, 32, 99]" "cstr ?m 20 [32]" by (simp_all add: put_def)
  from strtok_r_tokenizes [OF this] obtain m' ps where
    "strtok_all ?m 4 20 = Inr (m', ps)" "list_all2 (cstr m') ps [[97, 98], [99]]"
    using tokens_example by auto
  then show ?thesis by (auto simp: list_all2_Cons2)
qed

end
