(* ===== verification/Stdlib.thy ===== *)
theory Stdlib
  imports Cstring "HOL-Library.Multiset"
begin

text \<open>
  \<^verbatim>\<open>lib/stdlib.c\<close>: number parsing, heap sort and binary search. An array of \<open>cnt\<close> elements of \<open>sz\<close> bytes
  each is its sequence of bytes; a comparison function takes two elements, as byte sequences, and
  returns a \<open>strcmp\<close>-type result. \<open>view\<close> is the sequence of the elements of an array. \<open>sort\<close> is shown
  to end with the elements sorted, \<open>binary_search\<close> to find a matching element exactly when there is one.
\<close>

section \<open>Parsing\<close>

text \<open>The loops of \<open>atoi\<close>: white space, then digits, with the value of the digits negated.\<close>

definition atoi_space :: "mem \<Rightarrow> nat \<Rightarrow> nat res" where
  "atoi_space m s = while_r (\<lambda>s. bind_r (rd m s) (\<lambda>c. Inr (isspace (uint c)))) (\<lambda>s. Inr (s + 1)) s"

definition atoi_body :: "mem \<Rightarrow> nat \<times> 32 word \<Rightarrow> (nat \<times> 32 word) res" where
  "atoi_body m = (\<lambda>(s, value). bind_r (rd m s) (\<lambda>c. Inr (s + 1, value * 10 - of_int (sint c - 48))))"

definition atoi_digits :: "mem \<Rightarrow> nat \<Rightarrow> 32 word res" where
  "atoi_digits m s =
     bind_r (while_r (\<lambda>(s, value). bind_r (rd m s) (\<lambda>c. Inr (isdigit (sint c)))) (atoi_body m) (s, 0))
       (\<lambda>(s, value). Inr value)"

definition atoi :: "mem \<Rightarrow> nat \<Rightarrow> 32 word res" where
  "atoi m s =
     ASSERT (s \<noteq> 0)
       (bind_r (atoi_space m s) (\<lambda>s. bind_r (rd m s) (\<lambda>c.
        let negative = (c \<noteq> 43 \<and> c = 45); s = (if c = 43 \<or> c = 45 then s + 1 else s) in
        bind_r (atoi_digits m s) (\<lambda>value. Inr (if \<not> negative then - value else value)))))"

section \<open>Sorting\<close>

function do_swap_loop :: "byte list \<Rightarrow> nat \<Rightarrow> nat \<Rightarrow> nat \<Rightarrow> nat \<Rightarrow> byte list res" where
  "do_swap_loop arr a b sz i =
     (if i < sz
      then bind_r (arr_get arr (a + i)) (\<lambda>t. bind_r (arr_get arr (b + i)) (\<lambda>u.
           bind_r (arr_set arr (a + i) u) (\<lambda>arr. bind_r (arr_set arr (b + i) t) (\<lambda>arr.
           do_swap_loop arr a b sz (Suc i)))))
      else Inr arr)"
  by pat_completeness auto
termination by (relation "measure (\<lambda>(arr, a, b, sz, i). sz - i)") auto

definition do_swap :: "byte list \<Rightarrow> nat \<Rightarrow> nat \<Rightarrow> nat \<Rightarrow> byte list res" where
  "do_swap arr a_idx b_idx sz = do_swap_loop arr ((a_idx - 1) * sz) ((b_idx - 1) * sz) sz 0"

text \<open>The element of \<open>sz\<close> bytes at a byte offset.\<close>

definition elem_at :: "byte list \<Rightarrow> nat \<Rightarrow> nat \<Rightarrow> byte list res" where
  "elem_at arr ofs sz = (if ofs + sz \<le> length arr then Inr (take sz (drop ofs arr)) else Inl Out_of_bounds)"

definition do_compare :: "byte list \<Rightarrow> nat \<Rightarrow> nat \<Rightarrow> nat \<Rightarrow> (byte list \<Rightarrow> byte list \<Rightarrow> int) \<Rightarrow> int res" where
  "do_compare arr a_idx b_idx sz compare =
     bind_r (elem_at arr ((a_idx - 1) * sz) sz) (\<lambda>x. bind_r (elem_at arr ((b_idx - 1) * sz) sz) (\<lambda>y.
     Inr (compare x y)))"

text \<open>The loop state of \<open>heapify\<close> is the array, the index and whether \<open>break\<close> was executed.\<close>

definition heapify_body :: "nat \<Rightarrow> nat \<Rightarrow> (byte list \<Rightarrow> byte list \<Rightarrow> int) \<Rightarrow> byte list \<times> nat \<times> bool \<Rightarrow> (byte list \<times> nat \<times> bool) res" where
  "heapify_body cnt sz compare = (\<lambda>(arr, i, brk).
     let left = mul32 2 i; right = add32 (mul32 2 i) 1 in
     bind_r (if left \<le> cnt then bind_r (do_compare arr left i sz compare) (\<lambda>c. Inr (if c > 0 then left else i)) else Inr i) (\<lambda>mx.
     bind_r (if right \<le> cnt then bind_r (do_compare arr right mx sz compare) (\<lambda>c. Inr (if c > 0 then right else mx)) else Inr mx) (\<lambda>mx.
     if mx = i then Inr (arr, i, True)
     else bind_r (do_swap arr i mx sz) (\<lambda>arr. Inr (arr, mx, False)))))"

definition heapify :: "byte list \<Rightarrow> nat \<Rightarrow> nat \<Rightarrow> nat \<Rightarrow> (byte list \<Rightarrow> byte list \<Rightarrow> int) \<Rightarrow> byte list res" where
  "heapify arr i cnt sz compare =
     bind_r (while_r (\<lambda>(arr, i, brk). Inr (\<not> brk)) (heapify_body cnt sz compare) (arr, i, False)) (\<lambda>(arr, i, brk). Inr arr)"

definition build_body :: "nat \<Rightarrow> nat \<Rightarrow> (byte list \<Rightarrow> byte list \<Rightarrow> int) \<Rightarrow> byte list \<times> nat \<Rightarrow> (byte list \<times> nat) res" where
  "build_body cnt sz compare = (\<lambda>(arr, i). bind_r (heapify arr i cnt sz compare) (\<lambda>arr. Inr (arr, i - 1)))"

definition extract_body :: "nat \<Rightarrow> (byte list \<Rightarrow> byte list \<Rightarrow> int) \<Rightarrow> byte list \<times> nat \<Rightarrow> (byte list \<times> nat) res" where
  "extract_body sz compare = (\<lambda>(arr, i).
     bind_r (do_swap arr 1 i sz) (\<lambda>arr. bind_r (heapify arr 1 (i - 1) sz compare) (\<lambda>arr. Inr (arr, i - 1))))"

definition sort_array :: "byte list \<Rightarrow> nat \<Rightarrow> nat \<Rightarrow> (byte list \<Rightarrow> byte list \<Rightarrow> int) \<Rightarrow> byte list res" where
  "sort_array arr cnt sz compare =
     ASSERT (sz > 0)
       (bind_r (while_r (\<lambda>(arr, i). Inr (i > 0)) (build_body cnt sz compare) (arr, cnt div 2)) (\<lambda>(arr, _).
        bind_r (while_r (\<lambda>(arr, i). Inr (i > 1)) (extract_body sz compare) (arr, cnt)) (\<lambda>(arr, _). Inr arr)))"

definition qsort :: "byte list \<Rightarrow> nat \<Rightarrow> nat \<Rightarrow> (byte list \<Rightarrow> byte list \<Rightarrow> int) \<Rightarrow> byte list res" where
  "qsort arr cnt sz compare = sort_array arr cnt sz compare"

section \<open>Searching\<close>

text \<open>The loop state is the two byte offsets and, once found, the offset of a match.\<close>

definition search_body :: "byte list \<Rightarrow> nat \<Rightarrow> (byte list \<Rightarrow> int) \<Rightarrow> nat \<times> nat \<times> nat option \<Rightarrow> (nat \<times> nat \<times> nat option) res" where
  "search_body arr sz compare_key = (\<lambda>(fs, lst, r).
     let range = (lst - fs) div sz; middle = fs + (range div 2) * sz in
     bind_r (elem_at arr middle sz) (\<lambda>x.
     Inr (if compare_key x < 0 then (fs, middle, None)
          else if compare_key x > 0 then (middle + sz, lst, None)
          else (fs, lst, Some middle))))"

definition binary_search :: "(byte list \<Rightarrow> int) \<Rightarrow> byte list \<Rightarrow> nat \<Rightarrow> nat \<Rightarrow> nat option res" where
  "binary_search compare_key arr cnt sz =
     bind_r (while_r (\<lambda>(fs, lst, r). Inr (r = None \<and> fs < lst)) (search_body arr sz compare_key) (0, sz * cnt, None))
       (\<lambda>(fs, lst, r). Inr r)"

definition bsearch :: "(byte list \<Rightarrow> int) \<Rightarrow> byte list \<Rightarrow> nat \<Rightarrow> nat \<Rightarrow> nat option res" where
  "bsearch compare_key arr cnt sz = binary_search compare_key arr cnt sz"

declare do_swap_loop.simps [simp del]

section \<open>Elements\<close>

definition view :: "nat \<Rightarrow> nat \<Rightarrow> byte list \<Rightarrow> byte list list" where
  "view sz cnt arr = map (\<lambda>k. take sz (drop (k * sz) arr)) [0..<cnt]"

lemma length_view [simp]: "length (view sz cnt arr) = cnt"
  by (simp add: view_def)

lemma nth_view: "k < cnt \<Longrightarrow> view sz cnt arr ! k = take sz (drop (k * sz) arr)"
  by (simp add: view_def)

lemma view_bound: "k < cnt \<Longrightarrow> length arr = cnt * sz \<Longrightarrow> k * sz + sz \<le> length arr"
proof -
  assume "k < cnt" "length arr = cnt * sz"
  then have "Suc k * sz \<le> cnt * sz" by (intro mult_le_mono1) simp
  then show ?thesis using \<open>length arr = cnt * sz\<close> by simp
qed

lemma elem_at_view: "k < cnt \<Longrightarrow> length arr = cnt * sz \<Longrightarrow> elem_at arr (k * sz) sz = Inr (view sz cnt arr ! k)"
  using view_bound [of k cnt arr sz] by (simp add: elem_at_def nth_view)

lemma swap_loop_eq:
  assumes "a + sz \<le> length arr" "b + sz \<le> length arr" "a + sz \<le> b \<or> b + sz \<le> a" "i \<le> sz"
  shows "\<exists>arr'. do_swap_loop arr a b sz i = Inr arr' \<and> length arr' = length arr
           \<and> (\<forall>p<length arr. arr' ! p = (if a + i \<le> p \<and> p < a + sz then arr ! (p - a + b)
                                       else if b + i \<le> p \<and> p < b + sz then arr ! (p - b + a) else arr ! p))"
  using assms
proof (induction "sz - i" arbitrary: arr i)
  case 0
  then show ?case by (subst do_swap_loop.simps) auto
next
  case (Suc n)
  then have i: "i < sz" "n = sz - Suc i" by auto
  let ?arr = "arr[a + i := arr ! (b + i), b + i := arr ! (a + i)]"
  obtain arr' where arr': "do_swap_loop ?arr a b sz (Suc i) = Inr arr'" "length arr' = length ?arr"
      "\<forall>p<length ?arr. arr' ! p = (if a + Suc i \<le> p \<and> p < a + sz then ?arr ! (p - a + b)
                                       else if b + Suc i \<le> p \<and> p < b + sz then ?arr ! (p - b + a) else ?arr ! p)"
    using Suc.hyps(1) [OF i(2), of ?arr] Suc.prems i by auto
  have "do_swap_loop arr a b sz i = Inr arr'"
    using arr'(1) i Suc.prems by (subst do_swap_loop.simps) (simp add: nth_list_update')
  moreover have "arr' ! p = (if a + i \<le> p \<and> p < a + sz then arr ! (p - a + b)
                                       else if b + i \<le> p \<and> p < b + sz then arr ! (p - b + a) else arr ! p)"
    if "p < length arr" for p
  proof -
    have upd: "?arr ! q = (if q = b + i then arr ! (a + i) else if q = a + i then arr ! (b + i) else arr ! q)"
      if "q < length arr" for q using that by (simp add: nth_list_update')
    have p': "arr' ! p = (if a + Suc i \<le> p \<and> p < a + sz then ?arr ! (p - a + b)
                                       else if b + Suc i \<le> p \<and> p < b + sz then ?arr ! (p - b + a) else ?arr ! p)"
      using arr'(3) that by simp
    consider "a + i < p \<and> p < a + sz" | "p = a + i" | "b + i < p \<and> p < b + sz" | "p = b + i"
      | "\<not> (a + i \<le> p \<and> p < a + sz)" "\<not> (b + i \<le> p \<and> p < b + sz)" using i(1) by linarith
    then show ?thesis
    proof cases
      case 1
      then have "p - a + b < length arr" "p - a + b \<noteq> b + i" "p - a + b \<noteq> a + i" using Suc.prems(2,3) i by linarith+
      then show ?thesis using 1 p' upd by simp
    next
      case 2
      then have "\<not> (a + Suc i \<le> p \<and> p < a + sz)" "\<not> (b + Suc i \<le> p \<and> p < b + sz)" "p \<noteq> b + i" "a + i \<le> p \<and> p < a + sz"
          "p - a + b = b + i" using Suc.prems(3) i(1) by linarith+
      then show ?thesis unfolding p' using upd [OF that] 2 by (simp only: if_True if_False simp_thms)
    next
      case 3
      then have c: "p - b + a < length arr" "p - b + a \<noteq> b + i" "p - b + a \<noteq> a + i"
          "\<not> (a + Suc i \<le> p \<and> p < a + sz)" "b + Suc i \<le> p \<and> p < b + sz" "\<not> (a + i \<le> p \<and> p < a + sz)" "b + i \<le> p \<and> p < b + sz"
        using Suc.prems(1,3) i by linarith+
      show ?thesis unfolding p' using upd [OF c(1)] c(2-) by (simp only: if_True if_False simp_thms)
    next
      case 4
      then have "\<not> (a + Suc i \<le> p \<and> p < a + sz)" "\<not> (b + Suc i \<le> p \<and> p < b + sz)" "\<not> (a + i \<le> p \<and> p < a + sz)"
          "b + i \<le> p \<and> p < b + sz" "p - b + a = a + i" using Suc.prems(3) i(1) by linarith+
      then show ?thesis unfolding p' using upd [OF that] 4 by (simp only: if_True if_False simp_thms)
    next
      case 5
      then have "\<not> (a + Suc i \<le> p \<and> p < a + sz)" "\<not> (b + Suc i \<le> p \<and> p < b + sz)" "p \<noteq> a + i" "p \<noteq> b + i"
        using i(1) by linarith+
      then show ?thesis unfolding p' using upd [OF that] 5 by (simp only: if_True if_False simp_thms)
    qed
  qed
  ultimately show ?case using arr'(2) by auto
qed

lemma chunk_index: "q < sz \<Longrightarrow> (i * sz \<le> k * sz + q \<and> k * sz + q < i * sz + sz) \<longleftrightarrow> k = (i :: nat)"
proof
  assume q: "q < sz" and "i * sz \<le> k * sz + q \<and> k * sz + q < i * sz + sz"
  then have "(k * sz + q) div sz = i" by (intro div_nat_eqI) (simp_all add: mult.commute)
  then show "k = i" using q by simp
qed simp

abbreviation swapped_list :: "'a list \<Rightarrow> nat \<Rightarrow> nat \<Rightarrow> 'a list" where
  "swapped_list xs i j \<equiv> xs[i := xs ! j, j := xs ! i]"

lemma do_swap_view:
  assumes "length arr = cnt * sz" "i < cnt" "j < cnt" "i \<noteq> j"
  shows "\<exists>arr'. do_swap arr (Suc i) (Suc j) sz = Inr arr' \<and> length arr' = cnt * sz
           \<and> view sz cnt arr' = swapped_list (view sz cnt arr) i j"
proof -
  have b: "i * sz + sz \<le> length arr" "j * sz + sz \<le> length arr" using view_bound assms by blast+
  have "i * sz + sz \<le> j * sz \<or> j * sz + sz \<le> i * sz"
    using assms(4) by (metis add.commute mult_Suc mult_le_mono1 nat_neq_iff Suc_leI)
  then obtain arr' where arr': "do_swap_loop arr (i * sz) (j * sz) sz 0 = Inr arr'" "length arr' = length arr"
      "\<forall>p<length arr. arr' ! p = (if i * sz \<le> p \<and> p < i * sz + sz then arr ! (p - i * sz + j * sz)
          else if j * sz \<le> p \<and> p < j * sz + sz then arr ! (p - j * sz + i * sz) else arr ! p)"
    using swap_loop_eq [OF b, of 0] by auto
  have "view sz cnt arr' = swapped_list (view sz cnt arr) i j"
  proof (rule nth_equalityI)
    fix k assume "k < length (view sz cnt arr')"
    then have k: "k < cnt" by simp
    have kb: "k * sz + sz \<le> length arr" using view_bound [OF k assms(1)] .
    have "take sz (drop (k * sz) arr') = take sz (drop ((if k = i then j else if k = j then i else k) * sz) arr)"
    proof (rule nth_equalityI)
      show "length (take sz (drop (k * sz) arr')) = length (take sz (drop ((if k = i then j else if k = j then i else k) * sz) arr))"
        using kb b arr'(2) by auto
      fix q assume "q < length (take sz (drop (k * sz) arr'))"
      then have q: "q < sz" by simp
      have "k * sz + q < length arr" using kb q by simp
      then have "arr' ! (k * sz + q) = arr ! ((if k = i then j else if k = j then i else k) * sz + q)"
        using arr'(3) chunk_index [OF q, of i k] chunk_index [OF q, of j k] by (auto simp: add.commute)
      then show "take sz (drop (k * sz) arr') ! q = take sz (drop ((if k = i then j else if k = j then i else k) * sz) arr) ! q"
        using q kb b arr'(2) by (auto simp: nth_drop)
    qed
    then show "view sz cnt arr' ! k = swapped_list (view sz cnt arr) i j ! k"
      using k assms(2,3) by (auto simp: nth_list_update' nth_view)
  qed simp
  then show ?thesis using arr'(1,2) assms(1) by (simp add: do_swap_def)
qed

lemma do_compare_view:
  assumes "length arr = cnt * sz" "i < cnt" "j < cnt"
  shows "do_compare arr (Suc i) (Suc j) sz compare = Inr (compare (view sz cnt arr ! i) (view sz cnt arr ! j))"
  using elem_at_view [OF assms(2,1)] elem_at_view [OF assms(3,1)] by (simp add: do_compare_def)

section \<open>Heaps\<close>

text \<open>With 1-based indices as in the source: among the first \<open>n\<close> elements, every parent from index \<open>i0\<close> on
  is at least as large as its children; in \<open>almost_heap\<close> the parent \<open>i\<close> is exempt.\<close>

definition heap :: "('e \<Rightarrow> 'k::linorder) \<Rightarrow> 'e list \<Rightarrow> nat \<Rightarrow> nat \<Rightarrow> bool" where
  "heap f xs n i0 \<longleftrightarrow> (\<forall>k. 2 \<le> k \<and> k \<le> n \<and> i0 \<le> k div 2 \<longrightarrow> f (xs ! (k - 1)) \<le> f (xs ! (k div 2 - 1)))"

definition almost_heap :: "('e \<Rightarrow> 'k::linorder) \<Rightarrow> 'e list \<Rightarrow> nat \<Rightarrow> nat \<Rightarrow> nat \<Rightarrow> bool" where
  "almost_heap f xs n i0 i \<longleftrightarrow>
     (\<forall>k. 2 \<le> k \<and> k \<le> n \<and> i0 \<le> k div 2 \<and> k div 2 \<noteq> i \<longrightarrow> f (xs ! (k - 1)) \<le> f (xs ! (k div 2 - 1)))
     \<and> (\<forall>k. k \<le> n \<and> k div 2 = i \<and> 2 \<le> i \<and> i0 \<le> i div 2 \<longrightarrow> f (xs ! (k - 1)) \<le> f (xs ! (i div 2 - 1)))"

lemma heap_complete:
  assumes "almost_heap f xs n i0 i" "\<forall>k. 2 \<le> k \<and> k \<le> n \<and> k div 2 = i \<longrightarrow> f (xs ! (k - 1)) \<le> f (xs ! (i - 1))"
  shows "heap f xs n i0"
  using assms unfolding heap_def almost_heap_def by metis

lemma heap_sift:
  assumes ah: "almost_heap f xs n i0 i" and i: "1 \<le> i" "i0 \<le> i" and mx: "mx div 2 = i" "mx \<le> n" "n \<le> length xs"
    and max: "\<forall>k. 2 \<le> k \<and> k \<le> n \<and> k div 2 = i \<longrightarrow> f (xs ! (k - 1)) \<le> f (xs ! (mx - 1))"
    and gt: "f (xs ! (i - 1)) \<le> f (xs ! (mx - 1))"
  shows "almost_heap f (swapped_list xs (i - 1) (mx - 1)) n i0 mx"
proof -
  let ?ys = "swapped_list xs (i - 1) (mx - 1)"
  have imx: "i < mx" "2 \<le> mx" using i(1) mx(1) by auto
  have y: "?ys ! (k - 1) = (if k = mx then xs ! (i - 1) else if k = i then xs ! (mx - 1) else xs ! (k - 1))"
    if "1 \<le> k" "k \<le> n" for k
    using that imx i(1) mx by (auto simp: nth_list_update')
  note h1 = conjunct1 [OF ah [unfolded almost_heap_def], rule_format]
    and h2 = conjunct2 [OF ah [unfolded almost_heap_def], rule_format]
  show ?thesis unfolding almost_heap_def
  proof (intro conjI allI impI)
    fix k assume k: "2 \<le> k \<and> k \<le> n \<and> i0 \<le> k div 2 \<and> k div 2 \<noteq> mx"
    then have yk: "?ys ! (k - 1) = (if k = mx then xs ! (i - 1) else if k = i then xs ! (mx - 1) else xs ! (k - 1))"
        and yp: "?ys ! (k div 2 - 1) = (if k div 2 = i then xs ! (mx - 1) else xs ! (k div 2 - 1))"
      using y [of k] y [of "k div 2"] by auto
    show "f (?ys ! (k - 1)) \<le> f (?ys ! (k div 2 - 1))"
    proof (cases "k div 2 = i")
      case True
      then show ?thesis using yk yp gt max k imx by auto
    next
      case False
      then show ?thesis using yk yp k h1 [of k] h2 [of mx] mx by auto
    qed
  next
    fix k assume k: "k \<le> n \<and> k div 2 = mx \<and> 2 \<le> mx \<and> i0 \<le> mx div 2"
    then have "mx < k" "k \<noteq> i" using imx by auto
    then have "?ys ! (k - 1) = xs ! (k - 1)" using y [of k] k imx by auto
    moreover have "?ys ! (mx div 2 - 1) = xs ! (mx - 1)" unfolding mx(1) using y [of i] imx i mx(2) by simp
    ultimately
    show "f (?ys ! (k - 1)) \<le> f (?ys ! (mx div 2 - 1))" using h1 [of k] k imx i(2) by auto
  qed
qed

lemma heap_root_max:
  assumes "heap f xs n 1" "1 \<le> k" "k \<le> n"
  shows "f (xs ! (k - 1)) \<le> f (xs ! 0)"
  using assms(2,3)
proof (induction k rule: less_induct)
  case (less k)
  show ?case
  proof (cases "k = 1")
    case False
    then have "f (xs ! (k - 1)) \<le> f (xs ! (k div 2 - 1))" using assms(1) less.prems unfolding heap_def by auto
    also have "\<dots> \<le> f (xs ! 0)" using less.IH [of "k div 2"] less.prems False by auto
    finally show ?thesis .
  qed simp
qed

text \<open>\<open>f\<close> orders the elements the way the comparison function does.\<close>

definition orders :: "('e \<Rightarrow> 'k::linorder) \<Rightarrow> ('e \<Rightarrow> 'e \<Rightarrow> int) \<Rightarrow> bool" where
  "orders f compare \<longleftrightarrow> (\<forall>x y. (compare x y > 0) = (f y < f x))"

definition larger :: "('e \<Rightarrow> 'k::linorder) \<Rightarrow> 'e list \<Rightarrow> nat \<Rightarrow> nat \<Rightarrow> nat \<Rightarrow> nat" where
  "larger f xs n j i = (if j \<le> n \<and> f (xs ! (i - 1)) < f (xs ! (j - 1)) then j else i)"

lemma larger_bounds: "larger f xs n j i = j \<and> j \<le> n \<or> larger f xs n j i = i"
  by (simp add: larger_def)

lemma larger_ge: "f (xs ! (i - 1)) \<le> f (xs ! (larger f xs n j i - 1))"
    "j \<le> n \<Longrightarrow> f (xs ! (j - 1)) \<le> f (xs ! (larger f xs n j i - 1))"
  by (auto simp: larger_def)

definition max_child :: "('e \<Rightarrow> 'k::linorder) \<Rightarrow> 'e list \<Rightarrow> nat \<Rightarrow> nat \<Rightarrow> nat" where
  "max_child f xs n i = larger f xs n (2 * i + 1) (larger f xs n (2 * i) i)"

lemma max_child_cases: "max_child f xs n i = i \<or> max_child f xs n i div 2 = i \<and> max_child f xs n i \<le> n"
  using larger_bounds [of f xs n "2 * i + 1" "larger f xs n (2 * i) i"] larger_bounds [of f xs n "2 * i" i]
  by (auto simp: max_child_def)

lemma max_child_ge_self: "f (xs ! (i - 1)) \<le> f (xs ! (max_child f xs n i - 1))"
  unfolding max_child_def by (rule order_trans [OF larger_ge(1) larger_ge(1)])

lemma max_child_ge:
  assumes "2 \<le> k" "k \<le> n" "k div 2 = i"
  shows "f (xs ! (k - 1)) \<le> f (xs ! (max_child f xs n i - 1))"
proof -
  have "k = 2 * i \<or> k = 2 * i + 1" using assms by linarith
  then show ?thesis
  proof
    assume k: "k = 2 * i"
    have "2 * i \<le> n" using assms k by simp
    then show ?thesis unfolding max_child_def k by (rule order_trans [OF larger_ge(2) larger_ge(1)])
  next
    assume k: "k = 2 * i + 1"
    show ?thesis unfolding max_child_def k by (rule larger_ge(2)) (use assms k in simp)
  qed
qed

lemma compare_larger:
  assumes "orders f compare" "length arr = cnt * sz" "n \<le> cnt" "1 \<le> i" "j \<le> n \<Longrightarrow> i \<le> n" "1 \<le> j"
  shows "(if j \<le> n then bind_r (do_compare arr j i sz compare) (\<lambda>c. Inr (if c > 0 then j else i)) else Inr i)
           = Inr (larger f (view sz cnt arr) n j i)"
proof (cases "j \<le> n")
  case True
  then have "do_compare arr j i sz compare = Inr (compare (view sz cnt arr ! (j - 1)) (view sz cnt arr ! (i - 1)))"
    using do_compare_view [of arr cnt sz "j - 1" "i - 1" compare] assms by simp
  then show ?thesis using assms(1) True by (simp add: larger_def orders_def)
qed (simp add: larger_def)

lemma heapify_body_eq:
  assumes "orders f compare" "length arr = cnt * sz" "n \<le> cnt" "1 \<le> i" "i \<le> cnt" "2 * cnt + 1 < u32_mod"
  shows "heapify_body n sz compare (arr, i, brk) =
     (let mx = max_child f (view sz cnt arr) n i in
      if mx = i then Inr (arr, i, True) else bind_r (do_swap arr i mx sz) (\<lambda>arr. Inr (arr, mx, False)))"
proof -
  let ?l = "larger f (view sz cnt arr) n (2 * i) i"
  have w: "mul32 2 i = 2 * i" "add32 (2 * i) 1 = 2 * i + 1" using assms(5,6) by (simp_all add: mul32_def add32_def)
  have l: "2 * i + 1 \<le> n \<Longrightarrow> ?l \<le> n" "1 \<le> ?l" using assms(4) by (auto simp: larger_def)
  have c1: "(if 2 * i \<le> n then bind_r (do_compare arr (2 * i) i sz compare) (\<lambda>c. Inr (if c > 0 then 2 * i else i)) else Inr i)
      = Inr ?l"
    by (rule compare_larger [OF assms(1-4)]) (use assms(4) in auto)
  have c2: "(if 2 * i + 1 \<le> n then bind_r (do_compare arr (2 * i + 1) ?l sz compare)
        (\<lambda>c. Inr (if c > 0 then 2 * i + 1 else ?l)) else Inr ?l) = Inr (max_child f (view sz cnt arr) n i)"
    unfolding max_child_def by (rule compare_larger [OF assms(1-3) l(2,1)]) auto
  show ?thesis unfolding heapify_body_def prod.case Let_def w c1 bind_r_Inr c2 ..
qed

text \<open>What \<open>heapify\<close> leaves alone: the multiset of the elements and everything past the first \<open>n\<close>.\<close>

definition rearranged :: "nat \<Rightarrow> 'e list \<Rightarrow> 'e list \<Rightarrow> bool" where
  "rearranged n xs ys \<longleftrightarrow> mset ys = mset xs \<and> (\<forall>k<length xs. n \<le> k \<longrightarrow> ys ! k = xs ! k)"

lemma rearranged_refl: "rearranged n xs xs"
  by (simp add: rearranged_def)

lemma rearranged_length: "rearranged n xs ys \<Longrightarrow> length ys = length xs"
  unfolding rearranged_def by (metis size_mset)

lemma rearranged_swap:
  "rearranged n xs ys \<Longrightarrow> i < n \<Longrightarrow> j < n \<Longrightarrow> n \<le> length xs \<Longrightarrow> rearranged n xs (swapped_list ys i j)"
  using rearranged_length [of n xs ys] by (auto simp: rearranged_def mset_swap nth_list_update')

lemma heapify_correct:
  assumes "orders f compare" "length arr = cnt * sz" "n \<le> cnt" "1 \<le> i" "i \<le> cnt" "i0 \<le> i" "2 * cnt + 1 < u32_mod"
    and "almost_heap f (view sz cnt arr) n i0 i"
  shows "\<exists>arr'. heapify arr i n sz compare = Inr arr' \<and> length arr' = cnt * sz
           \<and> heap f (view sz cnt arr') n i0 \<and> rearranged n (view sz cnt arr) (view sz cnt arr')"
proof -
  let ?I = "\<lambda>(a, j, brk). length a = cnt * sz \<and> i0 \<le> j \<and> 1 \<le> j \<and> j \<le> cnt \<and> rearranged n (view sz cnt arr) (view sz cnt a)
        \<and> (if brk then heap f (view sz cnt a) n i0 else almost_heap f (view sz cnt a) n i0 j)"
  have "\<exists>s'. while_r (\<lambda>(arr, i, brk). Inr (\<not> brk)) (heapify_body n sz compare) (arr, i, False) = Inr s'
          \<and> ?I s' \<and> (\<lambda>(arr, i, brk). Inr (\<not> brk)) s' = (Inr False :: bool res)"
  proof (rule while_r_rule [where I = ?I and m = "\<lambda>(a, j, brk). if brk then 0 else Suc (n - j)"])
    fix s assume I: "?I s" and c: "(case s of (arr, i, brk) \<Rightarrow> Inr (\<not> brk)) = (Inr True :: bool res)"
    obtain a j where s: "s = (a, j, False)" using c by (cases s) auto
    let ?xs = "view sz cnt a"
    have a: "length a = cnt * sz" "i0 \<le> j" "1 \<le> j" "j \<le> cnt" "rearranged n (view sz cnt arr) ?xs" "almost_heap f ?xs n i0 j"
      using I s by auto
    show "\<exists>s'. heapify_body n sz compare s = Inr s' \<and> ?I s' \<and>
       (case s' of (a, j, brk) \<Rightarrow> if brk then 0 else Suc (n - j)) < (case s of (a, j, brk) \<Rightarrow> if brk then 0 else Suc (n - j))"
    proof (cases "max_child f ?xs n j = j")
      case True
      then have "heap f ?xs n i0" using heap_complete [OF a(6)] max_child_ge [of _ n j f ?xs] by metis
      then show ?thesis using True s a heapify_body_eq [OF assms(1) a(1) assms(3) a(3,4) assms(7)] by (simp add: Let_def)
    next
      case False
      let ?mx = "max_child f ?xs n j"
      have mx: "?mx div 2 = j" "?mx \<le> n" using max_child_cases [of f ?xs n j] False by auto
      have jm: "j < ?mx" using mx(1) a(3) by linarith
      have "j - 1 < cnt" "?mx - 1 < cnt" "j - 1 \<noteq> ?mx - 1" using a(3,4) jm mx(2) assms(3) by linarith+
      then obtain a' where a': "do_swap a j ?mx sz = Inr a'" "length a' = cnt * sz"
          "view sz cnt a' = swapped_list ?xs (j - 1) (?mx - 1)"
        using do_swap_view [OF a(1), of "j - 1" "?mx - 1"] a(3) jm by auto
      have "almost_heap f (view sz cnt a') n i0 ?mx"
        unfolding a'(3)
        by (rule heap_sift [OF a(6,3,2) mx _ _ max_child_ge_self]) (use assms(3) in \<open>simp, blast intro: max_child_ge\<close>)
      moreover have "rearranged n (view sz cnt arr) (view sz cnt a')"
        unfolding a'(3) by (rule rearranged_swap [OF a(5)]) (use a(3) mx(2) jm assms(3) in auto)
      ultimately show ?thesis
        using False s a a' mx jm assms(3) heapify_body_eq [OF assms(1) a(1) assms(3) a(3,4) assms(7)] by (simp add: Let_def)
    qed
  qed (use assms rearranged_refl in auto)
  then show ?thesis by (fastforce simp: heapify_def)
qed

section \<open>The sort\<close>

text \<open>Every element from index \<open>n\<close> on is at least as large as all elements before it.\<close>

definition settled :: "('e \<Rightarrow> 'k::linorder) \<Rightarrow> 'e list \<Rightarrow> nat \<Rightarrow> bool" where
  "settled f xs n \<longleftrightarrow> (\<forall>k. n \<le> k \<and> k < length xs \<longrightarrow> (\<forall>j\<le>k. f (xs ! j) \<le> f (xs ! k)))"

lemma rearranged_take:
  assumes "rearranged n xs ys" "n \<le> length xs"
  shows "set (take n ys) = set (take n xs)"
proof -
  have "drop n ys = drop n xs"
    using assms rearranged_length [OF assms(1)] by (intro nth_equalityI) (simp_all add: rearranged_def)
  moreover have "mset (take n ys) + mset (drop n ys) = mset (take n xs) + mset (drop n xs)"
    using assms(1) by (simp add: rearranged_def flip: mset_append)
  ultimately have "mset (take n ys) = mset (take n xs)" by simp
  then show ?thesis by (rule mset_eq_setD)
qed

lemma settled_rearranged:
  assumes "settled f xs n" "rearranged n xs ys" "n \<le> length xs"
  shows "settled f ys n"
  unfolding settled_def
proof (intro allI impI)
  fix k j assume k: "n \<le> k \<and> k < length ys" and j: "j \<le> k"
  have len: "length ys = length xs" by (rule rearranged_length [OF assms(2)])
  have yk: "ys ! k = xs ! k" using assms(2) k len by (simp add: rearranged_def)
  have "\<exists>j'\<le>k. ys ! j = xs ! j'"
  proof (cases "j < n")
    case True
    then have "ys ! j \<in> set (take n ys)" using k by (auto simp: in_set_conv_nth intro!: exI [of _ j])
    then obtain j' where "j' < n" "xs ! j' = ys ! j"
      unfolding rearranged_take [OF assms(2,3)] using assms(3) by (auto simp: in_set_conv_nth)
    then show ?thesis using k by (intro exI [of _ j']) simp
  next
    case False
    then show ?thesis using assms(2) k j len by (intro exI [of _ j]) (simp add: rearranged_def)
  qed
  then show "f (ys ! j) \<le> f (ys ! k)" using assms(1) k len yk unfolding settled_def by auto
qed

lemma settled_sorted:
  assumes "settled f xs n" "n \<le> 1"
  shows "sorted (map f xs)"
  unfolding sorted_iff_nth_mono
proof (intro allI impI)
  fix i j assume "i \<le> j" "j < length (map f xs)"
  then show "map f xs ! i \<le> map f xs ! j" using assms unfolding settled_def by (cases "j = 0") auto
qed

lemma settled_swap:
  assumes "settled f xs (Suc n)" "heap f xs (Suc n) 1" "n < length xs" "0 < n"
  shows "settled f (swapped_list xs 0 n) n" and "almost_heap f (swapped_list xs 0 n) n 1 1"
proof -
  have rm: "f (xs ! j) \<le> f (xs ! 0)" if "j \<le> n" for j using heap_root_max [OF assms(2), of "Suc j"] that by simp
  show "settled f (swapped_list xs 0 n) n" unfolding settled_def
  proof (intro allI impI)
    fix k j assume k: "n \<le> k \<and> k < length (swapped_list xs 0 n)" and j: "j \<le> k"
    show "f (swapped_list xs 0 n ! j) \<le> f (swapped_list xs 0 n ! k)"
    proof (cases "k = n")
      case True
      then show ?thesis using rm j assms(3,4) by (simp add: nth_list_update')
    next
      case False
      then have "\<forall>j\<le>k. f (xs ! j) \<le> f (xs ! k)" using assms(1) k unfolding settled_def by auto
      then show ?thesis using False k j assms(3,4) by (simp add: nth_list_update')
    qed
  qed
  show "almost_heap f (swapped_list xs 0 n) n 1 1"
    unfolding almost_heap_def
  proof (intro conjI allI impI)
    fix k assume k: "2 \<le> k \<and> k \<le> n \<and> 1 \<le> k div 2 \<and> k div 2 \<noteq> (1::nat)"
    then have "f (xs ! (k - 1)) \<le> f (xs ! (k div 2 - 1))" using assms(2) unfolding heap_def by auto
    moreover have "k - 1 \<noteq> 0" "k - 1 \<noteq> n" "k div 2 - 1 \<noteq> 0" "k div 2 - 1 \<noteq> n" using k by linarith+
    ultimately show "f (swapped_list xs 0 n ! (k - 1)) \<le> f (swapped_list xs 0 n ! (k div 2 - 1))" by simp
  qed simp
qed

lemma build_correct:
  assumes "orders f compare" "length arr = cnt * sz" "2 * cnt + 1 < u32_mod"
  shows "\<exists>a i. while_r (\<lambda>(arr, i). Inr (i > 0)) (build_body cnt sz compare) (arr, cnt div 2) = Inr (a, i)
           \<and> length a = cnt * sz \<and> heap f (view sz cnt a) cnt 1 \<and> mset (view sz cnt a) = mset (view sz cnt arr)"
proof -
  let ?I = "\<lambda>(a, i). length a = cnt * sz \<and> i \<le> cnt div 2 \<and> heap f (view sz cnt a) cnt (Suc i)
              \<and> mset (view sz cnt a) = mset (view sz cnt arr)"
  have "\<exists>t. while_r (\<lambda>(arr, i). Inr (i > 0)) (build_body cnt sz compare) (arr, cnt div 2) = Inr t
          \<and> ?I t \<and> (\<lambda>(arr, i). Inr (i > 0)) t = (Inr False :: bool res)"
  proof (rule while_r_rule [where I = ?I and m = snd])
    show "?I (arr, cnt div 2)" using assms(2) by (auto simp: heap_def)
    fix t assume I: "?I t" and c: "(\<lambda>(arr, i). Inr (i > 0)) t = (Inr True :: bool res)"
    obtain a i where t: "t = (a, i)" by (cases t)
    have i: "1 \<le> i" "i \<le> cnt" using I c t by auto
    have "almost_heap f (view sz cnt a) cnt i i" using I i(1) by (auto simp: t heap_def almost_heap_def)
    then obtain a' where "heapify a i cnt sz compare = Inr a'" "length a' = cnt * sz" "heap f (view sz cnt a') cnt i"
        "rearranged cnt (view sz cnt a) (view sz cnt a')"
      using heapify_correct [OF assms(1) _ order_refl i order_refl assms(3), of a] I t by auto
    then show "\<exists>t'. build_body cnt sz compare t = Inr t' \<and> ?I t' \<and> snd t' < snd t"
      using I i t by (auto simp: build_body_def rearranged_def)
  qed auto
  then show ?thesis by auto
qed

lemma extract_step:
  assumes "orders f compare" "2 * cnt + 1 < u32_mod" "length a = cnt * sz" "2 \<le> i" "i \<le> cnt"
    and "heap f (view sz cnt a) i 1" "settled f (view sz cnt a) i"
  shows "\<exists>a'. extract_body sz compare (a, i) = Inr (a', i - 1) \<and> length a' = cnt * sz
           \<and> heap f (view sz cnt a') (i - 1) 1 \<and> settled f (view sz cnt a') (i - 1)
           \<and> mset (view sz cnt a') = mset (view sz cnt a)"
proof -
  obtain n where n: "i = Suc n" "0 < n" "n < cnt" using assms(4,5) by (cases i) auto
  obtain b where b: "do_swap a (Suc 0) (Suc n) sz = Inr b" "length b = cnt * sz"
      "view sz cnt b = swapped_list (view sz cnt a) 0 n"
    using do_swap_view [OF assms(3), of 0 n] n by auto
  note st = settled_swap [OF assms(7,6) [unfolded n(1)], simplified, OF n(3,2), folded b(3)]
  obtain a' where a': "heapify b 1 n sz compare = Inr a'" "length a' = cnt * sz" "heap f (view sz cnt a') n 1"
      "rearranged n (view sz cnt b) (view sz cnt a')"
    using heapify_correct [OF assms(1) b(2) _ _ _ _ assms(2), of n 1 1] st(2) n(2,3) by auto
  have "settled f (view sz cnt a') n" by (rule settled_rearranged [OF st(1) a'(4)]) (use n in simp)
  moreover have "mset (view sz cnt b) = mset (view sz cnt a)" unfolding b(3) by (rule mset_swap) (use n in simp_all)
  ultimately show ?thesis using a' b n(1) by (simp add: extract_body_def rearranged_def)
qed

lemma sort_array_correct:
  assumes "orders f compare" "length arr = cnt * sz" "0 < sz" "2 * cnt + 1 < u32_mod"
  shows "\<exists>arr'. sort_array arr cnt sz compare = Inr arr' \<and> length arr' = cnt * sz
           \<and> sorted (map f (view sz cnt arr')) \<and> mset (view sz cnt arr') = mset (view sz cnt arr)"
proof -
  obtain a i where a: "while_r (\<lambda>(arr, i). Inr (i > 0)) (build_body cnt sz compare) (arr, cnt div 2) = Inr (a, i)"
      "length a = cnt * sz" "heap f (view sz cnt a) cnt 1" "mset (view sz cnt a) = mset (view sz cnt arr)"
    using build_correct [OF assms(1,2,4)] by blast
  let ?I = "\<lambda>(b, j). length b = cnt * sz \<and> j \<le> cnt \<and> heap f (view sz cnt b) j 1 \<and> settled f (view sz cnt b) j
              \<and> mset (view sz cnt b) = mset (view sz cnt arr)"
  have "\<exists>t. while_r (\<lambda>(arr, i). Inr (i > 1)) (extract_body sz compare) (a, cnt) = Inr t
          \<and> ?I t \<and> (\<lambda>(arr, i). Inr (i > 1)) t = (Inr False :: bool res)"
  proof (rule while_r_rule [where I = ?I and m = snd])
    show "?I (a, cnt)" using a by (auto simp: settled_def)
    fix t assume I: "?I t" and c: "(\<lambda>(arr, i). Inr (i > 1)) t = (Inr True :: bool res)"
    then obtain b j where t: "t = (b, j)" "2 \<le> j" "j \<le> cnt" by (cases t) auto
    then show "\<exists>t'. extract_body sz compare t = Inr t' \<and> ?I t' \<and> snd t' < snd t"
      using extract_step [OF assms(1,4) _ t(2,3), of b] I by auto
  qed auto
  then obtain b j where "while_r (\<lambda>(arr, i). Inr (i > 1)) (extract_body sz compare) (a, cnt) = Inr (b, j)"
      "?I (b, j)" "j \<le> 1" by auto
  then show ?thesis using a(1) assms(3) settled_sorted [of f "view sz cnt b" j] by (simp add: sort_array_def)
qed

section \<open>The search\<close>

text \<open>The elements are sorted with respect to the key that \<open>compare_key\<close> compares with.\<close>

definition sorted_for :: "('e \<Rightarrow> int) \<Rightarrow> 'e list \<Rightarrow> bool" where
  "sorted_for ck xs \<longleftrightarrow> (\<forall>j<length xs. \<forall>i\<le>j. (ck (xs ! i) < 0 \<longrightarrow> ck (xs ! j) < 0) \<and> (ck (xs ! j) > 0 \<longrightarrow> ck (xs ! i) > 0))"

definition search_inv :: "('e \<Rightarrow> int) \<Rightarrow> 'e list \<Rightarrow> nat \<Rightarrow> nat \<times> nat \<times> nat option \<Rightarrow> bool" where
  "search_inv ck xs sz = (\<lambda>(fs, lst, r). case r of
     None \<Rightarrow> \<exists>p q. fs = p * sz \<and> lst = q * sz \<and> p \<le> q \<and> q \<le> length xs
                \<and> (\<forall>k<p. ck (xs ! k) > 0) \<and> (\<forall>k<length xs. q \<le> k \<longrightarrow> ck (xs ! k) < 0)
   | Some m \<Rightarrow> \<exists>k<length xs. m = k * sz \<and> ck (xs ! k) = 0)"

lemma search_inv_NoneI:
  "p \<le> q \<Longrightarrow> q \<le> length xs \<Longrightarrow> (\<And>k. k < p \<Longrightarrow> ck (xs ! k) > 0) \<Longrightarrow> (\<And>k. k < length xs \<Longrightarrow> q \<le> k \<Longrightarrow> ck (xs ! k) < 0)
    \<Longrightarrow> search_inv ck xs sz (p * sz, q * sz, None)"
  unfolding search_inv_def by auto

lemma search_step:
  assumes "sorted_for ck (view sz cnt arr)" "length arr = cnt * sz" "0 < sz"
    and "search_inv ck (view sz cnt arr) sz (fs, lst, None)" "fs < lst"
  shows "\<exists>s'. search_body arr sz ck (fs, lst, None) = Inr s' \<and> search_inv ck (view sz cnt arr) sz s'
           \<and> (case s' of (fs', lst', r) \<Rightarrow> if r = None then Suc (lst' - fs') else 0) < Suc (lst - fs)"
proof -
  let ?xs = "view sz cnt arr"
  obtain p q where pq: "fs = p * sz" "lst = q * sz" "p \<le> q" "q \<le> cnt"
      "\<forall>k<p. ck (?xs ! k) > 0" "\<forall>k<cnt. q \<le> k \<longrightarrow> ck (?xs ! k) < 0"
    using assms(4) by (auto simp: search_inv_def)
  let ?m = "p + (q - p) div 2"
  have "p < q" using assms(5) pq by simp
  then have m: "p \<le> ?m" "?m < q" by linarith+
  have mid: "fs + (lst - fs) div sz div 2 * sz = ?m * sz"
    using assms(3) unfolding pq(1,2) diff_mult_distrib [symmetric] by (simp add: add_mult_distrib)
  have el: "elem_at arr (?m * sz) sz = Inr (?xs ! ?m)" using elem_at_view [OF _ assms(2)] m pq(4) by simp
  have lt: "p * sz \<le> ?m * sz" "?m * sz < q * sz" using m assms(3) by (simp_all add: mult_le_mono1)
  have sf: "ck (?xs ! i) < 0 \<Longrightarrow> ck (?xs ! j) < 0" "ck (?xs ! j) > 0 \<Longrightarrow> ck (?xs ! i) > 0" if "i \<le> j" "j < cnt" for i j
    using assms(1) that unfolding sorted_for_def length_view by blast+
  have body: "search_body arr sz ck (fs, lst, None) =
      Inr (if ck (?xs ! ?m) < 0 then (fs, ?m * sz, None) else if ck (?xs ! ?m) > 0 then (?m * sz + sz, lst, None)
           else (fs, lst, Some (?m * sz)))"
    by (simp add: search_body_def Let_def mid el)
  consider "ck (?xs ! ?m) < 0" | "ck (?xs ! ?m) > 0" | "ck (?xs ! ?m) = 0" by linarith
  then show ?thesis
  proof cases
    case 1
    have "search_inv ck ?xs sz (fs, ?m * sz, None)"
      unfolding pq(1) by (rule search_inv_NoneI) (use pq m sf(1) [OF _ _ 1] in simp_all)
    moreover have "?m * sz - fs < lst - fs" using lt pq(1,2) by linarith
    ultimately show ?thesis using body 1 by simp
  next
    case 2
    have "search_inv ck ?xs sz (Suc ?m * sz, lst, None)"
      unfolding pq(2) by (rule search_inv_NoneI) (use pq m sf(2) [OF _ _ 2] in \<open>simp_all add: less_Suc_eq_le\<close>)
    moreover have "lst - Suc ?m * sz < lst - fs" using lt pq(1,2) assms(3) unfolding mult_Suc by linarith
    moreover have "search_body arr sz ck (fs, lst, None) = Inr (Suc ?m * sz, lst, None)"
      unfolding body using 2 by (simp only: mult_Suc add.commute [of sz]) simp
    ultimately show ?thesis by simp
  next
    case 3
    then have "search_inv ck ?xs sz (fs, lst, Some (?m * sz))"
      unfolding search_inv_def using m pq(4) by (auto intro!: exI [of _ ?m])
    then show ?thesis using body 3 by simp
  qed
qed

lemma binary_search_aux:
  assumes "sorted_for ck (view sz cnt arr)" "length arr = cnt * sz" "0 < sz"
  shows "\<exists>r. binary_search ck arr cnt sz = Inr r \<and>
     (case r of None \<Rightarrow> \<forall>x\<in>set (view sz cnt arr). ck x \<noteq> 0
              | Some ofs \<Rightarrow> \<exists>k<cnt. ofs = k * sz \<and> ck (view sz cnt arr ! k) = 0)"
proof -
  let ?I = "search_inv ck (view sz cnt arr) sz"
  have "\<exists>t. while_r (\<lambda>(fs, lst, r). Inr (r = None \<and> fs < lst)) (search_body arr sz ck) (0, sz * cnt, None) = Inr t
          \<and> ?I t \<and> (\<lambda>(fs, lst, r). Inr (r = None \<and> fs < lst)) t = (Inr False :: bool res)"
  proof (rule while_r_rule [where I = ?I and m = "\<lambda>(fs, lst, r). if r = None then Suc (lst - fs) else 0"])
    show "?I (0, sz * cnt, None)" using search_inv_NoneI [of 0 cnt "view sz cnt arr" ck sz] by (simp add: mult.commute)
    fix t assume I: "?I t" and c: "(\<lambda>(fs, lst, r). Inr (r = None \<and> fs < lst)) t = (Inr True :: bool res)"
    then obtain fs lst where t: "t = (fs, lst, None)" "fs < lst" by (cases t) auto
    show "\<exists>t'. search_body arr sz ck t = Inr t' \<and> ?I t' \<and>
       (case t' of (fs, lst, r) \<Rightarrow> if r = None then Suc (lst - fs) else 0)
         < (case t of (fs, lst, r) \<Rightarrow> if r = None then Suc (lst - fs) else 0)"
      using search_step [OF assms I [unfolded t(1)] t(2)] t(1) by simp
  qed auto
  then obtain fs lst r where r: "binary_search ck arr cnt sz = Inr r" "?I (fs, lst, r)" "r = None \<longrightarrow> \<not> fs < lst"
    by (auto simp: binary_search_def)
  show ?thesis
  proof (cases r)
    case None
    then obtain p q where pq: "fs = p * sz" "lst = q * sz" "p \<le> q"
        "\<forall>k<p. ck (view sz cnt arr ! k) > 0" "\<forall>k<cnt. q \<le> k \<longrightarrow> ck (view sz cnt arr ! k) < 0"
      using r(2) unfolding search_inv_def None prod.case option.case length_view by blast
    then have "p = q" using assms(3) r(3) None by simp
    with pq(4,5) have "\<forall>k<cnt. ck (view sz cnt arr ! k) \<noteq> 0" by (metis less_irrefl not_le)
    then show ?thesis using r(1) None by (auto simp: in_set_conv_nth)
  qed (use r in \<open>auto simp: search_inv_def\<close>)
qed

section \<open>Properties\<close>

text \<open>C37: For every comparison function that orders the elements like a key \<open>f\<close> into a linear order, \<open>sort\<close>
  ends without a fault or an access out of the array, leaves the elements sorted by the key, and they are
  a permutation of the elements before. The bound on \<open>cnt\<close> keeps the child indices of \<open>heapify\<close> from wrapping.\<close>

theorem sort_correct:
  assumes "orders f compare" "length arr = cnt * sz" "0 < sz" "2 * cnt + 1 < u32_mod"
  shows "\<exists>arr'. sort_array arr cnt sz compare = Inr arr' \<and> length arr' = cnt * sz
           \<and> sorted (map f (view sz cnt arr')) \<and> mset (view sz cnt arr') = mset (view sz cnt arr)"
  by (rule sort_array_correct [OF assms])

theorem sort_correct_witness:
  "\<exists>arr'. sort_array [3, 9, 1, 9, 2, 9] 3 2 (\<lambda>x y. uint (hd x) - uint (hd y)) = Inr arr' \<and> length arr' = 3 * 2
     \<and> sorted (map (\<lambda>x. uint (hd x)) (view 2 3 arr')) \<and> mset (view 2 3 arr') = mset (view 2 3 [3, 9, 1, 9, 2, 9])"
  by (rule sort_correct) (simp_all add: orders_def)

text \<open>On an array sorted for the key, \<open>binary_search\<close> ends; it returns the offset of an element that
  compares equal to the key, or a null pointer, and then no element of the array compares equal.\<close>

theorem binary_search_correct:
  assumes "sorted_for compare_key (view sz cnt arr)" "length arr = cnt * sz" "0 < sz"
  shows "\<exists>r. binary_search compare_key arr cnt sz = Inr r \<and>
     (case r of None \<Rightarrow> \<forall>x\<in>set (view sz cnt arr). compare_key x \<noteq> 0
              | Some ofs \<Rightarrow> \<exists>k<cnt. ofs = k * sz \<and> compare_key (view sz cnt arr ! k) = 0)"
  by (rule binary_search_aux [OF assms])

lemma sorted_for_code: "sorted_for ck xs \<longleftrightarrow> list_all (\<lambda>j. list_all (\<lambda>i.
    (ck (xs ! i) < 0 \<longrightarrow> ck (xs ! j) < 0) \<and> (ck (xs ! j) > 0 \<longrightarrow> ck (xs ! i) > 0)) [0..<Suc j]) [0..<length xs]"
  unfolding sorted_for_def list_all_iff set_upt Ball_def atLeastLessThan_iff less_Suc_eq_le by blast

text \<open>After a sort, a search with the comparison function of the sort finds every element of the array.\<close>

lemma sort_then_search:
  assumes "orders f compare" "length arr = cnt * sz" "0 < sz" "2 * cnt + 1 < u32_mod"
    and "key \<in> set (view sz cnt arr)" "\<And>x y. compare x y < 0 \<longleftrightarrow> f x < f y"
  shows "\<exists>arr' k. sort_array arr cnt sz compare = Inr arr' \<and> binary_search (compare key) arr' cnt sz = Inr (Some (k * sz))
           \<and> k < cnt \<and> f (view sz cnt arr' ! k) = f key"
proof -
  obtain arr' where arr': "sort_array arr cnt sz compare = Inr arr'" "length arr' = cnt * sz"
      "sorted (map f (view sz cnt arr'))" "mset (view sz cnt arr') = mset (view sz cnt arr)"
    using sort_array_correct [OF assms(1-4)] by blast
  have gt: "compare x y > 0 \<longleftrightarrow> f y < f x" for x y using assms(1) by (simp add: orders_def)
  have mono: "f (view sz cnt arr' ! i) \<le> f (view sz cnt arr' ! j)" if "i \<le> j" "j < cnt" for i j
    using sorted_nth_mono [OF arr'(3) that(1)] that by simp
  have "sorted_for (compare key) (view sz cnt arr')"
    unfolding sorted_for_def gt assms(6) length_view using mono order.strict_trans2 order.strict_trans1 by blast
  then obtain r where r: "binary_search (compare key) arr' cnt sz = Inr r"
      "case r of None \<Rightarrow> \<forall>x\<in>set (view sz cnt arr'). compare key x \<noteq> 0
       | Some ofs \<Rightarrow> \<exists>k<cnt. ofs = k * sz \<and> compare key (view sz cnt arr' ! k) = 0"
    using binary_search_aux arr'(2) assms(3) by blast
  have z: "compare key x = 0 \<longleftrightarrow> f x = f key" for x using gt [of key x] assms(6) [of key x] by (metis linorder_neqE less_irrefl)
  have "key \<in> set (view sz cnt arr')" using mset_eq_setD [OF arr'(4)] assms(5) by simp
  then show ?thesis using arr'(1) r by (cases r) (auto simp: z)
qed

end
