(* ===== verification/Palloc.thy ===== *)
theory Palloc
  imports Vaddr Bitmap
begin

unbundle bit_operations_syntax

text \<open>
  \<^verbatim>\<open>threads/palloc.c\<close>: the page allocator. The state is the two pools, each a bitmap of used pages and a
  base address, and the contents of kernel memory as 32-bit cells at aligned addresses. The locks
  around a scan are taken and released within one call, so a call is one step of the model. A null
  pointer is the address 0. The contract a client of single pages relies on is the locale
  \<open>page_provider\<close>, interpreted on \<open>palloc_get_page\<close> and \<open>palloc_free_page\<close>.
\<close>

definition PAL_ASSERT :: "32 word" where "PAL_ASSERT = 1"
definition PAL_ZERO :: "32 word" where "PAL_ZERO = 2"
definition PAL_USER :: "32 word" where "PAL_USER = 4"

lemmas pal_consts = PAL_ASSERT_def PAL_ZERO_def PAL_USER_def

record pool =
  used_map :: bitmap
  base :: "32 word"

type_synonym cells = "32 word \<Rightarrow> 32 word"

record pmem =
  kernel_pool :: pool
  user_pool :: pool
  kcells :: cells

text \<open>\<open>memset\<close> on whole cells: every cell from address \<open>p\<close> on, \<open>n\<close> bytes long, holds \<open>v\<close>.\<close>

definition fill_cells :: "cells \<Rightarrow> 32 word \<Rightarrow> 32 word \<Rightarrow> nat \<Rightarrow> cells" where
  "fill_cells m p v n = (\<lambda>a. if unat p \<le> unat a \<and> unat a < unat p + n then v else m a)"

section \<open>Operations\<close>

definition page_from_pool :: "pool \<Rightarrow> 32 word \<Rightarrow> bool" where
  "page_from_pool pool page =
     (let page_no = unat (pg_no page); start_page = unat (pg_no (base pool));
          end_page = add32 start_page (bitmap_size (used_map pool)) in
      page_no \<ge> start_page \<and> page_no < end_page)"

text \<open>The words of the bitmap are the memory behind the \<open>struct bitmap\<close> at the start of the pool.\<close>

definition init_pool :: "cells \<Rightarrow> 32 word \<Rightarrow> nat \<Rightarrow> pool res" where
  "init_pool m b page_cnt =
     (let bm_pages = DIV_ROUND_UP (bitmap_buf_size page_cnt) PGSIZE in
      if bm_pages > page_cnt then Inl Panic
      else let page_cnt = page_cnt - bm_pages; bm_size = mul32 bm_pages PGSIZE;
               buf = map (\<lambda>i. m (b + 8 + of_nat (4 * i))) [0..<(bm_size - 8) div 4] in
        bind_r (bitmap_create_in_buf page_cnt buf bm_size) (\<lambda>um.
        Inr \<lparr>used_map = um, base = b + of_nat (bm_pages * PGSIZE)\<rparr>))"

definition palloc_init :: "cells \<Rightarrow> nat \<Rightarrow> nat \<Rightarrow> pmem res" where
  "palloc_init m init_ram_pages user_page_limit =
     bind_r (ptov (1024 * 1024)) (\<lambda>free_start.
     bind_r (ptov (of_nat (init_ram_pages * PGSIZE))) (\<lambda>free_end.
     let free_pages = unat (free_end - free_start) div PGSIZE;
         user_pages = free_pages div 2;
         user_pages = (if user_pages > user_page_limit then user_page_limit else user_pages);
         kernel_pages = free_pages - user_pages in
     bind_r (init_pool m free_start kernel_pages) (\<lambda>kp.
     bind_r (init_pool m (free_start + of_nat (kernel_pages * PGSIZE)) user_pages) (\<lambda>up.
     Inr \<lparr>kernel_pool = kp, user_pool = up, kcells = m\<rparr>))))"

definition palloc_get_multiple :: "32 word \<Rightarrow> nat \<Rightarrow> pmem \<Rightarrow> (pmem \<times> 32 word) res" where
  "palloc_get_multiple flags page_cnt s =
     (let user = (flags AND PAL_USER \<noteq> 0);
          pool = (if user then user_pool s else kernel_pool s) in
      if page_cnt = 0 then Inr (s, 0)
      else bind_r (bitmap_scan_and_flip (used_map pool) 0 page_cnt False) (\<lambda>(um, page_idx).
        let pool = pool\<lparr>used_map := um\<rparr>;
            s = (if user then s\<lparr>user_pool := pool\<rparr> else s\<lparr>kernel_pool := pool\<rparr>);
            pages = (if page_idx \<noteq> BITMAP_ERROR then base pool + of_nat (PGSIZE * page_idx) else 0) in
        if pages \<noteq> 0
        then Inr (if flags AND PAL_ZERO \<noteq> 0 then s\<lparr>kcells := fill_cells (kcells s) pages 0 (mul32 PGSIZE page_cnt)\<rparr> else s, pages)
        else if flags AND PAL_ASSERT \<noteq> 0 then Inl Panic else Inr (s, 0)))"

definition palloc_get_page :: "32 word \<Rightarrow> pmem \<Rightarrow> (pmem \<times> 32 word) res" where
  "palloc_get_page flags s = palloc_get_multiple flags 1 s"

definition palloc_free_multiple :: "32 word \<Rightarrow> nat \<Rightarrow> pmem \<Rightarrow> pmem res" where
  "palloc_free_multiple pages page_cnt s =
     ASSERT (pg_ofs pages = 0)
       (if pages = 0 \<or> page_cnt = 0 then Inr s
        else if \<not> page_from_pool (kernel_pool s) pages \<and> \<not> page_from_pool (user_pool s) pages then Inl Not_reached
        else let kernel = page_from_pool (kernel_pool s) pages;
                 pool = (if kernel then kernel_pool s else user_pool s);
                 page_idx = unat (pg_no pages - pg_no (base pool));
                 s = s\<lparr>kcells := fill_cells (kcells s) pages 0xcccccccc (mul32 PGSIZE page_cnt)\<rparr> in
          bind_r (bitmap_all (used_map pool) page_idx page_cnt) (\<lambda>all.
          ASSERT all (bind_r (bitmap_set_multiple (used_map pool) page_idx page_cnt False) (\<lambda>um.
          let pool = pool\<lparr>used_map := um\<rparr> in
          Inr (if kernel then s\<lparr>kernel_pool := pool\<rparr> else s\<lparr>user_pool := pool\<rparr>)))))"

definition palloc_free_page :: "32 word \<Rightarrow> pmem \<Rightarrow> pmem res" where
  "palloc_free_page page s = palloc_free_multiple page 1 s"

section \<open>Pools\<close>

definition pool_ok :: "pool \<Rightarrow> bool" where
  "pool_ok p \<longleftrightarrow> bitmap_ok (used_map p) \<and> pg_ofs (base p) = 0 \<and> is_kernel_vaddr (base p)
     \<and> unat (base p) + 4096 * bit_cnt (used_map p) < u32_mod"

definition paddr :: "pool \<Rightarrow> nat \<Rightarrow> 32 word" where
  "paddr p i = base p + of_nat (4096 * i)"

definition pool_pages :: "pool \<Rightarrow> 32 word set" where
  "pool_pages p = {paddr p i | i. i < bit_cnt (used_map p)}"

definition pool_used :: "pool \<Rightarrow> 32 word set" where
  "pool_used p = {paddr p i | i. i < bit_cnt (used_map p) \<and> bitmap_abs (used_map p) ! i}"

lemma unat_paddr:
  assumes "pool_ok p" "i \<le> bit_cnt (used_map p)"
  shows "unat (paddr p i) = unat (base p) + 4096 * i"
proof -
  have "unat (base p) + 4096 * i < u32_mod" using assms by (simp add: pool_ok_def)
  then show ?thesis by (simp add: paddr_def unat_word_ariths unat_of_nat)
qed

lemma paddr_inj: "pool_ok p \<Longrightarrow> i \<le> bit_cnt (used_map p) \<Longrightarrow> j \<le> bit_cnt (used_map p) \<Longrightarrow> paddr p i = paddr p j \<longleftrightarrow> i = j"
  by (auto simp: word_unat_eq_iff unat_paddr)

lemma base_aligned: "pool_ok p \<Longrightarrow> unat (base p) mod 4096 = 0"
  by (simp add: pool_ok_def word_unat_eq_iff unat_pg_ofs)

lemma paddr_page:
  assumes "pool_ok p" "i \<le> bit_cnt (used_map p)"
  shows "pg_ofs (paddr p i) = 0" "is_kernel_vaddr (paddr p i)" "paddr p i \<noteq> 0"
    and "unat (pg_no (paddr p i)) = unat (pg_no (base p)) + i"
proof -
  have k: "3221225472 \<le> unat (base p)" using assms(1) by (simp add: pool_ok_def is_kernel_vaddr_def PHYS_BASE_def word_le_nat_alt)
  show "pg_ofs (paddr p i) = 0"
    using base_aligned [OF assms(1)] by (simp add: word_unat_eq_iff unat_pg_ofs unat_paddr [OF assms] mod_add_eq [symmetric, of "unat (base p)"])
  show "is_kernel_vaddr (paddr p i)" using k by (simp add: is_kernel_vaddr_def PHYS_BASE_def word_le_nat_alt unat_paddr [OF assms])
  show "paddr p i \<noteq> 0" using k by (simp add: word_unat_eq_iff unat_paddr [OF assms])
  show "unat (pg_no (paddr p i)) = unat (pg_no (base p)) + i" by (simp add: unat_pg_no unat_paddr [OF assms])
qed

lemma page_from_pool_iff:
  assumes "pool_ok p" "pg_ofs a = 0"
  shows "page_from_pool p a \<longleftrightarrow> a \<in> pool_pages p"
proof -
  have sum: "add32 (unat (pg_no (base p))) (bit_cnt (used_map p)) = unat (pg_no (base p)) + bit_cnt (used_map p)"
    using assms(1) unfolding pool_ok_def unat_pg_no by (intro add32_small) linarith
  have al: "unat a mod 4096 = 0" using assms(2) by (simp add: word_unat_eq_iff unat_pg_ofs)
  show ?thesis
  proof
    assume f: "page_from_pool p a"
    then have b: "unat (base p) div 4096 \<le> unat a div 4096" "unat a div 4096 < unat (base p) div 4096 + bit_cnt (used_map p)"
      using sum by (simp_all add: page_from_pool_def Let_def bitmap_size_def unat_pg_no)
    define i where "i = unat a div 4096 - unat (base p) div 4096"
    have "unat a = 4096 * (unat a div 4096)" "unat (base p) = 4096 * (unat (base p) div 4096)"
      using mult_div_mod_eq [of 4096 "unat a"] mult_div_mod_eq [of 4096 "unat (base p)"] al base_aligned [OF assms(1)] by linarith+
    then have "unat a = unat (base p) + 4096 * i" using b(1) unfolding i_def by (metis diff_mult_distrib2 le_add_diff_inverse mult_le_mono2)
    moreover have "i < bit_cnt (used_map p)" using b by (simp add: i_def)
    ultimately have "a = paddr p i" using unat_paddr [OF assms(1), of i] by (simp add: word_unat_eq_iff)
    then show "a \<in> pool_pages p" using \<open>i < _\<close> by (auto simp: pool_pages_def)
  next
    assume "a \<in> pool_pages p"
    then obtain i where "a = paddr p i" "i < bit_cnt (used_map p)" by (auto simp: pool_pages_def)
    then show "page_from_pool p a"
      using sum paddr_page(4) [OF assms(1), of i] by (simp add: page_from_pool_def Let_def bitmap_size_def)
  qed
qed

section \<open>The invariant and its operations\<close>

text \<open>The kernel pool lies below the user pool.\<close>

definition pmem_ok :: "pmem \<Rightarrow> bool" where
  "pmem_ok s \<longleftrightarrow> pool_ok (kernel_pool s) \<and> pool_ok (user_pool s)
     \<and> unat (base (kernel_pool s)) + 4096 * bit_cnt (used_map (kernel_pool s)) \<le> unat (base (user_pool s))"

definition owned :: "pmem \<Rightarrow> 32 word set" where
  "owned s = pool_used (kernel_pool s) \<union> pool_used (user_pool s)"

definition pool_of :: "32 word \<Rightarrow> pmem \<Rightarrow> pool" where
  "pool_of flags s = (if flags AND PAL_USER \<noteq> 0 then user_pool s else kernel_pool s)"

definition other_pool_of :: "32 word \<Rightarrow> pmem \<Rightarrow> pool" where
  "other_pool_of flags s = (if flags AND PAL_USER \<noteq> 0 then kernel_pool s else user_pool s)"

text \<open>The addresses of a run of \<open>n\<close> pages.\<close>

definition page_run :: "32 word \<Rightarrow> nat \<Rightarrow> 32 word set" where
  "page_run p n = {p + of_nat (4096 * k) | k. k < n}"

lemma page_run_1 [simp]: "page_run p 1 = {p}" "page_run p (Suc 0) = {p}"
  by (auto simp: page_run_def)

lemma page_run_paddr: "page_run (paddr p i) n = {paddr p (i + k) | k. k < n}"
  by (simp add: page_run_def paddr_def distrib_left add.assoc)

lemma pool_pages_disjoint:
  assumes "pmem_ok s"
  shows "pool_pages (kernel_pool s) \<inter> pool_pages (user_pool s) = {}"
proof -
  have "unat a < unat b" if "a \<in> pool_pages (kernel_pool s)" "b \<in> pool_pages (user_pool s)" for a b
    using that assms by (auto simp: pool_pages_def pmem_ok_def unat_paddr)
  then show ?thesis by blast
qed

lemma pool_used_subset: "pool_used p \<subseteq> pool_pages p"
  by (auto simp: pool_used_def pool_pages_def)

lemma pool_used_update:
  assumes "pool_ok p" "bit_cnt um = bit_cnt (used_map p)" "bitmap_abs um = set_range (bitmap_abs (used_map p)) r n v"
    and "r + n \<le> bit_cnt (used_map p)"
  shows "pool_used (p\<lparr>used_map := um\<rparr>) = (if v then pool_used p \<union> page_run (paddr p r) n else pool_used p - page_run (paddr p r) n)"
proof -
  have pa: "paddr (p\<lparr>used_map := um\<rparr>) i = paddr p i" for i by (simp add: paddr_def)
  have "paddr p i \<in> page_run (paddr p r) n \<longleftrightarrow> r \<le> i \<and> i < r + n" if "i < bit_cnt (used_map p)" for i
  proof -
    have "k < n \<Longrightarrow> paddr p i = paddr p (r + k) \<longleftrightarrow> i = r + k" for k
      using paddr_inj [OF assms(1), of i "r + k"] that assms(4) by simp
    then have "(\<exists>k. paddr p i = paddr p (r + k) \<and> k < n) \<longleftrightarrow> (\<exists>k. i = r + k \<and> k < n)" by blast
    also have "\<dots> \<longleftrightarrow> r \<le> i \<and> i < r + n" by (auto simp: le_iff_add)
    finally show ?thesis by (simp add: page_run_paddr)
  qed
  moreover have "page_run (paddr p r) n \<subseteq> {paddr p i | i. i < bit_cnt (used_map p)}"
    using assms(4) by (auto simp: page_run_paddr)
  ultimately show ?thesis
    unfolding pool_used_def pa by (cases v) (fastforce simp: assms(2,3))+
qed

section \<open>Allocation\<close>

definition set_pool :: "32 word \<Rightarrow> pool \<Rightarrow> pmem \<Rightarrow> pmem" where
  "set_pool flags p s = (if flags AND PAL_USER \<noteq> 0 then s\<lparr>user_pool := p\<rparr> else s\<lparr>kernel_pool := p\<rparr>)"

definition zeroed :: "32 word \<Rightarrow> 32 word \<Rightarrow> nat \<Rightarrow> pmem \<Rightarrow> pmem" where
  "zeroed flags p n s = (if flags AND PAL_ZERO \<noteq> 0 then s\<lparr>kcells := fill_cells (kcells s) p 0 (4096 * n)\<rparr> else s)"

lemma pool_of_ok: "pmem_ok s \<Longrightarrow> pool_ok (pool_of flags s)"
  by (simp add: pmem_ok_def pool_of_def)

lemma pool_ok_update:
  "pool_ok p \<Longrightarrow> bitmap_ok um \<Longrightarrow> bit_cnt um = bit_cnt (used_map p) \<Longrightarrow> pool_ok (p\<lparr>used_map := um\<rparr>)"
  by (simp add: pool_ok_def)

lemma set_pool_ok:
  "pmem_ok s \<Longrightarrow> bitmap_ok um \<Longrightarrow> bit_cnt um = bit_cnt (used_map (pool_of flags s)) \<Longrightarrow>
     pmem_ok (set_pool flags ((pool_of flags s)\<lparr>used_map := um\<rparr>) s)"
  by (auto simp: pmem_ok_def pool_ok_update set_pool_def pool_of_def)

lemma pmem_ok_kcells [simp]: "pmem_ok (s\<lparr>kcells := m\<rparr>) = pmem_ok s" "owned (s\<lparr>kcells := m\<rparr>) = owned s"
  by (simp_all add: pmem_ok_def owned_def)

lemma zeroed_simps [simp]: "pmem_ok (zeroed flags p n s) = pmem_ok s" "owned (zeroed flags p n s) = owned s"
  by (simp_all add: zeroed_def)

lemma kcells_set_pool [simp]: "kcells (set_pool flags p s) = kcells s"
  by (simp add: set_pool_def)

lemma owned_split: "owned s = pool_used (pool_of flags s) \<union> pool_used (other_pool_of flags s)"
  by (auto simp: owned_def pool_of_def other_pool_of_def)

lemma owned_set_pool: "owned (set_pool flags p s) = pool_used p \<union> pool_used (other_pool_of flags s)"
  by (auto simp: owned_def set_pool_def other_pool_of_def)

lemma other_pool_disjoint: "pmem_ok s \<Longrightarrow> pool_pages (pool_of flags s) \<inter> pool_used (other_pool_of flags s) = {}"
  using pool_pages_disjoint [of s] pool_used_subset [of "kernel_pool s"] pool_used_subset [of "user_pool s"]
  unfolding pool_of_def other_pool_of_def by (cases "flags AND PAL_USER = 0") (simp, blast)+

lemma palloc_get_cases:
  assumes ok: "pmem_ok s" and n: "0 < n"
  obtains (none) "palloc_get_multiple flags n s = (if flags AND PAL_ASSERT \<noteq> 0 then Inl Panic else Inr (s, 0))"
      and "\<forall>i. \<not> group_at (bitmap_abs (used_map (pool_of flags s))) i n False"
    | (found) r um where "group_at (bitmap_abs (used_map (pool_of flags s))) r n False"
      and "bitmap_ok um" and "bit_cnt um = bit_cnt (used_map (pool_of flags s))"
      and "bitmap_abs um = set_range (bitmap_abs (used_map (pool_of flags s))) r n True"
      and "palloc_get_multiple flags n s = Inr (zeroed flags (paddr (pool_of flags s) r) n
             (set_pool flags ((pool_of flags s)\<lparr>used_map := um\<rparr>) s), paddr (pool_of flags s) r)"
proof -
  let ?p = "pool_of flags s"
  have p: "pool_ok ?p" by (rule pool_of_ok [OF ok])
  then have bok: "bitmap_ok (used_map ?p)" by (simp add: pool_ok_def)
  obtain um r where sf: "bitmap_scan_and_flip (used_map ?p) 0 n False = Inr (um, r)" using bm.alloc_total [OF bok] by blast
  have unf: "palloc_get_multiple flags n s =
      (let s' = set_pool flags (?p\<lparr>used_map := um\<rparr>) s;
           pages = (if r \<noteq> BITMAP_ERROR then base ?p + of_nat (PGSIZE * r) else 0) in
       if pages \<noteq> 0 then Inr (if flags AND PAL_ZERO \<noteq> 0 then s'\<lparr>kcells := fill_cells (kcells s') pages 0 (mul32 PGSIZE n)\<rparr> else s', pages)
       else if flags AND PAL_ASSERT \<noteq> 0 then Inl Panic else Inr (s', 0))"
    unfolding palloc_get_multiple_def Let_def pool_of_def [symmetric] sf bind_r_Inr prod.case
    using n by (simp add: set_pool_def pool_of_def)
  show thesis
  proof (cases "r = BITMAP_ERROR")
    case True
    then have "um = used_map ?p" "\<forall>i. \<not> group_at (bitmap_abs (used_map ?p)) i n False"
      using bm.alloc_none [OF bok] sf by blast+
    moreover have "set_pool flags (?p\<lparr>used_map := used_map ?p\<rparr>) s = s" by (simp add: set_pool_def pool_of_def)
    ultimately show thesis using none unf True by simp
  next
    case False
    have f: "bitmap_ok um" "group_at (bitmap_abs (used_map ?p)) r n False" "bitmap_abs um = set_range (bitmap_abs (used_map ?p)) r n True"
      using bm.alloc_found [OF bok sf False] by blast+
    have cnt: "bit_cnt um = bit_cnt (used_map ?p)" using arg_cong [OF f(3), of length] by simp
    have rn: "r + n \<le> bit_cnt (used_map ?p)" using f(2) by (simp add: group_at_def)
    have "PGSIZE * n < u32_mod" using p rn by (simp add: pool_ok_def PGSIZE_def)
    moreover have "base ?p + of_nat (PGSIZE * r) = paddr ?p r" by (simp add: paddr_def PGSIZE_def)
    ultimately show thesis
      using found [OF f(2,1) cnt f(3)] unf False paddr_page(3) [OF p, of r] rn by (simp add: zeroed_def Let_def PGSIZE_def)
  qed
qed

lemma paddr_used:
  assumes "pool_ok p" "i < bit_cnt (used_map p)"
  shows "paddr p i \<in> pool_used p \<longleftrightarrow> bitmap_abs (used_map p) ! i"
proof
  assume "paddr p i \<in> pool_used p"
  then obtain j where "paddr p i = paddr p j" "j < bit_cnt (used_map p)" "bitmap_abs (used_map p) ! j"
    unfolding pool_used_def by blast
  then show "bitmap_abs (used_map p) ! i" using paddr_inj [OF assms(1), of i j] assms(2) by simp
qed (use assms in \<open>auto simp: pool_used_def\<close>)

lemma group_free_iff:
  assumes "pool_ok p" "i + n \<le> bit_cnt (used_map p)"
  shows "group_at (bitmap_abs (used_map p)) i n False \<longleftrightarrow> page_run (paddr p i) n \<inter> pool_used p = {}"
    and "group_at (bitmap_abs (used_map p)) i n True \<longleftrightarrow> page_run (paddr p i) n \<subseteq> pool_used p"
proof -
  have "paddr p (i + k) \<in> pool_used p \<longleftrightarrow> bitmap_abs (used_map p) ! (i + k)" if "k < n" for k
    using that assms by (intro paddr_used) simp_all
  then show "group_at (bitmap_abs (used_map p)) i n False \<longleftrightarrow> page_run (paddr p i) n \<inter> pool_used p = {}"
    and "group_at (bitmap_abs (used_map p)) i n True \<longleftrightarrow> page_run (paddr p i) n \<subseteq> pool_used p"
    using assms(2) by (auto simp: page_run_paddr group_at_def)
qed

lemma palloc_get_spec:
  assumes "pmem_ok s" "0 < n" "palloc_get_multiple flags n s = Inr (s', p)"
  shows "if p = 0 then s' = s \<and> (\<forall>i. i + n \<le> bit_cnt (used_map (pool_of flags s)) \<longrightarrow>
                                  page_run (paddr (pool_of flags s) i) n \<inter> owned s \<noteq> {})
         else pmem_ok s' \<and> pg_ofs p = 0 \<and> is_kernel_vaddr p
           \<and> page_run p n \<subseteq> pool_pages (pool_of flags s) \<and> page_run p n \<inter> owned s = {} \<and> owned s' = owned s \<union> page_run p n
           \<and> kcells s' = (if flags AND PAL_ZERO \<noteq> 0 then fill_cells (kcells s) p 0 (4096 * n) else kcells s)"
proof (rule palloc_get_cases [OF assms(1,2), of flags])
  let ?p = "pool_of flags s"
  assume "palloc_get_multiple flags n s = (if flags AND PAL_ASSERT \<noteq> 0 then Inl Panic else Inr (s, 0))"
    and none: "\<forall>i. \<not> group_at (bitmap_abs (used_map ?p)) i n False"
  then have "s' = s \<and> p = 0" using assms(3) by (auto split: if_splits)
  moreover have "page_run (paddr ?p i) n \<inter> owned s \<noteq> {}" if "i + n \<le> bit_cnt (used_map ?p)" for i
    using none group_free_iff(1) [OF pool_of_ok [OF assms(1)] that] by (auto simp: owned_split [of s flags])
  ultimately show ?thesis by simp
next
  let ?p = "pool_of flags s"
  fix r um assume g: "group_at (bitmap_abs (used_map ?p)) r n False" and um: "bitmap_ok um" "bit_cnt um = bit_cnt (used_map ?p)"
    "bitmap_abs um = set_range (bitmap_abs (used_map ?p)) r n True"
    and get: "palloc_get_multiple flags n s = Inr (zeroed flags (paddr ?p r) n (set_pool flags (?p\<lparr>used_map := um\<rparr>) s), paddr ?p r)"
  have pok: "pool_ok ?p" by (rule pool_of_ok [OF assms(1)])
  have rn: "r + n \<le> bit_cnt (used_map ?p)" using g by (simp add: group_at_def)
  have run: "page_run (paddr ?p r) n \<subseteq> pool_pages ?p" using rn by (auto simp: page_run_paddr pool_pages_def)
  have s': "s' = zeroed flags (paddr ?p r) n (set_pool flags (?p\<lparr>used_map := um\<rparr>) s)" and p: "p = paddr ?p r"
    using get assms(3) by simp_all
  have "owned s' = owned s \<union> page_run p n"
    unfolding s' p zeroed_simps owned_set_pool pool_used_update [OF pok um(2,3) rn] owned_split [of s flags] by auto
  moreover have "page_run p n \<inter> owned s = {}"
    using g group_free_iff(1) [OF pok rn] run other_pool_disjoint [OF assms(1), of flags] unfolding p owned_split [of s flags] by auto
  moreover have "pmem_ok s'" unfolding s' zeroed_simps by (rule set_pool_ok [OF assms(1) um(1,2)])
  moreover have "kcells s' = (if flags AND PAL_ZERO \<noteq> 0 then fill_cells (kcells s) p 0 (4096 * n) else kcells s)"
    by (simp add: s' p zeroed_def)
  ultimately show ?thesis using run paddr_page [OF pok, of r] rn by (simp add: p)
qed

section \<open>Release\<close>

lemma page_idx_eq:
  assumes "pool_ok p" "i < bit_cnt (used_map p)"
  shows "unat (pg_no (paddr p i) - pg_no (base p)) = i"
  using paddr_page(4) [OF assms(1), of i] assms(2) by (simp add: unat_sub word_le_nat_alt)

text \<open>The flag that selects the pool a page comes from.\<close>

definition flag_of :: "pmem \<Rightarrow> 32 word \<Rightarrow> 32 word" where
  "flag_of s p = (if page_from_pool (kernel_pool s) p then 0 else PAL_USER)"

lemma pool_of_flag_of: "pool_of (flag_of s p) s = (if page_from_pool (kernel_pool s) p then kernel_pool s else user_pool s)"
  by (simp add: pool_of_def flag_of_def PAL_USER_def)

lemma pmem_update_commute:
  "s\<lparr>kcells := m, kernel_pool := p\<rparr> = s\<lparr>kernel_pool := p, kcells := m\<rparr>"
  "s\<lparr>kcells := m, user_pool := p\<rparr> = s\<lparr>user_pool := p, kcells := m\<rparr>" for s :: pmem
  by (cases s; simp)+

lemma palloc_free_unfold:
  assumes ok: "pmem_ok s" and p: "pool_of (flag_of s q) s = pool" "q = paddr pool i" "i < bit_cnt (used_map pool)" and n: "0 < n"
  shows "palloc_free_multiple q n s =
     bind_r (bitmap_all (used_map pool) i n) (\<lambda>all. ASSERT all (bind_r (bitmap_set_multiple (used_map pool) i n False) (\<lambda>um.
       Inr ((set_pool (flag_of s q) (pool\<lparr>used_map := um\<rparr>) s)\<lparr>kcells := fill_cells (kcells s) q 0xcccccccc (mul32 4096 n)\<rparr>))))"
proof -
  have pok: "pool_ok pool" using pool_of_ok [OF ok] p(1) by blast
  have q: "pg_ofs q = 0" "q \<noteq> 0" using paddr_page [OF pok, of i] p(2,3) by simp_all
  have "q \<in> pool_pages pool" using p(2,3) by (auto simp: pool_pages_def)
  then have f: "page_from_pool pool q" using page_from_pool_iff [OF pok q(1)] by simp
  have idx: "unat (pg_no q - pg_no (base pool)) = i" using page_idx_eq [OF pok p(3)] p(2) by simp
  show ?thesis
  proof (cases "page_from_pool (kernel_pool s) q")
    case True
    then have "pool = kernel_pool s" "flag_of s q = 0" using p(1) by (simp add: pool_of_flag_of, simp add: flag_of_def)
    then show ?thesis using True q n idx by (simp add: palloc_free_multiple_def Let_def set_pool_def PGSIZE_def pmem_update_commute)
  next
    case False
    then have "pool = user_pool s" "flag_of s q = PAL_USER" using p(1) by (simp add: pool_of_flag_of, simp add: flag_of_def)
    then show ?thesis using False f q n idx by (simp add: palloc_free_multiple_def Let_def set_pool_def PGSIZE_def PAL_USER_def pmem_update_commute)
  qed
qed

lemma flag_of_page:
  assumes "pmem_ok s" "p = paddr (pool_of flags s) i" "i < bit_cnt (used_map (pool_of flags s))"
  shows "pool_of (flag_of s p) s = pool_of flags s"
proof -
  have pok: "pool_ok (pool_of flags s)" by (rule pool_of_ok [OF assms(1)])
  have pg: "pg_ofs p = 0" using paddr_page(1) [OF pok, of i] assms(2,3) by simp
  have mem: "p \<in> pool_pages (pool_of flags s)" using assms(2,3) by (auto simp: pool_pages_def)
  have kok: "pool_ok (kernel_pool s)" using assms(1) by (simp add: pmem_ok_def)
  show ?thesis using mem pool_pages_disjoint [OF assms(1)] unfolding pool_of_flag_of page_from_pool_iff [OF kok pg]
    by (auto simp: pool_of_def split: if_splits)
qed

lemma palloc_free_spec:
  assumes ok: "pmem_ok s" and p: "p = paddr (pool_of flags s) i" "i + n \<le> bit_cnt (used_map (pool_of flags s))" "0 < n"
  shows "if page_run p n \<subseteq> owned s
         then \<exists>s'. palloc_free_multiple p n s = Inr s' \<and> pmem_ok s' \<and> owned s' = owned s - page_run p n
                 \<and> kcells s' = fill_cells (kcells s) p 0xcccccccc (4096 * n)
         else palloc_free_multiple p n s = Inl Assert_failed"
proof -
  let ?p = "pool_of flags s"
  have i: "i < bit_cnt (used_map ?p)" using p by simp
  have pok: "pool_ok ?p" by (rule pool_of_ok [OF ok])
  then have bok: "bitmap_ok (used_map ?p)" by (simp add: pool_ok_def)
  note fo = flag_of_page [OF ok p(1) i]
  have run: "page_run p n \<subseteq> pool_pages ?p" using p by (auto simp: page_run_paddr pool_pages_def)
  have sub: "page_run p n \<subseteq> owned s \<longleftrightarrow> page_run p n \<subseteq> pool_used ?p"
    using run other_pool_disjoint [OF ok, of flags] unfolding owned_split [of s flags] by blast
  obtain um where um: "bitmap_set_multiple (used_map ?p) i n False = Inr um" "bitmap_ok um" "bit_cnt um = bit_cnt (used_map ?p)"
      "bitmap_abs um = set_range (bitmap_abs (used_map ?p)) i n False"
    using bitmap_set_multiple_becomes [OF bok p(2), of False] by (auto simp: bitmap_becomes_def)
  let ?s = "set_pool (flag_of s p) (?p\<lparr>used_map := um\<rparr>) s"
  have ok': "pmem_ok ?s" using set_pool_ok [OF ok um(2), of "flag_of s p"] um(3) fo by simp
  have oth: "other_pool_of (flag_of s p) s = other_pool_of flags s \<or> pool_of (flag_of s p) s = other_pool_of flags s"
    by (auto simp: pool_of_def other_pool_of_def)
  have small: "mul32 4096 n = 4096 * n" using pok p(2) by (intro mul32_small) (simp add: pool_ok_def)
  have own: "page_run p n \<subseteq> owned s \<Longrightarrow> owned ?s = owned s - page_run p n"
    using other_pool_disjoint [OF ok, of "flag_of s p"] run pool_used_update [OF pok um(3,4) p(2)]
    unfolding owned_set_pool owned_split [of s "flag_of s p"] fo p(1) [symmetric] by auto
  show ?thesis
    unfolding palloc_free_unfold [OF ok fo p(1) i p(3)] bitmap_all_eq [OF bok p(2)] group_free_iff(2) [OF pok p(2)] p(1) [symmetric] sub [symmetric]
    using um(1) ok' own small by simp
qed

text \<open>Releasing an address that is not in use: every way it fails.\<close>

lemma palloc_free_unowned:
  assumes ok: "pmem_ok s" and un: "p \<notin> owned s"
  shows "palloc_free_page p s =
    (if pg_ofs p \<noteq> 0 then Inl Assert_failed else if p = 0 then Inr s
     else if p \<in> pool_pages (kernel_pool s) \<union> pool_pages (user_pool s) then Inl Assert_failed else Inl Not_reached)"
proof -
  have kok: "pool_ok (kernel_pool s)" "pool_ok (user_pool s)" using ok by (simp_all add: pmem_ok_def)
  have "palloc_free_page p s = Inl Assert_failed" if "p \<in> pool_pages (pool_of flags s)" for flags
  proof -
    obtain i where i: "p = paddr (pool_of flags s) i" "i < bit_cnt (used_map (pool_of flags s))"
      using \<open>p \<in> pool_pages _\<close> unfolding pool_pages_def by blast
    then have "i + 1 \<le> bit_cnt (used_map (pool_of flags s))" by simp
    from palloc_free_spec [OF ok i(1) this] un show ?thesis by (simp add: palloc_free_page_def)
  qed
  from this [of 0] this [of PAL_USER]
  have "p \<in> pool_pages (kernel_pool s) \<union> pool_pages (user_pool s) \<Longrightarrow> palloc_free_page p s = Inl Assert_failed"
    by (auto simp: pool_of_def PAL_USER_def)
  moreover have "pg_ofs p = 0 \<Longrightarrow> p \<noteq> 0 \<Longrightarrow> p \<notin> pool_pages (kernel_pool s) \<union> pool_pages (user_pool s) \<Longrightarrow>
      palloc_free_page p s = Inl Not_reached"
    using page_from_pool_iff [OF kok(1)] page_from_pool_iff [OF kok(2)] by (simp add: palloc_free_page_def palloc_free_multiple_def)
  ultimately show ?thesis by (auto simp: palloc_free_page_def palloc_free_multiple_def)
qed

section \<open>Initialisation\<close>

lemma elem_cnt_bounds:
  assumes "n + 32 \<le> u32_mod"
  shows "elem_cnt n \<le> n" "m \<le> n \<Longrightarrow> elem_cnt m \<le> elem_cnt n"
proof -
  show "elem_cnt n \<le> n" unfolding elem_cnt_def ELEM_BITS_def by (rule DIV_ROUND_UP_least) (use assms in simp_all)
  show "m \<le> n \<Longrightarrow> elem_cnt m \<le> elem_cnt n"
    unfolding elem_cnt_def ELEM_BITS_def
    by (rule DIV_ROUND_UP_least) (use assms DIV_ROUND_UP_bounds(1) [of 32 n] in simp_all)
qed

lemma bitmap_buf_size_eq: "n + 32 \<le> u32_mod \<Longrightarrow> 4 * n + 8 < u32_mod \<Longrightarrow> bitmap_buf_size n = 8 + 4 * elem_cnt n"
  using elem_cnt_bounds(1) [of n] by (simp add: bitmap_buf_size_def byte_cnt_def)

lemma init_pool_ok:
  assumes c: "1 \<le> cnt" and b: "pg_ofs b = 0" "is_kernel_vaddr b" "unat b + 4096 * cnt < u32_mod"
  shows "\<exists>p. init_pool m b cnt = Inr p \<and> pool_ok p \<and> pool_used p = {} \<and> unat b < unat (base p)
           \<and> unat (base p) + 4096 * bit_cnt (used_map p) = unat b + 4096 * cnt"
proof -
  define bmp where "bmp = DIV_ROUND_UP (bitmap_buf_size cnt) 4096"
  have c32: "cnt + 32 \<le> u32_mod" "4 * cnt + 8 < u32_mod" using b(3) c by linarith+
  have bs: "bitmap_buf_size cnt = 8 + 4 * elem_cnt cnt" "elem_cnt cnt \<le> cnt" using bitmap_buf_size_eq c32 elem_cnt_bounds by simp_all
  have le: "bmp \<le> cnt" unfolding bmp_def by (rule DIV_ROUND_UP_least) (use bs c b(3) in simp_all)
  have bmp: "8 + 4 * elem_cnt cnt \<le> bmp * 4096"
    unfolding bmp_def bs(1) [symmetric] by (rule DIV_ROUND_UP_bounds(1)) (use bs b(3) c in simp_all)
  then have pos: "0 < bmp" by (cases bmp) simp_all
  have sz: "mul32 bmp 4096 = bmp * 4096" using le b(3) by (intro mul32_small) linarith
  define buf where "buf = map (\<lambda>i. m (b + 8 + of_nat (4 * i))) [0..<(bmp * 4096 - 8) div 4]"
  have cb: "cnt - bmp + 32 \<le> u32_mod" "4 * (cnt - bmp) + 8 < u32_mod" using c32 by linarith+
  have mono: "elem_cnt (cnt - bmp) \<le> elem_cnt cnt" by (rule elem_cnt_bounds(2) [OF c32(1)]) simp
  have "elem_cnt (cnt - bmp) \<le> length buf" using bmp mono by (simp add: buf_def)
  moreover have "bitmap_buf_size (cnt - bmp) \<le> bmp * 4096" using bitmap_buf_size_eq [OF cb] mono bmp by simp
  ultimately obtain um where um: "bitmap_create_in_buf (cnt - bmp) buf (bmp * 4096) = Inr um" "bitmap_ok um"
      "bit_cnt um = cnt - bmp" "bitmap_abs um = replicate (cnt - bmp) False"
    using bitmap_create_in_buf_zeroed [OF cb(1), of buf "bmp * 4096"] by (auto simp: bitmap_becomes_def)
  let ?p = "\<lparr>used_map = um, base = b + of_nat (bmp * 4096)\<rparr>"
  have ub: "unat (b + of_nat (bmp * 4096)) = unat b + bmp * 4096"
    using b(3) le by (simp add: unat_word_ariths unat_of_nat)
  have "unat b mod 4096 = 0" using b(1) by (simp add: word_unat_eq_iff unat_pg_ofs)
  then have "pg_ofs (base ?p) = 0" by (simp add: word_unat_eq_iff unat_pg_ofs ub [simplified])
  moreover have "is_kernel_vaddr (base ?p)" using b(2) ub by (simp add: is_kernel_vaddr_def word_le_nat_alt)
  moreover have "unat (base ?p) + 4096 * (cnt - bmp) = unat b + 4096 * cnt" using ub le by simp
  ultimately have "pool_ok ?p \<and> unat b < unat (base ?p) \<and> unat (base ?p) + 4096 * bit_cnt (used_map ?p) = unat b + 4096 * cnt"
    using um b(3) ub pos by (simp add: pool_ok_def)
  moreover have "pool_used ?p = {}" by (auto simp: pool_used_def um)
  moreover have "init_pool m b cnt = Inr ?p"
    using le sz um(1) by (simp add: init_pool_def Let_def PGSIZE_def bmp_def [symmetric] buf_def)
  ultimately show ?thesis by blast
qed

lemma unat_of_nat32: "n < u32_mod \<Longrightarrow> unat (of_nat n :: 32 word) = n"
  by (simp add: unat_of_nat)

lemma palloc_init_aux:
  assumes r: "258 \<le> ram" "ram < 262144" and l: "1 \<le> limit"
  shows "\<exists>s. palloc_init m ram limit = Inr s \<and> pmem_ok s \<and> owned s = {} \<and> kcells s = m
           \<and> bit_cnt (used_map (user_pool s)) \<le> limit"
proof -
  define free_pages where "free_pages = ram - 256"
  define up where "up = min (free_pages div 2) limit"
  define kp where "kp = free_pages - up"
  have up: "1 \<le> up" "1 \<le> kp" "kp + up = free_pages" "up \<le> limit" using r l by (auto simp: up_def kp_def free_pages_def min_def)
  have small: "kp + up < 261888" using up(3) r by (simp add: free_pages_def)
  have fs: "ptov (1024 * 1024) = Inr 0xc0100000" by (simp add: ptov_def PHYS_BASE_def)
  have u: "unat (of_nat (ram * 4096) :: 32 word) = ram * 4096" using r by (intro unat_of_nat32) simp
  have fe: "ptov (of_nat (ram * 4096)) = Inr (of_nat (ram * 4096) + 0xc0000000)"
    using r u by (simp add: ptov_def PHYS_BASE_def word_less_nat_alt del: of_nat_mult)
  have "of_nat (ram * 4096) + 0xc0000000 - 0xc0100000 = (of_nat ((ram - 256) * 4096) :: 32 word)"
    using r by (simp add: of_nat_diff algebra_simps)
  then have fp: "unat (of_nat (ram * 4096) + 0xc0000000 - 0xc0100000 :: 32 word) div 4096 = free_pages"
    using r unat_of_nat32 [of "(ram - 256) * 4096"] by (simp add: free_pages_def del: of_nat_mult)
  obtain k where k: "init_pool m 0xc0100000 kp = Inr k" "pool_ok k" "pool_used k = {}"
      "unat (base k) + 4096 * bit_cnt (used_map k) = 3222274048 + 4096 * kp"
    using init_pool_ok [of kp "0xc0100000" m] up(2) small
    by (auto simp: pg_ofs_def PGMASK_def is_kernel_vaddr_def PHYS_BASE_def)
  define ub :: "32 word" where "ub = 0xc0100000 + of_nat (kp * 4096)"
  have uu: "unat ub = 3222274048 + kp * 4096" using small by (simp add: ub_def unat_word_ariths unat_of_nat)
  have "pg_ofs ub = 0" by (simp add: word_unat_eq_iff unat_pg_ofs uu)
  moreover have "is_kernel_vaddr ub" by (simp add: is_kernel_vaddr_def PHYS_BASE_def word_le_nat_alt uu)
  ultimately obtain v where v: "init_pool m ub up = Inr v" "pool_ok v" "pool_used v = {}" "unat ub < unat (base v)"
      "unat (base v) + 4096 * bit_cnt (used_map v) = unat ub + 4096 * up"
    using init_pool_ok [of up ub m] up(1) uu small by auto
  have "palloc_init m ram limit = Inr \<lparr>kernel_pool = k, user_pool = v, kcells = m\<rparr>"
  proof -
    have up_if: "(if limit < free_pages div 2 then limit else free_pages div 2) = up" by (simp add: up_def min_def)
    show ?thesis unfolding palloc_init_def PGSIZE_def fs fe bind_r_Inr Let_def fp up_if kp_def [symmetric] ub_def [symmetric] k(1) v(1) ..
  qed
  moreover have "bit_cnt (used_map v) \<le> limit" using v(4,5) up(4) by linarith
  ultimately show ?thesis using k v uu by (simp add: pmem_ok_def owned_def)
qed

section \<open>The contract of single pages\<close>

lemma fill_cells_page:
  assumes "pg_ofs p = 0"
  shows "fill_cells m p v 4096 = (\<lambda>a. if pg_round_down a = p then v else m a)"
proof
  fix a
  have "unat p mod 4096 = 0" using assms by (simp add: word_unat_eq_iff unat_pg_ofs)
  then obtain k where k: "unat p = k * 4096" by (metis mod_0_imp_dvd dvd_def mult.commute)
  have "pg_round_down a = p \<longleftrightarrow> unat a div 4096 = k" by (simp add: word_unat_eq_iff unat_pg_round_down k)
  also have "\<dots> \<longleftrightarrow> k * 4096 \<le> unat a \<and> unat a < k * 4096 + 4096"
    using div_nat_eqI [of k 4096 "unat a"] by (auto simp: mult.commute)
  finally show "fill_cells m p v 4096 a = (if pg_round_down a = p then v else m a)" by (simp add: fill_cells_def k)
qed

locale page_provider =
  fixes inv :: "'s \<Rightarrow> bool"
    and held :: "'s \<Rightarrow> 32 word set"
    and mem :: "'s \<Rightarrow> cells"
    and get :: "32 word \<Rightarrow> 's \<Rightarrow> ('s \<times> 32 word) res"
    and release :: "32 word \<Rightarrow> 's \<Rightarrow> 's res"
  assumes get_total: "inv s \<Longrightarrow> flags AND PAL_ASSERT = 0 \<Longrightarrow> \<exists>s' p. get flags s = Inr (s', p)"
    and get_null: "inv s \<Longrightarrow> get flags s = Inr (s', 0) \<Longrightarrow> s' = s"
    and get_page: "inv s \<Longrightarrow> get flags s = Inr (s', p) \<Longrightarrow> p \<noteq> 0 \<Longrightarrow>
          inv s' \<and> p \<notin> held s \<and> held s' = insert p (held s)"
    and get_mem: "inv s \<Longrightarrow> get flags s = Inr (s', p) \<Longrightarrow> p \<noteq> 0 \<Longrightarrow>
          mem s' = (if flags AND PAL_ZERO \<noteq> 0 then (\<lambda>a. if pg_round_down a = p then 0 else mem s a) else mem s)"
    and held_page: "inv s \<Longrightarrow> p \<in> held s \<Longrightarrow> pg_ofs p = 0 \<and> is_kernel_vaddr p \<and> p \<noteq> 0"
    and release_page: "inv s \<Longrightarrow> p \<in> held s \<Longrightarrow> \<exists>s'. release p s = Inr s' \<and> inv s' \<and> held s' = held s - {p}
          \<and> (\<forall>a. pg_round_down a \<noteq> p \<longrightarrow> mem s' a = mem s a)"
    and release_null: "inv s \<Longrightarrow> release 0 s = Inr s"
begin

text \<open>A page obtained is a kernel page of its own; giving it back restores what is held.\<close>

lemma get_fresh:
  assumes "inv s" "get flags s = Inr (s', p)" "p \<noteq> 0"
  shows "pg_ofs p = 0" "is_kernel_vaddr p" "\<And>q a. q \<in> held s \<Longrightarrow> pg_round_down a = q \<Longrightarrow> mem s' a = mem s a"
proof -
  note g = get_page [OF assms]
  then have "p \<in> held s'" "inv s'" by simp_all
  from held_page [OF this(2,1)] show "pg_ofs p = 0" "is_kernel_vaddr p" by simp_all
  show "mem s' a = mem s a" if "q \<in> held s" "pg_round_down a = q" for q a
    using get_mem [OF assms] g that by auto
qed

lemma get_release:
  assumes "inv s" "get flags s = Inr (s1, p)"
  shows "\<exists>s2. release p s1 = Inr s2 \<and> inv s2 \<and> held s2 = held s"
proof (cases "p = 0")
  case True
  then have "s1 = s" using get_null [OF assms(1)] assms(2) by blast
  then show ?thesis using True release_null assms(1) by blast
next
  case False
  then have "p \<in> held s1" "inv s1" "held s1 - {p} = held s" using get_page [OF assms] by auto
  then show ?thesis using release_page by metis
qed

end

lemma owned_page: "pmem_ok s \<Longrightarrow> p \<in> owned s \<Longrightarrow> pg_ofs p = 0 \<and> is_kernel_vaddr p \<and> p \<noteq> 0"
  using paddr_page by (fastforce simp: owned_def pool_used_def pmem_ok_def)

lemma palloc_free_owned:
  assumes "pmem_ok s" "p \<in> owned s"
  shows "\<exists>s'. palloc_free_page p s = Inr s' \<and> pmem_ok s' \<and> owned s' = owned s - {p}
           \<and> kcells s' = (\<lambda>a. if pg_round_down a = p then 0xcccccccc else kcells s a)"
proof -
  have "\<exists>flags. p \<in> pool_used (pool_of flags s)"
    using assms(2) owned_split [of s 0] by (auto simp: owned_def pool_of_def PAL_USER_def intro: exI [of _ 0] exI [of _ 4])
  then obtain flags i where i: "p = paddr (pool_of flags s) i" "i < bit_cnt (used_map (pool_of flags s))"
    unfolding pool_used_def by blast
  then have "i + 1 \<le> bit_cnt (used_map (pool_of flags s))" by simp
  from palloc_free_spec [OF assms(1) i(1) this] assms(2) owned_page [OF assms] show ?thesis
    by (simp add: palloc_free_page_def fill_cells_page)
qed

interpretation pp: page_provider pmem_ok owned kcells palloc_get_page palloc_free_page
proof unfold_locales
  fix s s' flags p assume ok: "pmem_ok s"
  show "flags AND PAL_ASSERT = 0 \<Longrightarrow> \<exists>s' p. palloc_get_page flags s = Inr (s', p)"
    unfolding palloc_get_page_def by (rule palloc_get_cases [OF ok zero_less_one, of flags]) auto
  note sp = palloc_get_spec [OF ok zero_less_one, folded palloc_get_page_def]
  show "palloc_get_page flags s = Inr (s', 0) \<Longrightarrow> s' = s" using sp [of flags s' 0] by simp
  show "palloc_get_page flags s = Inr (s', p) \<Longrightarrow> p \<noteq> 0 \<Longrightarrow> pmem_ok s' \<and> p \<notin> owned s \<and> owned s' = insert p (owned s)"
    using sp [of flags s' p] by auto
  show "palloc_get_page flags s = Inr (s', p) \<Longrightarrow> p \<noteq> 0 \<Longrightarrow>
      kcells s' = (if flags AND PAL_ZERO \<noteq> 0 then (\<lambda>a. if pg_round_down a = p then 0 else kcells s a) else kcells s)"
    using sp [of flags s' p] by (simp add: fill_cells_page)
  show "p \<in> owned s \<Longrightarrow> pg_ofs p = 0 \<and> is_kernel_vaddr p \<and> p \<noteq> 0" by (rule owned_page [OF ok])
  show "p \<in> owned s \<Longrightarrow> \<exists>s'. palloc_free_page p s = Inr s' \<and> pmem_ok s' \<and> owned s' = owned s - {p}
      \<and> (\<forall>a. pg_round_down a \<noteq> p \<longrightarrow> kcells s' a = kcells s a)"
    using palloc_free_owned [OF ok, of p] by auto
  show "palloc_free_page 0 s = Inr s" by (simp add: palloc_free_page_def palloc_free_multiple_def pg_ofs_def)
qed

section \<open>Properties\<close>



text \<open>C26: Without \<open>PAL_ASSERT\<close> a request for \<open>n\<close> pages always returns. It returns a null pointer, changing nothing,
  exactly when every run of \<open>n\<close> pages of the chosen pool has a page in use; otherwise it returns the first of \<open>n\<close>
  consecutive pages of that pool, none of them in use before, adds exactly them to the pages in use, and fills them with
  zeros when \<open>PAL_ZERO\<close> is set, leaving all other memory alone.\<close>

theorem palloc_get_multiple_correct:
  assumes "pmem_ok s" "0 < n" "flags AND PAL_ASSERT = 0"
  shows "\<exists>s' p. palloc_get_multiple flags n s = Inr (s', p) \<and>
     (if p = 0 then s' = s \<and> (\<forall>i. i + n \<le> bit_cnt (used_map (pool_of flags s)) \<longrightarrow>
                                  page_run (paddr (pool_of flags s) i) n \<inter> owned s \<noteq> {})
      else pmem_ok s' \<and> pg_ofs p = 0 \<and> is_kernel_vaddr p
           \<and> page_run p n \<subseteq> pool_pages (pool_of flags s) \<and> page_run p n \<inter> owned s = {} \<and> owned s' = owned s \<union> page_run p n
           \<and> kcells s' = (if flags AND PAL_ZERO \<noteq> 0 then fill_cells (kcells s) p 0 (4096 * n) else kcells s))"
proof -
  obtain s' p where r: "palloc_get_multiple flags n s = Inr (s', p)"
    by (rule palloc_get_cases [OF assms(1,2), of flags]) (use assms(3) in auto)
  then show ?thesis using palloc_get_spec [OF assms(1,2) r] by blast
qed

definition palloc_example :: pmem where
  "palloc_example = \<lparr>kernel_pool = \<lparr>used_map = bitmap_example, base = 0xc0101000\<rparr>,
     user_pool = \<lparr>used_map = \<lparr>bit_cnt = 8, bits = [0x81]\<rparr>, base = 0xc0200000\<rparr>, kcells = (\<lambda>_. 7)\<rparr>"

lemma palloc_example_ok: "pmem_ok palloc_example"
  using bitmap_example_ok
  by (simp add: palloc_example_def pmem_ok_def pool_ok_def bitmap_example_def bitmap_ok_def elem_cnt_def ELEM_BITS_def
      DIV_ROUND_UP_def pg_ofs_def PGMASK_def is_kernel_vaddr_def PHYS_BASE_def)

lemma palloc_example_get: "case palloc_get_multiple PAL_USER 3 palloc_example of Inl _ \<Rightarrow> False | Inr (s, p) \<Rightarrow> p = 0xc0201000"
  by code_simp

theorem palloc_get_multiple_correct_witness:
  "\<exists>s'. palloc_get_multiple PAL_USER 3 palloc_example = Inr (s', 0xc0201000)
     \<and> page_run 0xc0201000 3 \<inter> owned palloc_example = {} \<and> owned s' = owned palloc_example \<union> page_run 0xc0201000 3"
proof -
  obtain s' where r: "palloc_get_multiple PAL_USER 3 palloc_example = Inr (s', 0xc0201000)"
    using palloc_example_get by (auto split: sum.splits)
  have "0 < (3 :: nat)" "PAL_USER AND PAL_ASSERT = 0" by (simp_all add: pal_consts)
  from palloc_get_multiple_correct [OF palloc_example_ok this] r
  have "if (0xc0201000 :: 32 word) = 0 then s' = palloc_example
        else page_run 0xc0201000 3 \<inter> owned palloc_example = {} \<and> owned s' = owned palloc_example \<union> page_run 0xc0201000 3"
    by (elim exE conjE) (simp only: sum.inject prod.inject split: if_splits; simp)
  then show ?thesis using r by simp
qed

text \<open>C28: \<open>palloc_free_page\<close> gives a page in use back and makes no other change to the pages in use. A misaligned
  address and a page of a pool that is not in use (a double free) fail an assertion, an address outside
  both pools reaches \<open>NOT_REACHED\<close>; a null pointer is ignored.\<close>

theorem palloc_free_page_exact:
  assumes "pmem_ok s"
  shows "case palloc_free_page p s of
      Inr s' \<Rightarrow> pmem_ok s' \<and> owned s' = owned s - {p} \<and> (p = 0 \<or> p \<in> owned s)
    | Inl e \<Rightarrow> p \<noteq> 0 \<and> p \<notin> owned s \<and>
        e = (if pg_ofs p = 0 \<and> p \<notin> pool_pages (kernel_pool s) \<union> pool_pages (user_pool s) then Not_reached else Assert_failed)"
proof (cases "p \<in> owned s")
  case True
  obtain s' where "palloc_free_page p s = Inr s'" "pmem_ok s'" "owned s' = owned s - {p}"
    using palloc_free_owned [OF assms True] by blast
  then show ?thesis using True by (simp only: sum.case) simp
next
  case False
  have "pg_ofs 0 = 0" "p = 0 \<Longrightarrow> owned s - {0} = owned s" using False by (auto simp: pg_ofs_def)
  then show ?thesis using False assms unfolding palloc_free_unowned [OF assms False] by (simp split: if_splits)
qed

theorem palloc_free_page_exact_witness:
  "case palloc_free_page 0xc0101000 palloc_example of
     Inr s' \<Rightarrow> pmem_ok s' \<and> owned s' = owned palloc_example - {0xc0101000} | Inl e \<Rightarrow> False"
proof -
  have "case palloc_free_page 0xc0101000 palloc_example of Inl _ \<Rightarrow> False | Inr _ \<Rightarrow> True" by code_simp
  then obtain s' where "palloc_free_page 0xc0101000 palloc_example = Inr s'" by (auto split: sum.splits)
  then show ?thesis using palloc_free_page_exact [OF palloc_example_ok, of "0xc0101000"] by (simp only: sum.case)
qed

end
