(* ===== verification/Pagedir.thy ===== *)
theory Pagedir
  imports Palloc "HOL-Library.Multiset"
begin

unbundle bit_operations_syntax

text \<open>
  \<^verbatim>\<open>userprog/pagedir.c\<close>: page directories in memory. A directory and its page tables are pages obtained
  from the page allocator; the state adds to the allocator the initial page directory, the amount of memory,
  the register \<open>cr3\<close> and the CPU's translation lookaside buffer, which a write to \<open>cr3\<close> empties. The operations
  refine a map from user pages to page table entries; the buffer is shown never to hold a translation that
  the tables have withdrawn; destroying a directory gives back exactly its pages.
\<close>

record vm =
  pm :: pmem
  init_page_dir :: "32 word"
  init_ram_pages :: nat
  cr3 :: "32 word"
  tlb :: "32 word \<Rightarrow> 32 word option"

abbreviation rd32 :: "vm \<Rightarrow> 32 word \<Rightarrow> 32 word" where
  "rd32 s a \<equiv> kcells (pm s) a"

definition wr32 :: "32 word \<Rightarrow> 32 word \<Rightarrow> vm \<Rightarrow> vm" where
  "wr32 a v s = s\<lparr>pm := (pm s)\<lparr>kcells := (kcells (pm s))(a := v)\<rparr>\<rparr>"

text \<open>The address of entry \<open>k\<close> of a table of 32-bit entries.\<close>

definition slot :: "32 word \<Rightarrow> 32 word \<Rightarrow> 32 word" where
  "slot p k = p + 4 * k"

definition copy_page :: "cells \<Rightarrow> 32 word \<Rightarrow> 32 word \<Rightarrow> cells" where
  "copy_page m dst src = (\<lambda>a. if unat dst \<le> unat a \<and> unat a < unat dst + PGSIZE then m (src + (a - dst)) else m a)"

section \<open>Operations\<close>

definition pagedir_activate :: "32 word \<Rightarrow> vm \<Rightarrow> vm res" where
  "pagedir_activate pd s =
     (let pd = (if pd = 0 then init_page_dir s else pd) in
      bind_r (vtop pd) (\<lambda>p. Inr (s\<lparr>cr3 := p, tlb := (\<lambda>_. None)\<rparr>)))"

definition active_pd :: "vm \<Rightarrow> 32 word res" where
  "active_pd s = ptov (cr3 s)"

definition invalidate_pagedir :: "32 word \<Rightarrow> vm \<Rightarrow> vm res" where
  "invalidate_pagedir pd s = bind_r (active_pd s) (\<lambda>a. if a = pd then pagedir_activate pd s else Inr s)"

definition pagedir_create :: "vm \<Rightarrow> (vm \<times> 32 word) res" where
  "pagedir_create s =
     bind_r (palloc_get_page 0 (pm s)) (\<lambda>(m, pd).
     let s = s\<lparr>pm := m\<rparr> in
     Inr (if pd \<noteq> 0 then s\<lparr>pm := m\<lparr>kcells := copy_page (kcells m) pd (init_page_dir s)\<rparr>\<rparr> else s, pd))"

definition lookup_page :: "32 word \<Rightarrow> 32 word \<Rightarrow> bool \<Rightarrow> vm \<Rightarrow> (vm \<times> 32 word) res" where
  "lookup_page pd vaddr create s =
     ASSERT (pd \<noteq> 0) (ASSERT (\<not> create \<or> is_user_vaddr vaddr)
       (let pde = slot pd (pd_no vaddr);
            find = (\<lambda>s. bind_r (pde_get_pt (rd32 s pde)) (\<lambda>pt. Inr (s, slot pt (pt_no vaddr)))) in
        if rd32 s pde = 0
        then (if create
              then bind_r (palloc_get_page PAL_ZERO (pm s)) (\<lambda>(m, pt).
                   if pt = 0 then Inr (s\<lparr>pm := m\<rparr>, 0)
                   else bind_r (pde_create pt) (\<lambda>e. find (wr32 pde e (s\<lparr>pm := m\<rparr>))))
              else Inr (s, 0))
        else find s))"

definition pagedir_set_page :: "32 word \<Rightarrow> 32 word \<Rightarrow> 32 word \<Rightarrow> bool \<Rightarrow> vm \<Rightarrow> (vm \<times> bool) res" where
  "pagedir_set_page pd upage kpage writable s =
     ASSERT (pg_ofs upage = 0) (ASSERT (pg_ofs kpage = 0) (ASSERT (is_user_vaddr upage)
       (bind_r (vtop kpage) (\<lambda>p. ASSERT (unat (drop_bit 12 p) < init_ram_pages s)
         (ASSERT (pd \<noteq> init_page_dir s)
           (bind_r (lookup_page pd upage True s) (\<lambda>(s, pte).
            if pte \<noteq> 0
            then ASSERT (rd32 s pte AND PTE_P = 0)
                   (bind_r (pte_create_user kpage writable) (\<lambda>e. Inr (wr32 pte e s, True)))
            else Inr (s, False))))))))"

definition pagedir_get_page :: "32 word \<Rightarrow> 32 word \<Rightarrow> vm \<Rightarrow> 32 word res" where
  "pagedir_get_page pd uaddr s =
     ASSERT (is_user_vaddr uaddr)
       (bind_r (lookup_page pd uaddr False s) (\<lambda>(s, pte).
        if pte \<noteq> 0 \<and> rd32 s pte AND PTE_P \<noteq> 0
        then bind_r (pte_get_page (rd32 s pte)) (\<lambda>p. Inr (p + pg_ofs uaddr))
        else Inr 0))"

definition pagedir_clear_page :: "32 word \<Rightarrow> 32 word \<Rightarrow> vm \<Rightarrow> vm res" where
  "pagedir_clear_page pd upage s =
     ASSERT (pg_ofs upage = 0) (ASSERT (is_user_vaddr upage)
       (bind_r (lookup_page pd upage False s) (\<lambda>(s, pte).
        if pte \<noteq> 0 \<and> rd32 s pte AND PTE_P \<noteq> 0
        then invalidate_pagedir pd (wr32 pte (rd32 s pte AND NOT PTE_P) s)
        else Inr s)))"

definition pagedir_is_dirty :: "32 word \<Rightarrow> 32 word \<Rightarrow> vm \<Rightarrow> bool res" where
  "pagedir_is_dirty pd vpage s =
     bind_r (lookup_page pd vpage False s) (\<lambda>(s, pte). Inr (pte \<noteq> 0 \<and> rd32 s pte AND PTE_D \<noteq> 0))"

definition pagedir_set_dirty :: "32 word \<Rightarrow> 32 word \<Rightarrow> bool \<Rightarrow> vm \<Rightarrow> vm res" where
  "pagedir_set_dirty pd vpage dirty s =
     bind_r (lookup_page pd vpage False s) (\<lambda>(s, pte).
     if pte \<noteq> 0
     then (if dirty then Inr (wr32 pte (rd32 s pte OR PTE_D) s)
           else invalidate_pagedir pd (wr32 pte (rd32 s pte AND NOT PTE_D) s))
     else Inr s)"

definition pagedir_is_accessed :: "32 word \<Rightarrow> 32 word \<Rightarrow> vm \<Rightarrow> bool res" where
  "pagedir_is_accessed pd vpage s =
     bind_r (lookup_page pd vpage False s) (\<lambda>(s, pte). Inr (pte \<noteq> 0 \<and> rd32 s pte AND PTE_A \<noteq> 0))"

definition pagedir_set_accessed :: "32 word \<Rightarrow> 32 word \<Rightarrow> bool \<Rightarrow> vm \<Rightarrow> vm res" where
  "pagedir_set_accessed pd vpage accessed s =
     bind_r (lookup_page pd vpage False s) (\<lambda>(s, pte).
     if pte \<noteq> 0
     then (if accessed then Inr (wr32 pte (rd32 s pte OR PTE_A) s)
           else invalidate_pagedir pd (wr32 pte (rd32 s pte AND NOT PTE_A) s))
     else Inr s)"

definition free_page :: "32 word \<Rightarrow> vm \<Rightarrow> vm res" where
  "free_page p s = bind_r (palloc_free_page p (pm s)) (\<lambda>m. Inr (s\<lparr>pm := m\<rparr>))"

text \<open>The two loops of \<open>pagedir_destroy\<close>, over the entries of a page table and of the directory.\<close>

function destroy_table :: "32 word \<Rightarrow> nat \<Rightarrow> vm \<Rightarrow> vm res" where
  "destroy_table pt j s =
     (if j < PGSIZE div 4
      then let pte = rd32 s (slot pt (of_nat j)) in
           bind_r (if pte AND PTE_P \<noteq> 0 then bind_r (pte_get_page pte) (\<lambda>p. free_page p s) else Inr s) (\<lambda>s.
           destroy_table pt (Suc j) s)
      else Inr s)"
  by pat_completeness auto
termination by (relation "measure (\<lambda>(pt, j, s). PGSIZE div 4 - j)") auto

function destroy_dir :: "32 word \<Rightarrow> nat \<Rightarrow> vm \<Rightarrow> vm res" where
  "destroy_dir pd i s =
     (if i < unat (pd_no PHYS_BASE)
      then let pde = rd32 s (slot pd (of_nat i)) in
           bind_r (if pde AND PTE_P \<noteq> 0
                   then bind_r (pde_get_pt pde) (\<lambda>pt. bind_r (destroy_table pt 0 s) (\<lambda>s. free_page pt s))
                   else Inr s) (\<lambda>s.
           destroy_dir pd (Suc i) s)
      else Inr s)"
  by pat_completeness auto
termination by (relation "measure (\<lambda>(pd, i, s). unat (pd_no PHYS_BASE) - i)") auto

definition pagedir_destroy :: "32 word \<Rightarrow> vm \<Rightarrow> vm res" where
  "pagedir_destroy pd s =
     (if pd = 0 then Inr s
      else ASSERT (pd \<noteq> init_page_dir s) (bind_r (destroy_dir pd 0 s) (\<lambda>s. free_page pd s)))"

declare destroy_table.simps [simp del] destroy_dir.simps [simp del]

section \<open>Slots\<close>

lemma aligned_page:
  assumes "pg_ofs p = 0"
  obtains q where "unat p = 4096 * q" "q < 1048576"
proof -
  have "unat p mod 4096 = 0" using assms by (simp add: word_unat_eq_iff unat_pg_ofs)
  then obtain q where q: "unat p = 4096 * q" by (metis mod_0_imp_dvd dvd_def)
  moreover have "unat p < u32_mod" using unsigned_less [of p] by simp
  ultimately show thesis using that by simp
qed

lemma unat_slot:
  assumes "pg_ofs p = 0" "unat k < 1024"
  shows "unat (slot p k) = unat p + 4 * unat k"
  using assms by (elim aligned_page) (simp add: slot_def unat_word_ariths)

lemma slot_page:
  assumes "pg_ofs p = 0" "unat k < 1024"
  shows "pg_round_down (slot p k) = p"
proof -
  obtain q where q: "unat p = 4096 * q" using assms(1) by (rule aligned_page)
  have "(4096 * q + 4 * unat k) div 4096 = q" using assms(2) by (intro div_nat_eqI) simp_all
  then show ?thesis by (simp add: word_unat_eq_iff unat_pg_round_down unat_slot [OF assms] q)
qed

lemma slot_inj:
  assumes "pg_ofs p = 0" "unat k < 1024" "pg_ofs q = 0" "unat l < 1024"
  shows "slot p k = slot q l \<longleftrightarrow> p = q \<and> k = l"
proof
  assume eq: "slot p k = slot q l"
  then have "p = q" using slot_page [OF assms(1,2)] slot_page [OF assms(3,4)] by simp
  moreover have "unat k = unat l" using eq unat_slot [OF assms(1,2)] unat_slot [OF assms(3,4)] \<open>p = q\<close> by simp
  ultimately show "p = q \<and> k = l" by (simp add: word_unat_eq_iff)
qed simp

lemma slot_nonzero: "pg_ofs p = 0 \<Longrightarrow> is_kernel_vaddr p \<Longrightarrow> unat k < 1024 \<Longrightarrow> slot p k \<noteq> 0"
  by (auto simp: word_unat_eq_iff unat_slot is_kernel_vaddr_def PHYS_BASE_def word_le_nat_alt)

lemma pd_no_less: "unat (pd_no va) < 1024" and pt_no_less: "unat (pt_no va) < 1024"
proof -
  have "unat va < u32_mod" using unsigned_less [of va] by simp
  then show "unat (pd_no va) < 1024" unfolding unat_pd_no by (simp add: less_mult_imp_div_less)
qed (simp add: unat_pt_no)

lemma pd_no_user: "is_user_vaddr va \<longleftrightarrow> unat (pd_no va) < 768"
proof -
  have "is_user_vaddr va \<longleftrightarrow> unat va < 768 * 4194304" by (simp add: is_user_vaddr_def PHYS_BASE_def word_less_nat_alt)
  also have "\<dots> \<longleftrightarrow> unat va div 4194304 < 768" by (simp add: div_less_iff_less_mult)
  finally show ?thesis by (simp add: unat_pd_no)
qed

text \<open>A page is determined by the two indices.\<close>

lemma page_eq_iff: "pg_round_down u = pg_round_down v \<longleftrightarrow> pd_no u = pd_no v \<and> pt_no u = pt_no v"
proof -
  have "pg_round_down u = pg_round_down v \<longleftrightarrow> unat u div 4096 = unat v div 4096"
    by (simp add: word_unat_eq_iff unat_pg_round_down)
  also have "\<dots> \<longleftrightarrow> unat u div 4096 div 1024 = unat v div 4096 div 1024 \<and> unat u div 4096 mod 1024 = unat v div 4096 mod 1024"
    by (metis mult_div_mod_eq)
  finally show ?thesis by (simp add: word_unat_eq_iff unat_pd_no unat_pt_no div_mult2_eq [symmetric])
qed

section \<open>Well-formed directories\<close>

definition table_of :: "vm \<Rightarrow> 32 word \<Rightarrow> 32 word \<Rightarrow> 32 word option" where
  "table_of s pd i = (let e = rd32 s (slot pd i) in
     if e = 0 then None else case pde_get_pt e of Inl _ \<Rightarrow> None | Inr pt \<Rightarrow> Some pt)"

text \<open>The page table entry of an address, if there is a table for it: the state the directory stands for.\<close>

definition entry :: "vm \<Rightarrow> 32 word \<Rightarrow> 32 word \<Rightarrow> 32 word option" where
  "entry s pd va = map_option (\<lambda>pt. rd32 s (slot pt (pt_no va))) (table_of s pd (pd_no va))"

definition pd_ok :: "vm \<Rightarrow> 32 word \<Rightarrow> bool" where
  "pd_ok s pd \<longleftrightarrow> pmem_ok (pm s) \<and> pd \<in> owned (pm s)
     \<and> (\<forall>i. unat i < 768 \<longrightarrow> rd32 s (slot pd i) = 0
          \<or> (\<exists>pt. pde_get_pt (rd32 s (slot pd i)) = Inr pt \<and> pt \<in> owned (pm s) \<and> pt \<noteq> pd))
     \<and> (\<forall>i j pt. unat i < 768 \<and> unat j < 768 \<and> table_of s pd i = Some pt \<and> table_of s pd j = Some pt \<longrightarrow> i = j)"

lemma pd_ok_pmem: "pd_ok s pd \<Longrightarrow> pmem_ok (pm s)" "pd_ok s pd \<Longrightarrow> pd \<in> owned (pm s)"
  by (simp_all add: pd_ok_def)

lemma pd_ok_page: "pd_ok s pd \<Longrightarrow> pg_ofs pd = 0" "pd_ok s pd \<Longrightarrow> is_kernel_vaddr pd" "pd_ok s pd \<Longrightarrow> pd \<noteq> 0"
  using pp.held_page pd_ok_pmem by blast+

lemma table_ofD:
  assumes "pd_ok s pd" "table_of s pd i = Some pt" "unat i < 768"
  shows "pt \<in> owned (pm s)" "pt \<noteq> pd" "pg_ofs pt = 0" "is_kernel_vaddr pt" "pde_get_pt (rd32 s (slot pd i)) = Inr pt"
    "rd32 s (slot pd i) \<noteq> 0"
proof -
  have e: "rd32 s (slot pd i) \<noteq> 0" "pde_get_pt (rd32 s (slot pd i)) = Inr pt"
    using assms(2) by (auto simp: table_of_def Let_def split: if_splits sum.splits)
  moreover have "rd32 s (slot pd i) = 0 \<or> (\<exists>pt. pde_get_pt (rd32 s (slot pd i)) = Inr pt \<and> pt \<in> owned (pm s) \<and> pt \<noteq> pd)"
    using assms(1,3) unfolding pd_ok_def by blast
  ultimately show "pt \<in> owned (pm s)" "pt \<noteq> pd" "pde_get_pt (rd32 s (slot pd i)) = Inr pt" "rd32 s (slot pd i) \<noteq> 0" by auto
  then show "pg_ofs pt = 0" "is_kernel_vaddr pt" using pp.held_page pd_ok_pmem(1) [OF assms(1)] by blast+
qed

lemma table_of_None:
  assumes "pd_ok s pd" "unat i < 768"
  shows "table_of s pd i = None \<longleftrightarrow> rd32 s (slot pd i) = 0"
proof -
  have "rd32 s (slot pd i) = 0 \<or> (\<exists>pt. pde_get_pt (rd32 s (slot pd i)) = Inr pt)" using assms unfolding pd_ok_def by blast
  then show ?thesis by (auto simp: table_of_def Let_def)
qed

lemma pd_ok_inj: "pd_ok s pd \<Longrightarrow> unat i < 768 \<Longrightarrow> unat j < 768 \<Longrightarrow> table_of s pd i = Some pt \<Longrightarrow> table_of s pd j = Some pt \<Longrightarrow> i = j"
  unfolding pd_ok_def by blast

lemma lookup_page_find:
  assumes "pd_ok s pd" "is_user_vaddr va"
  shows "table_of s pd (pd_no va) = Some pt \<Longrightarrow> lookup_page pd va create s = Inr (s, slot pt (pt_no va)) \<and> slot pt (pt_no va) \<noteq> 0"
    and "table_of s pd (pd_no va) = None \<Longrightarrow> lookup_page pd va False s = Inr (s, 0)"
proof -
  have u: "unat (pd_no va) < 768" using assms(2) by (simp add: pd_no_user)
  show "lookup_page pd va create s = Inr (s, slot pt (pt_no va)) \<and> slot pt (pt_no va) \<noteq> 0" if t: "table_of s pd (pd_no va) = Some pt"
    using table_ofD [OF assms(1) t u] pd_ok_page(3) [OF assms(1)] assms(2) slot_nonzero [OF _ _ pt_no_less]
    by (simp add: lookup_page_def Let_def)
  show "table_of s pd (pd_no va) = None \<Longrightarrow> lookup_page pd va False s = Inr (s, 0)"
    using table_of_None [OF assms(1) u] pd_ok_page(3) [OF assms(1)] by (simp add: lookup_page_def)
qed

section \<open>Writing an entry\<close>

lemma rd32_wr32 [simp]: "rd32 (wr32 a v s) b = (if b = a then v else rd32 s b)"
  by (simp add: wr32_def)

lemma wr32_simps [simp]: "owned (pm (wr32 a v s)) = owned (pm s)" "pmem_ok (pm (wr32 a v s)) = pmem_ok (pm s)"
  "init_page_dir (wr32 a v s) = init_page_dir s" "cr3 (wr32 a v s) = cr3 s" "tlb (wr32 a v s) = tlb s"
  "init_ram_pages (wr32 a v s) = init_ram_pages s"
  by (simp_all add: wr32_def)

lemma table_of_wr_other: "slot pd i \<noteq> a \<Longrightarrow> table_of (wr32 a v s) pd i = table_of s pd i"
  by (simp add: table_of_def)

lemma pd_ok_cong:
  assumes "pd_ok s pd" "pmem_ok (pm s')" "owned (pm s) \<subseteq> owned (pm s')" "\<And>i. unat i < 768 \<Longrightarrow> rd32 s' (slot pd i) = rd32 s (slot pd i)"
  shows "pd_ok s' pd"
proof -
  have "table_of s' pd i = table_of s pd i" if "unat i < 768" for i using assms(4) [OF that] by (simp add: table_of_def)
  then show ?thesis using assms unfolding pd_ok_def by (simp add: subset_iff) metis
qed

lemma write_entry:
  assumes ok: "pd_ok s pd" and u: "is_user_vaddr va" and t: "table_of s pd (pd_no va) = Some pt"
  shows "pd_ok (wr32 (slot pt (pt_no va)) v s) pd"
    and "\<And>i. unat i < 768 \<Longrightarrow> table_of (wr32 (slot pt (pt_no va)) v s) pd i = table_of s pd i"
    and "\<And>w. is_user_vaddr w \<Longrightarrow> entry (wr32 (slot pt (pt_no va)) v s) pd w
           = (if pg_round_down w = pg_round_down va then Some v else entry s pd w)"
proof -
  let ?a = "slot pt (pt_no va)"
  have uv: "unat (pd_no va) < 768" using u by (simp add: pd_no_user)
  note pt = table_ofD [OF ok t uv] and pg = pd_ok_page [OF ok]
  have other: "slot pd i \<noteq> ?a" if "unat i < 768" for i
    using slot_inj [OF pg(1) _ pt(3) pt_no_less, of i] that pt(2) by simp
  show "pd_ok (wr32 ?a v s) pd" by (rule pd_ok_cong [OF ok]) (use pd_ok_pmem(1) [OF ok] other in auto)
  show tab: "table_of (wr32 ?a v s) pd i = table_of s pd i" if "unat i < 768" for i
    using table_of_wr_other other [OF that] by blast
  fix w assume w: "is_user_vaddr w"
  then have uw: "unat (pd_no w) < 768" by (simp add: pd_no_user)
  show "entry (wr32 ?a v s) pd w = (if pg_round_down w = pg_round_down va then Some v else entry s pd w)"
  proof (cases "table_of s pd (pd_no w)")
    case None
    then show ?thesis using t tab [OF uw] by (auto simp: entry_def page_eq_iff)
  next
    case (Some p)
    note p = table_ofD [OF ok Some uw]
    have "slot p (pt_no w) = ?a \<longleftrightarrow> p = pt \<and> pt_no w = pt_no va" by (rule slot_inj [OF p(3) pt_no_less pt(3) pt_no_less])
    moreover have "p = pt \<longleftrightarrow> pd_no w = pd_no va" using pd_ok_inj [OF ok uw uv, of p] Some t by auto
    ultimately show ?thesis using Some tab [OF uw] by (auto simp: entry_def page_eq_iff)
  qed
qed

section \<open>Creating a table\<close>

lemma pmem_update_pm [simp]: "pm (s\<lparr>pm := m\<rparr>) = m"
  by simp

text \<open>A lookup that may create a table: no memory, and nothing changes; otherwise the directory stands for the
  same entries, except that absent entries may have become zero, and only the directory page is changed.\<close>

definition same_entries :: "vm \<Rightarrow> vm \<Rightarrow> 32 word \<Rightarrow> bool" where
  "same_entries s s' pd \<longleftrightarrow> (\<forall>w. is_user_vaddr w \<longrightarrow> entry s' pd w = entry s pd w \<or> entry s pd w = None \<and> entry s' pd w = Some 0)"

lemma lookup_page_create:
  assumes ok: "pd_ok s pd" and u: "is_user_vaddr va" and t: "table_of s pd (pd_no va) = None"
  obtains (no_memory) "lookup_page pd va True s = Inr (s, 0)"
    | (created) m pt where "palloc_get_page PAL_ZERO (pm s) = Inr (m, pt)" "pt \<noteq> 0" "pt \<notin> owned (pm s)"
        "owned m = insert pt (owned (pm s))"
        "\<And>a. kcells m a = (if pg_round_down a = pt then 0 else rd32 s a)"
        "\<And>e. pde_create pt = Inr e \<Longrightarrow> lookup_page pd va True s = Inr (wr32 (slot pd (pd_no va)) e (s\<lparr>pm := m\<rparr>), slot pt (pt_no va))"
        "\<exists>e. pde_create pt = Inr e \<and> pde_get_pt e = Inr pt \<and> e \<noteq> 0" "pmem_ok m" "pg_ofs pt = 0" "is_kernel_vaddr pt"
proof -
  have uv: "unat (pd_no va) < 768" using u by (simp add: pd_no_user)
  have z: "rd32 s (slot pd (pd_no va)) = 0" using t table_of_None [OF ok uv] by simp
  note mok = pd_ok_pmem(1) [OF ok]
  obtain m pt where g: "palloc_get_page PAL_ZERO (pm s) = Inr (m, pt)"
    using pp.get_total [OF mok, of PAL_ZERO] by (auto simp: pal_consts)
  show thesis
  proof (cases "pt = 0")
    case True
    then have "m = pm s" using pp.get_null [OF mok] g by blast
    then have "lookup_page pd va True s = Inr (s, 0)"
      using True g z u pd_ok_page(3) [OF ok] by (simp add: lookup_page_def Let_def)
    then show thesis by (rule no_memory)
  next
    case False
    note gp = pp.get_page [OF mok g False] and gm = pp.get_mem [OF mok g False] and gf = pp.get_fresh(1,2) [OF mok g False]
    obtain e where e: "pde_create pt = Inr e" "pde_get_pt e = Inr pt" "e \<noteq> 0"
      using pde_create_roundtrip [OF gf(2,1)] by blast
    show thesis
    proof (rule created [OF g False])
      show "lookup_page pd va True s = Inr (wr32 (slot pd (pd_no va)) e' (s\<lparr>pm := m\<rparr>), slot pt (pt_no va))" if "pde_create pt = Inr e'" for e'
        using that e g z u False pd_ok_page(3) [OF ok] by (simp add: lookup_page_def Let_def)
    qed (use gp gm gf e in \<open>auto simp: pal_consts\<close>)
  qed
qed

lemma create_table:
  assumes ok: "pd_ok s pd" and u: "is_user_vaddr va" and t: "table_of s pd (pd_no va) = None"
    and m: "pt \<notin> owned (pm s)" "owned m = insert pt (owned (pm s))" "pmem_ok m" "pg_ofs pt = 0"
    and cells: "\<And>a. kcells m a = (if pg_round_down a = pt then 0 else rd32 s a)"
    and e: "pde_get_pt e = Inr pt" "e \<noteq> 0"
  shows "pd_ok (wr32 (slot pd (pd_no va)) e (s\<lparr>pm := m\<rparr>)) pd"
    and "\<And>i. unat i < 768 \<Longrightarrow> table_of (wr32 (slot pd (pd_no va)) e (s\<lparr>pm := m\<rparr>)) pd i = (if i = pd_no va then Some pt else table_of s pd i)"
    and "\<And>w. is_user_vaddr w \<Longrightarrow> entry (wr32 (slot pd (pd_no va)) e (s\<lparr>pm := m\<rparr>)) pd w
           = (if pd_no w = pd_no va then Some 0 else entry s pd w)"
proof -
  let ?s = "wr32 (slot pd (pd_no va)) e (s\<lparr>pm := m\<rparr>)"
  have uv: "unat (pd_no va) < 768" using u by (simp add: pd_no_user)
  note pg = pd_ok_page [OF ok]
  have ptpd: "pt \<noteq> pd" using m(1) pd_ok_pmem(2) [OF ok] by auto
  have inpd: "kcells m (slot pd i) = rd32 s (slot pd i)" if "unat i < 768" for i
    using cells [of "slot pd i"] slot_page [OF pg(1), of i] that ptpd by simp
  have sl: "slot pd i = slot pd (pd_no va) \<longleftrightarrow> i = pd_no va" if "unat i < 768" for i
    using slot_inj [OF pg(1) _ pg(1) pd_no_less, of i va] that by simp
  have rd: "rd32 ?s (slot pd i) = (if i = pd_no va then e else rd32 s (slot pd i))" if "unat i < 768" for i
    using sl [OF that] inpd [OF that] by simp
  show tab: "table_of ?s pd i = (if i = pd_no va then Some pt else table_of s pd i)" if "unat i < 768" for i
    using rd [OF that] e by (simp add: table_of_def)
  show "pd_ok ?s pd" unfolding pd_ok_def
  proof (intro conjI allI impI)
    show "rd32 ?s (slot pd i) = 0 \<or> (\<exists>pt. pde_get_pt (rd32 ?s (slot pd i)) = Inr pt \<and> pt \<in> owned (pm ?s) \<and> pt \<noteq> pd)" if "unat i < 768" for i
      using rd [OF that] e ptpd ok that m(2) unfolding pd_ok_def by auto
    show "i = j" if "unat i < 768 \<and> unat j < 768 \<and> table_of ?s pd i = Some p \<and> table_of ?s pd j = Some p" for i j p
    proof -
      have new: "table_of s pd k = Some p \<Longrightarrow> unat k < 768 \<Longrightarrow> p \<noteq> pt" for k using table_ofD(1) [OF ok] m(1) by blast
      have "k = pd_no va \<and> p = pt \<or> table_of s pd k = Some p" if "unat k < 768" "table_of ?s pd k = Some p" for k
        using that(2) unfolding tab [OF that(1)] by (auto split: if_splits)
      then show ?thesis using that new pd_ok_inj [OF ok] by blast
    qed
  qed (use m pd_ok_pmem(2) [OF ok] in simp_all)
  fix w assume w: "is_user_vaddr w"
  then have uw: "unat (pd_no w) < 768" by (simp add: pd_no_user)
  show "entry ?s pd w = (if pd_no w = pd_no va then Some 0 else entry s pd w)"
  proof (cases "pd_no w = pd_no va")
    case True
    have "slot pt (pt_no w) \<noteq> slot pd (pd_no va)" using slot_inj [OF m(4) pt_no_less pg(1) pd_no_less] ptpd by simp
    then show ?thesis using True tab [OF uw] cells [of "slot pt (pt_no w)"] slot_page [OF m(4) pt_no_less] by (simp add: entry_def)
  next
    case False
    have "rd32 ?s (slot q (pt_no w)) = rd32 s (slot q (pt_no w))" if q: "table_of s pd (pd_no w) = Some q" for q
    proof -
      note Q = table_ofD [OF ok q uw]
      have "slot q (pt_no w) \<noteq> slot pd (pd_no va)" using slot_inj [OF Q(3) pt_no_less pg(1) pd_no_less] Q(2) by simp
      moreover have "q \<noteq> pt" using Q(1) m(1) by auto
      ultimately show ?thesis using cells [of "slot q (pt_no w)"] slot_page [OF Q(3) pt_no_less] by simp
    qed
    then show ?thesis using False tab [OF uw] by (cases "table_of s pd (pd_no w)") (simp_all add: entry_def)
  qed
qed

text \<open>The map from user pages to present entries that a directory stands for.\<close>

definition present :: "32 word option \<Rightarrow> 32 word option" where
  "present e = (case e of None \<Rightarrow> None | Some t \<Rightarrow> if t AND PTE_P \<noteq> 0 then Some t else None)"

definition mapping :: "vm \<Rightarrow> 32 word \<Rightarrow> 32 word \<Rightarrow> 32 word option" where
  "mapping s pd va = present (entry s pd va)"

lemma present_simps [simp]: "present None = None" "present (Some 0) = None"
  by (simp_all add: present_def)

section \<open>Lookups\<close>

lemma entry_find:
  assumes "pd_ok s pd" "is_user_vaddr va"
  shows "entry s pd va = Some t \<Longrightarrow> \<exists>pt. table_of s pd (pd_no va) = Some pt \<and> t = rd32 s (slot pt (pt_no va))
           \<and> lookup_page pd va False s = Inr (s, slot pt (pt_no va)) \<and> slot pt (pt_no va) \<noteq> 0"
    and "entry s pd va = None \<Longrightarrow> lookup_page pd va False s = Inr (s, 0)"
  using lookup_page_find [OF assms] by (auto simp: entry_def)

lemma pagedir_get_page_eq:
  assumes "pd_ok s pd" "is_user_vaddr va"
  shows "pagedir_get_page pd va s =
     (case mapping s pd va of None \<Rightarrow> Inr 0 | Some t \<Rightarrow> bind_r (pte_get_page t) (\<lambda>p. Inr (p + pg_ofs va)))"
proof (cases "entry s pd va")
  case None
  then show ?thesis using entry_find(2) [OF assms] assms(2) by (simp add: pagedir_get_page_def mapping_def)
next
  case (Some t)
  then obtain pt where "t = rd32 s (slot pt (pt_no va))" "lookup_page pd va False s = Inr (s, slot pt (pt_no va))" "slot pt (pt_no va) \<noteq> 0"
    using entry_find(1) [OF assms] by blast
  then show ?thesis using Some assms(2) by (simp add: pagedir_get_page_def mapping_def present_def)
qed

lemma is_dirty_accessed_eq:
  assumes "pd_ok s pd" "is_user_vaddr va"
  shows "pagedir_is_dirty pd va s = Inr (\<exists>t. entry s pd va = Some t \<and> t AND PTE_D \<noteq> 0)"
    and "pagedir_is_accessed pd va s = Inr (\<exists>t. entry s pd va = Some t \<and> t AND PTE_A \<noteq> 0)"
  using entry_find [OF assms]
  by (cases "entry s pd va"; fastforce simp: pagedir_is_dirty_def pagedir_is_accessed_def)+

section \<open>Frames\<close>

text \<open>The pages a directory is made of; an operation changes no other page in use.\<close>

definition footprint :: "vm \<Rightarrow> 32 word \<Rightarrow> 32 word set" where
  "footprint s pd = insert pd {pt. \<exists>i. unat i < 768 \<and> table_of s pd i = Some pt}"

lemma footprint_owned: "pd_ok s pd \<Longrightarrow> footprint s pd \<subseteq> owned (pm s)"
  using table_ofD(1) pd_ok_pmem(2) by (fastforce simp: footprint_def)

lemma directory_frame:
  assumes ok: "pd_ok s pd" and same: "\<And>a. pg_round_down a \<in> footprint s pd \<Longrightarrow> rd32 s' a = rd32 s a"
    and own: "pmem_ok (pm s')" "owned (pm s) \<subseteq> owned (pm s')"
  shows "pd_ok s' pd" "footprint s' pd = footprint s pd" "\<And>v. is_user_vaddr v \<Longrightarrow> entry s' pd v = entry s pd v"
proof -
  have d: "rd32 s' (slot pd i) = rd32 s (slot pd i)" if "unat i < 768" for i
    using same [of "slot pd i"] slot_page [OF pd_ok_page(1) [OF ok], of i] that by (simp add: footprint_def)
  then have t: "table_of s' pd i = table_of s pd i" if "unat i < 768" for i using that by (simp add: table_of_def)
  show "pd_ok s' pd" by (rule pd_ok_cong [OF ok own d])
  show "footprint s' pd = footprint s pd" using t by (auto simp: footprint_def)
  fix v assume "is_user_vaddr v"
  then have u: "unat (pd_no v) < 768" by (simp add: pd_no_user)
  have "rd32 s' (slot pt (pt_no v)) = rd32 s (slot pt (pt_no v))" if p: "table_of s pd (pd_no v) = Some pt" for pt
  proof -
    have "pt \<in> footprint s pd" using p u by (auto simp: footprint_def)
    then show ?thesis using same [of "slot pt (pt_no v)"] slot_page [OF table_ofD(3) [OF ok p u] pt_no_less] by simp
  qed
  then show "entry s' pd v = entry s pd v" using t [OF u] by (cases "table_of s pd (pd_no v)") (simp_all add: entry_def)
qed

text \<open>A change confined to the directory \<open>pd\<close> and to fresh pages.\<close>

definition confined :: "vm \<Rightarrow> vm \<Rightarrow> 32 word \<Rightarrow> bool" where
  "confined s s' pd \<longleftrightarrow> pmem_ok (pm s') \<and> owned (pm s) \<subseteq> owned (pm s') \<and> pd_ok s' pd
     \<and> footprint s' pd \<subseteq> footprint s pd \<union> (owned (pm s') - owned (pm s))
     \<and> (\<forall>a. pg_round_down a \<in> owned (pm s) - footprint s pd \<longrightarrow> rd32 s' a = rd32 s a)"

lemma confined_other:
  assumes "confined s s' pd" "pd_ok s q" "footprint s q \<inter> footprint s pd = {}"
  shows "pd_ok s' q" "footprint s' q = footprint s q" "footprint s' q \<inter> footprint s' pd = {}"
    "\<And>v. is_user_vaddr v \<Longrightarrow> entry s' q v = entry s q v"
proof -
  have "rd32 s' a = rd32 s a" if "pg_round_down a \<in> footprint s q" for a
    using assms that footprint_owned [OF assms(2)] unfolding confined_def by blast
  note F = directory_frame [OF assms(2) this]
  show "pd_ok s' q" "footprint s' q = footprint s q" "\<And>v. is_user_vaddr v \<Longrightarrow> entry s' q v = entry s q v"
    using F assms(1) unfolding confined_def by blast+
  then show "footprint s' q \<inter> footprint s' pd = {}"
    using assms footprint_owned [OF assms(2)] unfolding confined_def by blast
qed

lemma confined_write:
  assumes "pd_ok s pd" "is_user_vaddr va" "table_of s pd (pd_no va) = Some pt"
  shows "confined s (wr32 (slot pt (pt_no va)) v s) pd"
proof -
  let ?s = "wr32 (slot pt (pt_no va)) v s"
  have u: "unat (pd_no va) < 768" using assms(2) by (simp add: pd_no_user)
  note W = write_entry [OF assms, where v = v]
  have "pg_round_down (slot pt (pt_no va)) \<in> footprint s pd"
    using assms(3) u slot_page [OF table_ofD(3) [OF assms(1,3) u] pt_no_less] by (auto simp: footprint_def)
  moreover have "footprint ?s pd = footprint s pd" using W(2) by (auto simp: footprint_def)
  ultimately show ?thesis using W(1) pd_ok_pmem(1) [OF assms(1)] by (auto simp: confined_def)
qed

lemma confined_trans:
  assumes 1: "confined s s' pd" and 2: "confined s' s'' pd"
  shows "confined s s'' pd"
proof -
  have fp: "footprint s' pd \<subseteq> footprint s pd \<union> (owned (pm s') - owned (pm s))" "owned (pm s) \<subseteq> owned (pm s')"
      "footprint s'' pd \<subseteq> footprint s' pd \<union> (owned (pm s'') - owned (pm s'))" "owned (pm s') \<subseteq> owned (pm s'')"
    using 1 2 by (simp_all add: confined_def)
  have "rd32 s'' a = rd32 s a" if a: "pg_round_down a \<in> owned (pm s) - footprint s pd" for a
  proof -
    have "pg_round_down a \<in> owned (pm s') - footprint s' pd" using a fp(1,2) by blast
    then show ?thesis using 1 2 a by (simp add: confined_def)
  qed
  moreover have "footprint s'' pd \<subseteq> footprint s pd \<union> (owned (pm s'') - owned (pm s))" using fp by blast
  ultimately show ?thesis using 2 fp(2,4) by (auto simp: confined_def)
qed

lemma confined_refl: "pd_ok s pd \<Longrightarrow> confined s s pd"
  by (auto simp: confined_def pd_ok_pmem)

text \<open>Only memory and the allocator matter.\<close>

lemma vm_cong:
  assumes "pm s' = pm s"
  shows "table_of s' = table_of s" "entry s' = entry s" "pd_ok s' = pd_ok s" "footprint s' = footprint s" "mapping s' = mapping s"
proof -
  show t: "table_of s' = table_of s" using assms by (simp add: fun_eq_iff table_of_def)
  show e: "entry s' = entry s" using assms t by (simp add: fun_eq_iff entry_def)
  show "pd_ok s' = pd_ok s" "footprint s' = footprint s" "mapping s' = mapping s"
    using assms t e by (simp_all add: fun_eq_iff pd_ok_def footprint_def mapping_def)
qed

lemma confined_cong: "pm t' = pm t \<Longrightarrow> confined s t' pd = confined s t pd"
  using vm_cong [of t' t] by (simp add: confined_def)

lemma confined_create:
  assumes ok: "pd_ok s pd" and u: "is_user_vaddr va" and t: "table_of s pd (pd_no va) = None"
    and m: "pt \<notin> owned (pm s)" "owned m = insert pt (owned (pm s))" "pmem_ok m" "pg_ofs pt = 0"
    and cells: "\<And>a. kcells m a = (if pg_round_down a = pt then 0 else rd32 s a)"
    and e: "pde_get_pt e = Inr pt" "e \<noteq> 0"
  shows "confined s (wr32 (slot pd (pd_no va)) e (s\<lparr>pm := m\<rparr>)) pd"
proof -
  let ?s = "wr32 (slot pd (pd_no va)) e (s\<lparr>pm := m\<rparr>)"
  note C = create_table [OF assms]
  have "footprint ?s pd \<subseteq> insert pt (footprint s pd)" using C(2) by (auto simp: footprint_def split: if_splits)
  moreover have "rd32 ?s a = rd32 s a" if "pg_round_down a \<in> owned (pm s) - footprint s pd" for a
  proof -
    have "a \<noteq> slot pd (pd_no va)" using that slot_page [OF pd_ok_page(1) [OF ok] pd_no_less] by (auto simp: footprint_def)
    moreover have "pg_round_down a \<noteq> pt" using that m(1) by auto
    ultimately show ?thesis using cells [of a] by simp
  qed
  ultimately show ?thesis using C(1) m by (auto simp: confined_def)
qed

section \<open>Installing a page\<close>

lemma pagedir_set_page_aux:
  assumes ok: "pd_ok s pd" and up: "pg_ofs upage = 0" "is_user_vaddr upage"
    and kp: "pg_ofs kpage = 0" "is_kernel_vaddr kpage" "unat (drop_bit 12 (kpage - PHYS_BASE)) < init_ram_pages s"
    and pd: "pd \<noteq> init_page_dir s" and un: "mapping s pd upage = None"
    and r: "pte_create_user kpage w = Inr e"
  shows "\<exists>s' b. pagedir_set_page pd upage kpage w s = Inr (s', b) \<and> pd_ok s' pd \<and> owned (pm s) \<subseteq> owned (pm s')
       \<and> (\<forall>v. is_user_vaddr v \<longrightarrow> mapping s' pd v = (if b \<and> pg_round_down v = upage then Some e else mapping s pd v))
       \<and> (\<not> b \<longrightarrow> s' = s) \<and> confined s s' pd \<and> cr3 s' = cr3 s \<and> tlb s' = tlb s \<and> init_page_dir s' = init_page_dir s"
proof -
  have unf: "pagedir_set_page pd upage kpage w s = bind_r (lookup_page pd upage True s) (\<lambda>(s, pte). if pte \<noteq> 0
       then ASSERT (rd32 s pte AND PTE_P = 0) (Inr (wr32 pte e s, True)) else Inr (s, False))"
    unfolding pagedir_set_page_def r bind_r_Inr using up kp pd by (simp add: vtop_kernel)
  have pe: "e AND PTE_P \<noteq> 0"
    using r pg_ofs_minus_base [OF kp(2)] kp(1) unfolding pte_create_user_eq [OF kp(2,1)]
    by (auto simp: entry_flag pte_consts)
  have rdn: "pg_round_down upage = upage" using pg_round_down_plus_ofs [of upage] up(1) by simp
  have map: "mapping t' pd v = (if pg_round_down v = upage then Some e else mapping t pd v)"
    if "entry t' pd v = (if pg_round_down v = pg_round_down upage then Some e else entry t pd v)" for t t' v
    using that pe rdn by (simp add: mapping_def present_def)
  show ?thesis
  proof (cases "table_of s pd (pd_no upage)")
    case (Some pt)
    note W = write_entry [OF ok up(2) Some, where v = e]
    have "entry s pd upage = Some (rd32 s (slot pt (pt_no upage)))" using Some by (simp add: entry_def)
    then have "rd32 s (slot pt (pt_no upage)) AND PTE_P = 0" using un by (auto simp: mapping_def present_def split: if_splits)
    then have "pagedir_set_page pd upage kpage w s = Inr (wr32 (slot pt (pt_no upage)) e s, True)"
      using lookup_page_find(1) [OF ok up(2) Some, of True] unf by simp
    then show ?thesis using W(1) map [OF W(3)] confined_write [OF ok up(2) Some] by auto
  next
    case None
    show ?thesis
    proof (rule lookup_page_create [OF ok up(2) None])
      assume "lookup_page pd upage True s = Inr (s, 0)"
      then show ?thesis using unf ok confined_refl by auto
    next
      fix m pt assume g: "palloc_get_page PAL_ZERO (pm s) = Inr (m, pt)" "pt \<noteq> 0" "pt \<notin> owned (pm s)"
          "owned m = insert pt (owned (pm s))" "\<And>a. kcells m a = (if pg_round_down a = pt then 0 else rd32 s a)"
        and l: "\<And>e. pde_create pt = Inr e \<Longrightarrow> lookup_page pd upage True s = Inr (wr32 (slot pd (pd_no upage)) e (s\<lparr>pm := m\<rparr>), slot pt (pt_no upage))"
        and ex: "\<exists>e. pde_create pt = Inr e \<and> pde_get_pt e = Inr pt \<and> e \<noteq> 0" and mok: "pmem_ok m" "pg_ofs pt = 0" "is_kernel_vaddr pt"
      obtain d where d: "pde_create pt = Inr d" "pde_get_pt d = Inr pt" "d \<noteq> 0" using ex by blast
      let ?s = "wr32 (slot pd (pd_no upage)) d (s\<lparr>pm := m\<rparr>)"
      note C = create_table [OF ok up(2) None g(3,4) mok(1,2) g(5) d(2,3)]
      have t: "table_of ?s pd (pd_no upage) = Some pt" using C(2) [of "pd_no upage"] up(2) by (simp add: pd_no_user)
      note W = write_entry [OF C(1) up(2) t, where v = e]
      have "rd32 ?s (slot pt (pt_no upage)) = 0" using C(3) [OF up(2)] t by (simp add: entry_def)
      moreover have "slot pt (pt_no upage) \<noteq> 0" using slot_nonzero mok pt_no_less by blast
      ultimately have "pagedir_set_page pd upage kpage w s = Inr (wr32 (slot pt (pt_no upage)) e ?s, True)"
        using l [OF d(1)] unf by simp
      moreover have "mapping ?s pd v = mapping s pd v" if "is_user_vaddr v" for v
        using C(3) [OF that] None by (auto simp: mapping_def entry_def)
      moreover have "confined s (wr32 (slot pt (pt_no upage)) e ?s) pd"
        by (rule confined_trans [OF confined_create [OF ok up(2) None g(3,4) mok(1,2) g(5) d(2,3)] confined_write [OF C(1) up(2) t]])
      ultimately show ?thesis using W(1) map [OF W(3)] g(4) by auto
    qed
  qed
qed

text \<open>A call that returns had its assertions hold.\<close>

lemma pagedir_set_page_pre:
  assumes ok: "pd_ok s pd" and r: "pagedir_set_page pd upage kpage w s = Inr (s', b)"
  shows "pg_ofs upage = 0" "is_user_vaddr upage" "pg_ofs kpage = 0" "is_kernel_vaddr kpage"
    "unat (drop_bit 12 (kpage - PHYS_BASE)) < init_ram_pages s" "pd \<noteq> init_page_dir s" "mapping s pd upage = None"
proof -
  have vt: "is_kernel_vaddr kpage" using r by (auto simp: pagedir_set_page_def vtop_def res_inv)
  show *: "pg_ofs upage = 0" "is_user_vaddr upage" "pg_ofs kpage = 0" "is_kernel_vaddr kpage"
    "unat (drop_bit 12 (kpage - PHYS_BASE)) < init_ram_pages s" "pd \<noteq> init_page_dir s"
    using r vt by (auto simp: pagedir_set_page_def vtop_kernel ASSERT_eq_Inr)
  show "mapping s pd upage = None"
  proof (cases "table_of s pd (pd_no upage)")
    case (Some pt)
    have l: "lookup_page pd upage True s = Inr (s, slot pt (pt_no upage))" "slot pt (pt_no upage) \<noteq> 0"
      using lookup_page_find(1) [OF ok *(2) Some] by blast+
    have "rd32 s (slot pt (pt_no upage)) AND PTE_P = 0"
      using r * l by (auto simp: pagedir_set_page_def vtop_kernel ASSERT_eq_Inr)
    then show ?thesis using Some by (simp add: mapping_def entry_def present_def)
  qed (simp add: mapping_def entry_def)
qed

lemma pagedir_set_page_result:
  assumes ok: "pd_ok s pd" and r: "pagedir_set_page pd upage kpage w s = Inr (s', b)"
  obtains e where "pte_create_user kpage w = Inr e" "pd_ok s' pd" "confined s s' pd" "cr3 s' = cr3 s" "tlb s' = tlb s"
    "init_page_dir s' = init_page_dir s" "\<not> b \<longrightarrow> s' = s" "mapping s pd upage = None"
    "\<And>v. is_user_vaddr v \<Longrightarrow> mapping s' pd v = (if b \<and> pg_round_down v = upage then Some e else mapping s pd v)"
proof -
  note P = pagedir_set_page_pre [OF assms]
  obtain e where e: "pte_create_user kpage w = Inr e" using pte_create_user_eq [OF P(4,3)] by blast
  show thesis using pagedir_set_page_aux [OF ok P(1-7) e] r that [OF e] P(7) by auto
qed

section \<open>The translation lookaside buffer\<close>

text \<open>A cached entry agrees with the entry in memory on the frame and the access rights; the entry in memory
  records that it was accessed and every write the cached one stands for.\<close>

definition TLB_MASK :: "32 word" where "TLB_MASK = PTE_ADDR OR PTE_P OR PTE_W OR PTE_U"

definition agrees :: "32 word \<Rightarrow> 32 word \<Rightarrow> bool" where
  "agrees e t \<longleftrightarrow> e AND TLB_MASK = t AND TLB_MASK \<and> t AND PTE_A \<noteq> 0 \<and> (e AND PTE_D \<noteq> 0 \<longrightarrow> t AND PTE_D \<noteq> 0)"

definition coherent :: "vm \<Rightarrow> 32 word \<Rightarrow> bool" where
  "coherent s pd \<longleftrightarrow> (\<forall>v e. is_user_vaddr v \<and> tlb s (pg_round_down v) = Some e \<longrightarrow> (\<exists>t. mapping s pd v = Some t \<and> agrees e t))"

text \<open>The processor uses an entry: it sets the accessed bit, and the dirty bit for a write, and caches the entry.\<close>

definition cpu_access :: "32 word \<Rightarrow> 32 word \<Rightarrow> bool \<Rightarrow> vm \<Rightarrow> vm res" where
  "cpu_access pd va write s =
     bind_r (lookup_page pd va False s) (\<lambda>(s, pte).
     if pte \<noteq> 0 \<and> rd32 s pte AND PTE_P \<noteq> 0
     then let e = rd32 s pte OR PTE_A OR (if write then PTE_D else 0) in
          Inr ((wr32 pte e s)\<lparr>tlb := (tlb s)(pg_round_down va := Some e)\<rparr>)
     else Inr s)"

datatype pd_op =
    Set_page "32 word" "32 word" bool
  | Clear_page "32 word"
  | Set_dirty "32 word" bool
  | Set_accessed "32 word" bool
  | Activate

fun exec_op :: "32 word \<Rightarrow> pd_op \<Rightarrow> vm \<Rightarrow> vm res" where
  "exec_op pd (Set_page u k w) s = bind_r (pagedir_set_page pd u k w s) (\<lambda>(s, _). Inr s)"
| "exec_op pd (Clear_page u) s = pagedir_clear_page pd u s"
| "exec_op pd (Set_dirty v b) s = pagedir_set_dirty pd v b s"
| "exec_op pd (Set_accessed v b) s = pagedir_set_accessed pd v b s"
| "exec_op pd Activate s = pagedir_activate pd s"

text \<open>The kernel runs operations on its directories \<open>P\<close> while the processor uses the active one; the kernel calls the
  dirty and accessed bit operations for user pages.\<close>

fun op_addr :: "pd_op \<Rightarrow> 32 word" where
  "op_addr (Set_page u k w) = u" | "op_addr (Clear_page u) = u" | "op_addr (Set_dirty v b) = v"
| "op_addr (Set_accessed v b) = v" | "op_addr Activate = 0"

inductive vm_step :: "32 word set \<Rightarrow> vm \<Rightarrow> vm \<Rightarrow> bool" for P where
  kernel: "pd \<in> P \<Longrightarrow> is_user_vaddr (op_addr opn) \<Longrightarrow> exec_op pd opn s = Inr s' \<Longrightarrow> vm_step P s s'"
| cpu: "active_pd s = Inr pd \<Longrightarrow> is_user_vaddr va \<Longrightarrow> cpu_access pd va write s = Inr s' \<Longrightarrow> vm_step P s s'"

definition vm_ok :: "32 word set \<Rightarrow> vm \<Rightarrow> bool" where
  "vm_ok P s \<longleftrightarrow> (\<forall>p\<in>P. pd_ok s p) \<and> (\<forall>p\<in>P. \<forall>q\<in>P. p \<noteq> q \<longrightarrow> footprint s p \<inter> footprint s q = {})
     \<and> (\<exists>a\<in>P. active_pd s = Inr a \<and> coherent s a)"

lemma active_unique: "active_pd s = Inr a \<Longrightarrow> cr3 s' = cr3 s \<Longrightarrow> active_pd s' = Inr b \<Longrightarrow> b = a"
  by (simp add: active_pd_def)

lemma vm_ok_dirs:
  assumes ok: "vm_ok P s" and p: "p \<in> P" and c: "confined s s' p" "\<And>a. a \<in> P \<Longrightarrow> active_pd s' = Inr a \<Longrightarrow> coherent s' a"
    and a: "\<exists>a\<in>P. active_pd s' = Inr a"
  shows "vm_ok P s'"
proof -
  have P: "\<And>q. q \<in> P \<Longrightarrow> pd_ok s q" "\<And>q r. q \<in> P \<Longrightarrow> r \<in> P \<Longrightarrow> q \<noteq> r \<Longrightarrow> footprint s q \<inter> footprint s r = {}"
    using ok unfolding vm_ok_def by blast+
  have O: "pd_ok s' q" "footprint s' q = footprint s q" "footprint s' q \<inter> footprint s' p = {}" if "q \<in> P" "q \<noteq> p" for q
    using confined_other [OF c(1) P(1) P(2)] that p by blast+
  have "pd_ok s' q" if "q \<in> P" for q using O(1) [OF that] c(1) by (cases "q = p") (auto simp: confined_def)
  moreover have "footprint s' q \<inter> footprint s' r = {}" if "q \<in> P" "r \<in> P" "q \<noteq> r" for q r
  proof (cases "q = p \<or> r = p")
    case True
    then show ?thesis using O(3) [OF that(1)] O(3) [OF that(2)] that(3) by auto
  next
    case False
    then show ?thesis using O(2) that P(2) [OF that] by simp
  qed
  ultimately show ?thesis using a c(2) unfolding vm_ok_def by blast
qed

text \<open>An operation that leaves the buffer alone and keeps every cached entry in agreement keeps coherence.\<close>

lemma coherent_other:
  assumes "coherent s a" "confined s s' p" "pd_ok s a" "footprint s a \<inter> footprint s p = {}" "tlb s' = tlb s"
  shows "coherent s' a"
  using assms(1,5) confined_other(4) [OF assms(2,3,4)] by (auto simp: coherent_def mapping_def)

lemma coherent_same:
  assumes "coherent s a" "tlb s' = tlb s"
    and "\<And>v t. is_user_vaddr v \<Longrightarrow> mapping s a v = Some t \<Longrightarrow> \<exists>t'. mapping s' a v = Some t' \<and> (\<forall>e. agrees e t \<longrightarrow> agrees e t')"
  shows "coherent s' a"
  using assms unfolding coherent_def by metis

lemma coherent_empty: "tlb s = (\<lambda>_. None) \<Longrightarrow> coherent s a"
  by (simp add: coherent_def)

lemma agrees_or: "agrees e t \<Longrightarrow> agrees e (t OR PTE_D)" "agrees e t \<Longrightarrow> agrees e (t OR PTE_A)"
  by (simp_all add: agrees_def TLB_MASK_def pte_consts bit.conj_disj_distrib2 or_eq_0_iff)

lemma activate_result:
  assumes "is_kernel_vaddr pd" "pd \<noteq> 0"
  shows "pagedir_activate pd s = Inr (s\<lparr>cr3 := pd - PHYS_BASE, tlb := (\<lambda>_. None)\<rparr>)"
    and "active_pd (s\<lparr>cr3 := pd - PHYS_BASE, tlb := (\<lambda>_. None)\<rparr>) = Inr pd"
  using assms ptov_vtop [OF assms(1)] by (simp_all add: pagedir_activate_def vtop_kernel active_pd_def)

lemma invalidate_result:
  assumes "active_pd s = Inr a" "is_kernel_vaddr pd" "pd \<noteq> 0" "invalidate_pagedir pd s = Inr s'"
  shows "pm s' = pm s" "active_pd s' = Inr a" "if a = pd then tlb s' = (\<lambda>_. None) else s' = s"
proof -
  show "pm s' = pm s" "if a = pd then tlb s' = (\<lambda>_. None) else s' = s"
    using assms activate_result(1) [OF assms(2,3)] by (auto simp: invalidate_pagedir_def split: if_splits)
  show "active_pd s' = Inr a"
    using assms activate_result [OF assms(2,3)] by (auto simp: invalidate_pagedir_def split: if_splits)
qed

lemma entry_write:
  assumes ok: "pd_ok s pd" and u: "is_user_vaddr va" and e: "entry s pd va = Some t"
    and l: "lookup_page pd va False s = Inr (s, pte)"
  shows "t = rd32 s pte" "pte \<noteq> 0" "confined s (wr32 pte x s) pd"
    "\<And>v. is_user_vaddr v \<Longrightarrow> mapping (wr32 pte x s) pd v = (if pg_round_down v = pg_round_down va then present (Some x) else mapping s pd v)"
proof -
  obtain pt where pt: "table_of s pd (pd_no va) = Some pt" "t = rd32 s (slot pt (pt_no va))" "pte = slot pt (pt_no va)" "pte \<noteq> 0"
    using entry_find(1) [OF ok u e] l by auto
  then show "t = rd32 s pte" "pte \<noteq> 0" by simp_all
  show "confined s (wr32 pte x s) pd" using confined_write [OF ok u pt(1)] pt(3) by simp
  show "mapping (wr32 pte x s) pd v = (if pg_round_down v = pg_round_down va then present (Some x) else mapping s pd v)" if "is_user_vaddr v" for v
    using write_entry(3) [OF ok u pt(1) that] pt(3) by (simp add: mapping_def)
qed

text \<open>The entry of a page does not depend on the offset.\<close>

lemma mapping_page_cong: "pg_round_down v = pg_round_down w \<Longrightarrow> mapping s pd v = mapping s pd w"
  by (simp add: page_eq_iff mapping_def entry_def)

text \<open>The three shapes of step: an entry changed and the buffer invalidated, an entry changed in a way cached entries
  need not notice, and a buffer refilled.\<close>

lemma step_invalidate:
  assumes ok: "vm_ok P s" and p: "pd \<in> P" and c: "confined s s1 pd" "tlb s1 = tlb s" "cr3 s1 = cr3 s"
    and i: "invalidate_pagedir pd s1 = Inr s'"
  shows "vm_ok P s'"
proof -
  obtain a where a: "a \<in> P" "active_pd s = Inr a" "coherent s a" using ok unfolding vm_ok_def by blast
  have pd: "pd_ok s pd" "pd_ok s a" using ok p a(1) unfolding vm_ok_def by blast+
  have a1: "active_pd s1 = Inr a" using a(2) c(3) by (simp add: active_pd_def)
  note I = invalidate_result [OF a1 pd_ok_page(2,3) [OF pd(1)] i]
  show ?thesis
  proof (rule vm_ok_dirs [OF ok p])
    show "confined s s' pd" using c(1) confined_cong [OF I(1)] by simp
    show "\<exists>a\<in>P. active_pd s' = Inr a" using a(1) I(2) by blast
    fix b assume b: "b \<in> P" "active_pd s' = Inr b"
    then have ba: "b = a" using I(2) by simp
    show "coherent s' b"
    proof (cases "a = pd")
      case True
      then show ?thesis using I(3) by (simp add: coherent_empty)
    next
      case False
      then have "s' = s1" "footprint s a \<inter> footprint s pd = {}" using I(3) ok a(1) p unfolding vm_ok_def by auto
      then show ?thesis using coherent_other [OF a(3) c(1) pd(2)] c(2) ba by simp
    qed
  qed
qed

lemma step_silent:
  assumes ok: "vm_ok P s" and p: "pd \<in> P" and c: "confined s s' pd" "tlb s' = tlb s" "cr3 s' = cr3 s"
    and m: "\<And>v t. is_user_vaddr v \<Longrightarrow> mapping s pd v = Some t \<Longrightarrow> \<exists>t'. mapping s' pd v = Some t' \<and> (\<forall>e. agrees e t \<longrightarrow> agrees e t')"
  shows "vm_ok P s'"
proof (rule vm_ok_dirs [OF ok p c(1)])
  obtain a where a: "a \<in> P" "active_pd s = Inr a" "coherent s a" using ok unfolding vm_ok_def by blast
  then have a': "active_pd s' = Inr a" using c(3) by (simp add: active_pd_def)
  then show "\<exists>a\<in>P. active_pd s' = Inr a" using a(1) by blast
  fix b assume "b \<in> P" "active_pd s' = Inr b"
  then have "b = a" using a' by simp
  moreover have "coherent s' a"
  proof (cases "a = pd")
    case True
    then show ?thesis using coherent_same [OF a(3) c(2)] m by blast
  next
    case False
    then have "pd_ok s a" "footprint s a \<inter> footprint s pd = {}" using ok a(1) p unfolding vm_ok_def by auto
    then show ?thesis using coherent_other [OF a(3) c(1)] c(2) by blast
  qed
  ultimately show "coherent s' b" by simp
qed

lemma flag_write:
  assumes ok: "vm_ok P s" and p: "pd \<in> P" and u: "is_user_vaddr v"
    and r: "bind_r (lookup_page pd v False s) (\<lambda>(s, pte). if pte \<noteq> 0
        then (if on then Inr (wr32 pte (rd32 s pte OR f) s) else invalidate_pagedir pd (wr32 pte (rd32 s pte AND NOT f) s))
        else Inr s) = Inr s'"
    and f: "f = PTE_D \<or> f = PTE_A"
  shows "vm_ok P s'"
proof (cases "entry s pd v")
  case None
  then show ?thesis using entry_find(2) [OF _ u, of s pd] r ok p by (auto simp: vm_ok_def)
next
  case (Some t)
  have pd: "pd_ok s pd" using ok p unfolding vm_ok_def by blast
  then obtain pte where l: "lookup_page pd v False s = Inr (s, pte)" using entry_find(1) [OF _ u Some] by blast
  note W = entry_write [OF pd u Some l]
  show ?thesis
  proof (cases on)
    case True
    then have s': "s' = wr32 pte (t OR f) s" using r l W(1,2) by simp
    have keep: "t0 AND PTE_P \<noteq> 0 \<Longrightarrow> (t0 OR f) AND PTE_P \<noteq> 0" "agrees e t0 \<Longrightarrow> agrees e (t0 OR f)" for t0 e
      using f agrees_or by (auto simp: bit.conj_disj_distrib2 or_eq_0_iff)
    show ?thesis
    proof (rule step_silent [OF ok p])
      show "confined s s' pd" unfolding s' by (rule W(3))
      fix w t0 assume w: "is_user_vaddr w" "mapping s pd w = Some t0"
      show "\<exists>t'. mapping s' pd w = Some t' \<and> (\<forall>e. agrees e t0 \<longrightarrow> agrees e t')"
      proof (cases "pg_round_down w = pg_round_down v")
        case True
        then have "mapping s pd v = Some t0" using mapping_page_cong w(2) by metis
        then have "t0 = t" "t AND PTE_P \<noteq> 0" using Some by (auto simp: mapping_def present_def split: if_splits)
        then show ?thesis using W(4) [OF w(1)] True keep s' by (simp add: present_def)
      next
        case False
        then show ?thesis using W(4) [OF w(1)] w(2) s' by simp
      qed
    qed (simp_all add: s')
  next
    case False
    then have "invalidate_pagedir pd (wr32 pte (t AND NOT f) s) = Inr s'" using r l W(1,2) by simp
    then show ?thesis by (rule step_invalidate [OF ok p W(3), rotated 2]) simp_all
  qed
qed

lemma set_page_step:
  assumes ok: "vm_ok P s" and p: "pd \<in> P" and r: "pagedir_set_page pd u k w s = Inr (s', b)"
  shows "vm_ok P s'"
proof -
  have pd: "pd_ok s pd" using ok p unfolding vm_ok_def by blast
  show ?thesis
  proof (rule pagedir_set_page_result [OF pd r])
    fix e assume R: "confined s s' pd" "tlb s' = tlb s" "cr3 s' = cr3 s" "mapping s pd u = None"
      and m: "\<And>v. is_user_vaddr v \<Longrightarrow> mapping s' pd v = (if b \<and> pg_round_down v = u then Some e else mapping s pd v)"
    have "pg_round_down u = u" using pagedir_set_page_pre(1) [OF pd r] pg_round_down_plus_ofs [of u] by simp
    then have "pg_round_down v \<noteq> u" if "mapping s pd v = Some t" for v t
      using that R(4) mapping_page_cong [of v u s pd] by auto
    then show "vm_ok P s'" using m by (intro step_silent [OF ok p R(1-3)]) auto
  qed
qed

lemma kernel_step:
  assumes ok: "vm_ok P s" and p: "pd \<in> P" and u: "is_user_vaddr (op_addr opn)" and r: "exec_op pd opn s = Inr s'"
  shows "vm_ok P s'"
proof (cases opn)
  case (Set_page u k w)
  then show ?thesis using r set_page_step [OF ok p, of u k w] by (auto simp: bind_r_eq_Inr)
next
  case (Clear_page v)
  have pd: "pd_ok s pd" using ok p unfolding vm_ok_def by blast
  have u: "is_user_vaddr v" using u Clear_page by simp
  show ?thesis
  proof (cases "\<exists>t. mapping s pd v = Some t")
    case True
    then obtain t where t: "entry s pd v = Some t" "t AND PTE_P \<noteq> 0" by (auto simp: mapping_def present_def split: option.splits if_splits)
    then obtain pte where l: "lookup_page pd v False s = Inr (s, pte)" using entry_find(1) [OF pd u] by blast
    note W = entry_write [OF pd u t(1) l]
    have "invalidate_pagedir pd (wr32 pte (t AND NOT PTE_P) s) = Inr s'"
      using r Clear_page l W(1,2) t(2) by (simp add: pagedir_clear_page_def ASSERT_eq_Inr)
    then show ?thesis by (rule step_invalidate [OF ok p W(3), rotated 2]) simp_all
  next
    case False
    then have "s' = s" using r Clear_page entry_find [OF pd u]
      by (cases "entry s pd v") (fastforce simp: pagedir_clear_page_def ASSERT_eq_Inr mapping_def present_def split: if_splits)+
    then show ?thesis using ok by simp
  qed
next
  case (Set_dirty v b)
  then show ?thesis using flag_write [OF ok p, of v b PTE_D] r u by (simp add: pagedir_set_dirty_def)
next
  case (Set_accessed v b)
  then show ?thesis using flag_write [OF ok p, of v b PTE_A] r u by (simp add: pagedir_set_accessed_def)
next
  case Activate
  have pd: "pd_ok s pd" using ok p unfolding vm_ok_def by blast
  note A = activate_result [OF pd_ok_page(2,3) [OF pd], of s]
  have s': "s' = s\<lparr>cr3 := pd - PHYS_BASE, tlb := (\<lambda>_. None)\<rparr>" using r Activate A(1) by simp
  have "pm s' = pm s" by (simp add: s')
  then have "confined s s' pd" using confined_refl [OF pd] confined_cong by blast
  then show ?thesis using A(2) p coherent_empty [of s'] by (intro vm_ok_dirs [OF ok p]) (auto simp: s')
qed

lemma agrees_refl_or: "agrees (t OR PTE_A OR d) (t OR PTE_A OR d)"
  by (simp add: agrees_def bit.conj_disj_distrib2 or_eq_0_iff PTE_A_def)

lemma cpu_step:
  assumes ok: "vm_ok P s" and a: "active_pd s = Inr pd" and u: "is_user_vaddr va" and r: "cpu_access pd va write s = Inr s'"
  shows "vm_ok P s'"
proof -
  have p: "pd \<in> P" and co: "coherent s pd" using ok a unfolding vm_ok_def by auto
  have pd: "pd_ok s pd" using ok p unfolding vm_ok_def by blast
  show ?thesis
  proof (cases "\<exists>t. mapping s pd va = Some t")
    case True
    then obtain t where t: "entry s pd va = Some t" "t AND PTE_P \<noteq> 0" by (auto simp: mapping_def present_def split: option.splits if_splits)
    then obtain pte where l: "lookup_page pd va False s = Inr (s, pte)" using entry_find(1) [OF pd u] by blast
    note W = entry_write [OF pd u t(1) l]
    define e where "e = t OR PTE_A OR (if write then PTE_D else 0)"
    have s': "s' = (wr32 pte e s)\<lparr>tlb := (tlb s)(pg_round_down va := Some e)\<rparr>"
      using r l W(1,2) t(2) by (simp add: cpu_access_def e_def Let_def)
    then have pm: "pm s' = pm (wr32 pte e s)" by simp
    have m: "mapping s' pd v = (if pg_round_down v = pg_round_down va then Some e else mapping s pd v)" if "is_user_vaddr v" for v
      using W(4) [OF that, of e] t(2) vm_cong(5) [OF pm] by (simp add: present_def e_def bit.conj_disj_distrib2 or_eq_0_iff)
    have "agrees e e" unfolding e_def by (rule agrees_refl_or)
    then have "coherent s' pd" using co m by (auto simp: coherent_def s')
    moreover have "active_pd s' = Inr pd" using a by (simp add: s' active_pd_def)
    ultimately show ?thesis using W(3) confined_cong [OF pm] p by (intro vm_ok_dirs [OF ok p]) auto
  next
    case False
    then have "s' = s" using r entry_find [OF pd u]
      by (cases "entry s pd va") (fastforce simp: cpu_access_def mapping_def present_def split: if_splits)+
    then show ?thesis using ok by simp
  qed
qed

lemma vm_step_ok: "vm_step P s s' \<Longrightarrow> vm_ok P s \<Longrightarrow> vm_ok P s'"
  by (induction rule: vm_step.induct) (blast intro: kernel_step cpu_step)+

lemma vm_steps_ok: "(vm_step P)\<^sup>*\<^sup>* s s' \<Longrightarrow> vm_ok P s \<Longrightarrow> vm_ok P s'"
  by (induction rule: rtranclp_induct) (blast intro: vm_step_ok)+

section \<open>Destroying a directory\<close>

fun free_all :: "32 word list \<Rightarrow> vm \<Rightarrow> vm res" where
  "free_all [] s = Inr s"
| "free_all (p # ps) s = bind_r (free_page p s) (free_all ps)"

lemma bind_free_all_Nil [simp]: "bind_r m (free_all []) = m"
  by (cases m) simp_all

lemma free_all_single: "free_all [p] = free_page p"
  by (rule ext) simp

lemma free_all_append: "free_all (ps @ qs) s = bind_r (free_all ps s) (free_all qs)"
proof (induction ps arbitrary: s)
  case (Cons p ps)
  then show ?case by (cases "free_page p s") simp_all
qed simp

definition freed :: "vm \<Rightarrow> 32 word set \<Rightarrow> vm \<Rightarrow> bool" where
  "freed s A s' \<longleftrightarrow> pmem_ok (pm s') \<and> owned (pm s') = owned (pm s) - A
     \<and> (\<forall>a. pg_round_down a \<notin> A \<longrightarrow> rd32 s' a = rd32 s a) \<and> init_page_dir s' = init_page_dir s \<and> cr3 s' = cr3 s \<and> tlb s' = tlb s"

lemma free_page_ok:
  assumes "pmem_ok (pm s)" "p \<in> owned (pm s)"
  shows "\<exists>s'. free_page p s = Inr s' \<and> freed s {p} s'"
  using pp.release_page [OF assms] by (auto simp: free_page_def freed_def)

lemma freed_trans: "freed s A s1 \<Longrightarrow> freed s1 B s2 \<Longrightarrow> freed s (A \<union> B) s2"
  by (auto simp: freed_def)

lemma free_all_ok:
  assumes "pmem_ok (pm s)" "distinct ps" "set ps \<subseteq> owned (pm s)"
  shows "\<exists>s'. free_all ps s = Inr s' \<and> freed s (set ps) s'"
  using assms
proof (induction ps arbitrary: s)
  case (Cons p ps)
  then obtain s1 where s1: "free_page p s = Inr s1" "freed s {p} s1" using free_page_ok [of s p] by auto
  then have "pmem_ok (pm s1)" "set ps \<subseteq> owned (pm s1)" using Cons.prems by (auto simp: freed_def)
  then obtain s2 where "free_all ps s1 = Inr s2" "freed s1 (set ps) s2" using Cons.IH [of s1] Cons.prems(2) by auto
  then show ?case using s1 freed_trans [OF s1(2)] by auto
qed (simp add: freed_def)

definition frame_at :: "vm \<Rightarrow> 32 word \<Rightarrow> nat \<Rightarrow> 32 word list" where
  "frame_at s pt j = (let e = rd32 s (slot pt (of_nat j)) in
     if e AND PTE_P \<noteq> 0 then (case pte_get_page e of Inl _ \<Rightarrow> [] | Inr p \<Rightarrow> [p]) else [])"

definition table_pages :: "vm \<Rightarrow> 32 word \<Rightarrow> nat \<Rightarrow> 32 word list" where
  "table_pages s pt j = concat (map (frame_at s pt) [j..<1024])"

definition dir_pages_at :: "vm \<Rightarrow> 32 word \<Rightarrow> nat \<Rightarrow> 32 word list" where
  "dir_pages_at s pd i = (case table_of s pd (of_nat i) of None \<Rightarrow> [] | Some pt \<Rightarrow> table_pages s pt 0 @ [pt])"

definition dir_pages :: "vm \<Rightarrow> 32 word \<Rightarrow> nat \<Rightarrow> 32 word list" where
  "dir_pages s pd i = concat (map (dir_pages_at s pd) [i..<768])"

definition table_ok :: "vm \<Rightarrow> 32 word \<Rightarrow> bool" where
  "table_ok s pt \<longleftrightarrow> pg_ofs pt = 0 \<and> (\<forall>j<1024. rd32 s (slot pt (of_nat j)) AND PTE_P \<noteq> 0 \<longrightarrow> (\<exists>p. pte_get_page (rd32 s (slot pt (of_nat j))) = Inr p))"

definition dir_ok :: "vm \<Rightarrow> 32 word \<Rightarrow> nat \<Rightarrow> bool" where
  "dir_ok s pd i \<longleftrightarrow> pg_ofs pd = 0 \<and> (\<forall>k. i \<le> k \<and> k < 768 \<longrightarrow> rd32 s (slot pd (of_nat k)) = 0
      \<or> (\<exists>pt. pde_get_pt (rd32 s (slot pd (of_nat k))) = Inr pt \<and> table_ok s pt))
     \<and> distinct (dir_pages s pd i @ [pd]) \<and> set (dir_pages s pd i) \<subseteq> owned (pm s) \<and> pmem_ok (pm s)"

lemma unat_index: "k < 1024 \<Longrightarrow> unat (of_nat k :: 32 word) = k"
  by (simp add: unat_of_nat)

lemma slot_index_page: "pg_ofs p = 0 \<Longrightarrow> k < 1024 \<Longrightarrow> pg_round_down (slot p (of_nat k)) = p"
  by (rule slot_page) (simp_all add: unat_index)

lemma concat_map_upt: "i < n \<Longrightarrow> concat (map f [i..<n]) = f i @ concat (map f [Suc i..<n])"
  by (simp add: upt_conv_Cons)

lemma frame_at_cong: "freed s A s' \<Longrightarrow> pg_ofs pt = 0 \<Longrightarrow> pt \<notin> A \<Longrightarrow> j < 1024 \<Longrightarrow> frame_at s' pt j = frame_at s pt j"
  by (simp add: frame_at_def freed_def slot_index_page)

lemma table_pages_cong: "freed s A s' \<Longrightarrow> pg_ofs pt = 0 \<Longrightarrow> pt \<notin> A \<Longrightarrow> table_pages s' pt j = table_pages s pt j"
  unfolding table_pages_def by (intro arg_cong [where f = concat] map_cong) (auto simp: frame_at_cong)

lemma destroy_table_eq:
  assumes "pmem_ok (pm s)" "table_ok s pt" "distinct (table_pages s pt j)" "set (table_pages s pt j) \<subseteq> owned (pm s)"
    "pt \<notin> set (table_pages s pt j)"
  shows "destroy_table pt j s = free_all (table_pages s pt j) s"
  using assms
proof (induction "1024 - j" arbitrary: j s)
  case 0
  then show ?case by (simp add: destroy_table.simps PGSIZE_def table_pages_def)
next
  case (Suc n)
  then have j: "j < 1024" "n = 1024 - Suc j" by auto
  have tp: "table_pages s pt j = frame_at s pt j @ table_pages s pt (Suc j)"
    unfolding table_pages_def by (rule concat_map_upt [OF j(1)])
  have step: "destroy_table pt j s = bind_r (free_all (frame_at s pt j) s) (destroy_table pt (Suc j))"
    using j(1) Suc.prems(2)
    by (subst destroy_table.simps) (auto simp: PGSIZE_def frame_at_def Let_def table_ok_def split: sum.splits)
  obtain s1 where s1: "free_all (frame_at s pt j) s = Inr s1" "freed s (set (frame_at s pt j)) s1"
    using free_all_ok [OF Suc.prems(1), of "frame_at s pt j"] Suc.prems(3,4) tp by auto
  have pt: "pg_ofs pt = 0" "pt \<notin> set (frame_at s pt j)" using Suc.prems(2,5) tp by (auto simp: table_ok_def)
  have tp1: "table_pages s1 pt (Suc j) = table_pages s pt (Suc j)" by (rule table_pages_cong [OF s1(2) pt])
  have "table_ok s1 pt" using Suc.prems(2) s1(2) pt by (simp add: table_ok_def freed_def slot_index_page)
  moreover have "set (table_pages s pt (Suc j)) \<subseteq> owned (pm s1)" "pmem_ok (pm s1)"
    using Suc.prems(3,4) s1(2) tp by (auto simp: freed_def)
  ultimately have "destroy_table pt (Suc j) s1 = free_all (table_pages s pt (Suc j)) s1"
    using Suc.hyps(1) [OF j(2), of s1] Suc.prems(3,5) tp tp1 by simp
  then show ?case using step s1(1) tp by (simp add: free_all_append)
qed

lemma dir_pages_at_cong:
  assumes "freed s A s'" "pg_ofs pd = 0" "pd \<notin> A" "k < 768"
    "\<And>pt. table_of s pd (of_nat k) = Some pt \<Longrightarrow> pg_ofs pt = 0 \<and> pt \<notin> A"
  shows "dir_pages_at s' pd k = dir_pages_at s pd k"
proof -
  have "rd32 s' (slot pd (of_nat k)) = rd32 s (slot pd (of_nat k))"
    using assms(1-4) by (simp add: freed_def slot_index_page)
  then have "table_of s' pd (of_nat k) = table_of s pd (of_nat k)" by (simp add: table_of_def)
  then show ?thesis using assms(5) table_pages_cong [OF assms(1)] by (auto simp: dir_pages_at_def split: option.splits)
qed

lemma dir_ok_table:
  assumes "dir_ok s pd i" "i \<le> k" "k < 768" "table_of s pd (of_nat k) = Some pt"
  shows "table_ok s pt" "pt \<in> set (dir_pages_at s pd k)" "dir_pages_at s pd k = table_pages s pt 0 @ [pt]"
proof -
  have "pde_get_pt (rd32 s (slot pd (of_nat k))) = Inr pt" "rd32 s (slot pd (of_nat k)) \<noteq> 0"
    using assms(4) by (auto simp: table_of_def Let_def split: if_splits sum.splits)
  then show "table_ok s pt" using assms(1-3) by (auto simp: dir_ok_def)
  show "pt \<in> set (dir_pages_at s pd k)" "dir_pages_at s pd k = table_pages s pt 0 @ [pt]"
    using assms(4) by (simp_all add: dir_pages_at_def)
qed

text \<open>Freeing the pages of entry \<open>i\<close> leaves the rest of the directory as it was.\<close>

lemma dir_ok_step:
  assumes ok: "dir_ok s pd i" and i: "i < 768" and f: "freed s (set (dir_pages_at s pd i)) s1"
  shows "dir_ok s1 pd (Suc i)" "dir_pages s1 pd (Suc i) = dir_pages s pd (Suc i)"
proof -
  let ?A = "set (dir_pages_at s pd i)"
  have dp: "dir_pages s pd i = dir_pages_at s pd i @ dir_pages s pd (Suc i)" unfolding dir_pages_def by (rule concat_map_upt [OF i])
  have D: "distinct (dir_pages s pd i @ [pd])" "set (dir_pages s pd i) \<subseteq> owned (pm s)" "pg_ofs pd = 0" using ok by (simp_all add: dir_ok_def)
  have sub: "set (dir_pages_at s pd k) \<subseteq> set (dir_pages s pd (Suc i))" if "Suc i \<le> k" "k < 768" for k
    using that by (auto simp: dir_pages_def)
  have tab: "pg_ofs pt = 0 \<and> pt \<notin> ?A \<and> table_ok s pt" if k: "Suc i \<le> k" "k < 768" "table_of s pd (of_nat k) = Some pt" for k pt
    using dir_ok_table [OF ok _ k(2,3)] sub [OF k(1,2)] k(1) D(1) dp by (auto simp: table_ok_def)
  have at: "dir_pages_at s1 pd k = dir_pages_at s pd k" if "Suc i \<le> k" "k < 768" for k
    by (rule dir_pages_at_cong [OF f D(3)]) (use D(1) dp tab that in auto)
  show eq: "dir_pages s1 pd (Suc i) = dir_pages s pd (Suc i)"
    unfolding dir_pages_def by (intro arg_cong [where f = concat] map_cong) (auto simp: at)
  have same: "rd32 s1 (slot pd (of_nat k)) = rd32 s (slot pd (of_nat k))" if "k < 768" for k
    using f D(1,3) dp that by (simp add: freed_def slot_index_page)
  have "rd32 s1 (slot pd (of_nat k)) = 0 \<or> (\<exists>pt. pde_get_pt (rd32 s1 (slot pd (of_nat k))) = Inr pt \<and> table_ok s1 pt)"
    if k: "Suc i \<le> k" "k < 768" for k
  proof (cases "table_of s pd (of_nat k)")
    case None
    moreover have "rd32 s (slot pd (of_nat k)) = 0 \<or> (\<exists>pt. pde_get_pt (rd32 s (slot pd (of_nat k))) = Inr pt)"
      using ok k Suc_leD [OF k(1)] unfolding dir_ok_def by blast
    ultimately show ?thesis using same [OF k(2)] by (auto simp: table_of_def Let_def)
  next
    case (Some pt)
    then have "table_ok s1 pt" using tab [OF k Some] f by (simp add: table_ok_def freed_def slot_index_page)
    moreover have "pde_get_pt (rd32 s (slot pd (of_nat k))) = Inr pt"
      using Some by (auto simp: table_of_def Let_def split: if_splits sum.splits)
    ultimately show ?thesis using same [OF k(2)] by simp
  qed
  then show "dir_ok s1 pd (Suc i)" using D dp eq f by (auto simp: dir_ok_def freed_def)
qed

lemma destroy_dir_eq:
  assumes "dir_ok s pd i"
  shows "destroy_dir pd i s = free_all (dir_pages s pd i) s"
  using assms
proof (induction "768 - i" arbitrary: i s)
  case 0
  then show ?case by (simp add: destroy_dir.simps unat_pd_no PHYS_BASE_def dir_pages_def)
next
  case (Suc n)
  then have i: "i < 768" "n = 768 - Suc i" by auto
  note ok = Suc.prems
  have dp: "dir_pages s pd i = dir_pages_at s pd i @ dir_pages s pd (Suc i)" unfolding dir_pages_def by (rule concat_map_upt [OF i(1)])
  have D: "distinct (dir_pages s pd i @ [pd])" "set (dir_pages s pd i) \<subseteq> owned (pm s)" "pmem_ok (pm s)" using ok by (simp_all add: dir_ok_def)
  have inner: "(let pde = rd32 s (slot pd (of_nat i)) in if pde AND PTE_P \<noteq> 0
      then bind_r (pde_get_pt pde) (\<lambda>pt. bind_r (destroy_table pt 0 s) (\<lambda>s. free_page pt s)) else Inr s)
      = free_all (dir_pages_at s pd i) s"
  proof (cases "table_of s pd (of_nat i)")
    case None
    have "rd32 s (slot pd (of_nat i)) = 0" using ok i(1) None by (auto simp: dir_ok_def table_of_def Let_def split: if_splits sum.splits)
    then show ?thesis using None by (simp add: dir_pages_at_def)
  next
    case (Some pt)
    note T = dir_ok_table [OF ok order_refl i(1) Some]
    have e: "pde_get_pt (rd32 s (slot pd (of_nat i))) = Inr pt" using Some by (auto simp: table_of_def Let_def split: if_splits sum.splits)
    then have "rd32 s (slot pd (of_nat i)) AND PTE_P \<noteq> 0" by (auto simp: pde_get_pt_def ASSERT_eq_Inr)
    moreover have "destroy_table pt 0 s = free_all (table_pages s pt 0) s"
      by (rule destroy_table_eq [OF D(3) T(1)]) (use D(1,2) dp T(3) in auto)
    ultimately show ?thesis using e T(3) by (simp add: Let_def free_all_append free_all_single del: free_all.simps)
  qed
  obtain s1 where s1: "free_all (dir_pages_at s pd i) s = Inr s1" "freed s (set (dir_pages_at s pd i)) s1"
    using free_all_ok [OF D(3), of "dir_pages_at s pd i"] D(1,2) dp by auto
  note N = dir_ok_step [OF ok i(1) s1(2)]
  have "destroy_dir pd i s = bind_r (free_all (dir_pages_at s pd i) s) (destroy_dir pd (Suc i))"
    using inner i(1) by (subst destroy_dir.simps) (simp add: unat_pd_no PHYS_BASE_def Let_def)
  then show ?case using Suc.hyps(1) [OF i(2) N(1)] N(2) s1(1) dp by (simp add: free_all_append)
qed

lemma pagedir_destroy_aux:
  assumes "dir_ok s pd 0" "pd \<in> owned (pm s)" "pd \<noteq> init_page_dir s"
  shows "\<exists>s'. pagedir_destroy pd s = Inr s' \<and> freed s (insert pd (set (dir_pages s pd 0))) s'"
proof -
  have "pd \<noteq> 0" using pp.held_page assms by (auto simp: dir_ok_def)
  then have "pagedir_destroy pd s = free_all (dir_pages s pd 0 @ [pd]) s"
    using assms(3) destroy_dir_eq [OF assms(1)] by (simp add: pagedir_destroy_def free_all_append free_all_single del: free_all.simps)
  then show ?thesis using free_all_ok [of s "dir_pages s pd 0 @ [pd]"] assms by (auto simp: dir_ok_def)
qed

section \<open>Ownership of the installed pages\<close>

lemma mset_concat_change:
  assumes "distinct xs" "k \<in> set xs" "\<And>x. x \<in> set xs \<Longrightarrow> x \<noteq> k \<Longrightarrow> f' x = f x"
  shows "mset (concat (map f' xs)) + mset (f k) = mset (concat (map f xs)) + mset (f' k)"
  using assms
proof (induction xs)
  case (Cons x xs)
  show ?case
  proof (cases "x = k")
    case True
    then have "concat (map f' xs) = concat (map f xs)"
      using Cons.prems(1,3) by (intro arg_cong [where f = concat] map_cong) auto
    then show ?thesis using True by (simp add: ac_simps)
  next
    case False
    then show ?thesis using Cons by (auto simp: ac_simps)
  qed
qed simp

lemma index_of_nat: "unat k < 1024 \<Longrightarrow> j < 1024 \<Longrightarrow> of_nat j = (k :: 32 word) \<longleftrightarrow> j = unat k"
  using unat_index by (auto simp: word_unat_eq_iff)

lemma dir_pages_write:
  assumes ok: "pd_ok s pd" "is_user_vaddr va" "table_of s pd (pd_no va) = Some pt"
    and old: "rd32 s (slot pt (pt_no va)) AND PTE_P = 0" and new: "e AND PTE_P \<noteq> 0" "pte_get_page e = Inr kpage"
  shows "mset (dir_pages (wr32 (slot pt (pt_no va)) e s) pd 0) = mset (dir_pages s pd 0) + {#kpage#}"
proof -
  let ?a = "slot pt (pt_no va)" and ?s = "wr32 (slot pt (pt_no va)) e s" and ?k = "unat (pd_no va)" and ?j = "unat (pt_no va)"
  have u: "?k < 768" using ok(2) by (simp add: pd_no_user)
  note T = table_ofD [OF ok(1,3) u] and W = write_entry [OF ok, where v = e]
  have fr: "frame_at ?s q j = (if q = pt \<and> j = ?j then [kpage] else frame_at s q j)" if "pg_ofs q = 0" "j < 1024" for q j
    using slot_inj [OF that(1) _ T(3) pt_no_less, of "of_nat j" va] index_of_nat [OF pt_no_less that(2)] unat_index [OF that(2)] that(2) new
    by (auto simp: frame_at_def)
  have z: "frame_at s pt ?j = []" using old by (simp add: frame_at_def)
  have tp: "mset (table_pages ?s pt 0) = mset (table_pages s pt 0) + {#kpage#}"
    unfolding table_pages_def
    using mset_concat_change [of "[0..<1024]" ?j "frame_at ?s pt" "frame_at s pt"] fr [OF T(3)] z pt_no_less by simp
  have tq: "table_pages ?s q 0 = table_pages s q 0" if "q \<noteq> pt" "pg_ofs q = 0" for q
    unfolding table_pages_def by (intro arg_cong [where f = concat] map_cong) (use fr that in auto)
  have other: "dir_pages_at ?s pd k = dir_pages_at s pd k" if "k < 768" "k \<noteq> ?k" for k
  proof -
    have uk: "unat (of_nat k :: 32 word) = k" using that(1) by (simp add: unat_index)
    have "q \<noteq> pt \<and> pg_ofs q = 0" if q: "table_of s pd (of_nat k) = Some q" for q
      using pd_ok_inj [OF ok(1) _ u q, of] table_ofD(3) [OF ok(1) q] ok(3) uk \<open>k < 768\<close> \<open>k \<noteq> ?k\<close> by auto
    then show ?thesis using tq W(2) [of "of_nat k"] uk that(1) by (auto simp: dir_pages_at_def split: option.splits)
  qed
  have "mset (dir_pages_at ?s pd ?k) = mset (dir_pages_at s pd ?k) + {#kpage#}"
    using W(2) [OF u] ok(3) tp by (simp add: dir_pages_at_def)
  then show ?thesis unfolding dir_pages_def
    using mset_concat_change [of "[0..<768]" ?k "dir_pages_at ?s pd" "dir_pages_at s pd"] other u by simp
qed

lemma dir_pages_create:
  assumes ok: "pd_ok s pd" and u: "is_user_vaddr va" and t: "table_of s pd (pd_no va) = None"
    and m: "pt \<notin> owned (pm s)" "owned m = insert pt (owned (pm s))" "pmem_ok m" "pg_ofs pt = 0"
    and cells: "\<And>a. kcells m a = (if pg_round_down a = pt then 0 else rd32 s a)"
    and e: "pde_get_pt e = Inr pt" "e \<noteq> 0"
  shows "mset (dir_pages (wr32 (slot pd (pd_no va)) e (s\<lparr>pm := m\<rparr>)) pd 0) = mset (dir_pages s pd 0) + {#pt#}"
proof -
  let ?s = "wr32 (slot pd (pd_no va)) e (s\<lparr>pm := m\<rparr>)" and ?k = "unat (pd_no va)"
  have uk: "?k < 768" using u by (simp add: pd_no_user)
  note C = create_table [OF assms] and pg = pd_ok_page(1) [OF ok]
  have ptpd: "pt \<noteq> pd" using m(1) pd_ok_pmem(2) [OF ok] by auto
  have rdq: "rd32 ?s (slot q (of_nat j)) = (if q = pt then 0 else rd32 s (slot q (of_nat j)))"
    if "pg_ofs q = 0" "q \<noteq> pd" "j < 1024" for q j
    using slot_inj [OF that(1) _ pg pd_no_less, of "of_nat j" va] unat_index [OF that(3)] that cells [of "slot q (of_nat j)"]
      slot_index_page [OF that(1,3)] by simp
  have "frame_at ?s pt j = []" if "j < 1024" for j using rdq [OF m(4) ptpd that] by (simp add: frame_at_def)
  then have tp: "table_pages ?s pt 0 = []" by (simp add: table_pages_def)
  have tq: "table_pages ?s q 0 = table_pages s q 0" if "pg_ofs q = 0" "q \<noteq> pd" "q \<noteq> pt" for q
    unfolding table_pages_def by (intro arg_cong [where f = concat] map_cong) (use rdq that in \<open>auto simp: frame_at_def\<close>)
  have other: "dir_pages_at ?s pd k = dir_pages_at s pd k" if "k < 768" "k \<noteq> ?k" for k
  proof -
    have un: "unat (of_nat k :: 32 word) = k" using that(1) by (simp add: unat_index)
    have "pg_ofs q = 0 \<and> q \<noteq> pd \<and> q \<noteq> pt" if q: "table_of s pd (of_nat k) = Some q" for q
      using table_ofD(1-3) [OF ok q] un \<open>k < 768\<close> m(1) by auto
    moreover have "of_nat k \<noteq> pd_no va" using un that(2) by auto
    ultimately show ?thesis using tq C(2) [of "of_nat k"] un that(1) by (auto simp: dir_pages_at_def split: option.splits)
  qed
  have "dir_pages_at ?s pd ?k = [pt]" "dir_pages_at s pd ?k = []" using C(2) [OF uk] t tp by (simp_all add: dir_pages_at_def)
  then show ?thesis unfolding dir_pages_def
    using mset_concat_change [of "[0..<768]" ?k "dir_pages_at ?s pd" "dir_pages_at s pd"] other uk by simp
qed

text \<open>A directory owns its pages: the tables and the frames of its present entries are distinct pages in use.\<close>

definition pd_owned :: "vm \<Rightarrow> 32 word \<Rightarrow> bool" where
  "pd_owned s pd \<longleftrightarrow> pd_ok s pd \<and> (\<forall>v t. is_user_vaddr v \<and> mapping s pd v = Some t \<longrightarrow> (\<exists>p. pte_get_page t = Inr p))
     \<and> distinct (dir_pages s pd 0 @ [pd]) \<and> set (dir_pages s pd 0) \<subseteq> owned (pm s)"

lemma address_of_indices:
  assumes "k < 768" "j < 1024"
  obtains va where "is_user_vaddr va" "pd_no va = of_nat k" "pt_no va = of_nat j"
proof -
  define n where "n = (k * 1024 + j) * 4096"
  have u: "unat (of_nat n :: 32 word) = n" using assms by (intro unat_of_nat32) (simp add: n_def)
  have n: "n div 4096 = k * 1024 + j" by (simp add: n_def)
  have "n div 4194304 = n div 4096 div 1024" by (simp add: div_mult2_eq [symmetric])
  then have d: "n div 4194304 = k" "n div 4096 mod 1024 = j" using assms(2) unfolding n by simp_all
  show thesis
  proof (rule that)
    show pd: "pd_no (of_nat n) = of_nat k" using d(1) assms(1) by (simp add: word_unat_eq_iff unat_pd_no u unat_index)
    show "is_user_vaddr (of_nat n)" unfolding pd_no_user pd using assms(1) by (simp add: unat_index)
    show "pt_no (of_nat n) = of_nat j" using d(2) assms(2) by (simp add: word_unat_eq_iff unat_pt_no u unat_index)
  qed
qed

lemma pd_owned_dir_ok:
  assumes "pd_owned s pd"
  shows "dir_ok s pd 0"
proof -
  have ok: "pd_ok s pd" using assms by (simp add: pd_owned_def)
  have tab: "table_ok s pt" if k: "k < 768" and t: "table_of s pd (of_nat k) = Some pt" for k pt
  proof -
    have pg: "pg_ofs pt = 0" using table_ofD(3) [OF ok t] k by (simp add: unat_index)
    have "\<exists>p. pte_get_page (rd32 s (slot pt (of_nat j))) = Inr p"
      if j: "j < 1024" and P: "rd32 s (slot pt (of_nat j)) AND PTE_P \<noteq> 0" for j
    proof -
      obtain va where va: "is_user_vaddr va" "pd_no va = of_nat k" "pt_no va = of_nat j" using address_of_indices [OF k j] .
      then have "mapping s pd va = Some (rd32 s (slot pt (of_nat j)))" using t P by (simp add: mapping_def entry_def present_def)
      then show ?thesis using assms va(1) by (auto simp: pd_owned_def)
    qed
    then show ?thesis using pg by (simp add: table_ok_def)
  qed
  have "rd32 s (slot pd (of_nat k)) = 0 \<or> (\<exists>pt. pde_get_pt (rd32 s (slot pd (of_nat k))) = Inr pt \<and> table_ok s pt)" if "k < 768" for k
    using tab [OF that] table_of_None [OF ok, of "of_nat k"] table_ofD(5) [OF ok, of "of_nat k"] that
    by (cases "table_of s pd (of_nat k)") (auto simp: unat_index)
  then show ?thesis using assms pd_ok_page(1) [OF ok] pd_ok_pmem(1) [OF ok] by (simp add: dir_ok_def pd_owned_def)
qed

lemma set_page_pages:
  assumes ok: "pd_ok s pd" and r: "pagedir_set_page pd u k w s = Inr (s', True)"
  shows "\<exists>new. mset (dir_pages s' pd 0) = mset (dir_pages s pd 0) + {#k#} + mset new \<and> distinct new
           \<and> set new \<inter> owned (pm s) = {} \<and> owned (pm s') = owned (pm s) \<union> set new"
proof -
  note P = pagedir_set_page_pre [OF ok r]
  obtain e where e: "pte_create_user k w = Inr e" "pte_get_page e = Inr k" "e AND PTE_P \<noteq> 0"
    using pte_create_user_roundtrip_aux [OF P(4,3), of w] by blast
  have unf: "bind_r (lookup_page pd u True s) (\<lambda>(s, pte). if pte \<noteq> 0
       then ASSERT (rd32 s pte AND PTE_P = 0) (Inr (wr32 pte e s, True)) else Inr (s, False)) = Inr (s', True)"
    using r unfolding pagedir_set_page_def e(1) bind_r_Inr using P by (simp add: vtop_kernel)
  show ?thesis
  proof (cases "table_of s pd (pd_no u)")
    case (Some pt)
    have "rd32 s (slot pt (pt_no u)) AND PTE_P = 0" "s' = wr32 (slot pt (pt_no u)) e s"
      using unf lookup_page_find(1) [OF ok P(2) Some, of True] by (simp_all add: ASSERT_eq_Inr)
    then show ?thesis using dir_pages_write [OF ok P(2) Some _ e(3,2)] by (intro exI [of _ "[]"]) simp
  next
    case None
    show ?thesis
    proof (rule lookup_page_create [OF ok P(2) None])
      assume "lookup_page pd u True s = Inr (s, 0)"
      then show ?thesis using unf by simp
    next
      fix m pt assume g: "pt \<notin> owned (pm s)" "owned m = insert pt (owned (pm s))" "\<And>a. kcells m a = (if pg_round_down a = pt then 0 else rd32 s a)"
        and l: "\<And>e. pde_create pt = Inr e \<Longrightarrow> lookup_page pd u True s = Inr (wr32 (slot pd (pd_no u)) e (s\<lparr>pm := m\<rparr>), slot pt (pt_no u))"
        and ex: "\<exists>e. pde_create pt = Inr e \<and> pde_get_pt e = Inr pt \<and> e \<noteq> 0" and mok: "pmem_ok m" "pg_ofs pt = 0" "is_kernel_vaddr pt"
      obtain d where d: "pde_create pt = Inr d" "pde_get_pt d = Inr pt" "d \<noteq> 0" using ex by blast
      let ?s = "wr32 (slot pd (pd_no u)) d (s\<lparr>pm := m\<rparr>)"
      note C = create_table [OF ok P(2) None g(1,2) mok(1,2) g(3) d(2,3)]
      have t: "table_of ?s pd (pd_no u) = Some pt" using C(2) [of "pd_no u"] P(2) by (simp add: pd_no_user)
      have z: "rd32 ?s (slot pt (pt_no u)) = 0" using C(3) [OF P(2)] t by (simp add: entry_def)
      have "s' = wr32 (slot pt (pt_no u)) e ?s" using unf l [OF d(1)] z slot_nonzero [OF mok(2,3) pt_no_less] by simp
      then have "mset (dir_pages s' pd 0) = mset (dir_pages s pd 0) + {#k#} + mset [pt]" "owned (pm s') = owned (pm s) \<union> set [pt]"
        using dir_pages_write [OF C(1) P(2) t _ e(3,2)] z dir_pages_create [OF ok P(2) None g(1,2) mok(1,2) g(3) d(2,3)] g(2) by simp_all
      then show ?thesis using g(1) by (intro exI [of _ "[pt]"]) simp
    qed
  qed
qed

lemma set_page_owned:
  assumes own: "pd_owned s pd" and r: "pagedir_set_page pd u k w s = Inr (s', True)"
    and k: "k \<in> owned (pm s)" "k \<notin> set (dir_pages s pd 0)" "k \<noteq> pd"
  shows "pd_owned s' pd" and "\<exists>new. set (dir_pages s' pd 0) = insert k (set (dir_pages s pd 0)) \<union> new
           \<and> owned (pm s') = owned (pm s) \<union> new \<and> new \<inter> owned (pm s) = {}"
proof -
  have ok: "pd_ok s pd" using own by (simp add: pd_owned_def)
  obtain new where n: "mset (dir_pages s' pd 0) = mset (dir_pages s pd 0) + {#k#} + mset new" "distinct new"
      "set new \<inter> owned (pm s) = {}" "owned (pm s') = owned (pm s) \<union> set new" using set_page_pages [OF ok r] by blast
  have M: "mset (dir_pages s' pd 0) = mset (dir_pages s pd 0 @ [k] @ new)" using n(1) by simp
  have S: "set (dir_pages s' pd 0) = insert k (set (dir_pages s pd 0)) \<union> set new" using mset_eq_setD [OF M] by auto
  have D: "distinct (dir_pages s' pd 0) = distinct (dir_pages s pd 0 @ [k] @ new)" by (rule mset_eq_imp_distinct_iff [OF M])
  have O: "set (dir_pages s pd 0) \<subseteq> owned (pm s)" "distinct (dir_pages s pd 0 @ [pd])" "pd \<in> owned (pm s)"
    using own pd_ok_pmem(2) [OF ok] by (simp_all add: pd_owned_def)
  have "distinct (dir_pages s' pd 0 @ [pd])" using D S n(2,3) O k by auto
  moreover have "set (dir_pages s' pd 0) \<subseteq> owned (pm s')" using S n(4) O(1) k(1) by auto
  moreover have "pd_ok s' pd \<and> (\<forall>v t. is_user_vaddr v \<and> mapping s' pd v = Some t \<longrightarrow> (\<exists>p. pte_get_page t = Inr p))"
  proof (rule pagedir_set_page_result [OF ok r])
    fix e assume e: "pte_create_user k w = Inr e" and ok': "pd_ok s' pd"
      and m: "\<And>v. is_user_vaddr v \<Longrightarrow> mapping s' pd v = (if True \<and> pg_round_down v = u then Some e else mapping s pd v)"
    have "pte_get_page e = Inr k" using pte_create_user_roundtrip_aux [of k w] e pp.held_page [OF pd_ok_pmem(1) [OF ok] k(1)] by auto
    then show ?thesis using ok' m own by (auto simp: pd_owned_def split: if_splits)
  qed
  ultimately show "pd_owned s' pd" by (simp add: pd_owned_def)
  show "\<exists>new. set (dir_pages s' pd 0) = insert k (set (dir_pages s pd 0)) \<union> new
           \<and> owned (pm s') = owned (pm s) \<union> new \<and> new \<inter> owned (pm s) = {}"
    using S n(3,4) by blast
qed

text \<open>A directory whose user part is empty: it owns nothing but itself.\<close>

lemma empty_directory:
  assumes "pmem_ok (pm s)" "pd \<in> owned (pm s)" "\<And>i. unat i < 768 \<Longrightarrow> rd32 s (slot pd i) = 0"
  shows "pd_owned s pd" "dir_pages s pd 0 = []" "footprint s pd = {pd}"
    "\<And>v. is_user_vaddr v \<Longrightarrow> mapping s pd v = None"
proof -
  have t: "table_of s pd i = None" if "unat i < 768" for i using assms(3) [OF that] by (simp add: table_of_def)
  then show dp: "dir_pages s pd 0 = []" by (simp add: dir_pages_def dir_pages_at_def unat_index)
  show "footprint s pd = {pd}" using t by (auto simp: footprint_def)
  show m: "mapping s pd v = None" if "is_user_vaddr v" for v using t [of "pd_no v"] that by (simp add: mapping_def entry_def pd_no_user)
  show "pd_owned s pd" using assms t dp m by (auto simp: pd_owned_def pd_ok_def)
qed

lemma pagedir_create_ok:
  assumes ok: "pmem_ok (pm s)" and i: "init_page_dir s \<in> owned (pm s)" "\<And>i. unat i < 768 \<Longrightarrow> rd32 s (slot (init_page_dir s) i) = 0"
  shows "\<exists>s' pd. pagedir_create s = Inr (s', pd) \<and> (if pd = 0 then s' = s
     else pd_owned s' pd \<and> dir_pages s' pd 0 = [] \<and> pd \<notin> owned (pm s) \<and> owned (pm s') = insert pd (owned (pm s))
       \<and> (\<forall>i. unat i < 1024 \<longrightarrow> rd32 s' (slot pd i) = rd32 s (slot (init_page_dir s) i)))"
proof -
  obtain m pd where g: "palloc_get_page 0 (pm s) = Inr (m, pd)" using pp.get_total [OF ok, of 0] by auto
  show ?thesis
  proof (cases "pd = 0")
    case True
    then have "m = pm s" using pp.get_null [OF ok] g by blast
    then show ?thesis using g True by (simp add: pagedir_create_def)
  next
    case False
    note gp = pp.get_page [OF ok g False] and gm = pp.get_mem [OF ok g False] and gf = pp.get_fresh(1) [OF ok g False]
    let ?s = "s\<lparr>pm := m\<lparr>kcells := copy_page (kcells m) pd (init_page_dir s)\<rparr>\<rparr>"
    have rd: "rd32 ?s (slot pd i) = rd32 s (slot (init_page_dir s) i)" if "unat i < 1024" for i
    proof -
      have "unat (slot pd i) < unat pd + PGSIZE" "unat pd \<le> unat (slot pd i)" using unat_slot [OF gf that] that by (simp_all add: PGSIZE_def)
      moreover have "init_page_dir s + (slot pd i - pd) = slot (init_page_dir s) i" by (simp add: slot_def)
      ultimately show ?thesis using gm by (simp add: copy_page_def)
    qed
    have "pmem_ok (pm ?s)" "pd \<in> owned (pm ?s)" using gp by simp_all
    note E = empty_directory [OF this]
    have "pd_owned ?s pd" "dir_pages ?s pd 0 = []" using E(1,2) rd i(2) by (simp_all add: less_trans [of _ 768 1024])
    then show ?thesis using g False gp rd by (simp add: pagedir_create_def Let_def)
  qed
qed

section \<open>Properties\<close>


definition vm_example :: vm where
  "vm_example = \<lparr>pm = palloc_example\<lparr>kcells := (\<lambda>_. 0)\<rparr>, init_page_dir = 0xc0101000, init_ram_pages = 1024,
     cr3 = 0x101000, tlb = (\<lambda>_. None)\<rparr>"

lemma vm_example_owned: "pmem_ok (pm vm_example)" "{0xc0101000, 0xc0102000, 0xc0103000} \<subseteq> owned (pm vm_example)"
proof -
  show ok: "pmem_ok (pm vm_example)" using palloc_example_ok by (simp add: vm_example_def)
  have pok: "pool_ok (kernel_pool palloc_example)" using palloc_example_ok by (simp add: pmem_ok_def)
  have "paddr (kernel_pool palloc_example) i \<in> owned palloc_example" if "i < 4" for i
  proof -
    have "list_all (\<lambda>i. bitmap_abs bitmap_example ! i) [0..<4]" by code_simp
    then have "bitmap_abs bitmap_example ! i" using that by (simp add: list_all_iff)
    then show ?thesis using paddr_used [OF pok, of i] that by (simp add: palloc_example_def owned_def bitmap_example_def)
  qed
  from this [of 0] this [of 1] this [of 2]
  have "{0xc0101000, 0xc0102000, 0xc0103000} \<subseteq> owned palloc_example"
    by (simp add: paddr_def palloc_example_def)
  then show "{0xc0101000, 0xc0102000, 0xc0103000} \<subseteq> owned (pm vm_example)" by (simp add: vm_example_def)
qed

lemma vm_example_dirs: "pd \<in> {0xc0101000, 0xc0102000} \<Longrightarrow> pd_owned vm_example pd \<and> dir_pages vm_example pd 0 = [] \<and> footprint vm_example pd = {pd}"
  "pd \<in> {0xc0101000, 0xc0102000} \<Longrightarrow> is_user_vaddr v \<Longrightarrow> mapping vm_example pd v = None"
  using empty_directory [OF vm_example_owned(1), of pd] vm_example_owned(2) by (auto simp: vm_example_def)


text \<open>C1: In every state reached by directory operations on a family of well-formed, disjoint directories interleaved with
  memory accesses of the processor through the active one, the directories stay well-formed and disjoint and the
  translation lookaside buffer is coherent: a cached translation agrees with a present entry of the active directory.\<close>

theorem tlb_coherent_always:
  assumes "vm_ok P s" "(vm_step P)\<^sup>*\<^sup>* s s'"
  shows "vm_ok P s' \<and> (\<forall>v e. is_user_vaddr v \<and> tlb s' (pg_round_down v) = Some e \<longrightarrow>
     (\<exists>a\<in>P. active_pd s' = Inr a \<and> (\<exists>t. mapping s' a v = Some t \<and> agrees e t)))"
  using vm_steps_ok [OF assms(2,1)] unfolding vm_ok_def coherent_def by blast

lemma vm_example_ok: "vm_ok {0xc0101000, 0xc0102000} vm_example"
  using vm_example_dirs(1) coherent_empty [of vm_example]
  by (auto simp: vm_ok_def pd_owned_def active_pd_def ptov_def vm_example_def PHYS_BASE_def)

theorem tlb_coherent_always_witness:
  "\<exists>s'. (vm_step {0xc0101000, 0xc0102000})\<^sup>*\<^sup>* vm_example s' \<and> vm_ok {0xc0101000, 0xc0102000} s' \<and> active_pd s' = Inr 0xc0102000"
proof -
  have k: "is_kernel_vaddr 0xc0102000" by (simp add: is_kernel_vaddr_def PHYS_BASE_def)
  let ?s = "vm_example\<lparr>cr3 := 0xc0102000 - PHYS_BASE, tlb := (\<lambda>_. None)\<rparr>"
  have "exec_op 0xc0102000 Activate vm_example = Inr ?s" using activate_result(1) [OF k] by simp
  then have "vm_step {0xc0101000, 0xc0102000} vm_example ?s"
    by (intro vm_step.kernel [of "0xc0102000" _ Activate]) (simp_all add: is_user_vaddr_def PHYS_BASE_def)
  then have st: "(vm_step {0xc0101000, 0xc0102000})\<^sup>*\<^sup>* vm_example ?s" by (rule r_into_rtranclp)
  have "active_pd ?s = Inr 0xc0102000" by (rule activate_result(2) [OF k]) simp
  then show ?thesis using st tlb_coherent_always [OF vm_example_ok st] by (intro exI [of _ ?s]) simp
qed

text \<open>C3: \<open>pagedir_destroy\<close> frees every page of a directory exactly once: after a frame was installed, destroying the
  directory gives back the directory, its page tables (also one created for the frame), the frames installed
  before and the new frame, and no other page.\<close>

theorem pagedir_destroy_frees:
  assumes "pd_owned s pd" "pagedir_set_page pd upage kpage w s = Inr (s', True)"
    "kpage \<in> owned (pm s)" "kpage \<notin> set (dir_pages s pd 0)" "kpage \<noteq> pd"
  shows "\<exists>s''. pagedir_destroy pd s' = Inr s'' \<and> owned (pm s'') = owned (pm s) - insert kpage (insert pd (set (dir_pages s pd 0)))"
proof -
  note O = set_page_owned [OF assms]
  have ok: "pd_ok s pd" "pd_ok s' pd" using assms(1) O(1) by (simp_all add: pd_owned_def)
  have i: "pd \<noteq> init_page_dir s'"
    using pagedir_set_page_pre(6) [OF ok(1) assms(2)] pagedir_set_page_result [OF ok(1) assms(2)] by metis
  obtain new where n: "set (dir_pages s' pd 0) = insert kpage (set (dir_pages s pd 0)) \<union> new"
      "owned (pm s') = owned (pm s) \<union> new" "new \<inter> owned (pm s) = {}" using O(2) by blast
  obtain s'' where s'': "pagedir_destroy pd s' = Inr s''" "owned (pm s'') = owned (pm s') - insert pd (set (dir_pages s' pd 0))"
    using pagedir_destroy_aux [OF pd_owned_dir_ok [OF O(1)] pd_ok_pmem(2) [OF ok(2)] i] by (auto simp: freed_def)
  show ?thesis using s'' n by (intro exI [of _ s'']) auto
qed

lemma vm_example_set:
  "case pagedir_set_page 0xc0102000 0x8048000 0xc0103000 True vm_example of Inl _ \<Rightarrow> False | Inr (s, b) \<Rightarrow> b"
  by code_simp

theorem pagedir_destroy_frees_witness:
  "\<exists>s' s''. pagedir_set_page 0xc0102000 0x8048000 0xc0103000 True vm_example = Inr (s', True) \<and> pagedir_destroy 0xc0102000 s' = Inr s''
     \<and> owned (pm s'') = owned (pm vm_example) - {0xc0103000, 0xc0102000}"
proof -
  obtain s' where s': "pagedir_set_page 0xc0102000 0x8048000 0xc0103000 True vm_example = Inr (s', True)"
    using vm_example_set by (auto split: sum.splits)
  have "pd_owned vm_example 0xc0102000" "dir_pages vm_example 0xc0102000 0 = []" using vm_example_dirs(1) [of "0xc0102000"] by simp_all
  then show ?thesis using pagedir_destroy_frees [OF _ s'] s' vm_example_owned(2) by simp
qed

end
