(* ===== verification/Sched.thy ===== *)
theory Sched
  imports Prelude
begin

text \<open>
  \<^verbatim>\<open>threads/thread.c\<close> and \<^verbatim>\<open>threads/synch.c\<close>: threads, the round-robin scheduler, semaphores, locks and condition
  variables. A thread is known by the address of its page. The code a thread has still to execute in the kernel is
  its \<open>todo\<close> list; executing its first action is one step, because the code disables interrupts for the extent of
  the action or the action is one assignment. An action that blocks leaves the action in place, as the loops
  of the code do. Interrupts may arrive between actions: a timer tick, which can preempt the running thread, and
  an interrupt handler that ups a semaphore. \<open>running_thread\<close> finds the running thread from the stack
  pointer; here it is the component \<open>cur\<close>, changed by the context switch.
\<close>

type_synonym tptr = nat

datatype thread_status = THREAD_RUNNING | THREAD_READY | THREAD_BLOCKED | THREAD_DYING

text \<open>A semaphore is free-standing, part of a lock, or the one on the stack of a thread in \<open>cond_wait\<close>.\<close>

datatype sid = Plain nat | Of_lock nat | Waiter tptr

datatype action =
    Sema_down nat | Sema_try nat | Sema_up nat
  | Lock_acquire nat | Lock_down nat | Lock_take nat | Lock_try nat
  | Lock_release nat | Lock_up nat
  | Cond_wait nat nat | Waiter_down
  | Cond_signal nat nat | Cond_broadcast nat nat
  | Yield | Idle_init | Idle_block
  | Take_tid tptr | Create_finish tptr string "action list"
  | Exit

record thread =
  tid :: "32 word"
  status :: thread_status
  name :: string
  priority :: int
  user_process :: bool      \<comment> \<open>\<open>pagedir != NULL\<close>\<close>
  todo :: "action list"

record semaphore =
  svalue :: nat
  waiters :: "tptr list"

record kstate =
  threads :: "tptr \<Rightarrow> thread option"
  cur :: tptr
  ready_list :: "tptr list"
  all_list :: "tptr list"
  idle_thread :: "tptr option"
  initial_thread :: tptr
  next_tid :: "32 word"
  thread_ticks :: nat
  idle_ticks :: "64 word"
  kernel_ticks :: "64 word"
  user_ticks :: "64 word"
  semas :: "sid \<Rightarrow> semaphore"
  holder :: "nat \<Rightarrow> tptr option"
  conds :: "nat \<Rightarrow> tptr list"
  intr_on :: bool
  in_intr :: bool

definition PRI_MIN :: int where "PRI_MIN = 0"
definition PRI_DEFAULT :: int where "PRI_DEFAULT = 31"
definition PRI_MAX :: int where "PRI_MAX = 63"
definition TIME_SLICE :: nat where "TIME_SLICE = 4"

text \<open>The lock \<open>tid_lock\<close> and the semaphore \<open>idle_started\<close>.\<close>

definition tid_lock :: nat where "tid_lock = 0"
definition idle_started :: nat where "idle_started = 0"

section \<open>Threads\<close>

definition is_thread :: "kstate \<Rightarrow> tptr \<Rightarrow> bool" where
  "is_thread s p \<longleftrightarrow> threads s p \<noteq> None"

definition upd :: "tptr \<Rightarrow> (thread \<Rightarrow> thread) \<Rightarrow> kstate \<Rightarrow> kstate" where
  "upd p f s = s\<lparr>threads := (threads s)(p := map_option f (threads s p))\<rparr>"

definition set_status :: "tptr \<Rightarrow> thread_status \<Rightarrow> kstate \<Rightarrow> kstate" where
  "set_status p st s = upd p (\<lambda>t. t\<lparr>status := st\<rparr>) s"

definition has_status :: "kstate \<Rightarrow> tptr \<Rightarrow> thread_status \<Rightarrow> bool" where
  "has_status s p st \<longleftrightarrow> (\<exists>t. threads s p = Some t \<and> status t = st)"

lemma has_status_code [code]: "has_status s p st = (case threads s p of None \<Rightarrow> False | Some t \<Rightarrow> status t = st)"
  by (auto simp: has_status_def split: option.splits)

definition thread_current :: "kstate \<Rightarrow> tptr res" where
  "thread_current s = ASSERT (is_thread s (cur s)) (ASSERT (has_status s (cur s) THREAD_RUNNING) (Inr (cur s)))"

definition next_thread_to_run :: "kstate \<Rightarrow> kstate \<times> tptr option" where
  "next_thread_to_run s =
     (case ready_list s of [] \<Rightarrow> (s, idle_thread s) | p # ps \<Rightarrow> (s\<lparr>ready_list := ps\<rparr>, Some p))"

definition thread_schedule_tail :: "tptr option \<Rightarrow> kstate \<Rightarrow> kstate res" where
  "thread_schedule_tail prev s =
     ASSERT (\<not> intr_on s)
       (let s = (set_status (cur s) THREAD_RUNNING s)\<lparr>thread_ticks := 0\<rparr> in
        case prev of
          None \<Rightarrow> Inr s
        | Some p \<Rightarrow> if has_status s p THREAD_DYING \<and> p \<noteq> initial_thread s
                    then ASSERT (p \<noteq> cur s) (Inr (s\<lparr>threads := (threads s)(p := None)\<rparr>))
                    else Inr s)"

text \<open>\<open>switch_threads\<close> makes the next thread the running one.\<close>

definition schedule :: "kstate \<Rightarrow> kstate res" where
  "schedule s =
     (let c = cur s; (s, nxt) = next_thread_to_run s in
      ASSERT (\<not> intr_on s) (ASSERT (\<not> has_status s c THREAD_RUNNING) (
      case nxt of
        None \<Rightarrow> Inl Assert_failed
      | Some n \<Rightarrow> ASSERT (is_thread s n)
          (if c \<noteq> n then thread_schedule_tail (Some c) (s\<lparr>cur := n\<rparr>) else thread_schedule_tail None s))))"

definition thread_block :: "kstate \<Rightarrow> kstate res" where
  "thread_block s =
     ASSERT (\<not> in_intr s) (ASSERT (\<not> intr_on s)
       (bind_r (thread_current s) (\<lambda>c. schedule (set_status c THREAD_BLOCKED s))))"

definition thread_unblock :: "tptr \<Rightarrow> kstate \<Rightarrow> kstate res" where
  "thread_unblock p s =
     ASSERT (is_thread s p) (ASSERT (has_status s p THREAD_BLOCKED)
       (Inr (set_status p THREAD_READY (s\<lparr>ready_list := ready_list s @ [p]\<rparr>))))"

definition intr_disable :: "kstate \<Rightarrow> kstate" where
  "intr_disable s = s\<lparr>intr_on := False\<rparr>"

definition intr_set_level :: "bool \<Rightarrow> kstate \<Rightarrow> kstate" where
  "intr_set_level old s = s\<lparr>intr_on := old\<rparr>"

text \<open>A thread that is switched to restores the interrupt level it was switched away from, which is on:
  every action starts with interrupts on.\<close>

definition thread_yield :: "kstate \<Rightarrow> kstate res" where
  "thread_yield s =
     bind_r (thread_current s) (\<lambda>c. ASSERT (\<not> in_intr s)
       (let old = intr_on s; s = intr_disable s;
            s = (if Some c \<noteq> idle_thread s then s\<lparr>ready_list := ready_list s @ [c]\<rparr> else s) in
        bind_r (schedule (set_status c THREAD_READY s)) (\<lambda>s. Inr (intr_set_level old s))))"

text \<open>\<open>process_exit\<close>, which runs first, is not part of the scheduler.\<close>

definition thread_exit :: "kstate \<Rightarrow> kstate res" where
  "thread_exit s =
     ASSERT (\<not> in_intr s)
       (let s = intr_disable s in
        bind_r (thread_current s) (\<lambda>c.
        bind_r (schedule (set_status c THREAD_DYING (s\<lparr>all_list := remove1 c (all_list s)\<rparr>))) (\<lambda>s.
        Inr (intr_set_level True s))))"

definition thread_tick :: "kstate \<Rightarrow> (kstate \<times> bool) res" where
  "thread_tick s =
     bind_r (thread_current s) (\<lambda>c.
     let s = (if Some c = idle_thread s then s\<lparr>idle_ticks := idle_ticks s + 1\<rparr>
              else if (case threads s c of Some t \<Rightarrow> user_process t | None \<Rightarrow> False) then s\<lparr>user_ticks := user_ticks s + 1\<rparr>
              else s\<lparr>kernel_ticks := kernel_ticks s + 1\<rparr>);
         s = s\<lparr>thread_ticks := add32 (thread_ticks s) 1\<rparr> in
     Inr (s, thread_ticks s \<ge> TIME_SLICE))"

text \<open>\<open>memset\<close>, the name cut to its 40 bytes, and the entry in the list of all threads.\<close>

definition init_thread :: "tptr \<Rightarrow> string \<Rightarrow> int \<Rightarrow> kstate \<Rightarrow> kstate res" where
  "init_thread p nm pr s =
     ASSERT (PRI_MIN \<le> pr \<and> pr \<le> PRI_MAX)
       (Inr (s\<lparr>threads := (threads s)(p \<mapsto>
          \<lparr>tid = 0, status = THREAD_BLOCKED, name = take 39 nm, priority = pr, user_process = False, todo = []\<rparr>),
        all_list := all_list s @ [p]\<rparr>))"

definition find_thread :: "32 word \<Rightarrow> kstate \<Rightarrow> tptr option" where
  "find_thread i s = List.find (\<lambda>p. case threads s p of None \<Rightarrow> False | Some t \<Rightarrow> tid t = i) (all_list s)"

definition thread_set_priority :: "int \<Rightarrow> kstate \<Rightarrow> kstate res" where
  "thread_set_priority pr s = bind_r (thread_current s) (\<lambda>c. Inr (upd c (\<lambda>t. t\<lparr>priority := pr\<rparr>) s))"

definition thread_get_priority :: "kstate \<Rightarrow> int res" where
  "thread_get_priority s = bind_r (thread_current s) (\<lambda>c. bind_r (deref (threads s c)) (\<lambda>t. Inr (priority t)))"

definition thread_tid :: "kstate \<Rightarrow> 32 word res" where
  "thread_tid s = bind_r (thread_current s) (\<lambda>c. bind_r (deref (threads s c)) (\<lambda>t. Inr (tid t)))"

definition thread_name :: "kstate \<Rightarrow> string res" where
  "thread_name s = bind_r (thread_current s) (\<lambda>c. bind_r (deref (threads s c)) (\<lambda>t. Inr (name t)))"

section \<open>Semaphores, locks and condition variables\<close>

definition upd_sema :: "sid \<Rightarrow> (semaphore \<Rightarrow> semaphore) \<Rightarrow> kstate \<Rightarrow> kstate" where
  "upd_sema x f s = s\<lparr>semas := (semas s)(x := f (semas s x))\<rparr>"

definition sema_init :: "sid \<Rightarrow> nat \<Rightarrow> kstate \<Rightarrow> kstate" where
  "sema_init x v s = upd_sema x (\<lambda>_. \<lparr>svalue = v, waiters = []\<rparr>) s"

text \<open>Continue the running thread with other actions in place of the first.\<close>

definition become :: "action list \<Rightarrow> kstate \<Rightarrow> kstate" where
  "become as s = upd (cur s) (\<lambda>t. t\<lparr>todo := as @ tl (todo t)\<rparr>) s"

text \<open>One pass of the loop of \<open>sema_down\<close>: block, or take the semaphore and go on with \<open>as\<close>.\<close>

definition sema_down_pass :: "sid \<Rightarrow> action list \<Rightarrow> kstate \<Rightarrow> kstate res" where
  "sema_down_pass x as s =
     ASSERT (\<not> in_intr s)
       (let old = intr_on s; s = intr_disable s in
        bind_r (if svalue (semas s x) = 0
                then bind_r (thread_current s) (\<lambda>c. thread_block (upd_sema x (\<lambda>m. m\<lparr>waiters := waiters m @ [c]\<rparr>) s))
                else Inr (become as (upd_sema x (\<lambda>m. m\<lparr>svalue := svalue m - 1\<rparr>) s)))
          (\<lambda>s. Inr (intr_set_level old s)))"

definition sema_try_down :: "sid \<Rightarrow> kstate \<Rightarrow> kstate \<times> bool" where
  "sema_try_down x s =
     (if svalue (semas s x) > 0 then (upd_sema x (\<lambda>m. m\<lparr>svalue := svalue m - 1\<rparr>) s, True) else (s, False))"

definition sema_up :: "sid \<Rightarrow> kstate \<Rightarrow> kstate res" where
  "sema_up x s =
     (let old = intr_on s; s = intr_disable s in
      bind_r (case waiters (semas s x) of
                [] \<Rightarrow> Inr s
              | p # ps \<Rightarrow> thread_unblock p (upd_sema x (\<lambda>m. m\<lparr>waiters := ps\<rparr>) s))
        (\<lambda>s. Inr (intr_set_level old (upd_sema x (\<lambda>m. m\<lparr>svalue := add32 (svalue m) 1\<rparr>) s))))"

definition lock_init :: "nat \<Rightarrow> kstate \<Rightarrow> kstate" where
  "lock_init l s = sema_init (Of_lock l) 1 (s\<lparr>holder := (holder s)(l := None)\<rparr>)"

definition lock_held_by_current_thread :: "nat \<Rightarrow> kstate \<Rightarrow> bool res" where
  "lock_held_by_current_thread l s = bind_r (thread_current s) (\<lambda>c. Inr (holder s l = Some c))"

definition lock_acquire_enter :: "nat \<Rightarrow> kstate \<Rightarrow> kstate res" where
  "lock_acquire_enter l s =
     ASSERT (\<not> in_intr s) (bind_r (lock_held_by_current_thread l s) (\<lambda>h. ASSERT (\<not> h) (Inr (become [Lock_down l] s))))"

definition lock_take :: "nat \<Rightarrow> kstate \<Rightarrow> kstate res" where
  "lock_take l s = bind_r (thread_current s) (\<lambda>c. Inr (become [] (s\<lparr>holder := (holder s)(l := Some c)\<rparr>)))"

definition lock_try_acquire :: "nat \<Rightarrow> kstate \<Rightarrow> (kstate \<times> bool) res" where
  "lock_try_acquire l s =
     bind_r (lock_held_by_current_thread l s) (\<lambda>h. ASSERT (\<not> h)
       (let (s, success) = sema_try_down (Of_lock l) s in
        Inr (become (if success then [Lock_take l] else []) s, success)))"

definition lock_release_enter :: "nat \<Rightarrow> kstate \<Rightarrow> kstate res" where
  "lock_release_enter l s =
     bind_r (lock_held_by_current_thread l s) (\<lambda>h. ASSERT h (Inr (become [Lock_up l] (s\<lparr>holder := (holder s)(l := None)\<rparr>))))"

definition cond_wait :: "nat \<Rightarrow> nat \<Rightarrow> kstate \<Rightarrow> kstate res" where
  "cond_wait c l s =
     ASSERT (\<not> in_intr s) (bind_r (lock_held_by_current_thread l s) (\<lambda>h. ASSERT h
       (let s = sema_init (Waiter (cur s)) 0 s; s = s\<lparr>conds := (conds s)(c := conds s c @ [cur s])\<rparr> in
        Inr (become [Lock_release l, Waiter_down, Lock_acquire l] s))))"

definition cond_signal :: "nat \<Rightarrow> nat \<Rightarrow> kstate \<Rightarrow> kstate res" where
  "cond_signal c l s =
     ASSERT (\<not> in_intr s) (bind_r (lock_held_by_current_thread l s) (\<lambda>h. ASSERT h
       (case conds s c of
          [] \<Rightarrow> Inr s
        | p # ps \<Rightarrow> sema_up (Waiter p) (s\<lparr>conds := (conds s)(c := ps)\<rparr>))))"

section \<open>Creating threads\<close>

definition allocate_tid :: "tptr \<Rightarrow> action list" where
  "allocate_tid p = [Lock_acquire tid_lock, Take_tid p, Lock_release tid_lock]"

definition take_tid :: "tptr \<Rightarrow> kstate \<Rightarrow> kstate res" where
  "take_tid p s = Inr (become [] (upd p (\<lambda>t. t\<lparr>tid := next_tid s\<rparr>) (s\<lparr>next_tid := next_tid s + 1\<rparr>)))"

definition thread_create_enter :: "tptr \<Rightarrow> string \<Rightarrow> int \<Rightarrow> action list \<Rightarrow> kstate \<Rightarrow> kstate res" where
  "thread_create_enter p nm pr body s =
     bind_r (init_thread p nm pr s) (\<lambda>s. Inr (become (allocate_tid p @ [Create_finish p nm body]) s))"

text \<open>The full name is copied with its own length as the bound, into an array of 40 bytes.\<close>

definition thread_create_finish :: "tptr \<Rightarrow> string \<Rightarrow> action list \<Rightarrow> kstate \<Rightarrow> kstate res" where
  "thread_create_finish p nm body s =
     (if length nm + 1 > 40 then Inl Out_of_bounds
      else thread_unblock p (become [] (upd p (\<lambda>t. t\<lparr>todo := body\<rparr>) s)))"

section \<open>Steps\<close>

definition exec_action :: "action \<Rightarrow> kstate \<Rightarrow> kstate res" where
  "exec_action a s = (case a of
     Sema_down n \<Rightarrow> sema_down_pass (Plain n) [] s
   | Sema_try n \<Rightarrow> Inr (become [] (fst (sema_try_down (Plain n) s)))
   | Sema_up n \<Rightarrow> sema_up (Plain n) (become [] s)
   | Lock_acquire l \<Rightarrow> lock_acquire_enter l s
   | Lock_down l \<Rightarrow> sema_down_pass (Of_lock l) [Lock_take l] s
   | Lock_take l \<Rightarrow> lock_take l s
   | Lock_try l \<Rightarrow> bind_r (lock_try_acquire l s) (\<lambda>(s, success). Inr s)
   | Lock_release l \<Rightarrow> lock_release_enter l s
   | Lock_up l \<Rightarrow> sema_up (Of_lock l) (become [] s)
   | Cond_wait c l \<Rightarrow> cond_wait c l s
   | Waiter_down \<Rightarrow> sema_down_pass (Waiter (cur s)) [] s
   | Cond_signal c l \<Rightarrow> bind_r (cond_signal c l s) (\<lambda>s. Inr (become [] s))
   | Cond_broadcast c l \<Rightarrow> if conds s c = [] then Inr (become [] s) else cond_signal c l s
   | Yield \<Rightarrow> thread_yield (become [] s)
   | Idle_init \<Rightarrow> bind_r (thread_current s) (\<lambda>c. Inr (become [] (s\<lparr>idle_thread := Some c\<rparr>)))
   | Idle_block \<Rightarrow> bind_r (thread_block (intr_disable s)) (\<lambda>s. Inr (intr_set_level True s))
   | Take_tid p \<Rightarrow> take_tid p s
   | Create_finish p nm body \<Rightarrow> thread_create_finish p nm body s
   | Exit \<Rightarrow> thread_exit s)"

definition run_cur :: "kstate \<Rightarrow> kstate res" where
  "run_cur s = bind_r (deref (threads s (cur s))) (\<lambda>t. case todo t of [] \<Rightarrow> Inr s | a # as \<Rightarrow> exec_action a s)"

text \<open>A timer interrupt: the handler runs \<open>thread_tick\<close>, and the return from the interrupt yields.\<close>

definition timer_interrupt :: "kstate \<Rightarrow> kstate res" where
  "timer_interrupt s =
     bind_r (thread_tick (s\<lparr>in_intr := True\<rparr>)) (\<lambda>(s, yield).
     let s = s\<lparr>in_intr := False\<rparr> in if yield then thread_yield s else Inr s)"

text \<open>An interrupt handler that ups a semaphore.\<close>

definition device_interrupt :: "nat \<Rightarrow> kstate \<Rightarrow> kstate res" where
  "device_interrupt n s = bind_r (sema_up (Plain n) (s\<lparr>in_intr := True\<rparr>)) (\<lambda>s. Inr (s\<lparr>in_intr := False\<rparr>))"

text \<open>A thread with nothing left to do in the kernel calls an operation of its choice; \<open>api\<close> are the calls other code
  makes. A new thread is created on a page the allocator hands out, which no other thread uses.\<close>

fun api :: "action \<Rightarrow> bool" where
  "api (Sema_down n) = True" | "api (Sema_try n) = True" | "api (Sema_up n) = True" | "api (Lock_acquire l) = True"
| "api (Lock_try l) = True" | "api (Lock_release l) = True"
| "api (Cond_wait c l) = True" | "api (Cond_signal c l) = True" | "api (Cond_broadcast c l) = True" | "api Yield = True"
| "api Exit = True" | "api _ = False"

definition set_todo :: "action list \<Rightarrow> kstate \<Rightarrow> kstate" where
  "set_todo as s = upd (cur s) (\<lambda>t. t\<lparr>todo := as\<rparr>) s"

definition pc :: "kstate \<Rightarrow> tptr \<Rightarrow> action option" where
  "pc s p = (case threads s p of None \<Rightarrow> None | Some t \<Rightarrow> (case todo t of [] \<Rightarrow> None | a # _ \<Rightarrow> Some a))"

inductive kstep :: "kstate \<Rightarrow> kstate \<Rightarrow> bool" where
  run: "pc s (cur s) = Some a \<Longrightarrow> exec_action a s = Inr s' \<Longrightarrow> kstep s s'"
| call: "pc s (cur s) = None \<Longrightarrow> list_all api as \<Longrightarrow> kstep s (set_todo as s)"
| spawn: "pc s (cur s) = None \<Longrightarrow> threads s p = None \<Longrightarrow> list_all api body \<Longrightarrow>
     thread_create_enter p nm pr body s = Inr s' \<Longrightarrow> kstep s s'"
| tick: "timer_interrupt s = Inr s' \<Longrightarrow> kstep s s'"
| device: "device_interrupt n s = Inr s' \<Longrightarrow> kstep s s'"

text \<open>The state \<open>thread_init\<close> sets up, and \<open>thread_start\<close>: the initial thread creates the idle thread and waits
  until it has run.\<close>

definition thread_init :: "tptr \<Rightarrow> kstate \<Rightarrow> kstate res" where
  "thread_init p s =
     ASSERT (\<not> intr_on s)
       (let s = lock_init tid_lock s; s = s\<lparr>ready_list := [], all_list := [], cur := p, initial_thread := p\<rparr> in
        bind_r (init_thread p ''main'' PRI_DEFAULT s) (\<lambda>s.
        Inr (upd p (\<lambda>t. t\<lparr>tid := next_tid s\<rparr>) (set_status p THREAD_RUNNING s)\<lparr>next_tid := next_tid s + 1\<rparr>)))"

definition idle_body :: "action list" where
  "idle_body = [Idle_init, Sema_up idle_started, Idle_block]"

definition thread_start :: "tptr \<Rightarrow> kstate \<Rightarrow> kstate res" where
  "thread_start p s =
     bind_r (thread_create_enter p ''idle'' PRI_MIN idle_body (sema_init (Plain idle_started) 0 s)) (\<lambda>s.
     Inr (upd (cur s) (\<lambda>t. t\<lparr>todo := todo t @ [Sema_down idle_started]\<rparr>) s\<lparr>intr_on := True\<rparr>))"

end
