(* ===== verification/SchedInv.thy ===== *)
theory SchedInv
  imports Sched
begin

text \<open>
  The invariant of the scheduler and of the synchronisation primitives, and that every step keeps it. It says that
  exactly the current thread is running, that the ready list holds exactly the ready threads (the idle thread
  apart), that the waiters of a semaphore are exactly the threads blocked in a down on it, that a lock has
  at most one owner, and that no wake-up is lost: while threads wait for a semaphore, its value is at most the
  number of threads that are awake and about to take it.
\<close>

section \<open>Views of the state\<close>

definition st :: "kstate \<Rightarrow> tptr \<Rightarrow> thread_status option" where
  "st s p = map_option status (threads s p)"

definition rest :: "kstate \<Rightarrow> tptr \<Rightarrow> action list" where
  "rest s p = (case threads s p of None \<Rightarrow> [] | Some t \<Rightarrow> tl (todo t))"

fun awaits :: "tptr \<Rightarrow> action \<Rightarrow> sid option" where
  "awaits p (Sema_down n) = Some (Plain n)"
| "awaits p (Lock_down l) = Some (Of_lock l)"
| "awaits p Waiter_down = Some (Waiter p)"
| "awaits p _ = None"

definition waiting :: "kstate \<Rightarrow> tptr \<Rightarrow> sid option" where
  "waiting s p = Option.bind (pc s p) (awaits p)"

lemma has_status_st: "has_status s p x \<longleftrightarrow> st s p = Some x"
  by (auto simp: has_status_def st_def)

lemma is_thread_st: "is_thread s p \<longleftrightarrow> st s p \<noteq> None"
  by (simp add: is_thread_def st_def)

lemmas status_st = has_status_st is_thread_st

lemma no_thread: "st s p = None \<Longrightarrow> pc s p = None" "st s p = None \<Longrightarrow> rest s p = []"
  by (auto simp: st_def pc_def rest_def)

text \<open>The views after the elementary updates.\<close>

lemma view_set_status [simp]:
  "st (set_status q x s) p = (if p = q \<and> st s q \<noteq> None then Some x else st s p)"
  "pc (set_status q x s) p = pc s p" "rest (set_status q x s) p = rest s p"
  by (cases "threads s q"; auto simp: st_def pc_def rest_def set_status_def upd_def)+

lemma fields_set_status [simp]:
  "cur (set_status q x s) = cur s" "ready_list (set_status q x s) = ready_list s" "all_list (set_status q x s) = all_list s"
  "idle_thread (set_status q x s) = idle_thread s" "initial_thread (set_status q x s) = initial_thread s"
  "semas (set_status q x s) = semas s" "holder (set_status q x s) = holder s" "conds (set_status q x s) = conds s"
  "intr_on (set_status q x s) = intr_on s" "in_intr (set_status q x s) = in_intr s" "next_tid (set_status q x s) = next_tid s"
  "thread_ticks (set_status q x s) = thread_ticks s"
  by (simp_all add: set_status_def upd_def)

lemma view_become [simp]:
  "st (become as s) p = st s p"
  "pc (become as s) p = (if p = cur s \<and> st s p \<noteq> None then (case as @ rest s p of [] \<Rightarrow> None | a # _ \<Rightarrow> Some a) else pc s p)"
  "rest (become as s) p = (if p = cur s \<and> st s p \<noteq> None then tl (as @ rest s p) else rest s p)"
  by (cases "threads s (cur s)"; auto simp: st_def pc_def rest_def become_def upd_def split: list.splits)+

lemma fields_become [simp]:
  "cur (become as s) = cur s" "ready_list (become as s) = ready_list s" "all_list (become as s) = all_list s"
  "idle_thread (become as s) = idle_thread s" "initial_thread (become as s) = initial_thread s"
  "semas (become as s) = semas s" "holder (become as s) = holder s" "conds (become as s) = conds s"
  "intr_on (become as s) = intr_on s" "in_intr (become as s) = in_intr s" "next_tid (become as s) = next_tid s"
  "thread_ticks (become as s) = thread_ticks s"
  by (simp_all add: become_def upd_def)

text \<open>The views depend on the threads only.\<close>

lemma view_cong: "threads s' = threads s \<Longrightarrow> st s' = st s \<and> pc s' = pc s \<and> rest s' = rest s \<and> waiting s' = waiting s"
  by (simp add: fun_eq_iff st_def pc_def rest_def waiting_def)

lemma view_fields [simp]:
  "st (s\<lparr>cur := c\<rparr>) = st s" "pc (s\<lparr>cur := c\<rparr>) = pc s" "rest (s\<lparr>cur := c\<rparr>) = rest s"
  "st (s\<lparr>ready_list := r\<rparr>) = st s" "pc (s\<lparr>ready_list := r\<rparr>) = pc s" "rest (s\<lparr>ready_list := r\<rparr>) = rest s"
  "st (s\<lparr>all_list := r\<rparr>) = st s" "pc (s\<lparr>all_list := r\<rparr>) = pc s" "rest (s\<lparr>all_list := r\<rparr>) = rest s"
  "st (s\<lparr>thread_ticks := n\<rparr>) = st s" "pc (s\<lparr>thread_ticks := n\<rparr>) = pc s" "rest (s\<lparr>thread_ticks := n\<rparr>) = rest s"
  "st (s\<lparr>holder := h\<rparr>) = st s" "pc (s\<lparr>holder := h\<rparr>) = pc s" "rest (s\<lparr>holder := h\<rparr>) = rest s"
  "st (s\<lparr>conds := cs\<rparr>) = st s" "pc (s\<lparr>conds := cs\<rparr>) = pc s" "rest (s\<lparr>conds := cs\<rparr>) = rest s"
  "st (s\<lparr>intr_on := b\<rparr>) = st s" "pc (s\<lparr>intr_on := b\<rparr>) = pc s" "rest (s\<lparr>intr_on := b\<rparr>) = rest s"
  "st (s\<lparr>in_intr := b\<rparr>) = st s" "pc (s\<lparr>in_intr := b\<rparr>) = pc s" "rest (s\<lparr>in_intr := b\<rparr>) = rest s"
  "st (s\<lparr>next_tid := i\<rparr>) = st s" "pc (s\<lparr>next_tid := i\<rparr>) = pc s" "rest (s\<lparr>next_tid := i\<rparr>) = rest s"
  by (simp_all add: fun_eq_iff st_def pc_def rest_def)

lemma view_sema [simp]:
  "st (upd_sema x f s) = st s" "pc (upd_sema x f s) = pc s" "rest (upd_sema x f s) = rest s"
  "semas (upd_sema x f s) = (semas s)(x := f (semas s x))"
  using view_cong [of "upd_sema x f s" s] by (simp_all add: upd_sema_def)

lemma fields_sema [simp]:
  "cur (upd_sema x f s) = cur s" "ready_list (upd_sema x f s) = ready_list s" "all_list (upd_sema x f s) = all_list s"
  "idle_thread (upd_sema x f s) = idle_thread s" "initial_thread (upd_sema x f s) = initial_thread s"
  "holder (upd_sema x f s) = holder s" "conds (upd_sema x f s) = conds s" "threads (upd_sema x f s) = threads s"
  "intr_on (upd_sema x f s) = intr_on s" "in_intr (upd_sema x f s) = in_intr s" "next_tid (upd_sema x f s) = next_tid s"
  "thread_ticks (upd_sema x f s) = thread_ticks s"
  by (simp_all add: upd_sema_def)

lemma view_intr [simp]:
  "st (intr_disable s) = st s" "pc (intr_disable s) = pc s" "rest (intr_disable s) = rest s"
  "st (intr_set_level b s) = st s" "pc (intr_set_level b s) = pc s" "rest (intr_set_level b s) = rest s"
  by (simp_all add: intr_disable_def intr_set_level_def)

lemma waiting_eq: "pc s' p = pc s p \<Longrightarrow> waiting s' p = waiting s p"
  by (simp add: waiting_def)

lemma dom_threads: "dom (threads s) = {p. st s p \<noteq> None}"
  by (auto simp: st_def)

section \<open>The invariant\<close>

definition ready_ok :: "kstate \<Rightarrow> bool" where
  "ready_ok s \<longleftrightarrow> distinct (ready_list s)
     \<and> (\<forall>p. p \<in> set (ready_list s) \<longleftrightarrow> st s p = Some THREAD_READY \<and> idle_thread s \<noteq> Some p)"

definition wait_ok :: "kstate \<Rightarrow> bool" where
  "wait_ok s \<longleftrightarrow> (\<forall>x. distinct (waiters (semas s x)))
     \<and> (\<forall>x p. p \<in> set (waiters (semas s x)) \<longleftrightarrow> st s p = Some THREAD_BLOCKED \<and> waiting s p = Some x)"

definition idle_ok :: "kstate \<Rightarrow> bool" where
  "idle_ok s \<longleftrightarrow> (\<exists>i. idle_thread s = Some i \<and> pc s i = Some Idle_block \<and> st s i \<noteq> Some THREAD_DYING)"

definition all_ok :: "kstate \<Rightarrow> bool" where
  "all_ok s \<longleftrightarrow> distinct (all_list s) \<and> (\<forall>p. p \<in> set (all_list s) \<longleftrightarrow> st s p \<noteq> None \<and> st s p \<noteq> Some THREAD_DYING)"

text \<open>Between taking the semaphore of a lock and recording the holder, and between clearing the holder and
  releasing the semaphore, a thread owns the lock without being its holder.\<close>

definition inner :: "nat \<Rightarrow> action \<Rightarrow> bool" where
  "inner l a \<longleftrightarrow> a = Lock_take l \<or> a = Lock_up l"

definition pend :: "kstate \<Rightarrow> tptr \<Rightarrow> nat \<Rightarrow> bool" where
  "pend s p l \<longleftrightarrow> (\<exists>a. pc s p = Some a \<and> inner l a)"

definition lock_ok :: "kstate \<Rightarrow> nat \<Rightarrow> bool" where
  "lock_ok s l \<longleftrightarrow>
     svalue (semas s (Of_lock l)) = 0 \<and> holder s l \<noteq> None \<and> (\<forall>q. \<not> pend s q l)
   \<or> svalue (semas s (Of_lock l)) = 1 \<and> holder s l = None \<and> (\<forall>q. \<not> pend s q l)
   \<or> svalue (semas s (Of_lock l)) = 0 \<and> holder s l = None \<and> (\<exists>p. \<forall>q. pend s q l \<longleftrightarrow> q = p)"

text \<open>The threads that are awake and will try to take the semaphore when they run.\<close>

definition awake :: "kstate \<Rightarrow> sid \<Rightarrow> tptr set" where
  "awake s x = {p. waiting s p = Some x \<and> p \<notin> set (waiters (semas s x))}"

definition wakeup_ok :: "kstate \<Rightarrow> bool" where
  "wakeup_ok s \<longleftrightarrow> finite (dom (threads s)) \<and> (\<forall>x. waiters (semas s x) \<noteq> [] \<longrightarrow> svalue (semas s x) \<le> card (awake s x))"

text \<open>The actions other code may leave for later: not those in the middle of a lock operation or of the start of the
  idle thread.\<close>

fun tame :: "action \<Rightarrow> bool" where
  "tame (Lock_take l) = False" | "tame (Lock_up l) = False" | "tame Idle_init = False"
| "tame (Create_finish p nm body) = list_all api body" | "tame _ = True"

definition rest_ok :: "kstate \<Rightarrow> bool" where
  "rest_ok s \<longleftrightarrow> (\<forall>p. list_all tame (rest s p)) \<and> (\<forall>p a. pc s p = Some a \<longrightarrow> tame a \<or> (\<exists>l. inner l a))"

definition dying_ok :: "kstate \<Rightarrow> bool" where
  "dying_ok s \<longleftrightarrow> (\<forall>p. st s p = Some THREAD_DYING \<longrightarrow> pc s p = Some Exit \<and> (p = initial_thread s \<or> p = cur s))"

text \<open>The threads a thread is in the course of creating: a new thread is blocked and has no code until its one creator
  unblocks it.\<close>

fun creates :: "action list \<Rightarrow> tptr list" where
  "creates [] = []"
| "creates (a # as) = (case a of Create_finish p nm body \<Rightarrow> [p] | _ \<Rightarrow> []) @ creates as"

definition births :: "kstate \<Rightarrow> tptr \<Rightarrow> tptr list" where
  "births s p = (case pc s p of None \<Rightarrow> [] | Some a \<Rightarrow> creates (a # rest s p))"

definition embryo_ok :: "kstate \<Rightarrow> bool" where
  "embryo_ok s \<longleftrightarrow> (\<forall>q. length (births s q) \<le> 1)
     \<and> (\<forall>q p. p \<in> set (births s q) \<longrightarrow> st s p = Some THREAD_BLOCKED \<and> pc s p = None)
     \<and> (\<forall>q q' p. p \<in> set (births s q) \<longrightarrow> p \<in> set (births s q') \<longrightarrow> q = q')"

definition sched_ok :: "kstate \<Rightarrow> bool" where
  "sched_ok s \<longleftrightarrow> ready_ok s \<and> wait_ok s \<and> idle_ok s \<and> all_ok s \<and> rest_ok s \<and> dying_ok s \<and> embryo_ok s"

definition core :: "kstate \<Rightarrow> bool" where
  "core s \<longleftrightarrow> sched_ok s \<and> (\<forall>l. lock_ok s l) \<and> wakeup_ok s"

definition kinv :: "kstate \<Rightarrow> bool" where
  "kinv s \<longleftrightarrow> core s \<and> (\<forall>p. st s p = Some THREAD_RUNNING \<longleftrightarrow> p = cur s) \<and> intr_on s \<and> \<not> in_intr s"

lemmas core_defs = ready_ok_def wait_ok_def idle_ok_def all_ok_def lock_ok_def wakeup_ok_def rest_ok_def dying_ok_def embryo_ok_def

lemma core_cong:
  assumes "st s' = st s" "pc s' = pc s" "rest s' = rest s" "ready_list s' = ready_list s" "all_list s' = all_list s"
    "idle_thread s' = idle_thread s" "initial_thread s' = initial_thread s" "semas s' = semas s" "holder s' = holder s" "cur s' = cur s"
  shows "core s' = core s"
proof -
  have "waiting s' = waiting s" using assms(2) by (simp add: fun_eq_iff waiting_def)
  moreover have "dom (threads s') = dom (threads s)" using assms(1) by (simp add: dom_threads)
  moreover have "births s' = births s" using assms(2,3) by (intro ext) (simp only: births_def)
  ultimately show ?thesis using assms unfolding core_def sched_ok_def core_defs pend_def awake_def by simp
qed

lemma coreD:
  assumes "core s"
  shows "ready_ok s" "wait_ok s" "idle_ok s" "all_ok s" "lock_ok s l" "wakeup_ok s" "rest_ok s" "dying_ok s" "embryo_ok s"
  using assms by (simp_all add: core_def sched_ok_def)

section \<open>The context switch\<close>

text \<open>The views after a switch from \<open>c\<close> to \<open>n\<close>: a dying thread is gone.\<close>

definition gone :: "kstate \<Rightarrow> tptr \<Rightarrow> bool" where
  "gone s p \<longleftrightarrow> p = cur s \<and> st s p = Some THREAD_DYING \<and> p \<noteq> initial_thread s"

definition switched :: "kstate \<Rightarrow> tptr \<Rightarrow> kstate \<Rightarrow> bool" where
  "switched s n s' \<longleftrightarrow> cur s' = n
     \<and> (\<forall>p. st s' p = (if p = n then Some THREAD_RUNNING else if gone s p then None else st s p))
     \<and> (\<forall>p. pc s' p = (if gone s p then None else pc s p)) \<and> (\<forall>p. rest s' p = (if gone s p then [] else rest s p))
     \<and> all_list s' = all_list s \<and> idle_thread s' = idle_thread s \<and> initial_thread s' = initial_thread s
     \<and> semas s' = semas s \<and> holder s' = holder s \<and> conds s' = conds s \<and> intr_on s' = intr_on s \<and> in_intr s' = in_intr s
     \<and> next_tid s' = next_tid s \<and> thread_ticks s' = 0"

definition picks :: "kstate \<Rightarrow> tptr \<Rightarrow> kstate \<Rightarrow> bool" where
  "picks s n s' \<longleftrightarrow> (if ready_list s = [] then idle_thread s = Some n \<and> ready_list s' = []
                     else ready_list s = n # ready_list s')"

lemma next_thread:
  assumes "core s"
  obtains n where "picks s n (fst (next_thread_to_run s))" "snd (next_thread_to_run s) = Some n"
    "st s n = Some THREAD_READY \<or> idle_thread s = Some n" "st s n \<noteq> None" "st s n \<noteq> Some THREAD_DYING"
    "fst (next_thread_to_run s) = s\<lparr>ready_list := ready_list (fst (next_thread_to_run s))\<rparr>"
proof (cases "ready_list s")
  case Nil
  obtain i where i: "idle_thread s = Some i" "pc s i = Some Idle_block" "st s i \<noteq> Some THREAD_DYING"
    using coreD(3) [OF assms] by (auto simp: idle_ok_def)
  have "st s i \<noteq> None" using i(2) no_thread(1) [of s i] by auto
  then show thesis using that [of i] i Nil by (simp add: picks_def next_thread_to_run_def)
next
  case (Cons n ns)
  then have "st s n = Some THREAD_READY" using coreD(1) [OF assms] by (auto simp: ready_ok_def)
  then show thesis using that [of n] Cons by (simp add: picks_def next_thread_to_run_def)
qed

lemma schedule_switched:
  assumes core: "core s" and run: "\<And>p. st s p \<noteq> Some THREAD_RUNNING" and off: "\<not> intr_on s"
  obtains n s' where "schedule s = Inr s'" "switched s n s'" "picks s n s'" "st s n = Some THREAD_READY \<or> idle_thread s = Some n"
    "st s n \<noteq> None" "st s n \<noteq> Some THREAD_DYING"
proof -
  obtain n where n: "picks s n (fst (next_thread_to_run s))" "snd (next_thread_to_run s) = Some n"
    "st s n = Some THREAD_READY \<or> idle_thread s = Some n" "st s n \<noteq> None" "st s n \<noteq> Some THREAD_DYING"
    "fst (next_thread_to_run s) = s\<lparr>ready_list := ready_list (fst (next_thread_to_run s))\<rparr>"
    by (rule next_thread [OF core])
  define r where "r = ready_list (fst (next_thread_to_run s))"
  have nt: "next_thread_to_run s = (s\<lparr>ready_list := r\<rparr>, Some n)" using n(2,6) by (simp add: r_def prod_eq_iff)
  let ?s1 = "(set_status n THREAD_RUNNING (s\<lparr>ready_list := r, cur := n\<rparr>))\<lparr>thread_ticks := 0\<rparr>"
  define s' where "s' = (if gone s (cur s) then ?s1\<lparr>threads := (threads ?s1)(cur s := None)\<rparr> else ?s1)"
  have gn: "gone s p \<Longrightarrow> p \<noteq> n" for p using n(5) by (auto simp: gone_def)
  have same: "s\<lparr>ready_list := r, cur := n\<rparr> = s\<lparr>ready_list := r\<rparr>" if "cur s = n" using that by (cases s) simp
  have "schedule s = Inr s'"
  proof (cases "cur s = n")
    case True
    then show ?thesis
      using n(4,5) run off same gn [of n] unfolding schedule_def nt Let_def prod.case status_st thread_schedule_tail_def s'_def
      by (auto simp: gone_def)
  next
    case False
    then show ?thesis
      using n(4) run off unfolding schedule_def nt Let_def prod.case status_st thread_schedule_tail_def s'_def
      by (auto simp: gone_def)
  qed
  moreover have "switched s n s'"
  proof -
    have "st s' p = (if p = n then Some THREAD_RUNNING else if gone s p then None else st s p)" for p
      using n(4) gn [of p] by (auto simp: s'_def gone_def st_def set_status_def upd_def)
    moreover have "pc s' p = (if gone s p then None else pc s p)" "rest s' p = (if gone s p then [] else rest s p)" for p
      using gn [of p] by (auto simp: s'_def gone_def pc_def rest_def set_status_def upd_def split: option.splits)
    ultimately show ?thesis by (simp add: switched_def s'_def)
  qed
  moreover have "picks s n s'" using n(1) by (simp add: picks_def s'_def r_def)
  ultimately show thesis using that n(3-5) by blast
qed

lemma switched_core:
  assumes core: "core s" and run: "\<And>p. st s p \<noteq> Some THREAD_RUNNING" and sw: "switched s n s'" "picks s n s'"
    and n: "st s n = Some THREAD_READY \<or> idle_thread s = Some n" "st s n \<noteq> None" "st s n \<noteq> Some THREAD_DYING"
  shows "core s'" and "\<And>p. st s' p = Some THREAD_RUNNING \<longleftrightarrow> p = cur s'"
proof -
  have V: "cur s' = n" "\<And>p. st s' p = (if p = n then Some THREAD_RUNNING else if gone s p then None else st s p)"
    "\<And>p. pc s' p = (if gone s p then None else pc s p)" "\<And>p. rest s' p = (if gone s p then [] else rest s p)"
    "all_list s' = all_list s" "idle_thread s' = idle_thread s" "initial_thread s' = initial_thread s" "semas s' = semas s" "holder s' = holder s"
    using sw(1) by (simp_all add: switched_def)
  have g: "gone s p \<Longrightarrow> st s p = Some THREAD_DYING" "gone s p \<Longrightarrow> pc s p = Some Exit" "gone s p \<Longrightarrow> p \<noteq> n" for p
    using coreD(8) [OF core] n(3) by (auto simp: gone_def dying_ok_def)
  have w: "waiting s' p = waiting s p" for p using V(3) g(2) [of p] by (auto simp: waiting_def)
  have nw: "n \<notin> set (waiters (semas s x))" for x
    using n(1) coreD(2,3) [OF core] by (auto simp: wait_ok_def idle_ok_def waiting_def)
  show "\<And>p. st s' p = Some THREAD_RUNNING \<longleftrightarrow> p = cur s'" using V(1,2) run by simp
  have "ready_ok s'" unfolding ready_ok_def V(6)
  proof (intro conjI allI)
    have d: "distinct (ready_list s)" "\<And>p. p \<in> set (ready_list s) \<longleftrightarrow> st s p = Some THREAD_READY \<and> idle_thread s \<noteq> Some p"
      using coreD(1) [OF core] by (auto simp: ready_ok_def)
    show "distinct (ready_list s')" using sw(2) d(1) by (auto simp: picks_def split: if_splits)
    show "p \<in> set (ready_list s') \<longleftrightarrow> st s' p = Some THREAD_READY \<and> idle_thread s \<noteq> Some p" for p
    proof (cases "ready_list s = []")
      case True
      then show ?thesis using sw(2) d(2) [of p] g(1) [of p] V(2) [of p] by (auto simp: picks_def)
    next
      case False
      then have r: "ready_list s = n # ready_list s'" using sw(2) by (simp add: picks_def)
      then show ?thesis using d(2) [of p] d(1) g(1) [of p] V(2) [of p] by auto
    qed
  qed
  moreover have "wait_ok s'"
  proof -
    have "p \<in> set (waiters (semas s x)) \<longleftrightarrow> st s' p = Some THREAD_BLOCKED \<and> waiting s p = Some x" for p x
    proof (cases "p = n \<or> gone s p")
      case True
      then have "st s' p \<noteq> Some THREAD_BLOCKED" "p \<notin> set (waiters (semas s x))"
        using nw g(1) [of p] coreD(2) [OF core] V(2) by (auto simp: wait_ok_def)
      then show ?thesis by simp
    next
      case False
      then show ?thesis using coreD(2) [OF core] V(2) by (simp add: wait_ok_def)
    qed
    then show ?thesis using coreD(2) [OF core] by (simp add: wait_ok_def V(8) w)
  qed
  moreover have "idle_ok s'"
  proof -
    obtain i where i: "idle_thread s = Some i" "pc s i = Some Idle_block" "st s i \<noteq> Some THREAD_DYING"
      using coreD(3) [OF core] by (auto simp: idle_ok_def)
    then have "\<not> gone s i" using g(1) by auto
    then show ?thesis using i by (simp add: idle_ok_def V(2,3,6))
  qed
  moreover have "all_ok s'" using coreD(4) [OF core] g(1) n(2,3) unfolding all_ok_def V(5) V(2) by auto
  moreover have "lock_ok s' l" for l
  proof -
    have "pend s' q l = pend s q l" for q using V(3) g(2) [of q] by (auto simp: pend_def inner_def)
    then show ?thesis using coreD(5) [OF core, of l] by (simp add: lock_ok_def V(8,9))
  qed
  moreover have "wakeup_ok s'"
  proof -
    have "awake s' x = awake s x" for x by (simp add: awake_def w V(8))
    moreover have "dom (threads s') \<subseteq> dom (threads s)" using n(2) by (auto simp: dom_threads V(2))
    ultimately show ?thesis using coreD(6) [OF core] finite_subset by (auto simp: wakeup_ok_def V(8))
  qed
  moreover have "rest_ok s'" using coreD(7) [OF core] by (simp add: rest_ok_def V(3,4))
  moreover have "dying_ok s'" using coreD(8) [OF core] by (auto simp: dying_ok_def V(1,2,3,7) gone_def)
  moreover have "embryo_ok s'"
  proof -
    have b: "births s' p = (if gone s p then [] else births s p)" for p by (simp add: births_def V(3,4) split: option.split)
    have e: "st s' p = Some THREAD_BLOCKED \<and> pc s' p = None" if "p \<in> set (births s q)" for p q
    proof -
      have "st s p = Some THREAD_BLOCKED" "pc s p = None" using coreD(9) [OF core] that by (auto simp: embryo_ok_def)
      moreover from this have "p \<noteq> n" using n(1) coreD(3) [OF core] by (auto simp: idle_ok_def)
      ultimately show ?thesis using g(1) [of p] by (auto simp: V(2,3))
    qed
    show ?thesis using coreD(9) [OF core] e unfolding embryo_ok_def b by auto
  qed
  ultimately show "core s'" by (simp add: core_def sched_ok_def)
qed

text \<open>A thread that leaves the processor with a changed status.\<close>

lemma schedule_ok:
  assumes "core s" "\<And>p. st s p \<noteq> Some THREAD_RUNNING" "\<not> intr_on s"
  obtains n s' where "schedule s = Inr s'" "switched s n s'" "picks s n s'" "core s'" "\<forall>p. st s' p = Some THREAD_RUNNING \<longleftrightarrow> p = cur s'"
proof -
  obtain n s' where r: "schedule s = Inr s'" "switched s n s'" "picks s n s'" "st s n = Some THREAD_READY \<or> idle_thread s = Some n"
    "st s n \<noteq> None" "st s n \<noteq> Some THREAD_DYING" by (rule schedule_switched [OF assms])
  show thesis using that [OF r(1-3)] switched_core [OF assms(1,2) r(2-6)] by blast
qed

lemma thread_current_running: "st s (cur s) = Some THREAD_RUNNING \<Longrightarrow> thread_current s = Inr (cur s)"
  by (simp add: thread_current_def status_st)

lemma kinv_current:
  assumes "kinv s"
  shows "thread_current s = Inr (cur s)" "st s (cur s) = Some THREAD_RUNNING" "core s" "intr_on s" "\<not> in_intr s"
    "\<And>p. st s p = Some THREAD_RUNNING \<longleftrightarrow> p = cur s"
  using assms thread_current_running by (auto simp: kinv_def)

section \<open>Leaving the processor\<close>

text \<open>The core survives the changes a thread makes before it calls \<open>schedule\<close>.\<close>

lemma not_waiter: "core s \<Longrightarrow> st s p = Some THREAD_RUNNING \<Longrightarrow> p \<notin> set (waiters (semas s x))"
  using coreD(2) by (fastforce simp: wait_ok_def)

lemma leave_yield:
  assumes core: "core s" and r: "st s (cur s) = Some THREAD_RUNNING"
  shows "core (set_status (cur s) THREAD_READY (if Some (cur s) \<noteq> idle_thread s then s\<lparr>ready_list := ready_list s @ [cur s]\<rparr> else s))" (is "core ?s")
proof -
  have V: "st ?s p = (if p = cur s then Some THREAD_READY else st s p)" "pc ?s p = pc s p" "rest ?s p = rest s p"
    "waiting ?s p = waiting s p" "births ?s p = births s p" for p using r by (simp_all add: waiting_def births_def split: option.split)
  have same_dom: "dom (threads ?s) = dom (threads s)" using r by (auto simp: dom_threads)
  have F: "cur ?s = cur s" "all_list ?s = all_list s" "idle_thread ?s = idle_thread s" "initial_thread ?s = initial_thread s"
    "semas ?s = semas s" "holder ?s = holder s" "ready_list ?s = (if Some (cur s) \<noteq> idle_thread s then ready_list s @ [cur s] else ready_list s)"
    by simp_all
  have "ready_ok ?s" using coreD(1) [OF core] r unfolding ready_ok_def F V by auto
  moreover have "wait_ok ?s" using coreD(2) [OF core] not_waiter [OF core r] r unfolding wait_ok_def F V by auto
  moreover have "idle_ok ?s" using coreD(3) [OF core] unfolding idle_ok_def F V by auto
  moreover have "all_ok ?s" using coreD(4) [OF core] r unfolding all_ok_def F V by auto
  moreover have "lock_ok ?s l" for l using coreD(5) [OF core, of l] unfolding lock_ok_def pend_def F V by simp
  moreover have "wakeup_ok ?s" using coreD(6) [OF core] same_dom unfolding wakeup_ok_def awake_def F V by simp
  moreover have "rest_ok ?s" using coreD(7) [OF core] unfolding rest_ok_def V .
  moreover have "dying_ok ?s" using coreD(8) [OF core] unfolding dying_ok_def F V by auto
  moreover have "embryo_ok ?s" using coreD(9) [OF core] r unfolding embryo_ok_def V by auto
  ultimately show ?thesis by (simp add: core_def sched_ok_def)
qed

lemma leave_wait:
  assumes core: "core s" and r: "st s (cur s) = Some THREAD_RUNNING" and w: "waiting s (cur s) = Some x" and z: "svalue (semas s x) = 0"
  shows "core (set_status (cur s) THREAD_BLOCKED (upd_sema x (\<lambda>m. m\<lparr>waiters := waiters m @ [cur s]\<rparr>) s))" (is "core ?s")
proof -
  have V: "st ?s p = (if p = cur s then Some THREAD_BLOCKED else st s p)" "pc ?s p = pc s p" "rest ?s p = rest s p"
    "waiting ?s p = waiting s p" "births ?s p = births s p" for p using r by (simp_all add: waiting_def births_def split: option.split)
  have same_dom: "dom (threads ?s) = dom (threads s)" using r by (auto simp: dom_threads)
  have F: "cur ?s = cur s" "all_list ?s = all_list s" "idle_thread ?s = idle_thread s" "initial_thread ?s = initial_thread s"
    "holder ?s = holder s" "ready_list ?s = ready_list s"
    "svalue (semas ?s y) = svalue (semas s y)"
    "waiters (semas ?s y) = (if y = x then waiters (semas s x) @ [cur s] else waiters (semas s y))" for y by simp_all
  have nw: "cur s \<notin> set (waiters (semas s y))" for y by (rule not_waiter [OF core r])
  have "ready_ok ?s" using coreD(1) [OF core] r unfolding ready_ok_def F V by auto
  moreover have "wait_ok ?s" using coreD(2) [OF core] nw w unfolding wait_ok_def F V by auto
  moreover have "idle_ok ?s" using coreD(3) [OF core] unfolding idle_ok_def F V by auto
  moreover have "all_ok ?s" using coreD(4) [OF core] r unfolding all_ok_def F V by auto
  moreover have "lock_ok ?s l" for l using coreD(5) [OF core, of l] unfolding lock_ok_def pend_def F V by simp
  moreover have "wakeup_ok ?s"
  proof -
    have "awake ?s y = awake s y" if "y \<noteq> x" for y using that unfolding awake_def F V by simp
    then show ?thesis using coreD(6) [OF core] z same_dom unfolding wakeup_ok_def F by auto
  qed
  moreover have "rest_ok ?s" using coreD(7) [OF core] unfolding rest_ok_def V .
  moreover have "dying_ok ?s" using coreD(8) [OF core] unfolding dying_ok_def F V by auto
  moreover have "embryo_ok ?s" using coreD(9) [OF core] r unfolding embryo_ok_def V by auto
  ultimately show ?thesis by (simp add: core_def sched_ok_def)
qed

lemma leave_idle:
  assumes core: "core s" and r: "st s (cur s) = Some THREAD_RUNNING" and w: "waiting s (cur s) = None"
  shows "core (set_status (cur s) THREAD_BLOCKED s)" (is "core ?s")
proof -
  have V: "st ?s p = (if p = cur s then Some THREAD_BLOCKED else st s p)" "pc ?s p = pc s p" "rest ?s p = rest s p"
    "waiting ?s p = waiting s p" "births ?s p = births s p" for p using r by (simp_all add: waiting_def births_def split: option.split)
  have same_dom: "dom (threads ?s) = dom (threads s)" using r by (auto simp: dom_threads)
  have "ready_ok ?s" using coreD(1) [OF core] r unfolding ready_ok_def V by auto
  moreover have "wait_ok ?s" using coreD(2) [OF core] not_waiter [OF core r] w unfolding wait_ok_def V by auto
  moreover have "idle_ok ?s" using coreD(3) [OF core] unfolding idle_ok_def V by auto
  moreover have "all_ok ?s" using coreD(4) [OF core] r unfolding all_ok_def V by auto
  moreover have "lock_ok ?s l" for l using coreD(5) [OF core, of l] unfolding lock_ok_def pend_def V by simp
  moreover have "wakeup_ok ?s" using coreD(6) [OF core] same_dom unfolding wakeup_ok_def awake_def V by simp
  moreover have "rest_ok ?s" using coreD(7) [OF core] unfolding rest_ok_def V .
  moreover have "dying_ok ?s" using coreD(8) [OF core] unfolding dying_ok_def V by auto
  moreover have "embryo_ok ?s" using coreD(9) [OF core] r unfolding embryo_ok_def V by auto
  ultimately show ?thesis by (simp add: core_def sched_ok_def)
qed

lemma leave_exit:
  assumes core: "core s" and r: "st s (cur s) = Some THREAD_RUNNING" and e: "pc s (cur s) = Some Exit"
  shows "core (set_status (cur s) THREAD_DYING (s\<lparr>all_list := remove1 (cur s) (all_list s)\<rparr>))" (is "core ?s")
proof -
  have V: "st ?s p = (if p = cur s then Some THREAD_DYING else st s p)" "pc ?s p = pc s p" "rest ?s p = rest s p"
    "waiting ?s p = waiting s p" "births ?s p = births s p" for p using r by (simp_all add: waiting_def births_def split: option.split)
  have same_dom: "dom (threads ?s) = dom (threads s)" using r by (auto simp: dom_threads)
  have F: "cur ?s = cur s" "idle_thread ?s = idle_thread s" "initial_thread ?s = initial_thread s" "semas ?s = semas s"
    "holder ?s = holder s" "ready_list ?s = ready_list s" "all_list ?s = remove1 (cur s) (all_list s)" by simp_all
  have "ready_ok ?s" using coreD(1) [OF core] r unfolding ready_ok_def F V by auto
  moreover have "wait_ok ?s" using coreD(2) [OF core] not_waiter [OF core r] unfolding wait_ok_def F V by auto
  moreover have "idle_ok ?s" using coreD(3) [OF core] e unfolding idle_ok_def F V by (elim exE) (rule exI, auto)
  moreover have "all_ok ?s" using coreD(4) [OF core] r unfolding all_ok_def F V by auto
  moreover have "lock_ok ?s l" for l using coreD(5) [OF core, of l] unfolding lock_ok_def pend_def F V by simp
  moreover have "wakeup_ok ?s" using coreD(6) [OF core] same_dom unfolding wakeup_ok_def awake_def F V by simp
  moreover have "rest_ok ?s" using coreD(7) [OF core] unfolding rest_ok_def V .
  moreover have "dying_ok ?s" using coreD(8) [OF core] e unfolding dying_ok_def F V by auto
  moreover have "embryo_ok ?s" using coreD(9) [OF core] r unfolding embryo_ok_def V by auto
  ultimately show ?thesis by (simp add: core_def sched_ok_def)
qed

text \<open>Switching away and restoring the interrupt level.\<close>

definition resumed :: "kstate \<Rightarrow> kstate res \<Rightarrow> bool" where
  "resumed s r \<longleftrightarrow> (\<exists>n s'. r = Inr s' \<and> kinv s' \<and> switched s n (s'\<lparr>intr_on := intr_on s\<rparr>) \<and> picks s n s')"

lemma kinvI: "core s \<Longrightarrow> (\<And>p. st s p = Some THREAD_RUNNING \<longleftrightarrow> p = cur s) \<Longrightarrow> intr_on s \<Longrightarrow> \<not> in_intr s \<Longrightarrow> kinv s"
  by (simp add: kinv_def)

lemma core_intr [simp]: "core (s\<lparr>intr_on := b\<rparr>) = core s" "core (intr_disable s) = core s" "core (intr_set_level b s) = core s" "core (s\<lparr>in_intr := b\<rparr>) = core s"
  by (rule core_cong; simp add: intr_disable_def intr_set_level_def)+

lemma schedule_resumed:
  assumes "core s" "\<And>p. st s p \<noteq> Some THREAD_RUNNING" "\<not> intr_on s" "\<not> in_intr s"
  shows "resumed s (bind_r (schedule s) (\<lambda>s. Inr (intr_set_level True s)))"
proof -
  obtain n s' where r: "schedule s = Inr s'" "switched s n s'" "picks s n s'" "core s'" "\<forall>p. st s' p = Some THREAD_RUNNING \<longleftrightarrow> p = cur s'"
    by (rule schedule_ok [OF assms(1-3)])
  have "kinv (intr_set_level True s')"
    by (rule kinvI) (use r assms(4) in \<open>simp_all add: intr_set_level_def switched_def\<close>)
  moreover have "(intr_set_level True s')\<lparr>intr_on := intr_on s\<rparr> = s'" using r(2) by (simp add: intr_set_level_def switched_def)
  moreover have "picks s n (intr_set_level True s')" using r(3) by (simp add: picks_def intr_set_level_def)
  ultimately show ?thesis unfolding resumed_def r(1) bind_r_Inr using r(2)
    by (intro exI [of _ n] exI [of _ "intr_set_level True s'"]) simp
qed

lemma yield_resumed:
  assumes "kinv s"
  shows "\<exists>s1. resumed s1 (thread_yield s) \<and> core s1 \<and> cur s1 = cur s \<and> semas s1 = semas s
           \<and> ready_list s1 = (if Some (cur s) \<noteq> idle_thread s then ready_list s @ [cur s] else ready_list s) \<and> idle_thread s1 = idle_thread s"
proof -
  note K = kinv_current [OF assms]
  let ?s0 = "intr_disable s"
  let ?s1 = "set_status (cur s) THREAD_READY (if Some (cur s) \<noteq> idle_thread s then ?s0\<lparr>ready_list := ready_list s @ [cur s]\<rparr> else ?s0)"
  have f: "cur ?s0 = cur s" "idle_thread ?s0 = idle_thread s" "ready_list ?s0 = ready_list s" "intr_on ?s0 = False" "in_intr ?s0 = in_intr s"
    "semas ?s0 = semas s" by (simp_all add: intr_disable_def)
  have core: "core ?s1" using leave_yield [of ?s0, unfolded f] K(2,3) by simp
  have "st ?s1 p \<noteq> Some THREAD_RUNNING" for p using K(2) K(6) [of p] by (cases "p = cur s") simp_all
  then have "resumed ?s1 (bind_r (schedule ?s1) (\<lambda>s. Inr (intr_set_level True s)))"
    by (rule schedule_resumed [OF core]) (use K(5) f in simp_all)
  moreover have "thread_yield s = bind_r (schedule ?s1) (\<lambda>s. Inr (intr_set_level True s))"
    using K(1,4,5) f by (simp only: thread_yield_def Let_def bind_r_Inr ASSERT_True simp_thms)
  ultimately have "resumed ?s1 (thread_yield s)" by simp
  then show ?thesis using core f by (intro exI [of _ ?s1]) simp
qed

section \<open>Going on\<close>

text \<open>The running thread replaces its current action.\<close>

definition steps :: "action list \<Rightarrow> bool" where
  "steps as \<longleftrightarrow> (case as of [] \<Rightarrow> True | a # as' \<Rightarrow> (tame a \<or> (\<exists>l. inner l a)) \<and> list_all tame as')"

lemma steps_simps [simp]: "steps []" "steps (a # as) \<longleftrightarrow> (tame a \<or> (\<exists>l. inner l a)) \<and> list_all tame as"
  by (simp_all add: steps_def)

lemma sched_okD:
  assumes "sched_ok s"
  shows "ready_ok s" "wait_ok s" "idle_ok s" "all_ok s" "rest_ok s" "dying_ok s" "embryo_ok s"
  using assms by (simp_all add: sched_ok_def)

lemma coreD2: "core s \<Longrightarrow> sched_ok s" "core s \<Longrightarrow> wakeup_ok s" "core s \<Longrightarrow> lock_ok s l"
  by (simp_all add: core_def)

lemma coreI: "sched_ok s \<Longrightarrow> wakeup_ok s \<Longrightarrow> (\<And>l. lock_ok s l) \<Longrightarrow> core s"
  by (simp add: core_def)

lemma births_become:
  assumes "st s (cur s) = Some THREAD_RUNNING"
  shows "births (become as s) p = (if p = cur s then creates (as @ rest s p) else births s p)"
  using assms by (cases "as @ rest s p"; cases as) (auto simp: births_def split: option.split)

lemma creates_append [simp]: "creates (as @ bs) = creates as @ creates bs"
  by (induction as) simp_all

lemma become_sched:
  assumes ok: "sched_ok s" and r: "st s (cur s) = Some THREAD_RUNNING" and ni: "pc s (cur s) \<noteq> Some Idle_block"
    and t: "steps as" and b: "length (creates (as @ rest s (cur s))) \<le> 1"
    and f: "\<forall>p\<in>set (creates (as @ rest s (cur s))). st s p = Some THREAD_BLOCKED \<and> pc s p = None \<and> (\<forall>q. p \<in> set (births s q) \<longrightarrow> q = cur s)"
  shows "sched_ok (become as s)" (is "sched_ok ?s")
proof -
  note D = sched_okD [OF ok]
  have W: "waiting ?s p = (if p = cur s then waiting ?s p else waiting s p)" for p by (simp add: waiting_def)
  have "ready_ok ?s" using D(1) by (simp add: ready_ok_def)
  moreover have "wait_ok ?s" using D(2) r unfolding wait_ok_def by (simp, subst W, auto)
  moreover have "idle_ok ?s" using D(3) ni by (auto simp: idle_ok_def)
  moreover have "all_ok ?s" using D(4) by (simp add: all_ok_def)
  moreover have "rest_ok ?s"
  proof -
    have "list_all tame (rest s p)" for p using D(5) by (simp add: rest_ok_def)
    then show ?thesis using D(5) t unfolding rest_ok_def by (cases as; cases "rest s (cur s)") (auto dest: spec [of _ "cur s"])
  qed
  moreover have "dying_ok ?s" using D(6) r by (auto simp: dying_ok_def)
  moreover have "embryo_ok ?s"
    using D(7) b f r unfolding embryo_ok_def births_become [OF r] by auto
  ultimately show ?thesis by (simp add: sched_ok_def)
qed

lemma become_sched_nil:
  assumes ok: "sched_ok s" and r: "st s (cur s) = Some THREAD_RUNNING" and ni: "pc s (cur s) \<noteq> Some Idle_block"
    and t: "steps as" "creates as = []"
  shows "sched_ok (become as s)"
proof -
  have "set (creates (rest s (cur s))) \<subseteq> set (births s (cur s))" "length (creates (rest s (cur s))) \<le> length (births s (cur s))"
    using no_thread [of s "cur s"] by (auto simp: births_def rest_def pc_def split: option.splits list.splits)
  moreover note sched_okD(7) [OF ok]
  ultimately show ?thesis using t by (intro become_sched [OF ok r ni]) (auto simp: embryo_ok_def dest: spec [of _ "cur s"])
qed

lemma finite_awake: "finite (dom (threads s)) \<Longrightarrow> finite (awake s x)"
  by (rule finite_subset [of _ "dom (threads s)"]) (auto simp: awake_def waiting_def pc_def dom_def split: option.splits)

lemma become_wakeup:
  assumes ok: "wakeup_ok s" and r: "st s (cur s) = Some THREAD_RUNNING" and w: "waiting s (cur s) = None"
  shows "wakeup_ok (become as s)" (is "wakeup_ok ?s")
proof -
  have d: "dom (threads ?s) = dom (threads s)" by (simp add: dom_threads)
  then have fin: "finite (dom (threads ?s))" using ok by (simp add: wakeup_ok_def)
  have "awake s x \<subseteq> awake ?s x" for x using w by (auto simp: awake_def waiting_def)
  then have "card (awake s x) \<le> card (awake ?s x)" for x by (rule card_mono [OF finite_awake [OF fin]])
  then show ?thesis using ok d by (auto simp: wakeup_ok_def intro: order_trans)
qed

lemma down_wakeup:
  assumes ok: "wakeup_ok s" and w: "waiting s (cur s) = Some x" and v: "svalue (semas s x) \<noteq> 0"
  shows "wakeup_ok (become as (upd_sema x (\<lambda>m. m\<lparr>svalue := svalue m - 1\<rparr>) s))" (is "wakeup_ok ?s")
proof -
  have d: "dom (threads ?s) = dom (threads s)" by (simp add: dom_threads)
  then have fin: "finite (dom (threads ?s))" "finite (dom (threads s))" using ok by (simp_all add: wakeup_ok_def)
  have "awake s y - {cur s} \<subseteq> awake ?s y" for y by (auto simp: awake_def waiting_def)
  then have le: "card (awake s y - {cur s}) \<le> card (awake ?s y)" for y by (rule card_mono [OF finite_awake [OF fin(1)]])
  have "svalue (semas ?s y) \<le> card (awake ?s y)" if "waiters (semas ?s y) \<noteq> []" for y
  proof (cases "y = x")
    case True
    then have "svalue (semas s x) \<le> card (awake s x)" using that ok by (simp add: wakeup_ok_def)
    moreover have "card (awake s x) - 1 \<le> card (awake s x - {cur s})" by (simp add: card_Diff_singleton_if)
    ultimately show ?thesis using le [of x] True by simp
  next
    case False
    then have "awake s y - {cur s} = awake s y" using w by (auto simp: awake_def)
    then show ?thesis using le [of y] False that ok by (auto simp: wakeup_ok_def intro: order_trans)
  qed
  then show ?thesis using fin by (simp add: wakeup_ok_def)
qed

end
