(* ===== verification/SchedStep.thy ===== *)
theory SchedStep
  imports SchedInv
begin

text \<open>
  Every step of the kernel keeps the invariant of \<^verbatim>\<open>SchedInv\<close>: waking a thread, the operations on semaphores,
  locks and condition variables, creating a thread, and the interrupts. From it follow mutual exclusion, that no wake-up
  is lost, that the assertions of the code hold, and the round-robin order of the ready list.
\<close>

section \<open>Waking a thread\<close>

definition woken :: "sid \<Rightarrow> kstate \<Rightarrow> kstate" where
  "woken x s = (case waiters (semas s x) of [] \<Rightarrow> s | p # ps \<Rightarrow> set_status p THREAD_READY (s\<lparr>ready_list := ready_list s @ [p]\<rparr>))"

definition upped :: "sid \<Rightarrow> kstate \<Rightarrow> kstate" where
  "upped x s = upd_sema x (\<lambda>m. \<lparr>svalue = add32 (svalue m) 1, waiters = tl (waiters m)\<rparr>) (woken x s)"

lemma sema_update:
  "m\<lparr>svalue := v\<rparr> = \<lparr>svalue = v, waiters = waiters m\<rparr>" "m\<lparr>waiters := ps\<rparr> = \<lparr>svalue = svalue m, waiters = ps\<rparr>" for m :: semaphore
  by (cases m; simp)+

lemma waiter_blocked: "sched_ok s \<Longrightarrow> p \<in> set (waiters (semas s x)) \<Longrightarrow> st s p = Some THREAD_BLOCKED \<and> waiting s p = Some x"
  by (simp add: sched_ok_def wait_ok_def)

lemma sema_up_eq:
  assumes "sched_ok s"
  shows "sema_up x s = Inr (upped x s)"
proof (cases "waiters (semas s x)")
  case Nil
  then show ?thesis
    by (cases s) (simp add: sema_up_def upped_def woken_def intr_disable_def intr_set_level_def upd_sema_def sema_update)
next
  case (Cons p ps)
  then have "st s p = Some THREAD_BLOCKED" using waiter_blocked [OF assms, of p x] by simp
  then obtain t where "threads s p = Some t" "status t = THREAD_BLOCKED" by (auto simp: st_def)
  with Cons show ?thesis
    by (cases s) (simp add: sema_up_def upped_def woken_def thread_unblock_def is_thread_def has_status_def intr_disable_def intr_set_level_def
      upd_sema_def set_status_def upd_def st_def sema_update)
qed

lemma woken_views:
  assumes "sched_ok s"
  shows "st (woken x s) p = (if p \<in> set (take 1 (waiters (semas s x))) then Some THREAD_READY else st s p)"
    "pc (woken x s) p = pc s p" "rest (woken x s) p = rest s p" "semas (woken x s) = semas s" "holder (woken x s) = holder s"
    "ready_list (woken x s) = ready_list s @ take 1 (waiters (semas s x))" "cur (woken x s) = cur s" "conds (woken x s) = conds s"
    "idle_thread (woken x s) = idle_thread s" "initial_thread (woken x s) = initial_thread s" "all_list (woken x s) = all_list s"
    "intr_on (woken x s) = intr_on s" "in_intr (woken x s) = in_intr s" "next_tid (woken x s) = next_tid s"
    "thread_ticks (woken x s) = thread_ticks s"
proof -
  have b: "p \<in> set (waiters (semas s x)) \<Longrightarrow> st s p = Some THREAD_BLOCKED" for p using waiter_blocked [OF assms] by blast
  show "st (woken x s) p = (if p \<in> set (take 1 (waiters (semas s x))) then Some THREAD_READY else st s p)"
    by (cases "waiters (semas s x)") (use b [of p] in \<open>auto simp: woken_def\<close>)
qed (cases "waiters (semas s x)"; simp add: woken_def)+

lemma upped_fields:
  assumes "sched_ok s"
  shows "st (upped x s) p = (if p \<in> set (take 1 (waiters (semas s x))) then Some THREAD_READY else st s p)"
    "pc (upped x s) p = pc s p" "rest (upped x s) p = rest s p" "waiting (upped x s) p = waiting s p" "births (upped x s) p = births s p"
    "waiters (semas (upped x s) y) = (if y = x then tl (waiters (semas s x)) else waiters (semas s y))"
    "svalue (semas (upped x s) y) = (if y = x then add32 (svalue (semas s x)) 1 else svalue (semas s y))"
    "holder (upped x s) = holder s"
    "ready_list (upped x s) = ready_list s @ take 1 (waiters (semas s x))" "cur (upped x s) = cur s" "conds (upped x s) = conds s"
    "idle_thread (upped x s) = idle_thread s" "initial_thread (upped x s) = initial_thread s" "all_list (upped x s) = all_list s"
    "intr_on (upped x s) = intr_on s" "in_intr (upped x s) = in_intr s" "next_tid (upped x s) = next_tid s"
    "thread_ticks (upped x s) = thread_ticks s"
  unfolding upped_def waiting_def births_def by (simp_all add: woken_views [OF assms] split: option.split)

lemma upped_sched:
  assumes ok: "sched_ok s"
  shows "sched_ok (upped x s)" (is "sched_ok ?s")
proof -
  note D = sched_okD [OF ok] and V = upped_fields [OF ok]
  have w: "distinct (waiters (semas s y))" "\<And>p. p \<in> set (waiters (semas s y)) \<longleftrightarrow> st s p = Some THREAD_BLOCKED \<and> waiting s p = Some y" for y
    using D(2) by (auto simp: wait_ok_def)
  have t: "p \<in> set (take 1 (waiters (semas s x))) \<Longrightarrow> st s p = Some THREAD_BLOCKED \<and> waiting s p = Some x" for p
    using w(2) in_set_takeD by metis
  have i: "p \<in> set (take 1 (waiters (semas s x))) \<Longrightarrow> pc s p \<noteq> Some Idle_block \<and> pc s p \<noteq> None" for p
    using t [of p] by (cases "pc s p") (auto simp: waiting_def)
  have "ready_ok ?s"
    using D(1,3) t i w(1) [of x] unfolding ready_ok_def idle_ok_def V by (auto simp: distinct_take)
  moreover have "wait_ok ?s"
  proof -
    have "p \<in> set (tl (waiters (semas s x))) \<longleftrightarrow> p \<in> set (waiters (semas s x)) \<and> p \<notin> set (take 1 (waiters (semas s x)))" for p
      using w(1) [of x] by (cases "waiters (semas s x)") auto
    then show ?thesis using w t unfolding wait_ok_def V by (auto simp: distinct_tl)
  qed
  moreover have "idle_ok ?s" using D(3) unfolding idle_ok_def V by auto
  moreover have "all_ok ?s" using D(4) t unfolding all_ok_def V by auto
  moreover have "rest_ok ?s" using D(5) unfolding rest_ok_def V .
  moreover have "dying_ok ?s" using D(6) unfolding dying_ok_def V by auto
  moreover have "embryo_ok ?s" using D(7) i unfolding embryo_ok_def V by (auto; metis option.distinct(1))
  ultimately show ?thesis by (simp add: sched_ok_def)
qed

lemma upped_wakeup:
  assumes ok: "sched_ok s" and w: "wakeup_ok s"
  shows "wakeup_ok (upped x s)" (is "wakeup_ok ?s")
proof -
  note V = upped_fields [OF ok]
  have d: "distinct (waiters (semas s x))" "\<And>p. p \<in> set (waiters (semas s x)) \<Longrightarrow> st s p \<noteq> None \<and> waiting s p = Some x"
    using sched_okD(2) [OF ok] by (auto simp: wait_ok_def)
  have dm: "dom (threads ?s) = dom (threads s)"
    using d(2) unfolding dom_threads V by (auto dest: in_set_takeD)
  have fin: "finite (awake s x)" using w finite_awake by (auto simp: wakeup_ok_def)
  have "svalue (semas ?s y) \<le> card (awake ?s y)" if ne: "waiters (semas ?s y) \<noteq> []" for y
  proof (cases "y = x")
    case True
    with ne obtain p ps where p: "waiters (semas s x) = p # ps" unfolding V by (cases "waiters (semas s x)") auto
    have "awake ?s x = insert p (awake s x)" using d p unfolding awake_def V by auto
    moreover have "p \<notin> awake s x" using p by (simp add: awake_def)
    ultimately have "card (awake ?s x) = card (awake s x) + 1" using fin by simp
    moreover have "svalue (semas s x) \<le> card (awake s x)" using w p by (simp add: wakeup_ok_def)
    ultimately show ?thesis using True unfolding V by (simp add: add32_def order_trans [OF mod_less_eq_dividend])
  next
    case False
    then show ?thesis using w ne unfolding wakeup_ok_def awake_def V by simp
  qed
  then show ?thesis using w dm by (simp add: wakeup_ok_def)
qed

section \<open>The parts of the invariant\<close>

lemma sched_cong:
  assumes "st s' = st s" "pc s' = pc s" "rest s' = rest s" "ready_list s' = ready_list s" "all_list s' = all_list s"
    "idle_thread s' = idle_thread s" "initial_thread s' = initial_thread s" "cur s' = cur s"
    "\<And>x. waiters (semas s' x) = waiters (semas s x)"
  shows "sched_ok s' = sched_ok s"
proof -
  have "waiting s' = waiting s" using assms(2) by (simp add: fun_eq_iff waiting_def)
  moreover have "births s' = births s" using assms(2,3) by (intro ext) (simp only: births_def)
  ultimately show ?thesis
    using assms unfolding sched_ok_def ready_ok_def wait_ok_def idle_ok_def all_ok_def rest_ok_def dying_ok_def embryo_ok_def by simp
qed

lemma wakeup_cong:
  assumes "st s' = st s" "pc s' = pc s" "semas s' = semas s"
  shows "wakeup_ok s' = wakeup_ok s"
proof -
  have "waiting s' = waiting s" using assms(2) by (simp add: fun_eq_iff waiting_def)
  moreover have "dom (threads s') = dom (threads s)" using assms(1) by (simp add: dom_threads)
  ultimately show ?thesis using assms unfolding wakeup_ok_def awake_def by simp
qed

lemma lock_cong:
  assumes "svalue (semas s' (Of_lock l)) = svalue (semas s (Of_lock l))" "holder s' l = holder s l" "\<And>q. pend s' q l = pend s q l"
  shows "lock_ok s' l = lock_ok s l"
  using assms by (simp add: lock_ok_def)

lemma parts_holder [simp]: "sched_ok (s\<lparr>holder := h\<rparr>) = sched_ok s" "wakeup_ok (s\<lparr>holder := h\<rparr>) = wakeup_ok s"
    "pend (s\<lparr>holder := h\<rparr>) q l = pend s q l"
  using sched_cong [of "s\<lparr>holder := h\<rparr>" s] wakeup_cong [of "s\<lparr>holder := h\<rparr>" s] by (simp_all add: pend_def)

lemma sched_value [simp]: "sched_ok (upd_sema x (\<lambda>m. m\<lparr>svalue := f m\<rparr>) s) = sched_ok s"
  by (rule sched_cong) simp_all

lemma pend_sema [simp]: "pend (upd_sema x f s) q l = pend s q l"
  by (simp add: pend_def)

lemma kinv_other:
  assumes "st s' = st s" "pc s' = pc s" "rest s' = rest s" "ready_list s' = ready_list s" "all_list s' = all_list s"
    "idle_thread s' = idle_thread s" "initial_thread s' = initial_thread s" "semas s' = semas s" "holder s' = holder s" "cur s' = cur s"
    "intr_on s' = intr_on s" "in_intr s' = in_intr s"
  shows "kinv s' = kinv s"
  using core_cong [OF assms(1-10)] assms by (simp add: kinv_def)

lemma kinv_conds [simp]: "kinv (s\<lparr>conds := cs\<rparr>) = kinv s"
  by (rule kinv_other) simp_all

lemma rest_not_inner:
  assumes "sched_ok s"
  shows "rest s p \<noteq> [] \<Longrightarrow> \<not> inner l (hd (rest s p))"
  using sched_okD(5) [OF assms] by (cases "rest s p") (auto simp: rest_ok_def inner_def dest: spec [of _ p])

lemma pend_become:
  assumes "sched_ok s" "st s (cur s) = Some THREAD_RUNNING"
  shows "pend (become as s) q l = (if q = cur s then as \<noteq> [] \<and> inner l (hd as) else pend s q l)"
  using rest_not_inner [OF assms(1), of q l] assms(2)
  by (cases as; cases "rest s q") (auto simp: pend_def)

lemma pc_head:
  assumes "kinv s" "pc s (cur s) = Some a"
  shows "tame a \<or> (\<exists>l. inner l a)"
  using assms by (auto simp: kinv_def core_def sched_ok_def rest_ok_def)

section \<open>The running thread goes on\<close>

lemma kinv_become:
  assumes k: "kinv s" and core: "core (become as s)"
  shows "kinv (become as s)"
  using kinv_current [OF k] by (intro kinvI [OF core]) simp_all

lemma tame_steps: "list_all tame as \<Longrightarrow> steps as"
  by (cases as) simp_all

lemma go_on:
  assumes k: "kinv s" and w: "waiting s (cur s) = None" and p: "\<And>l. \<not> pend s (cur s) l" and i: "pc s (cur s) \<noteq> Some Idle_block"
    and as: "list_all tame as" "creates as = []"
  shows "kinv (become as s)"
proof (rule kinv_become [OF k coreI])
  note K = kinv_current [OF k]
  show "sched_ok (become as s)" by (rule become_sched_nil [OF coreD2(1) [OF K(3)] K(2) i tame_steps [OF as(1)] as(2)])
  show "wakeup_ok (become as s)" by (rule become_wakeup [OF coreD2(2) [OF K(3)] K(2) w])
  show "lock_ok (become as s) l" for l
  proof -
    have "as \<noteq> [] \<Longrightarrow> \<not> inner l (hd as)" using as(1) by (cases as) (auto simp: inner_def)
    then have "pend (become as s) q l = pend s q l" for q using p by (auto simp: pend_become [OF coreD2(1) [OF K(3)] K(2)])
    then show ?thesis using coreD2(3) [OF K(3)] lock_cong [of "become as s" l s] by simp
  qed
qed

lemma upped_kinv:
  assumes k: "kinv s" and x: "\<And>l. x \<noteq> Of_lock l"
  shows "kinv (upped x s)"
proof -
  note K = kinv_current [OF k] and ok = coreD2(1) [OF kinv_current(3) [OF k]] and V = upped_fields [OF coreD2(1) [OF kinv_current(3) [OF k]]]
  have "core (upped x s)"
  proof (rule coreI [OF upped_sched [OF ok] upped_wakeup [OF ok coreD2(2) [OF K(3)]]])
    show "lock_ok (upped x s) l" for l
      using coreD2(3) [OF K(3), of l] x [of l] lock_cong [of "upped x s" l s] by (auto simp: V pend_def)
  qed
  moreover have "st (upped x s) p = Some THREAD_RUNNING \<longleftrightarrow> p = cur (upped x s)" for p
    using K(6) [of p] waiter_blocked [OF ok, of p x] by (auto simp: V dest: in_set_takeD)
  ultimately show ?thesis by (rule kinvI) (use K(4,5) in \<open>simp_all add: V\<close>)
qed

section \<open>Semaphores and locks\<close>

lemma resumed_kinv: "resumed s1 r \<Longrightarrow> \<exists>s'. r = Inr s' \<and> kinv s'"
  by (auto simp: resumed_def)

text \<open>The state in which a thread that has to wait calls \<open>schedule\<close>.\<close>

definition parked :: "sid \<Rightarrow> kstate \<Rightarrow> kstate" where
  "parked x s = set_status (cur s) THREAD_BLOCKED (upd_sema x (\<lambda>m. m\<lparr>waiters := waiters m @ [cur s]\<rparr>) (intr_disable s))"

lemma intr_disable_fields [simp]: "cur (intr_disable s) = cur s" "idle_thread (intr_disable s) = idle_thread s"
  "ready_list (intr_disable s) = ready_list s" "intr_on (intr_disable s) = False" "in_intr (intr_disable s) = in_intr s"
  "semas (intr_disable s) = semas s" "holder (intr_disable s) = holder s" "conds (intr_disable s) = conds s"
  "all_list (intr_disable s) = all_list s" "initial_thread (intr_disable s) = initial_thread s"
  by (simp_all add: intr_disable_def)

lemma waiting_intr [simp]: "waiting (intr_disable s) = waiting s"
  by (simp add: fun_eq_iff waiting_def)

lemma down_block:
  assumes k: "kinv s" and w: "waiting s (cur s) = Some x" and v: "svalue (semas s x) = 0"
  shows "resumed (parked x s) (sema_down_pass x as s)"
proof -
  note K = kinv_current [OF k]
  let ?s0 = "intr_disable s"
  have c: "thread_current ?s0 = Inr (cur s)" using K(2) thread_current_running [of ?s0] by simp
  have c': "thread_current (upd_sema x f ?s0) = Inr (cur s)" for f using K(2) thread_current_running [of "upd_sema x f ?s0"] by simp
  have core: "core (parked x s)" using leave_wait [of ?s0 x] K(2,3) w v by (simp add: parked_def)
  have nr: "st (parked x s) p \<noteq> Some THREAD_RUNNING" for p using K(2) K(6) [of p] by (auto simp: parked_def)
  have "sema_down_pass x as s = bind_r (schedule (parked x s)) (\<lambda>s. Inr (intr_set_level True s))"
    using K(4,5) v c c' by (simp add: sema_down_pass_def thread_block_def parked_def)
  then show ?thesis using schedule_resumed [OF core nr] K(5) by (simp add: parked_def)
qed

lemma down_take:
  assumes k: "kinv s" and v: "svalue (semas s x) \<noteq> 0"
  shows "sema_down_pass x as s = Inr (become as (upd_sema x (\<lambda>m. m\<lparr>svalue := svalue m - 1\<rparr>) s))"
  using kinv_current(4,5) [OF k] v
  by (cases s) (simp add: sema_down_pass_def intr_disable_def intr_set_level_def become_def upd_def upd_sema_def)

lemma awaited: "waiting s p = Some x \<Longrightarrow> \<not> pend s p l \<and> pc s p \<noteq> Some Idle_block"
  by (cases "pc s p") (auto simp: waiting_def pend_def inner_def)

text \<open>Taking a semaphore; the one of a lock with the record of its holder still to be written.\<close>

lemma took_kinv:
  assumes k: "kinv s" and i: "pc s (cur s) \<noteq> Some Idle_block" and np: "\<And>l. \<not> pend s (cur s) l" and v: "svalue (semas s x) \<noteq> 0"
    and as: "as = (case x of Of_lock l \<Rightarrow> [Lock_take l] | _ \<Rightarrow> [])"
    and w: "wakeup_ok (become as (upd_sema x (\<lambda>m. m\<lparr>svalue := svalue m - 1\<rparr>) s))"
  shows "kinv (become as (upd_sema x (\<lambda>m. m\<lparr>svalue := svalue m - 1\<rparr>) s))" (is "kinv (become as ?s)")
proof -
  note K = kinv_current [OF k] and ok = coreD2(1) [OF kinv_current(3) [OF k]]
  have s: "steps as" "creates as = []" unfolding as by (simp_all add: inner_def split: sid.split)
  have ok': "sched_ok ?s" using ok by simp
  have "sched_ok (become as ?s)" using become_sched_nil [OF ok' _ _ s] K(2) i by simp
  moreover have "lock_ok (become as ?s) l" for l
  proof -
    have p: "pend (become as ?s) q l = (if q = cur s then x = Of_lock l else pend s q l)" for q
      using pend_become [OF ok', of as q l] K(2) by (simp add: as inner_def split: sid.split)
    show ?thesis
    proof (cases "x = Of_lock l")
      case True
      then have "svalue (semas s x) = 1 \<and> holder s l = None \<and> (\<forall>q. \<not> pend s q l)"
        using coreD2(3) [OF K(3), of l] v by (auto simp: lock_ok_def)
      then show ?thesis unfolding lock_ok_def p using True by auto
    next
      case False
      then have "pend (become as ?s) q l = pend s q l" for q unfolding p using np [of l] by auto
      then show ?thesis using coreD2(3) [OF K(3), of l] False lock_cong [of "become as ?s" l s] by simp
    qed
  qed
  ultimately have "core (become as ?s)" using w by (intro coreI)
  then show ?thesis using K by (intro kinvI) simp_all
qed

lemma take_kinv:
  assumes k: "kinv s" and w: "waiting s (cur s) = Some x" and v: "svalue (semas s x) \<noteq> 0"
    and as: "as = (case x of Of_lock l \<Rightarrow> [Lock_take l] | _ \<Rightarrow> [])"
  shows "kinv (become as (upd_sema x (\<lambda>m. m\<lparr>svalue := svalue m - 1\<rparr>) s))"
  by (rule took_kinv [OF k _ _ v as down_wakeup [OF coreD2(2) [OF kinv_current(3) [OF k]] w v]]) (use awaited [OF w] in simp_all)

lemma try_kinv:
  assumes k: "kinv s" and a: "pc s (cur s) = Some a" "awaits (cur s) a = None" "\<And>l. \<not> inner l a" "a \<noteq> Idle_block"
    and as: "as = (case x of Of_lock l \<Rightarrow> [Lock_take l] | _ \<Rightarrow> [])"
  shows "kinv (become (if snd (sema_try_down x s) then as else []) (fst (sema_try_down x s)))"
proof (cases "svalue (semas s x) = 0")
  case True
  then show ?thesis using a by (auto simp: sema_try_down_def waiting_def pend_def intro!: go_on [OF k])
next
  case False
  let ?s = "upd_sema x (\<lambda>m. m\<lparr>svalue := svalue m - 1\<rparr>) s"
  have "wakeup_ok ?s" using coreD2(2) [OF kinv_current(3) [OF k]] unfolding wakeup_ok_def awake_def
    by (auto simp: waiting_def intro: le_trans [OF diff_le_self])
  then have "wakeup_ok (become as ?s)" by (rule become_wakeup) (use kinv_current(2) [OF k] a in \<open>simp_all add: waiting_def\<close>)
  then have "kinv (become as ?s)" by (intro took_kinv [OF k _ _ False as]) (use a in \<open>simp_all add: pend_def\<close>)
  then show ?thesis using False by (simp add: sema_try_down_def)
qed

lemma down_kinv:
  assumes "kinv s" "waiting s (cur s) = Some x" "as = (case x of Of_lock l \<Rightarrow> [Lock_take l] | _ \<Rightarrow> [])"
  shows "\<exists>s'. sema_down_pass x as s = Inr s' \<and> kinv s'"
proof (cases "svalue (semas s x) = 0")
  case True
  then show ?thesis using resumed_kinv [OF down_block [OF assms(1,2)]] by blast
next
  case False
  then show ?thesis using down_take [OF assms(1)] take_kinv [OF assms(1,2) False assms(3)] by simp
qed

lemma pend_owner: "lock_ok s l \<Longrightarrow> pend s p l \<Longrightarrow> svalue (semas s (Of_lock l)) = 0 \<and> holder s l = None \<and> (\<forall>q. pend s q l \<longleftrightarrow> q = p)"
  unfolding lock_ok_def by (elim disjE; clarsimp)

lemma lock_take_kinv:
  assumes k: "kinv s" and a: "pc s (cur s) = Some (Lock_take l)"
  shows "\<exists>s'. lock_take l s = Inr s' \<and> kinv s'"
proof -
  note K = kinv_current [OF k] and ok = coreD2(1) [OF kinv_current(3) [OF k]]
  let ?s = "s\<lparr>holder := (holder s)(l := Some (cur s))\<rparr>"
  have ok': "sched_ok ?s" using ok by simp
  have pd: "pend s (cur s) m \<longleftrightarrow> m = l" for m using a by (auto simp: pend_def inner_def)
  have own: "svalue (semas s (Of_lock l)) = 0" "pend s q l \<longleftrightarrow> q = cur s" for q
    using pend_owner [OF coreD2(3) [OF K(3)], of "cur s" l] pd by auto
  have "sched_ok (become [] ?s)" using become_sched_nil [OF ok'] K(2) a by simp
  moreover have "wakeup_ok (become [] ?s)" using become_wakeup [of ?s "[]"] coreD2(2) [OF K(3)] K(2) a by (simp add: waiting_def)
  moreover have "lock_ok (become [] ?s) m" for m
  proof -
    have p: "pend (become [] ?s) q m = (q \<noteq> cur s \<and> pend s q m)" for q using pend_become [OF ok', of "[]" q m] K(2) by simp
    show ?thesis
    proof (cases "m = l")
      case True
      then show ?thesis unfolding lock_ok_def p using own by simp
    next
      case False
      then have "pend (become [] ?s) q m = pend s q m" for q unfolding p using pd by auto
      then show ?thesis using coreD2(3) [OF K(3), of m] False lock_cong [of "become [] ?s" m s] by simp
    qed
  qed
  ultimately have "core (become [] ?s)" by (rule coreI)
  then have "kinv (become [] ?s)" using K by (intro kinvI) simp_all
  then show ?thesis using K(1) by (simp add: lock_take_def)
qed

lemma lock_release_kinv:
  assumes k: "kinv s" and a: "pc s (cur s) = Some (Lock_release l)" and h: "holder s l = Some (cur s)"
  shows "\<exists>s'. lock_release_enter l s = Inr s' \<and> kinv s'"
proof -
  note K = kinv_current [OF k] and ok = coreD2(1) [OF kinv_current(3) [OF k]]
  let ?s = "s\<lparr>holder := (holder s)(l := None)\<rparr>"
  have ok': "sched_ok ?s" using ok by simp
  have pd: "\<not> pend s (cur s) m" for m using a by (auto simp: pend_def inner_def)
  have own: "svalue (semas s (Of_lock l)) = 0" "\<not> pend s q l" for q using coreD2(3) [OF K(3), of l] h by (auto simp: lock_ok_def)
  have "sched_ok (become [Lock_up l] ?s)" using become_sched_nil [OF ok', of "[Lock_up l]"] K(2) a by (simp add: inner_def)
  moreover have "wakeup_ok (become [Lock_up l] ?s)" using become_wakeup [of ?s "[Lock_up l]"] coreD2(2) [OF K(3)] K(2) a by (simp add: waiting_def)
  moreover have "lock_ok (become [Lock_up l] ?s) m" for m
  proof -
    have p: "pend (become [Lock_up l] ?s) q m = (if q = cur s then m = l else pend s q m)" for q
      using pend_become [OF ok', of "[Lock_up l]" q m] K(2) by (auto simp: inner_def)
    show ?thesis
    proof (cases "m = l")
      case True
      then show ?thesis unfolding lock_ok_def p using own by auto
    next
      case False
      then have "pend (become [Lock_up l] ?s) q m = pend s q m" for q unfolding p using pd by auto
      then show ?thesis using coreD2(3) [OF K(3), of m] False lock_cong [of "become [Lock_up l] ?s" m s] by simp
    qed
  qed
  ultimately have "core (become [Lock_up l] ?s)" by (rule coreI)
  then have "kinv (become [Lock_up l] ?s)" using K by (intro kinvI) simp_all
  then show ?thesis using K(1) h by (simp add: lock_release_enter_def lock_held_by_current_thread_def)
qed

lemma lock_up_kinv:
  assumes k: "kinv s" and a: "pc s (cur s) = Some (Lock_up l)"
  shows "sema_up (Of_lock l) (become [] s) = Inr (upped (Of_lock l) (become [] s)) \<and> kinv (upped (Of_lock l) (become [] s))"
proof -
  note K = kinv_current [OF k] and ok = coreD2(1) [OF kinv_current(3) [OF k]]
  let ?s = "become [] s" let ?u = "upped (Of_lock l) ?s"
  have pd: "pend s (cur s) m \<longleftrightarrow> m = l" for m using a by (auto simp: pend_def inner_def)
  have own: "svalue (semas s (Of_lock l)) = 0" "holder s l = None" "pend s q l \<longleftrightarrow> q = cur s" for q
    using pend_owner [OF coreD2(3) [OF K(3)], of "cur s" l] pd by auto
  have ok': "sched_ok ?s" using become_sched_nil [OF ok K(2)] a by simp
  note V = upped_fields [OF ok', of "Of_lock l"]
  have "wakeup_ok ?s" using become_wakeup [of s "[]"] coreD2(2) [OF K(3)] K(2) a by (simp add: waiting_def)
  then have w: "wakeup_ok ?u" by (rule upped_wakeup [OF ok'])
  have "lock_ok ?u m" for m
  proof -
    have "pend ?u q m = pend ?s q m" for q by (simp add: pend_def V)
    then have p: "pend ?u q m = (q \<noteq> cur s \<and> pend s q m)" for q using pend_become [OF ok K(2), of "[]" q m] by simp
    show ?thesis
    proof (cases "m = l")
      case True
      then show ?thesis unfolding lock_ok_def p V using own by (auto simp: add32_def)
    next
      case False
      then have "pend ?u q m = pend s q m" for q unfolding p using pd by auto
      then show ?thesis using coreD2(3) [OF K(3), of m] False lock_cong [of ?u m s] by (simp add: V)
    qed
  qed
  then have c: "core ?u" by (rule coreI [OF upped_sched [OF ok'] w])
  have r: "st ?u p = Some THREAD_RUNNING \<longleftrightarrow> p = cur s" for p
    using K(6) [of p] waiter_blocked [OF ok, of p "Of_lock l"] by (auto simp: V dest: in_set_takeD)
  have "kinv ?u" by (rule kinvI [OF c]) (use r K(4,5) in \<open>simp_all add: V\<close>)
  then show ?thesis using sema_up_eq [OF ok'] by simp
qed

section \<open>Condition variables\<close>

lemma go_on_pc:
  assumes "kinv s" "pc s (cur s) = Some a" "awaits (cur s) a = None" "\<And>l. \<not> inner l a" "a \<noteq> Idle_block" "list_all tame as" "creates as = []"
  shows "kinv (become as s)"
  using assms by (intro go_on) (simp_all add: waiting_def pend_def)

lemma sema_init_kinv:
  assumes k: "kinv s" and x: "\<And>l. x \<noteq> Of_lock l" and e: "waiters (semas s x) = []"
  shows "kinv (sema_init x v s)" (is "kinv ?s")
proof (rule kinvI [OF coreI])
  note K = kinv_current [OF k]
  have W: "waiters (semas ?s y) = waiters (semas s y)" for y using e by (simp add: sema_init_def)
  show "sched_ok ?s" using sched_cong [of ?s s] coreD2(1) [OF K(3)] W by (simp add: sema_init_def)
  show "wakeup_ok ?s" using coreD2(2) [OF K(3)] e unfolding wakeup_ok_def awake_def W by (simp add: sema_init_def waiting_def)
  show "lock_ok ?s l" for l using coreD2(3) [OF K(3), of l] x [of l] lock_cong [of ?s l s] by (auto simp: sema_init_def)
qed (use kinv_current [OF k] in \<open>simp_all add: sema_init_def\<close>)

lemma waits_for_own: "waiting s p = Some (Waiter q) \<Longrightarrow> p = q"
  by (cases "pc s p") (auto simp: waiting_def elim!: awaits.elims)

lemma cond_wait_kinv:
  assumes k: "kinv s" and a: "pc s (cur s) = Some (Cond_wait c l)" and h: "holder s l = Some (cur s)"
  shows "\<exists>s'. cond_wait c l s = Inr s' \<and> kinv s'"
proof -
  note K = kinv_current [OF k]
  let ?x = "Waiter (cur s)"
  have "waiters (semas s ?x) = []"
    using waiter_blocked [OF coreD2(1) [OF K(3)], of _ ?x] waits_for_own [of s _ "cur s"] K(2)
    by (cases "waiters (semas s ?x)") fastforce+
  then have k': "kinv (sema_init ?x 0 s)" by (intro sema_init_kinv [OF k]) simp_all
  let ?s = "(sema_init ?x 0 s)\<lparr>conds := (conds s)(c := conds s c @ [cur s])\<rparr>"
  have "kinv (become [Lock_release l, Waiter_down, Lock_acquire l] ?s)"
    by (rule go_on_pc [of _ "Cond_wait c l"]) (use k' a in \<open>simp_all add: sema_init_def inner_def\<close>)
  then show ?thesis using K(1,5) h by (simp add: cond_wait_def lock_held_by_current_thread_def Let_def sema_init_def)
qed

lemma cond_signal_kinv:
  assumes k: "kinv s" and h: "holder s l = Some (cur s)"
  shows "\<exists>s'. cond_signal c l s = Inr s' \<and> kinv s' \<and> cur s' = cur s \<and> pc s' (cur s) = pc s (cur s)"
proof (cases "conds s c")
  case Nil
  then show ?thesis using kinv_current(1,5) [OF k] k h by (simp add: cond_signal_def lock_held_by_current_thread_def)
next
  case (Cons p ps)
  let ?s = "s\<lparr>conds := (conds s)(c := ps)\<rparr>"
  have k': "kinv ?s" using k by simp
  note ok = coreD2(1) [OF kinv_current(3) [OF k']]
  have "cond_signal c l s = Inr (upped (Waiter p) ?s)"
    using Cons kinv_current(1,5) [OF k] h sema_up_eq [OF ok, of "Waiter p"] by (simp add: cond_signal_def lock_held_by_current_thread_def)
  then show ?thesis using upped_kinv [OF k', of "Waiter p"] upped_fields [OF ok, of "Waiter p"] by simp
qed

section \<open>Creating threads\<close>

lemma rest_none: "pc s p = None \<Longrightarrow> rest s p = []"
  by (auto simp: pc_def rest_def split: option.splits list.splits)

lemma init_thread_kinv:
  assumes k: "kinv s" and f: "threads s p = None" and pr: "PRI_MIN \<le> pr" "pr \<le> PRI_MAX"
  shows "\<exists>s'. init_thread p nm pr s = Inr s' \<and> kinv s' \<and> cur s' = cur s \<and> pc s' = pc s \<and> rest s' = rest s \<and> st s' = (st s)(p \<mapsto> THREAD_BLOCKED)
    \<and> idle_thread s' = idle_thread s"
proof -
  note K = kinv_current [OF k] and D = sched_okD [OF coreD2(1) [OF kinv_current(3) [OF k]]]
  define t where "t = \<lparr>tid = 0, status = THREAD_BLOCKED, name = take 39 nm, priority = pr, user_process = False, todo = []\<rparr>"
  define s' where "s' = s\<lparr>threads := (threads s)(p \<mapsto> t), all_list := all_list s @ [p]\<rparr>"
  have np: "st s p = None" using f by (simp add: st_def)
  have V: "st s' q = (if q = p then Some THREAD_BLOCKED else st s q)" "pc s' q = pc s q" "rest s' q = rest s q"
    "waiting s' q = waiting s q" "births s' q = births s q" for q
    using f by (auto simp: s'_def t_def st_def pc_def rest_def waiting_def births_def split: option.split)
  have F: "cur s' = cur s" "idle_thread s' = idle_thread s" "initial_thread s' = initial_thread s" "semas s' = semas s"
    "holder s' = holder s" "ready_list s' = ready_list s" "all_list s' = all_list s @ [p]" by (simp_all add: s'_def)
  have wn: "waiting s p = None" using no_thread(1) [OF np] by (simp add: waiting_def)
  have nw: "p \<notin> set (waiters (semas s x))" for x using D(2) np by (auto simp: wait_ok_def)
  have "ready_ok s'" using D(1) np unfolding ready_ok_def V F by auto
  moreover have "wait_ok s'" using D(2) wn nw unfolding wait_ok_def V F by auto
  moreover have "idle_ok s'" using D(3) unfolding idle_ok_def V F by auto
  moreover have "all_ok s'" using D(4) np unfolding all_ok_def V F by auto
  moreover have "rest_ok s'" using D(5) unfolding rest_ok_def V .
  moreover have "dying_ok s'" using D(6) unfolding dying_ok_def V F by auto
  moreover have "embryo_ok s'" using D(7) unfolding embryo_ok_def V by auto
  ultimately have ok: "sched_ok s'" by (simp add: sched_ok_def)
  have "wakeup_ok s'" using coreD2(2) [OF K(3)] unfolding wakeup_ok_def awake_def V F by (simp add: s'_def)
  moreover have "lock_ok s' l" for l using coreD2(3) [OF K(3), of l] lock_cong [of s' l s] by (simp add: pend_def V F)
  ultimately have "core s'" by (intro coreI [OF ok])
  moreover have "st s' q = Some THREAD_RUNNING \<longleftrightarrow> q = cur s'" for q using K(6) [of q] np by (cases "q = p") (auto simp: V F)
  ultimately have "kinv s'" by (rule kinvI) (use K(4,5) in \<open>simp_all add: s'_def\<close>)
  moreover have "init_thread p nm pr s = Inr s'" using pr by (simp add: init_thread_def s'_def t_def)
  moreover have "pc s' = pc s" "rest s' = rest s" "st s' = (st s)(p \<mapsto> THREAD_BLOCKED)" by (simp_all add: fun_eq_iff V)
  ultimately show ?thesis by (simp add: F)
qed

lemma thread_create_enter_kinv:
  assumes k: "kinv s" and i: "pc s (cur s) = None" and f: "threads s p = None" and pr: "PRI_MIN \<le> pr" "pr \<le> PRI_MAX" and b: "list_all api body"
  shows "\<exists>s'. thread_create_enter p nm pr body s = Inr s' \<and> kinv s'"
proof -
  let ?as = "allocate_tid p @ [Create_finish p nm body]"
  obtain s1 where s1: "init_thread p nm pr s = Inr s1" "kinv s1" "cur s1 = cur s" "pc s1 = pc s" "rest s1 = rest s" "st s1 = (st s)(p \<mapsto> THREAD_BLOCKED)"
    using init_thread_kinv [OF k f pr] by blast
  note K = kinv_current [OF s1(2)] and ok = coreD2(1) [OF kinv_current(3) [OF s1(2)]]
  have np: "st s p = None" using f by (simp add: st_def)
  have nb: "p \<notin> set (births s1 q)" for q
  proof -
    have "births s1 q = births s q" by (simp only: births_def s1(4,5))
    then show ?thesis using sched_okD(7) [OF coreD2(1) [OF kinv_current(3) [OF k]]] np by (auto simp: embryo_ok_def)
  qed
  have cr: "creates (?as @ rest s1 (cur s1)) = [p]" using i s1 rest_none by (simp add: allocate_tid_def)
  have "sched_ok (become ?as s1)"
    by (rule become_sched [OF ok K(2)], unfold cr) (use i s1 b nb no_thread(1) [OF np] in \<open>simp_all add: allocate_tid_def\<close>)
  moreover have "wakeup_ok (become ?as s1)" by (rule become_wakeup [OF coreD2(2) [OF K(3)] K(2)]) (use i s1 in \<open>simp add: waiting_def\<close>)
  moreover have "lock_ok (become ?as s1) l" for l
  proof -
    have "\<not> pend s1 (cur s1) l" using i s1 by (simp add: pend_def)
    moreover have "pend (become ?as s1) q l = (if q = cur s1 then False else pend s1 q l)" for q
      using pend_become [OF ok K(2), of ?as q l] by (simp add: allocate_tid_def inner_def)
    ultimately have "pend (become ?as s1) q l = pend s1 q l" for q by auto
    then show ?thesis using coreD2(3) [OF K(3), of l] lock_cong [of "become ?as s1" l s1] by simp
  qed
  ultimately have "kinv (become ?as s1)" by (intro kinv_become [OF s1(2)] coreI)
  then show ?thesis using s1(1) by (simp add: thread_create_enter_def)
qed

lemma api_tame: "list_all api as \<Longrightarrow> list_all tame as \<and> creates as = []"
proof (induction as)
  case (Cons a as)
  then show ?case by (cases a) simp_all
qed simp

text \<open>A new thread is given its code and starts.\<close>

definition started :: "tptr \<Rightarrow> action list \<Rightarrow> kstate \<Rightarrow> kstate" where
  "started p body s = set_status p THREAD_READY ((upd p (\<lambda>t. t\<lparr>todo := body\<rparr>) s)\<lparr>ready_list := ready_list s @ [p]\<rparr>)"

lemma started_kinv:
  assumes k: "kinv s" and e: "st s p = Some THREAD_BLOCKED" "pc s p = None" "\<And>q. p \<notin> set (births s q)" and b: "list_all api body"
  shows "kinv (started p body s)" (is "kinv ?s")
proof -
  note K = kinv_current [OF k] and D = sched_okD [OF coreD2(1) [OF kinv_current(3) [OF k]]]
  let ?h = "case body of [] \<Rightarrow> None | a # _ \<Rightarrow> Some a"
  have V: "st ?s q = (if q = p then Some THREAD_READY else st s q)" "pc ?s q = (if q = p then ?h else pc s q)"
    "rest ?s q = (if q = p then tl body else rest s q)" for q
    using e(1) by (auto simp: started_def st_def pc_def rest_def set_status_def upd_def)
  have W: "waiting ?s q = (if q = p then Option.bind ?h (awaits p) else waiting s q)" for q by (simp add: waiting_def V)
  have wn: "waiting s p = None" using e(2) by (simp add: waiting_def)
  have B: "births ?s q = (if q = p then [] else births s q)" for q
    unfolding births_def V using api_tame [OF b] by (cases body) (simp_all split: option.split)
  have bp: "births s p = []" using e(2) by (simp add: births_def)
  have F: "cur ?s = cur s" "idle_thread ?s = idle_thread s" "initial_thread ?s = initial_thread s" "semas ?s = semas s"
    "holder ?s = holder s" "ready_list ?s = ready_list s @ [p]" "all_list ?s = all_list s" "intr_on ?s = intr_on s" "in_intr ?s = in_intr s"
    by (simp_all add: started_def upd_def)
  have nw: "p \<notin> set (waiters (semas s x))" for x using D(2) wn by (auto simp: wait_ok_def)
  have ni: "idle_thread s \<noteq> Some p" using D(3) e(2) by (auto simp: idle_ok_def)
  have "ready_ok ?s" using D(1) e(1) ni unfolding ready_ok_def V F by auto
  moreover have "wait_ok ?s" using D(2) nw unfolding wait_ok_def V W F by auto
  moreover have "idle_ok ?s" using D(3) e(2) unfolding idle_ok_def V F by auto
  moreover have "all_ok ?s" using D(4) e(1) unfolding all_ok_def V F by auto
  moreover have "rest_ok ?s" using D(5) api_tame [OF b] unfolding rest_ok_def V by (cases body) auto
  moreover have "dying_ok ?s" using D(6) unfolding dying_ok_def V F by auto
  moreover have "embryo_ok ?s"
  proof -
    have "q \<in> set (births s r) \<Longrightarrow> q \<noteq> p" for q r using e(3) by auto
    then show ?thesis using D(7) unfolding embryo_ok_def V B by auto
  qed
  ultimately have ok: "sched_ok ?s" by (simp add: sched_ok_def)
  have "wakeup_ok ?s"
  proof -
    have d: "dom (threads ?s) = dom (threads s)" using e(1) by (auto simp: dom_threads V)
    then have fin: "finite (dom (threads ?s))" using coreD2(2) [OF K(3)] by (simp add: wakeup_ok_def)
    have "awake s x \<subseteq> awake ?s x" for x using wn unfolding awake_def W F by auto
    then have "card (awake s x) \<le> card (awake ?s x)" for x by (rule card_mono [OF finite_awake [OF fin]])
    then show ?thesis using coreD2(2) [OF K(3)] fin unfolding wakeup_ok_def F by (blast intro: order_trans)
  qed
  moreover have "lock_ok ?s l" for l
  proof -
    have "\<not> pend s p l" using e(2) by (simp add: pend_def)
    then have "pend ?s q l = pend s q l" for q unfolding pend_def V using api_tame [OF b] by (cases body) (auto simp: inner_def)
    then show ?thesis using coreD2(3) [OF K(3), of l] lock_cong [of ?s l s] by (simp add: F)
  qed
  ultimately have c: "core ?s" by (intro coreI [OF ok])
  have "st ?s q = Some THREAD_RUNNING \<longleftrightarrow> q = cur ?s" for q using K(6) [of q] e(1) by (cases "q = p") (auto simp: V F)
  with c show ?thesis by (rule kinvI) (use K(4,5) F in simp_all)
qed

lemma creates_head: "pc s q = Some (Create_finish p nm body) \<Longrightarrow> births s q = p # creates (rest s q)"
  by (simp add: births_def)

lemma embryo_blocked: "embryo_ok s \<Longrightarrow> p \<in> set (births s q) \<Longrightarrow> st s p = Some THREAD_BLOCKED \<and> pc s p = None"
  by (simp add: embryo_ok_def)

lemma embryo_creator: "embryo_ok s \<Longrightarrow> p \<in> set (births s q) \<Longrightarrow> p \<in> set (births s q') \<Longrightarrow> q = q'"
  by (simp add: embryo_ok_def)

lemma create_finish_kinv:
  assumes k: "kinv s" and a: "pc s (cur s) = Some (Create_finish p nm body)" and n: "length nm < 40"
  shows "\<exists>s'. thread_create_finish p nm body s = Inr s' \<and> kinv s'"
proof -
  note K = kinv_current [OF k] and D = sched_okD [OF coreD2(1) [OF kinv_current(3) [OF k]]]
  have bs: "births s (cur s) = p # creates (rest s (cur s))" by (rule creates_head [OF a])
  then have nil: "creates (rest s (cur s)) = []" using D(7) by (auto simp: embryo_ok_def dest: spec [of _ "cur s"])
  have p: "st s p = Some THREAD_BLOCKED" "pc s p = None" using embryo_blocked [OF D(7), of p "cur s"] bs by auto
  then have pc: "p \<noteq> cur s" using a by auto
  have nb: "p \<notin> set (births (become [] s) q)" for q
  proof (cases "q = cur s")
    case True
    then show ?thesis using nil by (simp add: births_become [OF K(2)])
  next
    case False
    moreover have "p \<in> set (births s (cur s))" unfolding bs by simp
    ultimately show ?thesis using embryo_creator [OF D(7), of p "cur s" q] by (simp add: births_become [OF K(2)]) blast
  qed
  have b: "list_all api body" using pc_head [OF k a] by (simp add: inner_def)
  have "kinv (become [] s)" by (rule go_on_pc [OF k a]) (simp_all add: inner_def)
  then have ks: "kinv (started p body (become [] s))" by (rule started_kinv [OF _ _ _ nb b]) (use p pc in simp_all)
  have c: "become [] (upd p (\<lambda>t. t\<lparr>todo := body\<rparr>) s) = upd p (\<lambda>t. t\<lparr>todo := body\<rparr>) (become [] s)"
    using pc by (simp add: become_def upd_def fun_upd_twist)
  have "st (upd p (\<lambda>t. t\<lparr>todo := body\<rparr>) (become [] s)) p = Some THREAD_BLOCKED"
    using p(1) pc by (simp add: st_def upd_def become_def) (auto simp: option.map_comp comp_def)
  moreover have "ready_list (upd p f s') = ready_list s'" for f s' by (simp add: upd_def)
  ultimately have "thread_create_finish p nm body s = Inr (started p body (become [] s))"
    using n by (simp add: thread_create_finish_def c thread_unblock_def status_st started_def)
  with ks show ?thesis by blast
qed

lemma take_tid_kinv:
  assumes k: "kinv s" and a: "pc s (cur s) = Some (Take_tid p)"
  shows "\<exists>s'. take_tid p s = Inr s' \<and> kinv s'"
proof -
  let ?s = "upd p (\<lambda>t. t\<lparr>tid := next_tid s\<rparr>) (s\<lparr>next_tid := next_tid s + 1\<rparr>)"
  have V: "st ?s = st s" "pc ?s = pc s" "rest ?s = rest s"
    by (auto simp: fun_eq_iff st_def pc_def rest_def upd_def option.map_comp comp_def split: option.split)
  have "kinv ?s" using k kinv_other [of ?s s] V by (simp add: upd_def)
  then have "kinv (become [] ?s)" by (rule go_on_pc [of _ "Take_tid p"]) (use a V in \<open>simp_all add: inner_def upd_def\<close>)
  then show ?thesis by (simp add: take_tid_def)
qed

section \<open>Blocking, leaving and interrupts\<close>

lemma idle_block_kinv:
  assumes k: "kinv s" and a: "pc s (cur s) = Some Idle_block"
  shows "\<exists>s'. bind_r (thread_block (intr_disable s)) (\<lambda>s. Inr (intr_set_level True s)) = Inr s' \<and> kinv s'"
proof -
  note K = kinv_current [OF k]
  let ?s = "set_status (cur s) THREAD_BLOCKED (intr_disable s)"
  have c: "thread_current (intr_disable s) = Inr (cur s)" using K(2) thread_current_running [of "intr_disable s"] by simp
  have core: "core ?s" using leave_idle [of "intr_disable s"] K(2,3) a by (simp add: waiting_def)
  have "st ?s p \<noteq> Some THREAD_RUNNING" for p using K(2) K(6) [of p] by auto
  then have "resumed ?s (bind_r (schedule ?s) (\<lambda>s. Inr (intr_set_level True s)))" using K(5) by (intro schedule_resumed [OF core]) simp_all
  then show ?thesis using resumed_kinv K(5) c by (simp add: thread_block_def)
qed

lemma exit_kinv:
  assumes k: "kinv s" and a: "pc s (cur s) = Some Exit"
  shows "\<exists>s'. thread_exit s = Inr s' \<and> kinv s'"
proof -
  note K = kinv_current [OF k]
  let ?s = "set_status (cur s) THREAD_DYING ((intr_disable s)\<lparr>all_list := remove1 (cur s) (all_list s)\<rparr>)"
  have c: "thread_current (intr_disable s) = Inr (cur s)" using K(2) thread_current_running [of "intr_disable s"] by simp
  have core: "core ?s" using leave_exit [of "intr_disable s"] K(2,3) a by simp
  have "st ?s p \<noteq> Some THREAD_RUNNING" for p using K(2) K(6) [of p] by auto
  then have "resumed ?s (bind_r (schedule ?s) (\<lambda>s. Inr (intr_set_level True s)))" using K(5) by (intro schedule_resumed [OF core]) simp_all
  then show ?thesis using resumed_kinv K(5) c by (simp add: thread_exit_def Let_def)
qed

lemma thread_tick_state:
  assumes k: "kinv s"
  shows "\<exists>s' y. thread_tick (s\<lparr>in_intr := True\<rparr>) = Inr (s', y) \<and> kinv (s'\<lparr>in_intr := False\<rparr>) \<and> thread_ticks s' = add32 (thread_ticks s) 1
    \<and> y = (thread_ticks s' \<ge> TIME_SLICE) \<and> cur s' = cur s \<and> ready_list s' = ready_list s \<and> idle_thread s' = idle_thread s"
proof -
  note K = kinv_current [OF k]
  have c: "thread_current (s\<lparr>in_intr := True\<rparr>) = Inr (cur s)" using K(2) thread_current_running [of "s\<lparr>in_intr := True\<rparr>"] by simp
  have o: "kinv s'" if "threads s' = threads s" "ready_list s' = ready_list s" "all_list s' = all_list s" "idle_thread s' = idle_thread s"
    "initial_thread s' = initial_thread s" "semas s' = semas s" "holder s' = holder s" "cur s' = cur s" "intr_on s' = intr_on s" "\<not> in_intr s'" for s'
    using k K(5) kinv_other [of s' s] view_cong [OF that(1)] that by simp
  show ?thesis
  proof (cases "Some (cur s) = idle_thread s")
    case True
    then show ?thesis by (simp add: thread_tick_def c Let_def o)
  next
    case False
    then show ?thesis
      by (cases "case threads s (cur s) of Some t \<Rightarrow> user_process t | None \<Rightarrow> False") (simp_all add: thread_tick_def c Let_def o)
  qed
qed

lemma timer_kinv:
  assumes k: "kinv s"
  shows "\<exists>s'. timer_interrupt s = Inr s' \<and> kinv s'"
proof -
  obtain s1 y where t: "thread_tick (s\<lparr>in_intr := True\<rparr>) = Inr (s1, y)" "kinv (s1\<lparr>in_intr := False\<rparr>)"
    using thread_tick_state [OF k] by blast
  obtain s2 where "resumed s2 (thread_yield (s1\<lparr>in_intr := False\<rparr>))" using yield_resumed [OF t(2)] by blast
  then show ?thesis using t resumed_kinv [of s2] by (cases y) (simp_all add: timer_interrupt_def)
qed

lemma device_kinv:
  assumes k: "kinv s"
  shows "device_interrupt n s = Inr (upped (Plain n) s) \<and> kinv (upped (Plain n) s)"
proof -
  note K = kinv_current [OF k]
  have "sched_ok (s\<lparr>in_intr := True\<rparr>)" using coreD2(1) [OF K(3)] sched_cong [of "s\<lparr>in_intr := True\<rparr>" s] by simp
  then have "sema_up (Plain n) (s\<lparr>in_intr := True\<rparr>) = Inr (upped (Plain n) (s\<lparr>in_intr := True\<rparr>))" by (rule sema_up_eq)
  moreover have "(upped (Plain n) (s\<lparr>in_intr := True\<rparr>))\<lparr>in_intr := False\<rparr> = upped (Plain n) s"
    using K(5) by (cases s) (auto simp: upped_def woken_def upd_sema_def set_status_def upd_def split: list.split)
  ultimately show ?thesis using upped_kinv [OF k] by (simp add: device_interrupt_def)
qed

section \<open>Every step\<close>

text \<open>The calls the assertions of the code rule out, and the full name that does not fit its array.\<close>

fun misuse :: "kstate \<Rightarrow> action \<Rightarrow> bool" where
  "misuse s (Lock_acquire l) = (holder s l = Some (cur s))"
| "misuse s (Lock_try l) = (holder s l = Some (cur s))"
| "misuse s (Lock_release l) = (holder s l \<noteq> Some (cur s))"
| "misuse s (Cond_wait c l) = (holder s l \<noteq> Some (cur s))"
| "misuse s (Cond_signal c l) = (holder s l \<noteq> Some (cur s))"
| "misuse s (Cond_broadcast c l) = (conds s c \<noteq> [] \<and> holder s l \<noteq> Some (cur s))"
| "misuse s (Create_finish p nm body) = (length nm \<ge> 40)"
| "misuse s _ = False"

fun refusal :: "action \<Rightarrow> fault" where
  "refusal (Create_finish p nm body) = Out_of_bounds" | "refusal _ = Assert_failed"

lemma exec_misuse: "kinv s \<Longrightarrow> misuse s a \<Longrightarrow> exec_action a s = Inl (refusal a)"
  using kinv_current(1,5) [of s]
  by (cases a) (simp_all add: exec_action_def lock_acquire_enter_def lock_try_acquire_def lock_release_enter_def cond_wait_def cond_signal_def
    lock_held_by_current_thread_def thread_create_finish_def)

lemma exec_ok:
  assumes k: "kinv s" and a: "pc s (cur s) = Some a" and m: "\<not> misuse s a"
  shows "\<exists>s'. exec_action a s = Inr s' \<and> kinv s'"
proof (cases a)
  case (Sema_down n)
  then show ?thesis using down_kinv [OF k, of "Plain n" "[]"] a by (simp add: exec_action_def waiting_def)
next
  case (Sema_try n)
  then show ?thesis using try_kinv [OF k a, of "[]" "Plain n"] by (simp add: exec_action_def inner_def split: if_splits)
next
  case (Lock_try l)
  then have "kinv (become (if snd (sema_try_down (Of_lock l) s) then [Lock_take l] else []) (fst (sema_try_down (Of_lock l) s)))"
    by (intro try_kinv [OF k a]) (simp_all add: inner_def)
  then show ?thesis using Lock_try m kinv_current(1) [OF k]
    by (simp add: exec_action_def lock_try_acquire_def lock_held_by_current_thread_def case_prod_unfold Let_def)
next
  case (Sema_up n)
  then have k': "kinv (become [] s)" by (intro go_on_pc [OF k a]) (simp_all add: inner_def)
  show ?thesis using sema_up_eq [OF coreD2(1) [OF kinv_current(3) [OF k']]] upped_kinv [OF k', of "Plain n"] Sema_up by (simp add: exec_action_def)
next
  case (Lock_acquire l)
  then have "kinv (become [Lock_down l] s)" by (intro go_on_pc [OF k a]) (simp_all add: inner_def)
  then show ?thesis using Lock_acquire m kinv_current(1,5) [OF k]
    by (simp add: exec_action_def lock_acquire_enter_def lock_held_by_current_thread_def)
next
  case (Lock_down l)
  then show ?thesis using down_kinv [OF k, of "Of_lock l" "[Lock_take l]"] a by (simp add: exec_action_def waiting_def)
next
  case (Lock_take l)
  then show ?thesis using lock_take_kinv [OF k] a by (simp add: exec_action_def)
next
  case (Lock_release l)
  then show ?thesis using lock_release_kinv [OF k] a m by (simp add: exec_action_def)
next
  case (Lock_up l)
  then show ?thesis using lock_up_kinv [OF k] a by (simp add: exec_action_def)
next
  case (Cond_wait c l)
  then show ?thesis using cond_wait_kinv [OF k] a m by (simp add: exec_action_def)
next
  case Waiter_down
  then show ?thesis using down_kinv [OF k, of "Waiter (cur s)" "[]"] a by (simp add: exec_action_def waiting_def)
next
  case (Cond_signal c l)
  then have h: "holder s l = Some (cur s)" using m by simp
  obtain s1 where s1: "cond_signal c l s = Inr s1" "kinv s1" "cur s1 = cur s" "pc s1 (cur s) = pc s (cur s)"
    using cond_signal_kinv [OF k h, of c] by blast
  have "kinv (become [] s1)" by (rule go_on_pc [OF s1(2), of a]) (use s1 a Cond_signal in \<open>simp_all add: inner_def\<close>)
  then show ?thesis using Cond_signal s1(1) by (simp add: exec_action_def)
next
  case (Cond_broadcast c l)
  show ?thesis
  proof (cases "conds s c = []")
    case True
    have "kinv (become [] s)" by (rule go_on_pc [OF k a]) (simp_all add: Cond_broadcast inner_def)
    then show ?thesis using True Cond_broadcast by (simp add: exec_action_def)
  next
    case False
    then have "holder s l = Some (cur s)" using m Cond_broadcast by simp
    then show ?thesis using cond_signal_kinv [OF k, of l c] False Cond_broadcast by (auto simp: exec_action_def)
  qed
next
  case Yield
  then have "kinv (become [] s)" by (intro go_on_pc [OF k a]) (simp_all add: inner_def)
  then obtain s1 where "resumed s1 (thread_yield (become [] s))" using yield_resumed by blast
  then show ?thesis using Yield resumed_kinv [of s1] by (simp add: exec_action_def)
next
  case Idle_init
  then show ?thesis using pc_head [OF k a] by (simp add: inner_def)
next
  case Idle_block
  then show ?thesis using idle_block_kinv [OF k] a by (simp add: exec_action_def)
next
  case (Take_tid p)
  then show ?thesis using take_tid_kinv [OF k] a by (simp add: exec_action_def)
next
  case (Create_finish p nm body)
  then show ?thesis using create_finish_kinv [OF k] a m by (simp add: exec_action_def)
next
  case Exit
  then show ?thesis using exit_kinv [OF k] a by (simp add: exec_action_def)
qed

lemma call_kinv:
  assumes k: "kinv s" and i: "pc s (cur s) = None" and as: "list_all api as"
  shows "kinv (set_todo as s)"
proof -
  have "set_todo as s = become as s"
    using i by (cases "threads s (cur s)") (auto simp: set_todo_def become_def upd_def pc_def split: list.splits)
  moreover have "kinv (become as s)" by (rule go_on [OF k]) (use i api_tame [OF as] in \<open>simp_all add: waiting_def pend_def\<close>)
  ultimately show ?thesis by simp
qed

lemma kstep_kinv: "kstep s s' \<Longrightarrow> kinv s \<Longrightarrow> kinv s'"
proof (induction rule: kstep.induct)
  case (run s a s')
  then show ?case using exec_ok [of s a] exec_misuse [of s a] by (cases "misuse s a") auto
next
  case (spawn s p body nm pr s')
  then have "PRI_MIN \<le> pr \<and> pr \<le> PRI_MAX"
    by (auto simp: thread_create_enter_def init_thread_def ASSERT_eq_Inr bind_r_eq_Inr)
  then show ?case using thread_create_enter_kinv [of s p pr body nm] spawn by auto
qed (use call_kinv timer_kinv device_kinv in force)+

lemma steps_kinv: "kstep\<^sup>*\<^sup>* s s' \<Longrightarrow> kinv s \<Longrightarrow> kinv s'"
  by (induction rule: rtranclp_induct) (auto intro: kstep_kinv)

end
