(* ===== verification/SchedProps.thy ===== *)
theory SchedProps
  imports SchedStep
begin

text \<open>
  The scheduler from boot on: the state in which the idle thread is ready satisfies the invariant, and the
  properties of every state reached from there.
\<close>

section \<open>Boot\<close>

fun run_steps :: "nat \<Rightarrow> kstate \<Rightarrow> kstate res" where
  "run_steps 0 s = Inr s"
| "run_steps (Suc n) s = bind_r (run_cur s) (run_steps n)"

text \<open>The memory of the kernel before \<open>thread_init\<close>; the locks other than \<open>tid_lock\<close> are as \<open>lock_init\<close> leaves them.\<close>

definition bss :: kstate where
  "bss = \<lparr>threads = (\<lambda>_. None), cur = 0, ready_list = [], all_list = [], idle_thread = None, initial_thread = 0, next_tid = 1,
     thread_ticks = 0, idle_ticks = 0, kernel_ticks = 0, user_ticks = 0, semas = (\<lambda>x. case x of Of_lock l \<Rightarrow> \<lparr>svalue = 1, waiters = []\<rparr> | _ \<Rightarrow> \<lparr>svalue = 0, waiters = []\<rparr>),
     holder = (\<lambda>_. None), conds = (\<lambda>_. []), intr_on = False, in_intr = False\<rparr>"

text \<open>Boot with the initial thread at page 1 and the idle thread at page 2, until the idle thread is about to block.\<close>

definition boot :: "kstate res" where
  "boot = bind_r (bind_r (thread_init 1 bss) (thread_start 2)) (run_steps 10)"

definition two :: "thread \<Rightarrow> thread \<Rightarrow> tptr \<Rightarrow> thread option" where
  "two a b = (\<lambda>_. None)(1 \<mapsto> a, 2 \<mapsto> b)"

lemma two_simps [simp]: "two a b (Suc 0) = Some a" "two a b 2 = Some b" "(two a b)(Suc 0 := Some c) = two c b" "(two a b)(2 := Some c) = two a c"
  by (auto simp: two_def fun_eq_iff)

definition sems :: "semaphore \<Rightarrow> nat \<Rightarrow> sid \<Rightarrow> semaphore" where
  "sems a v = (\<lambda>x. case x of Of_lock l \<Rightarrow> \<lparr>svalue = 1, waiters = []\<rparr> | _ \<Rightarrow> \<lparr>svalue = 0, waiters = []\<rparr>)(Plain 0 := a, Of_lock 0 := \<lparr>svalue = v, waiters = []\<rparr>)"

lemma sems_simps [simp]: "sems a v (Plain 0) = a" "sems a v (Of_lock 0) = \<lparr>svalue = v, waiters = []\<rparr>"
  "(sems a v)(Plain 0 := b) = sems b v" "(sems a v)(Of_lock 0 := \<lparr>svalue = w, waiters = []\<rparr>) = sems a w"
  by (auto simp: sems_def fun_eq_iff)

definition mainth :: "thread_status \<Rightarrow> action list \<Rightarrow> thread" where
  "mainth x as = \<lparr>tid = 1, status = x, name = ''main'', priority = 31, user_process = False, todo = as\<rparr>"

definition idleth :: "32 word \<Rightarrow> thread_status \<Rightarrow> action list \<Rightarrow> thread" where
  "idleth i x as = \<lparr>tid = i, status = x, name = ''idle'', priority = 0, user_process = False, todo = as\<rparr>"

definition booting :: "thread \<Rightarrow> thread \<Rightarrow> tptr \<Rightarrow> tptr list \<Rightarrow> tptr option \<Rightarrow> 32 word \<Rightarrow> semaphore \<Rightarrow> nat \<Rightarrow> tptr option \<Rightarrow> kstate" where
  "booting a b c r i n m v h = \<lparr>threads = two a b, cur = c, ready_list = r, all_list = [1, 2], idle_thread = i, initial_thread = 1, next_tid = n,
     thread_ticks = 0, idle_ticks = 0, kernel_ticks = 0, user_ticks = 0, semas = sems m v,
     holder = (\<lambda>_. None)(0 := h), conds = (\<lambda>_. []), intr_on = True, in_intr = False\<rparr>"

lemmas run_defs = run_cur_def exec_action_def sema_down_pass_def sema_up_def lock_acquire_enter_def lock_take_def lock_release_enter_def
  lock_held_by_current_thread_def take_tid_def thread_create_finish_def thread_unblock_def thread_block_def schedule_def thread_schedule_tail_def
  next_thread_to_run_def thread_current_def become_def upd_def upd_sema_def set_status_def has_status_code is_thread_def intr_disable_def intr_set_level_def

abbreviation "m0 \<equiv> \<lparr>svalue = 0, waiters = []\<rparr>"

lemma run_steps_numeral: "run_steps (Suc 0) s = run_cur s" "run_steps 2 s = bind_r (run_cur s) run_cur"
    "run_steps 3 s = bind_r (run_cur s) (\<lambda>s. bind_r (run_cur s) run_cur)"
  by (cases "run_cur s"; auto simp: numeral_2_eq_2 numeral_3_eq_3 bind_r_def split: sum.splits)+

lemmas boot_defs = run_steps_numeral booting_def mainth_def idleth_def run_defs Let_def tid_lock_def idle_started_def idle_body_def

lemma boot_start:
  "bind_r (thread_init 1 bss) (thread_start 2) = Inr (booting
     (mainth THREAD_RUNNING [Lock_acquire 0, Take_tid 2, Lock_release 0, Create_finish 2 ''idle'' idle_body, Sema_down 0])
     (idleth 0 THREAD_BLOCKED []) 1 [] None 2 m0 1 None)"
  by (simp add: thread_init_def thread_start_def bss_def lock_init_def sema_init_def init_thread_def thread_create_enter_def allocate_tid_def
    PRI_MIN_def PRI_DEFAULT_def PRI_MAX_def boot_defs two_def sems_def fun_eq_iff)

lemma boot_lock:
  "run_steps 3 (booting (mainth THREAD_RUNNING (Lock_acquire 0 # as)) b 1 [] None 2 m0 1 None)
     = Inr (booting (mainth THREAD_RUNNING as) b 1 [] None 2 m0 0 (Some 1))"
  by (simp add: boot_defs)

lemma boot_tid:
  "run_steps 1 (booting (mainth THREAD_RUNNING (Take_tid 2 # as)) (idleth 0 THREAD_BLOCKED []) 1 [] None 2 m0 0 (Some 1))
     = Inr (booting (mainth THREAD_RUNNING as) (idleth 2 THREAD_BLOCKED []) 1 [] None 3 m0 0 (Some 1))"
  by (simp add: boot_defs)

lemma boot_unlock:
  "run_steps 2 (booting (mainth THREAD_RUNNING (Lock_release 0 # as)) b 1 [] None 3 m0 0 (Some 1))
     = Inr (booting (mainth THREAD_RUNNING as) b 1 [] None 3 m0 1 None)"
  by (simp add: boot_defs add32_def)

lemma boot_create:
  "run_steps 1 (booting (mainth THREAD_RUNNING (Create_finish 2 ''idle'' body # as)) (idleth 2 THREAD_BLOCKED []) 1 [] None 3 m0 1 None)
     = Inr (booting (mainth THREAD_RUNNING as) (idleth 2 THREAD_READY body) 1 [2] None 3 m0 1 None)"
  by (simp add: boot_defs)

lemma boot_wait:
  "run_steps 1 (booting (mainth THREAD_RUNNING [Sema_down 0]) (idleth 2 THREAD_READY body) 1 [2] None 3 m0 1 None)
     = Inr (booting (mainth THREAD_BLOCKED [Sema_down 0]) (idleth 2 THREAD_RUNNING body) 2 [] None 3 \<lparr>svalue = 0, waiters = [1]\<rparr> 1 None)"
  by (simp add: boot_defs)

definition booted :: kstate where
  "booted = booting (mainth THREAD_READY [Sema_down 0]) (idleth 2 THREAD_RUNNING [Idle_block]) 2 [1] (Some 2) 3 \<lparr>svalue = 1, waiters = []\<rparr> 1 None"

lemma boot_idle:
  "run_steps 2 (booting (mainth THREAD_BLOCKED [Sema_down 0]) (idleth 2 THREAD_RUNNING idle_body) 2 [] None 3 \<lparr>svalue = 0, waiters = [1]\<rparr> 1 None)
     = Inr booted"
  by (simp add: boot_defs add32_def booted_def)

lemma run_steps_add: "run_steps (m + n) s = bind_r (run_steps m s) (run_steps n)"
  by (induction m arbitrary: s) (auto simp: bind_r_assoc fun_eq_iff intro: bind_r_cong)

lemma boot_booted: "boot = Inr booted"
proof -
  have "run_steps 10 s = run_steps (3 + (1 + (2 + (1 + (1 + 2))))) s" for s by simp
  then show ?thesis
    by (simp only: boot_def boot_start bind_r_Inr run_steps_add boot_lock boot_tid boot_unlock boot_create boot_wait boot_idle)
qed

lemma booted_views:
  "st booted = (\<lambda>_. None)(1 \<mapsto> THREAD_READY, 2 \<mapsto> THREAD_RUNNING)" "pc booted = (\<lambda>_. None)(1 \<mapsto> Sema_down 0, 2 \<mapsto> Idle_block)"
  "rest booted = (\<lambda>_. [])"
  by (auto simp: fun_eq_iff st_def pc_def rest_def booted_def booting_def two_def mainth_def idleth_def)

lemma booted_fields: "ready_list booted = [1]" "all_list booted = [1, 2]" "idle_thread booted = Some 2" "initial_thread booted = 1" "cur booted = 2"
  "waiters (semas booted x) = []" "svalue (semas booted (Of_lock l)) = 1" "holder booted l = None" "intr_on booted" "\<not> in_intr booted"
  "thread_ticks booted = 0"
  by (simp_all add: booted_def booting_def sems_def split: sid.split)

lemma booted_kinv: "kinv booted"
proof -
  note V = booted_views booted_fields
  have W: "waiting booted p = (if p = 1 then Some (Plain 0) else None)" for p by (simp add: waiting_def V)
  have B: "births booted p = []" for p by (simp add: births_def V)
  have "finite (dom (threads booted))" by (rule finite_subset [of _ "{1, 2}"]) (auto simp: dom_threads V split: if_splits)
  then have "sched_ok booted" "wakeup_ok booted" "lock_ok booted l" for l
    unfolding sched_ok_def core_defs V W B pend_def by (auto simp: V inner_def)
  then show ?thesis by (intro kinvI coreI) (auto simp: V)
qed

section \<open>Properties of every reachable state\<close>

text \<open>The states of the running system: those reached from a state that satisfies the invariant, as boot does.\<close>

definition reachable :: "kstate \<Rightarrow> bool" where
  "reachable s \<longleftrightarrow> (\<exists>s0. boot = Inr s0 \<and> kstep\<^sup>*\<^sup>* s0 s)"

lemma reachable_kinv: "reachable s \<Longrightarrow> kinv s"
  using steps_kinv booted_kinv by (auto simp: reachable_def boot_booted)

lemma reachable_booted: "reachable booted"
  by (auto simp: reachable_def boot_booted)

text \<open>A thread is in the critical section of a lock from the moment it has taken its semaphore until it has given it back.\<close>

definition in_section :: "kstate \<Rightarrow> tptr \<Rightarrow> nat \<Rightarrow> bool" where
  "in_section s p l \<longleftrightarrow> holder s l = Some p \<or> (\<exists>a. pc s p = Some a \<and> (a = Lock_take l \<or> a = Lock_up l))"

lemma in_section_pend: "in_section s p l \<longleftrightarrow> holder s l = Some p \<or> pend s p l"
  by (simp add: in_section_def pend_def inner_def)

lemma awake_runnable:
  assumes k: "kinv s" and p: "p \<in> awake s x"
  shows "p = cur s \<or> p \<in> set (ready_list s)"
proof -
  note K = kinv_current [OF k] and D = sched_okD [OF coreD2(1) [OF kinv_current(3) [OF k]]]
  have w: "waiting s p = Some x" "p \<notin> set (waiters (semas s x))" using p by (auto simp: awake_def)
  then have "st s p \<noteq> Some THREAD_BLOCKED" using D(2) by (auto simp: wait_ok_def)
  moreover have pc: "pc s p \<noteq> None" "pc s p \<noteq> Some Exit" "pc s p \<noteq> Some Idle_block" using w(1) by (cases "pc s p"; auto simp: waiting_def)+
  moreover have "st s p \<noteq> None" using pc(1) no_thread(1) [of s p] by (cases "st s p") simp_all
  moreover have "st s p \<noteq> Some THREAD_DYING" using D(6) pc(2) unfolding dying_ok_def by blast
  ultimately have "st s p = Some THREAD_RUNNING \<or> st s p = Some THREAD_READY" by (cases "st s p"; cases "the (st s p)") simp_all
  moreover have "idle_thread s \<noteq> Some p" using D(3) pc(3) by (auto simp: idle_ok_def)
  ultimately show ?thesis using K(6) [of p] D(1) by (auto simp: ready_ok_def)
qed

section \<open>Time slices\<close>

lemma schedule_ticks: "schedule s = Inr s' \<Longrightarrow> thread_ticks s' = 0"
  by (auto simp: schedule_def thread_schedule_tail_def next_thread_to_run_def Let_def res_inv split: if_splits option.splits list.splits prod.splits)

definition slice_kept :: "kstate \<Rightarrow> kstate res \<Rightarrow> bool" where
  "slice_kept s r \<longleftrightarrow> (\<forall>s'. r = Inr s' \<longrightarrow> thread_ticks s' = thread_ticks s \<or> thread_ticks s' = 0)"

lemma down_slice: "slice_kept s (sema_down_pass x as s)"
  by (auto simp: slice_kept_def sema_down_pass_def thread_block_def Let_def res_inv intr_set_level_def intr_disable_def become_def upd_def upd_sema_def
      dest: schedule_ticks split: if_splits)

lemma yield_slice: "slice_kept s (thread_yield s)"
  by (auto simp: slice_kept_def thread_yield_def Let_def res_inv intr_set_level_def dest: schedule_ticks)

lemma up_slice: "slice_kept s (sema_up x s)"
  by (auto simp: slice_kept_def sema_up_def thread_unblock_def Let_def res_inv intr_set_level_def intr_disable_def split: list.splits)

lemma signal_slice: "slice_kept s (cond_signal c l s)"
  using up_slice by (fastforce simp: slice_kept_def cond_signal_def lock_held_by_current_thread_def res_inv split: list.splits)

lemma exec_slice: "slice_kept s (exec_action a s)"
proof (cases a)
  case (Sema_up n)
  then show ?thesis using up_slice [of "become [] s" "Plain n"] by (simp add: exec_action_def slice_kept_def)
next
  case (Lock_up n)
  then show ?thesis using up_slice [of "become [] s" "Of_lock n"] by (simp add: exec_action_def slice_kept_def)
next
  case (Cond_signal c l)
  then show ?thesis using signal_slice [of s c l] by (auto simp: exec_action_def slice_kept_def res_inv)
next
  case (Cond_broadcast c l)
  then show ?thesis using signal_slice [of s c l] by (auto simp: exec_action_def slice_kept_def)
next
  case Yield
  then show ?thesis using yield_slice [of "become [] s"] by (simp add: exec_action_def slice_kept_def)
qed (use down_slice in \<open>auto simp: exec_action_def slice_kept_def lock_acquire_enter_def lock_take_def lock_try_acquire_def sema_try_down_def lock_release_enter_def cond_wait_def
  take_tid_def thread_create_finish_def thread_unblock_def thread_block_def thread_exit_def Let_def res_inv sema_init_def upd_def
  intr_set_level_def dest: schedule_ticks split: if_splits\<close>)

lemma timer_slice:
  assumes k: "kinv s" and t: "thread_ticks s < TIME_SLICE" and r: "timer_interrupt s = Inr s'"
  shows "thread_ticks s' < TIME_SLICE"
proof -
  obtain s1 y where s1: "thread_tick (s\<lparr>in_intr := True\<rparr>) = Inr (s1, y)" "kinv (s1\<lparr>in_intr := False\<rparr>)" "y = (thread_ticks s1 \<ge> TIME_SLICE)"
    using thread_tick_state [OF k] by blast
  show ?thesis
  proof (cases y)
    case True
    then have "thread_yield (s1\<lparr>in_intr := False\<rparr>) = Inr s'" using r s1(1) by (simp add: timer_interrupt_def)
    then have "thread_ticks s' = 0" by (auto simp: thread_yield_def Let_def res_inv intr_set_level_def dest: schedule_ticks)
    then show ?thesis by (simp add: TIME_SLICE_def)
  next
    case False
    then have "s' = s1\<lparr>in_intr := False\<rparr>" using r s1(1) by (simp add: timer_interrupt_def)
    then show ?thesis using False s1(3) by simp
  qed
qed

lemma kstep_slice: "kstep s s' \<Longrightarrow> kinv s \<Longrightarrow> thread_ticks s < TIME_SLICE \<Longrightarrow> thread_ticks s' < TIME_SLICE"
proof (induction rule: kstep.induct)
  case (run s a s')
  then show ?case using exec_slice [of s a] by (auto simp: slice_kept_def TIME_SLICE_def)
next
  case (device n s s')
  then have "s' = upped (Plain n) s" using device_kinv [of s n] by simp
  then show ?case using upped_fields(18) [OF coreD2(1) [OF kinv_current(3)], of s] device by simp
qed (auto simp: set_todo_def upd_def thread_create_enter_def init_thread_def res_inv intro: timer_slice)

lemma reachable_slice: "reachable s \<Longrightarrow> thread_ticks s < TIME_SLICE"
proof -
  assume "reachable s"
  then have "kstep\<^sup>*\<^sup>* booted s" by (simp add: reachable_def boot_booted)
  then have "kinv s \<and> thread_ticks s < TIME_SLICE"
    by (induction rule: rtranclp_induct) (auto simp: booted_kinv booted_fields TIME_SLICE_def intro: kstep_kinv kstep_slice [unfolded TIME_SLICE_def])
  then show ?thesis by simp
qed

section \<open>The round-robin order\<close>

fun ticks :: "nat \<Rightarrow> kstate \<Rightarrow> kstate res" where
  "ticks 0 s = Inr s"
| "ticks (Suc n) s = bind_r (timer_interrupt s) (ticks n)"

lemma ticks_add: "ticks m s = Inr t \<Longrightarrow> ticks (m + n) s = ticks n t"
  by (induction m arbitrary: s) (auto simp: res_inv)

lemma yield_order:
  assumes k: "kinv s" and r: "ready_list s = p # ps"
  shows "\<exists>s' qs. thread_yield s = Inr s' \<and> kinv s' \<and> thread_ticks s' = 0 \<and> cur s' = p \<and> ready_list s' = ps @ qs"
proof -
  obtain s1 where s1: "resumed s1 (thread_yield s)"
    "ready_list s1 = (if Some (cur s) \<noteq> idle_thread s then ready_list s @ [cur s] else ready_list s)"
    using yield_resumed [OF k] by blast
  obtain n s' where s': "thread_yield s = Inr s'" "kinv s'" "switched s1 n (s'\<lparr>intr_on := intr_on s1\<rparr>)" "picks s1 n s'"
    using s1(1) by (auto simp: resumed_def)
  have "cur s' = n" "thread_ticks s' = 0" using s'(3) by (simp_all add: switched_def)
  moreover have "n = p \<and> (\<exists>qs. ready_list s' = ps @ qs)"
    using s'(4) s1(2) r by (auto simp: picks_def split: if_splits)
  ultimately show ?thesis using s' by auto
qed

text \<open>Without other events the running thread is preempted at the end of its time slice.\<close>

lemma slice:
  assumes "kinv s" "thread_ticks s < TIME_SLICE" "ready_list s = p # ps"
  shows "\<exists>n s' qs. n \<le> TIME_SLICE - thread_ticks s \<and> ticks n s = Inr s' \<and> kinv s' \<and> thread_ticks s' = 0 \<and> cur s' = p \<and> ready_list s' = ps @ qs"
  using assms
proof (induction "TIME_SLICE - thread_ticks s" arbitrary: s)
  case (Suc m)
  obtain s1 y where t: "thread_tick (s\<lparr>in_intr := True\<rparr>) = Inr (s1, y)" "kinv (s1\<lparr>in_intr := False\<rparr>)" "thread_ticks s1 = add32 (thread_ticks s) 1"
    "y = (thread_ticks s1 \<ge> TIME_SLICE)" "cur s1 = cur s" "ready_list s1 = ready_list s"
    using thread_tick_state [OF Suc.prems(1)] by blast
  have inc: "thread_ticks s1 = thread_ticks s + 1" using t(3) Suc.prems(2) by (simp add: add32_def TIME_SLICE_def)
  let ?s = "s1\<lparr>in_intr := False\<rparr>"
  show ?case
  proof (cases y)
    case True
    obtain s' qs where "thread_yield ?s = Inr s'" "kinv s'" "thread_ticks s' = 0" "cur s' = p" "ready_list s' = ps @ qs"
      using yield_order [OF t(2), of p ps] t(6) Suc.prems(3) by auto
    moreover from this have "ticks 1 s = Inr s'" using t(1) True by (simp add: timer_interrupt_def)
    moreover have "1 \<le> TIME_SLICE - thread_ticks s" using Suc.prems(2) by simp
    ultimately show ?thesis by blast
  next
    case False
    then have one: "timer_interrupt s = Inr ?s" using t(1) by (simp add: timer_interrupt_def)
    have "m = TIME_SLICE - thread_ticks ?s" using Suc.hyps(2) inc by simp
    then obtain n s' qs where n: "n \<le> TIME_SLICE - thread_ticks ?s" "ticks n ?s = Inr s'" "kinv s'" "thread_ticks s' = 0" "cur s' = p" "ready_list s' = ps @ qs"
      using Suc.hyps(1) [of ?s] t(2,4,6) Suc.prems(3) False by auto
    have "Suc n \<le> TIME_SLICE - thread_ticks s" using n(1) inc Suc.prems(2) False t(4) by simp
    moreover have "ticks (Suc n) s = Inr s'" using one n(2) by simp
    ultimately show ?thesis using n(3-6) by blast
  qed
qed simp

lemma round_robin_aux:
  assumes "kinv s" "thread_ticks s < TIME_SLICE" "k < length (ready_list s)"
  shows "\<exists>n s'. n \<le> TIME_SLICE * (k + 1) - thread_ticks s \<and> ticks n s = Inr s' \<and> kinv s' \<and> cur s' = ready_list s ! k"
  using assms
proof (induction k arbitrary: s)
  case 0
  then obtain p ps where "ready_list s = p # ps" by (cases "ready_list s") auto
  then show ?case using slice [OF 0(1,2), of p ps] by auto
next
  case (Suc k)
  then obtain p ps where r: "ready_list s = p # ps" by (cases "ready_list s") auto
  obtain n s' qs where n: "n \<le> TIME_SLICE - thread_ticks s" "ticks n s = Inr s'" "kinv s'" "thread_ticks s' = 0" "cur s' = p" "ready_list s' = ps @ qs"
    using slice [OF Suc.prems(1,2) r] by blast
  have l: "k < length ps" using Suc.prems(3) r by simp
  obtain n' s'' where n': "n' \<le> TIME_SLICE * (k + 1)" "ticks n' s' = Inr s''" "kinv s''" "cur s'' = ready_list s' ! k"
    using Suc.IH [OF n(3)] n(4,6) l by (auto simp: TIME_SLICE_def)
  have "ticks (n + n') s = Inr s''" using ticks_add [OF n(2)] n'(2) by simp
  moreover have "n + n' \<le> TIME_SLICE * (Suc k + 1) - thread_ticks s" using n(1) n'(1) Suc.prems(2) by (simp add: TIME_SLICE_def)
  moreover have "cur s'' = ready_list s ! Suc k" using n'(4) n(6) r l by (simp add: nth_append)
  ultimately show ?case using n'(3) by blast
qed

section \<open>The claims\<close>

text \<open>C6: in every state the system reaches, the invariant of the scheduler and of the semaphores holds: exactly the
  current thread is running, the ready list holds exactly the other ready threads, each once, and the waiters of a semaphore are exactly
  the threads blocked in a down on it, each once.\<close>

theorem scheduler_invariant:
  assumes "reachable s"
  shows "(\<forall>p. st s p = Some THREAD_RUNNING \<longleftrightarrow> p = cur s)
    \<and> distinct (ready_list s) \<and> (\<forall>p. p \<in> set (ready_list s) \<longleftrightarrow> st s p = Some THREAD_READY \<and> idle_thread s \<noteq> Some p)
    \<and> (\<forall>x. distinct (waiters (semas s x)))
    \<and> (\<forall>x p. p \<in> set (waiters (semas s x)) \<longleftrightarrow> st s p = Some THREAD_BLOCKED \<and> waiting s p = Some x)"
  using sched_okD(1,2) [OF coreD2(1) [OF kinv_current(3) [OF reachable_kinv [OF assms]]]] kinv_current(6) [OF reachable_kinv [OF assms]]
  by (simp add: ready_ok_def wait_ok_def)

theorem scheduler_invariant_witness: "st booted 2 = Some THREAD_RUNNING \<and> distinct (ready_list booted)"
  using scheduler_invariant [OF reachable_booted] by (simp add: booted_fields)

text \<open>C4: mutual exclusion. No two threads are in the critical section of the same lock, whatever the
  interleaving of the threads and the interrupts.\<close>

theorem mutual_exclusion:
  assumes "reachable s" "in_section s p l" "in_section s q l"
  shows "p = q"
  using coreD2(3) [OF kinv_current(3) [OF reachable_kinv [OF assms(1)]], of l] assms(2,3) unfolding in_section_pend lock_ok_def by auto

text \<open>A run in which the initial thread takes a lock.\<close>

definition main_locks :: kstate where
  "main_locks = booting (mainth THREAD_RUNNING []) (idleth 2 THREAD_BLOCKED [Idle_block]) 1 [] (Some 2) 3 m0 0 (Some 1)"

definition main_on :: "action list \<Rightarrow> semaphore \<Rightarrow> nat \<Rightarrow> tptr option \<Rightarrow> kstate" where
  "main_on as m v h = booting (mainth THREAD_RUNNING as) (idleth 2 THREAD_BLOCKED [Idle_block]) 1 [] (Some 2) 3 m v h"

lemma run_kstep: "pc s (cur s) \<noteq> None \<Longrightarrow> run_cur s = Inr s' \<Longrightarrow> kstep s s'"
  using kstep.run [of s _ s'] by (auto simp: run_cur_def pc_def res_inv split: option.splits list.splits)

lemma main_on_pc: "pc (main_on (a # as) m v h) (cur (main_on (a # as) m v h)) \<noteq> None"
  by (simp add: main_on_def booting_def pc_def mainth_def)

lemma main_on_call: "list_all api as \<Longrightarrow> kstep (main_on [] m v h) (main_on as m v h)"
proof -
  assume as: "list_all api as"
  have "set_todo as (main_on [] m v h) = main_on as m v h" by (simp add: set_todo_def main_on_def boot_defs)
  then show ?thesis using as kstep.call [of "main_on [] m v h" as] by (simp add: main_on_def booting_def pc_def mainth_def)
qed

lemma main_on_reachable: "reachable (main_on [] m0 1 None)"
proof -
  have "kstep booted (main_on [Sema_down 0] \<lparr>svalue = 1, waiters = []\<rparr> 1 None)"
    by (rule run_kstep) (simp_all add: booted_views booted_fields, simp add: booted_def main_on_def boot_defs)
  moreover have "kstep (main_on [Sema_down 0] \<lparr>svalue = 1, waiters = []\<rparr> 1 None) (main_on [] m0 1 None)"
    by (rule run_kstep [OF main_on_pc]) (simp add: main_on_def boot_defs)
  ultimately have "kstep\<^sup>*\<^sup>* booted (main_on [] m0 1 None)" by (meson converse_rtranclp_into_rtranclp rtranclp.rtrancl_refl)
  then show ?thesis by (simp add: reachable_def boot_booted)
qed

lemma reachable_step: "reachable s \<Longrightarrow> kstep s s' \<Longrightarrow> reachable s'"
  by (auto simp: reachable_def intro: rtranclp.rtrancl_into_rtrancl)

lemma main_locks_reachable: "reachable main_locks"
proof -
  have "reachable (main_on [Lock_acquire 0] m0 1 None)" using main_on_reachable main_on_call by (rule reachable_step) simp
  then have "reachable (main_on [Lock_down 0] m0 1 None)"
    by (rule reachable_step) (rule run_kstep [OF main_on_pc], simp add: main_on_def boot_defs)
  then have "reachable (main_on [Lock_take 0] m0 0 None)"
    by (rule reachable_step) (rule run_kstep [OF main_on_pc], simp add: main_on_def boot_defs)
  then show ?thesis
    by (rule reachable_step) (rule run_kstep [OF main_on_pc], simp add: main_on_def main_locks_def boot_defs)
qed

theorem mutual_exclusion_witness: "in_section main_locks 1 0 \<and> \<not> in_section main_locks 2 0"
proof -
  have "in_section main_locks 1 0" by (simp add: in_section_def main_locks_def booting_def)
  then show ?thesis using mutual_exclusion [OF main_locks_reachable, of 2 0 1] by auto
qed

text \<open>C5: no wake-up is lost. While a thread waits for a semaphore whose value is positive, some thread that will
  take the semaphore is running or in the ready list: there are at least as many of them as the value says.\<close>

theorem no_lost_wakeup:
  assumes "reachable s" "waiters (semas s x) \<noteq> []"
  shows "svalue (semas s x) \<le> card {p. waiting s p = Some x \<and> (p = cur s \<or> p \<in> set (ready_list s))}"
proof -
  note k = reachable_kinv [OF assms(1)]
  note w = coreD2(2) [OF kinv_current(3) [OF k]]
  have "awake s x \<subseteq> {p. waiting s p = Some x \<and> (p = cur s \<or> p \<in> set (ready_list s))}" (is "_ \<subseteq> ?R")
    using awake_runnable [OF k] by (auto simp: awake_def)
  moreover have "finite ?R" by (rule finite_subset [of _ "insert (cur s) (set (ready_list s))"]) auto
  ultimately have "card (awake s x) \<le> card ?R" by (intro card_mono)
  then show ?thesis using w assms(2) by (auto simp: wakeup_ok_def intro: order_trans)
qed

text \<open>A run in which the initial thread waits.\<close>

definition main_waits :: kstate where
  "main_waits = booting (mainth THREAD_BLOCKED [Sema_down 0]) (idleth 2 THREAD_RUNNING [Idle_block]) 2 [] (Some 2) 3 \<lparr>svalue = 0, waiters = [1]\<rparr> 1 None"

lemma main_waits_reachable: "reachable main_waits"
proof -
  have "reachable (main_on [Sema_down 0] m0 1 None)" using main_on_reachable main_on_call by (rule reachable_step) simp
  then show ?thesis
    by (rule reachable_step) (rule run_kstep [OF main_on_pc], simp add: main_on_def main_waits_def boot_defs)
qed

theorem no_lost_wakeup_witness: "waiters (semas main_waits (Plain 0)) = [1] \<and>
  svalue (semas main_waits (Plain 0)) \<le> card {p. waiting main_waits p = Some (Plain 0) \<and> (p = cur main_waits \<or> p \<in> set (ready_list main_waits))}"
proof -
  have w: "waiters (semas main_waits (Plain 0)) = [1]" by (simp add: main_waits_def booting_def)
  then show ?thesis using no_lost_wakeup [OF main_waits_reachable, of "Plain 0"] by simp
qed



text \<open>C8: round robin. In every reachable state the thread at position \<open>k\<close> of the ready list is running after at most
  \<open>k + 1\<close> time slices, when the threads before it only compute and are preempted by the timer.\<close>

theorem round_robin:
  assumes "reachable s" "k < length (ready_list s)"
  shows "\<exists>n s'. n \<le> TIME_SLICE * (k + 1) - thread_ticks s \<and> ticks n s = Inr s' \<and> cur s' = ready_list s ! k"
  using round_robin_aux [OF reachable_kinv [OF assms(1)] reachable_slice [OF assms(1)] assms(2)] by blast

theorem round_robin_witness: "\<exists>n s'. n \<le> 4 \<and> ticks n booted = Inr s' \<and> cur s' = 1"
  using round_robin [OF reachable_booted, of 0] by (simp add: booted_fields TIME_SLICE_def)

end
