(* ===== verification/Block.thy ===== *)
theory Block
  imports Prelude
begin

text \<open>
  \<^verbatim>\<open>devices/block.c\<close>: block devices of sectors of 512 bytes, the list of all devices and the roles they play.
  The driver of a device is the store of its sectors. A device is known by its address; \<open>blocks\<close> holds the devices
  and the variables of the module.
\<close>

definition BLOCK_SECTOR_SIZE :: nat where "BLOCK_SECTOR_SIZE = 512"

datatype block_type = BLOCK_KERNEL | BLOCK_FILESYS | BLOCK_SCRATCH | BLOCK_SWAP | BLOCK_RAW | BLOCK_FOREIGN

record block =
  bname :: string
  btype :: block_type
  bsize :: nat
  sectors :: "nat \<Rightarrow> byte list"
  read_cnt :: "64 word"
  write_cnt :: "64 word"

section \<open>Sectors\<close>

definition check_sector :: "block \<Rightarrow> nat \<Rightarrow> unit res" where
  "check_sector b sector = (if sector \<ge> bsize b then Inl Panic else Inr ())"

definition block_read :: "nat \<Rightarrow> block \<Rightarrow> (block \<times> byte list) res" where
  "block_read sector b =
     bind_r (check_sector b sector) (\<lambda>_. Inr (b\<lparr>read_cnt := read_cnt b + 1\<rparr>, sectors b sector))"

definition block_write :: "nat \<Rightarrow> byte list \<Rightarrow> block \<Rightarrow> block res" where
  "block_write sector buffer b =
     bind_r (check_sector b sector) (\<lambda>_. ASSERT (btype b \<noteq> BLOCK_FOREIGN)
       (Inr (b\<lparr>sectors := (sectors b)(sector := buffer), write_cnt := write_cnt b + 1\<rparr>)))"

definition block_size :: "block \<Rightarrow> nat" where
  "block_size b = bsize b"

definition block_name :: "block \<Rightarrow> string" where
  "block_name b = bname b"

definition block_type_of :: "block \<Rightarrow> block_type" where
  "block_type_of b = btype b"

definition block_type_name :: "block_type \<Rightarrow> string" where
  "block_type_name t = (case t of BLOCK_KERNEL \<Rightarrow> ''kernel'' | BLOCK_FILESYS \<Rightarrow> ''filesys'' | BLOCK_SCRATCH \<Rightarrow> ''scratch''
     | BLOCK_SWAP \<Rightarrow> ''swap'' | BLOCK_RAW \<Rightarrow> ''raw'' | BLOCK_FOREIGN \<Rightarrow> ''foreign'')"

section \<open>The devices\<close>

record blocks =
  devs :: "nat \<Rightarrow> block option"
  all_blocks :: "nat list"
  block_by_role :: "block_type \<Rightarrow> nat option"

text \<open>\<open>role < BLOCK_ROLE_CNT\<close>\<close>

definition is_role :: "block_type \<Rightarrow> bool" where
  "is_role t \<longleftrightarrow> t \<noteq> BLOCK_RAW \<and> t \<noteq> BLOCK_FOREIGN"

definition block_get_role :: "block_type \<Rightarrow> blocks \<Rightarrow> nat option res" where
  "block_get_role role s = ASSERT (is_role role) (Inr (block_by_role s role))"

definition block_set_role :: "block_type \<Rightarrow> nat option \<Rightarrow> blocks \<Rightarrow> blocks res" where
  "block_set_role role block s = ASSERT (is_role role) (Inr (s\<lparr>block_by_role := (block_by_role s)(role := block)\<rparr>))"

definition block_first :: "blocks \<Rightarrow> nat option" where
  "block_first s = (case all_blocks s of [] \<Rightarrow> None | p # _ \<Rightarrow> Some p)"

text \<open>The device after \<open>p\<close> in the list.\<close>

definition block_next :: "nat \<Rightarrow> blocks \<Rightarrow> nat option" where
  "block_next p s = (case dropWhile (\<lambda>q. q \<noteq> p) (all_blocks s) of _ # q # _ \<Rightarrow> Some q | _ \<Rightarrow> None)"

definition block_get_by_name :: "string \<Rightarrow> blocks \<Rightarrow> nat option" where
  "block_get_by_name nm s = List.find (\<lambda>p. case devs s p of None \<Rightarrow> False | Some b \<Rightarrow> bname b = nm) (all_blocks s)"

text \<open>\<open>p\<close> is the memory for the descriptor, \<open>None\<close> when \<open>malloc\<close> fails; \<open>store\<close> is the driver. The name is cut to its 16 bytes.\<close>

definition block_register :: "nat option \<Rightarrow> string \<Rightarrow> block_type \<Rightarrow> nat \<Rightarrow> (nat \<Rightarrow> byte list) \<Rightarrow> blocks \<Rightarrow> (blocks \<times> nat) res" where
  "block_register p nm ty sz store s =
     (case p of None \<Rightarrow> Inl Panic
      | Some p \<Rightarrow> Inr (s\<lparr>all_blocks := all_blocks s @ [p],
          devs := (devs s)(p \<mapsto> \<lparr>bname = take 15 nm, btype = ty, bsize = sz, sectors = store, read_cnt = 0, write_cnt = 0\<rparr>)\<rparr>, p))"

section \<open>Devices as stores of sectors\<close>

text \<open>What a client relies on: a read returns what was last written to the sector, and an access outside the device
  panics.\<close>

locale sector_device =
  fixes size_of :: "'d \<Rightarrow> nat" and content :: "'d \<Rightarrow> nat \<Rightarrow> byte list" and writable :: "'d \<Rightarrow> bool"
    and rd :: "nat \<Rightarrow> 'd \<Rightarrow> ('d \<times> byte list) res" and wr :: "nat \<Rightarrow> byte list \<Rightarrow> 'd \<Rightarrow> 'd res"
  assumes rd_in: "i < size_of d \<Longrightarrow> \<exists>d'. rd i d = Inr (d', content d i) \<and> size_of d' = size_of d \<and> content d' = content d \<and> writable d' = writable d"
    and rd_out: "size_of d \<le> i \<Longrightarrow> rd i d = Inl Panic"
    and wr_in: "i < size_of d \<Longrightarrow> writable d \<Longrightarrow> \<exists>d'. wr i xs d = Inr d' \<and> size_of d' = size_of d \<and> content d' = (content d)(i := xs) \<and> writable d'"
    and wr_out: "size_of d \<le> i \<Longrightarrow> wr i xs d = Inl Panic"
begin

lemma read_after_write:
  assumes "wr i xs d = Inr d'" "writable d" "j < size_of d"
  shows "\<exists>d''. rd j d' = Inr (d'', if j = i then xs else content d j)"
proof -
  have i: "i < size_of d" using assms(1) wr_out [of d i xs] by (cases "i < size_of d") auto
  obtain e where e: "wr i xs d = Inr e" "size_of e = size_of d" "content e = (content d)(i := xs)" using wr_in [OF i assms(2)] by blast
  obtain d'' where "rd j e = Inr (d'', content e j)" using rd_in [of j e] e(2) assms(3) by auto
  then show ?thesis using e(1,3) assms(1) by (auto split: if_splits)
qed

end

interpretation blk: sector_device bsize sectors "\<lambda>b. btype b \<noteq> BLOCK_FOREIGN" block_read block_write
  by unfold_locales (auto simp: block_read_def block_write_def check_sector_def)

lemma block_get_by_name_found:
  assumes "block_get_by_name nm s = Some p"
  shows "p \<in> set (all_blocks s) \<and> (\<exists>b. devs s p = Some b \<and> bname b = nm)"
  using assms by (auto simp: block_get_by_name_def find_Some_iff split: option.splits)

lemma find_snoc: "List.find P xs = None \<Longrightarrow> P x \<Longrightarrow> List.find P (xs @ [x]) = Some x"
  by (induction xs) (auto split: if_splits)

lemma block_register_lookup:
  assumes "block_get_by_name nm s = None" "length nm \<le> 15" "p \<notin> set (all_blocks s)" "block_register (Some p) nm ty n f s = Inr (s', q)"
  shows "block_get_by_name nm s' = Some p"
proof -
  let ?P = "\<lambda>s p. case devs s p of None \<Rightarrow> False | Some b \<Rightarrow> bname b = nm"
  have s': "all_blocks s' = all_blocks s @ [p]" "devs s' = (devs s)(p \<mapsto> \<lparr>bname = nm, btype = ty, bsize = n, sectors = f, read_cnt = 0, write_cnt = 0\<rparr>)"
    using assms(2,4) by (auto simp: block_register_def)
  have "List.find (?P s') (all_blocks s) = List.find (?P s) (all_blocks s)"
    by (rule find_cong) (use assms(3) s' in auto)
  then have "List.find (?P s') (all_blocks s) = None" using assms(1) by (simp add: block_get_by_name_def)
  then have "List.find (?P s') (all_blocks s @ [p]) = Some p" by (rule find_snoc) (simp add: s'(2))
  then show ?thesis by (simp add: block_get_by_name_def s'(1))
qed

end
