(* ===== verification/Fs.thy ===== *)
theory Fs
  imports Block Bitmap
begin

unbundle bit_operations_syntax

text \<open>
  The file system: \<^verbatim>\<open>filesys/inode.c\<close>, \<^verbatim>\<open>filesys/file.c\<close>, \<^verbatim>\<open>filesys/free-map.c\<close>, \<^verbatim>\<open>filesys/directory.c\<close>,
  \<^verbatim>\<open>filesys/filesys.c\<close> and the file input and output of \<^verbatim>\<open>lib/kernel/bitmap.c\<close>. The state holds the device, the
  open inodes and files by address, and the free map. An offset (\<open>off_t\<close>) is an integer, a sector number and a
  \<open>size_t\<close> a natural number below $2^{32}$. A null pointer is \<open>None\<close>. The component \<open>mem\<close> says of each coming
  memory allocation whether it succeeds; those beyond its end do.
\<close>

section \<open>State\<close>

record inode_disk =
  start :: nat
  ilength :: int
  magic :: "32 word"

record inode =
  isector :: nat
  open_cnt :: int
  removed :: bool
  deny_write_cnt :: int
  idata :: inode_disk

record ofile =
  finode :: nat
  fpos :: int
  deny_write :: bool

record dir =
  dinode :: nat
  dpos :: int

record dir_entry =
  inode_sector :: nat
  ename :: "byte list"
  in_use :: bool

record fs =
  dev :: block
  mem :: "bool list"
  nextp :: nat
  inodes :: "nat \<Rightarrow> inode option"
  open_inodes :: "nat list"
  files :: "nat \<Rightarrow> ofile option"
  free_map :: bitmap
  free_map_file :: "nat option"

definition malloc :: "fs \<Rightarrow> fs \<times> bool" where
  "malloc s = (case mem s of [] \<Rightarrow> (s, True) | b # bs \<Rightarrow> (s\<lparr>mem := bs\<rparr>, b))"

definition INODE_MAGIC :: "32 word" where "INODE_MAGIC = 0x494e4f44"
definition FREE_MAP_SECTOR :: nat where "FREE_MAP_SECTOR = 0"
definition ROOT_DIR_SECTOR :: nat where "ROOT_DIR_SECTOR = 1"
definition NAME_MAX :: nat where "NAME_MAX = 14"
definition DIR_ENTRY_SIZE :: nat where "DIR_ENTRY_SIZE = 20"

section \<open>Layout of the structures on disk\<close>

definition le32 :: "32 word \<Rightarrow> byte list" where
  "le32 w = map (\<lambda>i. ucast (drop_bit (8 * i) w)) [0, 1, 2, 3]"

fun un_le32 :: "byte list \<Rightarrow> 32 word" where
  "un_le32 (a # b # c # d # _) = ucast a OR push_bit 8 (ucast b) OR push_bit 16 (ucast c) OR push_bit 24 (ucast d)"
| "un_le32 _ = 0"

definition inode_bytes :: "inode_disk \<Rightarrow> byte list" where
  "inode_bytes d = le32 (of_nat (start d)) @ le32 (of_int (ilength d)) @ le32 (magic d) @ replicate 500 0"

definition bytes_inode :: "byte list \<Rightarrow> inode_disk" where
  "bytes_inode bs = \<lparr>start = unat (un_le32 bs), ilength = sint (un_le32 (drop 4 bs)), magic = un_le32 (drop 8 bs)\<rparr>"

definition entry_bytes :: "dir_entry \<Rightarrow> byte list" where
  "entry_bytes e = le32 (of_nat (inode_sector e)) @ ename e @ [if in_use e then 1 else 0]"

definition bytes_entry :: "byte list \<Rightarrow> dir_entry" where
  "bytes_entry bs = \<lparr>inode_sector = unat (un_le32 bs), ename = take 15 (drop 4 bs), in_use = (drop 19 bs \<noteq> [] \<and> hd (drop 19 bs) \<noteq> 0)\<rparr>"

section \<open>Reading and writing inodes\<close>

text \<open>C's division, which rounds towards zero, by a positive number.\<close>

definition cdiv :: "int \<Rightarrow> int \<Rightarrow> int" where
  "cdiv a b = (if a < 0 then - ((- a) div b) else a div b)"

definition cmod :: "int \<Rightarrow> int \<Rightarrow> int" where
  "cmod a b = a - b * cdiv a b"

text \<open>The sum \<open>sz + 511\<close> wraps as a 32-bit integer.\<close>

definition bytes_to_sectors :: "int \<Rightarrow> nat" where
  "bytes_to_sectors sz = nat (cdiv (signed_take_bit 31 (sz + 511)) 512 mod 2 ^ 32)"

definition byte_to_sector :: "inode_disk \<Rightarrow> int \<Rightarrow> nat" where
  "byte_to_sector d pos = (if pos < ilength d then nat ((int (start d) + cdiv pos 512) mod 2 ^ 32) else SIZE_MAX)"

definition dev_read :: "nat \<Rightarrow> fs \<Rightarrow> (fs \<times> byte list) res" where
  "dev_read sector s = bind_r (block_read sector (dev s)) (\<lambda>(b, xs). Inr (s\<lparr>dev := b\<rparr>, xs))"

definition dev_write :: "nat \<Rightarrow> byte list \<Rightarrow> fs \<Rightarrow> fs res" where
  "dev_write sector xs s = bind_r (block_write sector xs (dev s)) (\<lambda>b. Inr (s\<lparr>dev := b\<rparr>))"

text \<open>The number of bytes to copy in one round.\<close>

definition chunk :: "inode_disk \<Rightarrow> int \<Rightarrow> int \<Rightarrow> int" where
  "chunk d sz offset =
     (let sector_ofs = cmod offset 512;
          inode_left = ilength d - offset;
          sector_left = 512 - sector_ofs;
          min_left = (if inode_left < sector_left then inode_left else sector_left) in
      if sz < min_left then sz else min_left)"

text \<open>\<open>bounce\<close>: the bounce buffer has been allocated. The bytes read so far are \<open>acc\<close>.\<close>

function read_loop :: "inode_disk \<Rightarrow> int \<Rightarrow> int \<Rightarrow> bool \<Rightarrow> byte list \<Rightarrow> fs \<Rightarrow> (fs \<times> byte list) res" where
  "read_loop d sz offset bounce acc s =
     (if sz \<le> 0 then Inr (s, acc)
      else let sector_idx = byte_to_sector d offset; sector_ofs = cmod offset 512; n = chunk d sz offset in
        if n \<le> 0 then Inr (s, acc)
        else if sector_ofs = 0 \<and> n = 512
        then bind_r (dev_read sector_idx s) (\<lambda>(s, xs). read_loop d (sz - n) (offset + n) bounce (acc @ xs) s)
        else let (s, ok) = (if bounce then (s, True) else malloc s) in
          if \<not> ok then Inr (s, acc)
          else bind_r (dev_read sector_idx s) (\<lambda>(s, xs).
            if sector_ofs < 0 then Inl Out_of_bounds
            else read_loop d (sz - n) (offset + n) True (acc @ take (nat n) (drop (nat sector_ofs) xs)) s))"
  by pat_completeness auto
termination by (relation "measure (\<lambda>(d, sz, _). nat sz)") auto

definition inode_read_at :: "nat \<Rightarrow> int \<Rightarrow> int \<Rightarrow> fs \<Rightarrow> (fs \<times> byte list) res" where
  "inode_read_at p sz offset s = bind_r (deref (inodes s p)) (\<lambda>i. read_loop (idata i) sz offset False [] s)"

text \<open>\<open>buf\<close> is the caller's buffer and \<open>written\<close> the number of its bytes written so far.\<close>

function write_loop :: "inode_disk \<Rightarrow> byte list \<Rightarrow> int \<Rightarrow> int \<Rightarrow> bool \<Rightarrow> nat \<Rightarrow> fs \<Rightarrow> (fs \<times> nat) res" where
  "write_loop d buf sz offset bounce written s =
     (if sz \<le> 0 then Inr (s, written)
      else let sector_idx = byte_to_sector d offset; sector_ofs = cmod offset 512; n = chunk d sz offset in
        if n \<le> 0 then Inr (s, written)
        else if written + nat n > length buf then Inl Out_of_bounds
        else if sector_ofs = 0 \<and> n = 512
        then bind_r (dev_write sector_idx (take 512 (drop written buf)) s) (\<lambda>s.
             write_loop d buf (sz - n) (offset + n) bounce (written + nat n) s)
        else let (s, ok) = (if bounce then (s, True) else malloc s) in
          if \<not> ok then Inr (s, written)
          else bind_r (if sector_ofs > 0 \<or> n < 512 - sector_ofs then dev_read sector_idx s else Inr (s, replicate 512 0)) (\<lambda>(s, xs).
            if sector_ofs < 0 then Inl Out_of_bounds
            else bind_r (dev_write sector_idx
                   (take (nat sector_ofs) xs @ take (nat n) (drop written buf) @ drop (nat (sector_ofs + n)) xs) s) (\<lambda>s.
              write_loop d buf (sz - n) (offset + n) True (written + nat n) s)))"
  by pat_completeness auto
termination by (relation "measure (\<lambda>(d, buf, sz, _). nat sz)") auto

definition inode_write_at :: "nat \<Rightarrow> byte list \<Rightarrow> int \<Rightarrow> int \<Rightarrow> fs \<Rightarrow> (fs \<times> nat) res" where
  "inode_write_at p buf sz offset s =
     bind_r (deref (inodes s p)) (\<lambda>i. if deny_write_cnt i \<noteq> 0 then Inr (s, 0) else write_loop (idata i) buf sz offset False 0 s)"

declare read_loop.simps [simp del] write_loop.simps [simp del]

definition inode_length :: "nat \<Rightarrow> fs \<Rightarrow> int res" where
  "inode_length p s = bind_r (deref (inodes s p)) (\<lambda>i. Inr (ilength (idata i)))"

definition upd_inode :: "nat \<Rightarrow> (inode \<Rightarrow> inode) \<Rightarrow> fs \<Rightarrow> fs" where
  "upd_inode p f s = s\<lparr>inodes := (inodes s)(p := map_option f (inodes s p))\<rparr>"

definition inode_deny_write :: "nat \<Rightarrow> fs \<Rightarrow> fs res" where
  "inode_deny_write p s =
     bind_r (deref (inodes s p)) (\<lambda>i. ASSERT (deny_write_cnt i + 1 \<le> open_cnt i)
       (Inr (upd_inode p (\<lambda>i. i\<lparr>deny_write_cnt := deny_write_cnt i + 1\<rparr>) s)))"

definition inode_allow_write :: "nat \<Rightarrow> fs \<Rightarrow> fs res" where
  "inode_allow_write p s =
     bind_r (deref (inodes s p)) (\<lambda>i. ASSERT (deny_write_cnt i > 0) (ASSERT (deny_write_cnt i \<le> open_cnt i)
       (Inr (upd_inode p (\<lambda>i. i\<lparr>deny_write_cnt := deny_write_cnt i - 1\<rparr>) s))))"

section \<open>Files by offset, and the free map\<close>

definition file_read_at :: "nat \<Rightarrow> int \<Rightarrow> int \<Rightarrow> fs \<Rightarrow> (fs \<times> byte list) res" where
  "file_read_at f sz file_ofs s = bind_r (deref (files s f)) (\<lambda>x. inode_read_at (finode x) sz file_ofs s)"

definition file_write_at :: "nat \<Rightarrow> byte list \<Rightarrow> int \<Rightarrow> int \<Rightarrow> fs \<Rightarrow> (fs \<times> nat) res" where
  "file_write_at f buf sz file_ofs s = bind_r (deref (files s f)) (\<lambda>x. inode_write_at (finode x) buf sz file_ofs s)"

definition words_bytes :: "32 word list \<Rightarrow> byte list" where
  "words_bytes ws = concat (map le32 ws)"

fun bytes_words :: "byte list \<Rightarrow> 32 word list" where
  "bytes_words (a # b # c # d # bs) = un_le32 [a, b, c, d] # bytes_words bs"
| "bytes_words _ = []"

definition bitmap_file_size :: "bitmap \<Rightarrow> nat" where
  "bitmap_file_size b = byte_cnt (bit_cnt b)"

definition bitmap_read :: "bitmap \<Rightarrow> nat \<Rightarrow> fs \<Rightarrow> (fs \<times> bitmap \<times> bool) res" where
  "bitmap_read b f s =
     (if bit_cnt b > 0
      then let sz = byte_cnt (bit_cnt b); i = sub32 (elem_cnt (bit_cnt b)) 1 in
        bind_r (file_read_at f (int sz) 0 s) (\<lambda>(s, xs).
        let b = b\<lparr>bits := bytes_words (xs @ drop (length xs) (words_bytes (bits b)))\<rparr> in
        bind_r (arr_get (bits b) i) (\<lambda>w. bind_r (arr_set (bits b) i (w AND last_mask b)) (\<lambda>bs.
        Inr (s, b\<lparr>bits := bs\<rparr>, length xs = sz))))
      else Inr (s, b, True))"

definition bitmap_write :: "bitmap \<Rightarrow> nat \<Rightarrow> fs \<Rightarrow> (fs \<times> bool) res" where
  "bitmap_write b f s =
     (let sz = byte_cnt (bit_cnt b) in
      bind_r (file_write_at f (words_bytes (bits b)) (int sz) 0 s) (\<lambda>(s, n). Inr (s, n = sz)))"

text \<open>The memory of the new bitmap is zeroed here; the code clears it.\<close>

definition free_map_init :: "fs \<Rightarrow> fs res" where
  "free_map_init s =
     (let n = block_size (dev s); (s, m1) = malloc s; (s, m2) = (if m1 then malloc s else (s, False)) in
      bind_r (bitmap_create n m1 (if m2 then Some (replicate (elem_cnt n) 0) else None)) (\<lambda>r.
      case r of None \<Rightarrow> Inl Panic
      | Some b \<Rightarrow> bind_r (bitmap_mark b FREE_MAP_SECTOR) (\<lambda>b. bind_r (bitmap_mark b ROOT_DIR_SECTOR) (\<lambda>b.
          Inr (s\<lparr>free_map := b\<rparr>)))))"

definition free_map_allocate :: "nat \<Rightarrow> fs \<Rightarrow> (fs \<times> nat option) res" where
  "free_map_allocate cnt s =
     bind_r (bitmap_scan_and_flip (free_map s) 0 cnt False) (\<lambda>(b, sector).
     let s = s\<lparr>free_map := b\<rparr> in
     if sector = BITMAP_ERROR then Inr (s, None)
     else case free_map_file s of
       None \<Rightarrow> Inr (s, Some sector)
     | Some f \<Rightarrow> bind_r (bitmap_write b f s) (\<lambda>(s, ok).
         if ok then Inr (s, Some sector)
         else bind_r (bitmap_set_multiple (free_map s) sector cnt False) (\<lambda>b. Inr (s\<lparr>free_map := b\<rparr>, None))))"

definition free_map_release :: "nat \<Rightarrow> nat \<Rightarrow> fs \<Rightarrow> fs res" where
  "free_map_release sector cnt s =
     bind_r (bitmap_all (free_map s) sector cnt) (\<lambda>all. ASSERT all
       (bind_r (bitmap_set_multiple (free_map s) sector cnt False) (\<lambda>b.
        let s = s\<lparr>free_map := b\<rparr> in
        bind_r (deref (free_map_file s)) (\<lambda>f. bind_r (bitmap_write b f s) (\<lambda>(s, _). Inr s)))))"

section \<open>Creating, opening and closing inodes\<close>

fun zero_sectors :: "nat \<Rightarrow> nat \<Rightarrow> fs \<Rightarrow> fs res" where
  "zero_sectors sector 0 s = Inr s"
| "zero_sectors sector (Suc n) s = bind_r (dev_write sector (replicate 512 0) s) (zero_sectors (add32 sector 1) n)"

definition inode_create :: "nat \<Rightarrow> int \<Rightarrow> fs \<Rightarrow> (fs \<times> bool) res" where
  "inode_create sector len s =
     ASSERT (len \<ge> 0)
       (let (s, ok) = malloc s in
        if \<not> ok then Inr (s, False)
        else let n = bytes_to_sectors len in
          bind_r (free_map_allocate n s) (\<lambda>(s, r).
          case r of None \<Rightarrow> Inr (s, False)
          | Some first \<Rightarrow>
              bind_r (dev_write sector (inode_bytes \<lparr>start = first, ilength = len, magic = INODE_MAGIC\<rparr>) s) (\<lambda>s.
              bind_r (zero_sectors first n s) (\<lambda>s. Inr (s, True)))))"

definition inode_init :: "fs \<Rightarrow> fs" where
  "inode_init s = s\<lparr>open_inodes := []\<rparr>"

definition inode_reopen :: "nat option \<Rightarrow> fs \<Rightarrow> (fs \<times> nat option) res" where
  "inode_reopen p s =
     (case p of None \<Rightarrow> Inr (s, p)
      | Some q \<Rightarrow> bind_r (deref (inodes s q)) (\<lambda>_. Inr (upd_inode q (\<lambda>i. i\<lparr>open_cnt := open_cnt i + 1\<rparr>) s, p)))"

definition inode_open :: "nat \<Rightarrow> fs \<Rightarrow> (fs \<times> nat option) res" where
  "inode_open sector s =
     (case List.find (\<lambda>p. case inodes s p of None \<Rightarrow> False | Some i \<Rightarrow> isector i = sector) (open_inodes s) of
        Some p \<Rightarrow> inode_reopen (Some p) s
      | None \<Rightarrow>
          let (s, ok) = malloc s in
          if \<not> ok then Inr (s, None)
          else let p = nextp s; s = s\<lparr>nextp := p + 1, open_inodes := p # open_inodes s\<rparr> in
            bind_r (dev_read sector s) (\<lambda>(s, xs).
            Inr (s\<lparr>inodes := (inodes s)(p \<mapsto> \<lparr>isector = sector, open_cnt = 1, removed = False, deny_write_cnt = 0, idata = bytes_inode xs\<rparr>)\<rparr>,
                 Some p)))"

definition inode_get_inumber :: "nat \<Rightarrow> fs \<Rightarrow> nat res" where
  "inode_get_inumber p s = bind_r (deref (inodes s p)) (\<lambda>i. Inr (isector i))"

definition inode_close :: "nat option \<Rightarrow> fs \<Rightarrow> fs res" where
  "inode_close p s =
     (case p of None \<Rightarrow> Inr s
      | Some p \<Rightarrow> bind_r (deref (inodes s p)) (\<lambda>i.
          let s = upd_inode p (\<lambda>i. i\<lparr>open_cnt := open_cnt i - 1\<rparr>) s in
          if open_cnt i - 1 = 0
          then let s = s\<lparr>open_inodes := remove1 p (open_inodes s)\<rparr> in
            bind_r (if removed i
                    then bind_r (free_map_release (isector i) 1 s) (\<lambda>s.
                         free_map_release (start (idata i)) (bytes_to_sectors (ilength (idata i))) s)
                    else Inr s) (\<lambda>s.
            Inr (s\<lparr>inodes := (inodes s)(p := None)\<rparr>))
          else Inr s))"

definition inode_remove :: "nat \<Rightarrow> fs \<Rightarrow> fs res" where
  "inode_remove p s = bind_r (deref (inodes s p)) (\<lambda>_. Inr (upd_inode p (\<lambda>i. i\<lparr>removed := True\<rparr>) s))"

section \<open>Open files\<close>

definition upd_file :: "nat \<Rightarrow> (ofile \<Rightarrow> ofile) \<Rightarrow> fs \<Rightarrow> fs" where
  "upd_file f g s = s\<lparr>files := (files s)(f := map_option g (files s f))\<rparr>"

definition file_open :: "nat option \<Rightarrow> fs \<Rightarrow> (fs \<times> nat option) res" where
  "file_open p s =
     (let (s, ok) = malloc s in
      case p of
        Some i \<Rightarrow> if ok then let f = nextp s in
                     Inr (s\<lparr>nextp := f + 1, files := (files s)(f \<mapsto> \<lparr>finode = i, fpos = 0, deny_write = False\<rparr>)\<rparr>, Some f)
                   else bind_r (inode_close p s) (\<lambda>s. Inr (s, None))
      | None \<Rightarrow> bind_r (inode_close p s) (\<lambda>s. Inr (s, None)))"

definition file_reopen :: "nat \<Rightarrow> fs \<Rightarrow> (fs \<times> nat option) res" where
  "file_reopen f s = bind_r (deref (files s f)) (\<lambda>x. bind_r (inode_reopen (Some (finode x)) s) (\<lambda>(s, p). file_open p s))"

definition file_deny_write :: "nat \<Rightarrow> fs \<Rightarrow> fs res" where
  "file_deny_write f s =
     bind_r (deref (files s f)) (\<lambda>x.
     if \<not> deny_write x then inode_deny_write (finode x) (upd_file f (\<lambda>x. x\<lparr>deny_write := True\<rparr>) s) else Inr s)"

definition file_allow_write :: "nat \<Rightarrow> fs \<Rightarrow> fs res" where
  "file_allow_write f s =
     bind_r (deref (files s f)) (\<lambda>x.
     if deny_write x then inode_allow_write (finode x) (upd_file f (\<lambda>x. x\<lparr>deny_write := False\<rparr>) s) else Inr s)"

definition file_close :: "nat option \<Rightarrow> fs \<Rightarrow> fs res" where
  "file_close p s =
     (case p of None \<Rightarrow> Inr s
      | Some f \<Rightarrow> bind_r (deref (files s f)) (\<lambda>x.
          bind_r (file_allow_write f s) (\<lambda>s.
          bind_r (inode_close (Some (finode x)) s) (\<lambda>s.
          Inr (s\<lparr>files := (files s)(f := None)\<rparr>)))))"

definition file_get_inode :: "nat \<Rightarrow> fs \<Rightarrow> nat res" where
  "file_get_inode f s = bind_r (deref (files s f)) (\<lambda>x. Inr (finode x))"

definition file_read :: "nat \<Rightarrow> int \<Rightarrow> fs \<Rightarrow> (fs \<times> byte list) res" where
  "file_read f sz s =
     bind_r (deref (files s f)) (\<lambda>x. bind_r (inode_read_at (finode x) sz (fpos x) s) (\<lambda>(s, xs).
     Inr (upd_file f (\<lambda>x. x\<lparr>fpos := fpos x + int (length xs)\<rparr>) s, xs)))"

definition file_write :: "nat \<Rightarrow> byte list \<Rightarrow> int \<Rightarrow> fs \<Rightarrow> (fs \<times> nat) res" where
  "file_write f buf sz s =
     bind_r (deref (files s f)) (\<lambda>x. bind_r (inode_write_at (finode x) buf sz (fpos x) s) (\<lambda>(s, n).
     Inr (upd_file f (\<lambda>x. x\<lparr>fpos := fpos x + int n\<rparr>) s, n)))"

definition file_length :: "nat \<Rightarrow> fs \<Rightarrow> int res" where
  "file_length f s = bind_r (deref (files s f)) (\<lambda>x. inode_length (finode x) s)"

definition file_seek :: "nat \<Rightarrow> int \<Rightarrow> fs \<Rightarrow> fs res" where
  "file_seek f new_pos s =
     bind_r (deref (files s f)) (\<lambda>x. ASSERT (new_pos \<ge> 0) (Inr (upd_file f (\<lambda>x. x\<lparr>fpos := new_pos\<rparr>) s)))"

definition file_tell :: "nat \<Rightarrow> fs \<Rightarrow> int res" where
  "file_tell f s = bind_r (deref (files s f)) (\<lambda>x. Inr (fpos x))"

section \<open>Directories\<close>

definition dir_create :: "nat \<Rightarrow> nat \<Rightarrow> fs \<Rightarrow> (fs \<times> bool) res" where
  "dir_create sector entry_cnt s = inode_create sector (signed_take_bit 31 (int (mul32 entry_cnt DIR_ENTRY_SIZE))) s"

definition dir_open :: "nat option \<Rightarrow> fs \<Rightarrow> (fs \<times> dir option) res" where
  "dir_open p s =
     (let (s, ok) = malloc s in
      case p of
        Some i \<Rightarrow> if ok then Inr (s, Some \<lparr>dinode = i, dpos = 0\<rparr>) else bind_r (inode_close p s) (\<lambda>s. Inr (s, None))
      | None \<Rightarrow> bind_r (inode_close p s) (\<lambda>s. Inr (s, None)))"

definition dir_open_root :: "fs \<Rightarrow> (fs \<times> dir option) res" where
  "dir_open_root s = bind_r (inode_open ROOT_DIR_SECTOR s) (\<lambda>(s, p). dir_open p s)"

definition dir_reopen :: "dir \<Rightarrow> fs \<Rightarrow> (fs \<times> dir option) res" where
  "dir_reopen d s = bind_r (inode_reopen (Some (dinode d)) s) (\<lambda>(s, p). dir_open p s)"

definition dir_close :: "dir option \<Rightarrow> fs \<Rightarrow> fs res" where
  "dir_close d s = (case d of None \<Rightarrow> Inr s | Some d \<Rightarrow> inode_close (Some (dinode d)) s)"

text \<open>The loops over the entries of a directory: read entries from offset \<open>ofs\<close> on until one satisfies \<open>P\<close> or a read
  is short. A loop state is the file system, the offset, the entry read last, whether it was found, and whether the loop
  goes on.\<close>

type_synonym slot_state = "fs \<times> nat \<times> dir_entry \<times> bool \<times> bool"

definition slot_cond :: "slot_state \<Rightarrow> bool res" where
  "slot_cond = (\<lambda>(s, ofs, e, found, go). Inr go)"

definition slot_body :: "nat \<Rightarrow> (dir_entry \<Rightarrow> bool res) \<Rightarrow> slot_state \<Rightarrow> slot_state res" where
  "slot_body p P = (\<lambda>(s, ofs, e, found, go).
     bind_r (inode_read_at p (int DIR_ENTRY_SIZE) (int ofs) s) (\<lambda>(s, xs).
     let e = bytes_entry (xs @ drop (length xs) (entry_bytes e)) in
     if length xs \<noteq> DIR_ENTRY_SIZE then Inr (s, ofs, e, False, False)
     else bind_r (P e) (\<lambda>b. if b then Inr (s, ofs, e, True, False) else Inr (s, ofs + DIR_ENTRY_SIZE, e, False, True))))"

text \<open>The entry is a local variable; its initial contents do not matter.\<close>

definition no_entry :: dir_entry where
  "no_entry = \<lparr>inode_sector = 0, ename = replicate 15 0, in_use = False\<rparr>"

definition scan_slots :: "nat \<Rightarrow> (dir_entry \<Rightarrow> bool res) \<Rightarrow> nat \<Rightarrow> fs \<Rightarrow> (fs \<times> nat \<times> dir_entry \<times> bool) res" where
  "scan_slots p P ofs s =
     bind_r (while_r slot_cond (slot_body p P) (s, ofs, no_entry, False, True)) (\<lambda>(s, ofs, e, found, go). Inr (s, ofs, e, found))"

text \<open>\<open>strcmp\<close> on the name of an entry; a name that is not terminated is read past its end.\<close>

definition entry_named :: "byte list \<Rightarrow> dir_entry \<Rightarrow> bool res" where
  "entry_named nm e =
     (if \<not> in_use e then Inr False
      else if 0 \<in> set (ename e) then Inr (takeWhile (\<lambda>c. c \<noteq> 0) (ename e) = nm) else Inl Out_of_bounds)"

definition lookup :: "dir \<Rightarrow> byte list \<Rightarrow> fs \<Rightarrow> (fs \<times> (dir_entry \<times> nat) option) res" where
  "lookup d nm s =
     bind_r (scan_slots (dinode d) (entry_named nm) 0 s) (\<lambda>(s, ofs, e, found). Inr (s, if found then Some (e, ofs) else None))"

definition dir_lookup :: "dir \<Rightarrow> byte list \<Rightarrow> fs \<Rightarrow> (fs \<times> nat option) res" where
  "dir_lookup d nm s =
     bind_r (lookup d nm s) (\<lambda>(s, r). case r of None \<Rightarrow> Inr (s, None) | Some (e, ofs) \<Rightarrow> inode_open (inode_sector e) s)"

definition dir_add :: "dir \<Rightarrow> byte list \<Rightarrow> nat \<Rightarrow> fs \<Rightarrow> (fs \<times> bool) res" where
  "dir_add d nm isec s =
     (if nm = [] \<or> length nm > NAME_MAX then Inr (s, False)
      else bind_r (lookup d nm s) (\<lambda>(s, r).
        if r \<noteq> None then Inr (s, False)
        else bind_r (scan_slots (dinode d) (\<lambda>e. Inr (\<not> in_use e)) 0 s) (\<lambda>(s, ofs, e, found).
          let e = e\<lparr>in_use := True, ename := nm @ [0] @ drop (length nm + 1) (ename e), inode_sector := isec\<rparr> in
          bind_r (inode_write_at (dinode d) (entry_bytes e) (int DIR_ENTRY_SIZE) (int ofs) s) (\<lambda>(s, n).
          Inr (s, n = DIR_ENTRY_SIZE)))))"

definition dir_remove :: "dir \<Rightarrow> byte list \<Rightarrow> fs \<Rightarrow> (fs \<times> bool) res" where
  "dir_remove d nm s =
     bind_r (lookup d nm s) (\<lambda>(s, r).
     case r of None \<Rightarrow> Inr (s, False)
     | Some (e, ofs) \<Rightarrow>
         bind_r (inode_open (inode_sector e) s) (\<lambda>(s, p).
         case p of None \<Rightarrow> Inr (s, False)
         | Some i \<Rightarrow>
             bind_r (inode_write_at (dinode d) (entry_bytes (e\<lparr>in_use := False\<rparr>)) (int DIR_ENTRY_SIZE) (int ofs) s) (\<lambda>(s, n).
             bind_r (if n = DIR_ENTRY_SIZE then bind_r (inode_remove i s) (\<lambda>s. Inr (s, True)) else Inr (s, False)) (\<lambda>(s, success).
             bind_r (inode_close p s) (\<lambda>s. Inr (s, success))))))"

definition dir_readdir :: "dir \<Rightarrow> fs \<Rightarrow> (fs \<times> dir \<times> byte list option) res" where
  "dir_readdir d s =
     bind_r (scan_slots (dinode d) (\<lambda>e. Inr (in_use e)) (nat (dpos d)) s) (\<lambda>(s, ofs, e, found).
     if found then Inr (s, d\<lparr>dpos := int (ofs + DIR_ENTRY_SIZE)\<rparr>, Some (takeWhile (\<lambda>c. c \<noteq> 0) (ename e)))
     else Inr (s, d\<lparr>dpos := int ofs\<rparr>, None))"

section \<open>The file system\<close>

definition free_map_open :: "fs \<Rightarrow> fs res" where
  "free_map_open s =
     bind_r (inode_open FREE_MAP_SECTOR s) (\<lambda>(s, p). bind_r (file_open p s) (\<lambda>(s, f).
     let s = s\<lparr>free_map_file := f\<rparr> in
     case f of None \<Rightarrow> Inl Panic
     | Some f \<Rightarrow> bind_r (bitmap_read (free_map s) f s) (\<lambda>(s, b, ok). if ok then Inr (s\<lparr>free_map := b\<rparr>) else Inl Panic)))"

definition free_map_close :: "fs \<Rightarrow> fs res" where
  "free_map_close s = file_close (free_map_file s) s"

definition free_map_create :: "fs \<Rightarrow> fs res" where
  "free_map_create s =
     bind_r (inode_create FREE_MAP_SECTOR (int (bitmap_file_size (free_map s))) s) (\<lambda>(s, ok).
     if \<not> ok then Inl Panic
     else bind_r (inode_open FREE_MAP_SECTOR s) (\<lambda>(s, p). bind_r (file_open p s) (\<lambda>(s, f).
       let s = s\<lparr>free_map_file := f\<rparr> in
       case f of None \<Rightarrow> Inl Panic
       | Some f \<Rightarrow> bind_r (bitmap_write (free_map s) f s) (\<lambda>(s, ok). if ok then Inr s else Inl Panic))))"

definition do_format :: "fs \<Rightarrow> fs res" where
  "do_format s =
     bind_r (free_map_create s) (\<lambda>s. bind_r (dir_create ROOT_DIR_SECTOR 16 s) (\<lambda>(s, ok).
     if ok then free_map_close s else Inl Panic))"

text \<open>\<open>role\<close> is the device that plays the role of the file system.\<close>

definition filesys_init :: "block option \<Rightarrow> bool \<Rightarrow> fs \<Rightarrow> fs res" where
  "filesys_init role format s =
     (case role of None \<Rightarrow> Inl Panic
      | Some fs_device \<Rightarrow>
          bind_r (free_map_init (inode_init (s\<lparr>dev := fs_device\<rparr>))) (\<lambda>s. bind_r (if format then do_format s else Inr s) free_map_open))"

definition filesys_done :: "fs \<Rightarrow> fs res" where
  "filesys_done s = free_map_close s"

definition filesys_create :: "byte list \<Rightarrow> int \<Rightarrow> fs \<Rightarrow> (fs \<times> bool) res" where
  "filesys_create nm initial_size s =
     bind_r (dir_open_root s) (\<lambda>(s, d).
     bind_r (case d of None \<Rightarrow> Inr (s, 0, False)
             | Some dd \<Rightarrow> bind_r (free_map_allocate 1 s) (\<lambda>(s, r).
                 case r of None \<Rightarrow> Inr (s, 0, False)
                 | Some isec \<Rightarrow> bind_r (inode_create isec initial_size s) (\<lambda>(s, ok).
                     if ok then bind_r (dir_add dd nm isec s) (\<lambda>(s, ok). Inr (s, isec, ok)) else Inr (s, isec, False)))) (\<lambda>(s, isec, success).
     bind_r (if \<not> success \<and> isec \<noteq> 0 then free_map_release isec 1 s else Inr s) (\<lambda>s.
     bind_r (dir_close d s) (\<lambda>s. Inr (s, success)))))"

definition filesys_open :: "byte list \<Rightarrow> fs \<Rightarrow> (fs \<times> nat option) res" where
  "filesys_open nm s =
     bind_r (dir_open_root s) (\<lambda>(s, d).
     bind_r (case d of None \<Rightarrow> Inr (s, None) | Some dd \<Rightarrow> dir_lookup dd nm s) (\<lambda>(s, p).
     bind_r (dir_close d s) (file_open p)))"

definition filesys_remove :: "byte list \<Rightarrow> fs \<Rightarrow> (fs \<times> bool) res" where
  "filesys_remove nm s =
     bind_r (dir_open_root s) (\<lambda>(s, d).
     bind_r (case d of None \<Rightarrow> Inr (s, False) | Some dd \<Rightarrow> dir_remove dd nm s) (\<lambda>(s, success).
     bind_r (dir_close d s) (\<lambda>s. Inr (s, success))))"

end
