(* ===== verification/FsData.thy ===== *)
theory FsData
  imports Fs
begin

unbundle bit_operations_syntax

text \<open>
  The data of inodes: the layout of the structures on disk can be read back, reading returns the bytes of the file,
  and writing replaces exactly the bytes in its range.
\<close>

section \<open>Layout\<close>

lemma length_le32 [simp]: "length (le32 w) = 4"
  by (simp add: le32_def)

lemma un_le32_le32 [simp]: "un_le32 (le32 w @ bs) = w"
proof -
  have "bit (un_le32 (le32 w @ bs)) n = bit w n" if n: "n < 32" for n
  proof -
    consider "n < 8" | "8 \<le> n" "n < 16" | "16 \<le> n" "n < 24" | "24 \<le> n" "n < 32" using n by linarith
    then show ?thesis
      by cases (auto simp: le32_def bit_simps)
  qed
  then show ?thesis by (intro bit_word_eqI) simp
qed

lemma un_le32_le32_nil [simp]: "un_le32 (le32 w) = w"
  using un_le32_le32 [of w "[]"] by simp

lemma le32_un_le32:
  assumes "length bs = 4"
  shows "le32 (un_le32 bs) = bs"
proof -
  obtain a b c d where bs: "bs = [a, b, c, d]"
    using assms by (auto simp: length_Suc_conv numeral_eq_Suc)
  have "ucast (drop_bit 0 (un_le32 bs)) = a" "ucast (drop_bit 8 (un_le32 bs)) = b" "ucast (drop_bit 16 (un_le32 bs)) = c"
    "ucast (drop_bit 24 (un_le32 bs)) = d"
    unfolding bs by (rule bit_word_eqI, auto simp: bit_simps dest: bit_imp_le_length)+
  then show ?thesis by (simp add: le32_def bs)
qed

lemma inode_bytes_roundtrip:
  assumes "start d < u32_mod" "- (2 ^ 31) \<le> ilength d" "ilength d < 2 ^ 31"
  shows "bytes_inode (inode_bytes d) = d" "length (inode_bytes d) = 512"
proof -
  have l: "sint (of_int (ilength d) :: 32 word) = ilength d" using assms(2,3) by (simp add: signed_of_int signed_take_bit_int_eq_self)
  have n: "unat (of_nat (start d) :: 32 word) = start d" using assms(1) by (simp add: unat_of_nat)
  show "bytes_inode (inode_bytes d) = d"
    by (cases d) (use l n in \<open>simp add: bytes_inode_def inode_bytes_def\<close>)
qed (simp add: inode_bytes_def)

lemma entry_bytes_roundtrip:
  assumes "inode_sector e < u32_mod" "length (ename e) = 15"
  shows "bytes_entry (entry_bytes e) = e" "length (entry_bytes e) = 20"
proof -
  have n: "unat (of_nat (inode_sector e) :: 32 word) = inode_sector e" using assms(1) by (simp add: unat_of_nat)
  show "bytes_entry (entry_bytes e) = e"
    by (cases e) (use n assms(2) in \<open>simp add: bytes_entry_def entry_bytes_def\<close>)
qed (use assms in \<open>simp add: entry_bytes_def\<close>)

lemma bytes_entry_bound: "inode_sector (bytes_entry bs) < u32_mod" "length bs = 20 \<Longrightarrow> length (ename (bytes_entry bs)) = 15"
  using unsigned_less [of "un_le32 bs"] by (simp_all add: bytes_entry_def)

lemma words_bytes_roundtrip [simp]: "bytes_words (words_bytes ws) = ws"
proof (induction ws)
  case (Cons w ws)
  obtain a b c d where bs: "le32 w = [a, b, c, d]" by (simp add: le32_def)
  then have "un_le32 [a, b, c, d] = w" using un_le32_le32_nil [of w] by simp
  then show ?case using Cons by (simp add: words_bytes_def bs)
qed (simp add: words_bytes_def)

lemma length_words_bytes [simp]: "length (words_bytes ws) = 4 * length ws"
  by (induction ws) (simp_all add: words_bytes_def)

section \<open>The contents of a file\<close>

definition dev_ok :: "fs \<Rightarrow> bool" where
  "dev_ok s \<longleftrightarrow> btype (dev s) \<noteq> BLOCK_FOREIGN \<and> bsize (dev s) < u32_mod \<and> (\<forall>i<bsize (dev s). length (sectors (dev s) i) = 512)"

definition sector_cnt :: "inode_disk \<Rightarrow> nat" where
  "sector_cnt d = (nat (ilength d) + 511) div 512"

definition extent_ok :: "inode_disk \<Rightarrow> fs \<Rightarrow> bool" where
  "extent_ok d s \<longleftrightarrow> 0 \<le> ilength d \<and> ilength d + 511 < 2 ^ 31 \<and> start d + sector_cnt d \<le> bsize (dev s)"

definition contents :: "inode_disk \<Rightarrow> fs \<Rightarrow> byte list" where
  "contents d s = map (\<lambda>i. sectors (dev s) (start d + i div 512) ! (i mod 512)) [0..<nat (ilength d)]"

text \<open>The parts of the state that reading and writing keep.\<close>

definition same_but_data :: "fs \<Rightarrow> fs \<Rightarrow> bool" where
  "same_but_data s s' \<longleftrightarrow> bsize (dev s') = bsize (dev s) \<and> btype (dev s') = btype (dev s) \<and> bname (dev s') = bname (dev s)
     \<and> nextp s' = nextp s \<and> inodes s' = inodes s
     \<and> open_inodes s' = open_inodes s \<and> files s' = files s \<and> free_map s' = free_map s \<and> free_map_file s' = free_map_file s
     \<and> (\<exists>k. mem s' = drop k (mem s))"

definition same_data :: "fs \<Rightarrow> fs \<Rightarrow> bool" where
  "same_data s s' \<longleftrightarrow> same_but_data s s' \<and> sectors (dev s') = sectors (dev s)"

lemma same_but_data_refl [simp]: "same_but_data s s"
  by (auto simp: same_but_data_def intro: exI [of _ 0])

lemma same_but_data_trans: "same_but_data s t \<Longrightarrow> same_but_data t u \<Longrightarrow> same_but_data s u"
  by (auto simp: same_but_data_def)

lemma same_data_refl [simp]: "same_data s s"
  by (simp add: same_data_def)

lemma same_data_trans: "same_data s t \<Longrightarrow> same_data t u \<Longrightarrow> same_data s u"
  by (auto simp: same_data_def intro: same_but_data_trans)

text \<open>Memory does not run out.\<close>

definition mem_ok :: "fs \<Rightarrow> bool" where
  "mem_ok s \<longleftrightarrow> (\<forall>b\<in>set (mem s). b)"

lemma mem_ok_same: "same_but_data s s' \<Longrightarrow> mem_ok s \<Longrightarrow> mem_ok s'"
  unfolding same_but_data_def mem_ok_def by (metis in_set_dropD)

lemma malloc_same:
  assumes "malloc s = (s', ok)"
  shows "same_data s s' \<and> (mem_ok s \<longrightarrow> ok)"
proof (cases "mem s")
  case Nil
  then show ?thesis using assms by (simp add: malloc_def)
next
  case (Cons b bs)
  then have "s' = s\<lparr>mem := bs\<rparr>" "ok = b" using assms by (simp_all add: malloc_def)
  moreover have "\<exists>k. bs = drop k (mem s)" by (rule exI [of _ 1]) (simp add: Cons)
  moreover have "mem_ok s \<longrightarrow> b" by (simp add: mem_ok_def Cons)
  ultimately show ?thesis by (simp add: same_data_def same_but_data_def)
qed

lemma contents_same: "sectors (dev s') = sectors (dev s) \<Longrightarrow> contents d s' = contents d s"
  by (simp add: contents_def)

lemma dev_ok_same: "same_data s s' \<Longrightarrow> dev_ok s' = dev_ok s"
  by (auto simp: same_data_def same_but_data_def dev_ok_def)

lemma extent_ok_same: "same_but_data s s' \<Longrightarrow> extent_ok d s' = extent_ok d s"
  by (simp add: same_but_data_def extent_ok_def)

lemma length_contents [simp]: "length (contents d s) = nat (ilength d)"
  by (simp add: contents_def)

lemma nth_contents: "i < nat (ilength d) \<Longrightarrow> contents d s ! i = sectors (dev s) (start d + i div 512) ! (i mod 512)"
  by (simp add: contents_def)

section \<open>One round of the loops\<close>

lemma cdiv_nat: "cdiv (int q) 512 = int (q div 512)" and cmod_nat: "cmod (int q) 512 = int (q mod 512)" for q :: nat
proof -
  show d: "cdiv (int q) 512 = int (q div 512)" by (simp add: cdiv_def zdiv_int)
  have "int q - 512 * int (q div 512) = int (q mod 512)" using mult_div_mod_eq [of 512 q] by linarith
  then show "cmod (int q) 512 = int (q mod 512)" by (simp only: cmod_def d)
qed

text \<open>A chunk that starts at offset \<open>q\<close>.\<close>

definition piece :: "inode_disk \<Rightarrow> nat \<Rightarrow> nat \<Rightarrow> nat" where
  "piece d sz q = min sz (min (nat (ilength d) - q) (512 - q mod 512))"

lemma chunk_piece:
  assumes "int q < ilength d"
  shows "chunk d (int sz) (int q) = int (piece d sz q)"
proof -
  have "q mod 512 < 512" by simp
  then show ?thesis using assms unfolding chunk_def cmod_nat piece_def Let_def by (simp add: min_def) linarith
qed

lemma chunk_end:
  assumes "ilength d \<le> int q"
  shows "chunk d sz (int q) \<le> 0"
proof -
  have "int (q mod 512) < 512" using mod_less_divisor [of 512 q] by linarith
  then show ?thesis using assms unfolding chunk_def cmod_nat Let_def by (auto simp del: of_nat_mod)
qed

lemma piece_bounds:
  assumes "q < nat (ilength d)" "0 < sz"
  shows "0 < piece d sz q" "piece d sz q \<le> sz" "q + piece d sz q \<le> nat (ilength d)" "q mod 512 + piece d sz q \<le> 512"
proof -
  have "q mod 512 < 512" by simp
  then show "0 < piece d sz q" "piece d sz q \<le> sz" "q + piece d sz q \<le> nat (ilength d)" "q mod 512 + piece d sz q \<le> 512"
    using assms by (auto simp: piece_def)
qed

lemma sector_in_extent:
  assumes "extent_ok d s" "q < nat (ilength d)"
  shows "start d + q div 512 < bsize (dev s)"
proof -
  have "q div 512 < sector_cnt d" using assms(2) by (simp add: sector_cnt_def)
  then show ?thesis using assms(1) by (simp add: extent_ok_def)
qed

lemma byte_to_sector_in:
  assumes "extent_ok d s" "dev_ok s" "q < nat (ilength d)"
  shows "byte_to_sector d (int q) = start d + q div 512"
proof -
  have "start d + q div 512 < u32_mod" using sector_in_extent [OF assms(1,3)] assms(2) by (simp add: dev_ok_def)
  then have "(int (start d) + int (q div 512)) mod 2 ^ 32 = int (start d + q div 512)" by simp
  moreover have "int q < ilength d" using assms(3) by linarith
  ultimately show ?thesis unfolding byte_to_sector_def cdiv_nat by (simp only: if_True nat_int)
qed

lemma div_mod_shift:
  fixes q j :: nat
  assumes "q mod 512 + j < 512"
  shows "(q + j) div 512 = q div 512" "(q + j) mod 512 = q mod 512 + j"
proof -
  define a b where "a = q div 512" and "b = q mod 512"
  have "q = 512 * a + b" by (simp add: a_def b_def)
  then have e: "q + j = 512 * a + (b + j)" by simp
  have l: "b + j < 512" using assms by (simp add: b_def)
  show "(q + j) div 512 = q div 512" unfolding a_def [symmetric] e using l by (simp add: div_mult_self4 div_less)
  show "(q + j) mod 512 = q mod 512 + j" unfolding b_def [symmetric] e using l by (simp add: mod_mult_self4)
qed

lemma contents_piece:
  assumes "length (sectors (dev s) (start d + q div 512)) = 512" "q + n \<le> nat (ilength d)" "q mod 512 + n \<le> 512"
  shows "take n (drop (q mod 512) (sectors (dev s) (start d + q div 512))) = take n (drop q (contents d s))"
proof (rule nth_equalityI)
  fix j assume "j < length (take n (drop (q mod 512) (sectors (dev s) (start d + q div 512))))"
  then have j: "j < n" using assms by simp
  then have "contents d s ! (q + j) = sectors (dev s) (start d + q div 512) ! (q mod 512 + j)"
    using assms(2,3) div_mod_shift [of q j] by (simp add: nth_contents)
  then show "take n (drop (q mod 512) (sectors (dev s) (start d + q div 512))) ! j = take n (drop q (contents d s)) ! j"
    using j assms by simp
qed (use assms in simp)

lemma dev_read_in:
  assumes "i < bsize (dev s)"
  shows "\<exists>s'. dev_read i s = Inr (s', sectors (dev s) i) \<and> same_data s s'"
  using assms by (auto simp: dev_read_def block_read_def check_sector_def same_data_def same_but_data_def intro: exI [of _ 0])

section \<open>Reading\<close>

lemma read_loop_correct:
  assumes "dev_ok s" "extent_ok d s"
  shows "\<exists>s' xs. read_loop d (int sz) (int q) bounce acc s = Inr (s', acc @ xs) \<and> same_data s s'
    \<and> (\<exists>k. xs = take k (drop q (contents d s)) \<and> k \<le> sz \<and> (mem_ok s \<longrightarrow> k = sz))"
  using assms
proof (induction sz arbitrary: q bounce acc s rule: less_induct)
  case (less sz)
  show ?case
  proof (cases "sz = 0 \<or> nat (ilength d) \<le> q")
    case True
    then have "read_loop d (int sz) (int q) bounce acc s = Inr (s, acc)"
      using chunk_end [of d q "int sz"] by (subst read_loop.simps) auto
    then show ?thesis using True by (intro exI [of _ s] exI [of _ "[]"]) auto
  next
    case False
    then have q: "q < nat (ilength d)" "0 < sz" by auto
    define n where "n = piece d sz q"
    note P = piece_bounds [OF q, folded n_def]
    let ?i = "start d + q div 512"
    have ii: "?i < bsize (dev s)" by (rule sector_in_extent [OF less.prems(2) q(1)])
    then have len: "length (sectors (dev s) ?i) = 512" using less.prems(1) by (simp add: dev_ok_def)
    have c: "chunk d (int sz) (int q) = int n" using chunk_piece [of q d sz] q(1) by (simp add: n_def)
    have eqs: "byte_to_sector d (int q) = ?i" "cmod (int q) 512 = int (q mod 512)"
      using byte_to_sector_in [OF less.prems(2,1) q(1)] cmod_nat by simp_all
    have sub: "int sz - int n = int (sz - n)" "int q + int n = int (q + n)" using P(2) by simp_all
    have cut: "take n (drop (q mod 512) (sectors (dev s) ?i)) = take n (drop q (contents d s))"
      by (rule contents_piece [OF len P(3,4)])
    have rec: "\<exists>s' xs. read_loop d (int sz - int n) (int q + int n) b (acc @ take n (drop (q mod 512) (sectors (dev s) ?i))) t = Inr (s', acc @ xs)
        \<and> same_data s s' \<and> (\<exists>k. xs = take k (drop q (contents d s)) \<and> k \<le> sz \<and> (mem_ok s \<longrightarrow> k = sz))"
      if t: "same_data s t" for t b
    proof -
      have "dev_ok t" "extent_ok d t" "contents d t = contents d s" "mem_ok s \<longrightarrow> mem_ok t"
        using less.prems t dev_ok_same extent_ok_same contents_same mem_ok_same unfolding same_data_def by blast+
      then obtain s' xs k where r: "read_loop d (int (sz - n)) (int (q + n)) b (acc @ take n (drop q (contents d s))) t = Inr (s', (acc @ take n (drop q (contents d s))) @ xs)"
        "same_data t s'" "xs = take k (drop (q + n) (contents d s))" "k \<le> sz - n" "mem_ok s \<longrightarrow> k = sz - n"
        using less.IH [of "sz - n" t "q + n" b "acc @ take n (drop q (contents d s))"] P(1) q(2) by auto
      have "take n (drop q (contents d s)) @ xs = take (n + k) (drop q (contents d s))"
        unfolding r(3) take_add by (simp add: add.commute)
      moreover have "n + k \<le> sz" "mem_ok s \<longrightarrow> n + k = sz" using r(4,5) P(2) by auto
      ultimately show ?thesis using r(1) same_data_trans [OF t r(2)] unfolding sub cut by (metis append.assoc)
    qed
    show ?thesis
    proof (cases "q mod 512 = 0 \<and> n = 512")
      case True
      obtain t where t: "dev_read ?i s = Inr (t, sectors (dev s) ?i)" "same_data s t" using dev_read_in [OF ii] by blast
      have "read_loop d (int sz) (int q) bounce acc s = read_loop d (int sz - int n) (int q + int n) bounce (acc @ take n (drop (q mod 512) (sectors (dev s) ?i))) t"
        using True q P(1) len by (subst read_loop.simps) (simp add: Let_def eqs c t(1))
      then show ?thesis using rec [OF t(2)] by simp
    next
      case False
      obtain u ok where u: "(if bounce then (s, True) else malloc s) = (u, ok)" by (cases "if bounce then (s, True) else malloc s")
      then have su: "same_data s u" "mem_ok s \<longrightarrow> ok" using malloc_same [of s u ok] by (auto split: if_splits)
      have nf: "\<not> (int (q mod 512) = 0 \<and> int n = 512)" using False by linarith
      show ?thesis
      proof (cases ok)
        case False
        then have "read_loop d (int sz) (int q) bounce acc s = Inr (u, acc)"
          using nf q P(1) u by (subst read_loop.simps) (auto simp: Let_def eqs c)
        then show ?thesis using su False by (intro exI [of _ u] exI [of _ "[]"]) auto
      next
        case True
        have "?i < bsize (dev u)" "sectors (dev u) = sectors (dev s)" using ii su(1) by (simp_all add: same_data_def same_but_data_def)
        then obtain t where t: "dev_read ?i u = Inr (t, sectors (dev s) ?i)" "same_data u t" using dev_read_in [of ?i u] by auto
        have "read_loop d (int sz) (int q) bounce acc s = read_loop d (int sz - int n) (int q + int n) True (acc @ take n (drop (q mod 512) (sectors (dev s) ?i))) t"
          using nf q P(1) u True by (subst read_loop.simps) (auto simp: Let_def eqs c t(1))
        then show ?thesis using rec [OF same_data_trans [OF su(1) t(2)]] by simp
      qed
    qed
  qed
qed

lemma inode_read_at_correct:
  assumes "dev_ok s" "inodes s p = Some i" "extent_ok (idata i) s"
  shows "\<exists>s' k. inode_read_at p (int sz) (int q) s = Inr (s', take k (drop q (contents (idata i) s))) \<and> same_data s s'
    \<and> k \<le> sz \<and> (mem_ok s \<longrightarrow> k = sz)"
  using read_loop_correct [OF assms(1,3), of sz q False "[]"] assms(2) by (auto simp: inode_read_at_def)

section \<open>Writing\<close>

definition overwrite :: "'a list \<Rightarrow> nat \<Rightarrow> 'a list \<Rightarrow> 'a list" where
  "overwrite xs q ys = take q xs @ ys @ drop (q + length ys) xs"

lemma length_overwrite [simp]: "q + length ys \<le> length xs \<Longrightarrow> length (overwrite xs q ys) = length xs"
  by (simp add: overwrite_def)

lemma nth_overwrite:
  assumes "q + length ys \<le> length xs" "j < length xs"
  shows "overwrite xs q ys ! j = (if q \<le> j \<and> j < q + length ys then ys ! (j - q) else xs ! j)"
  using assms by (auto simp: overwrite_def nth_append)

lemma overwrite_Nil [simp]: "overwrite xs q [] = xs"
  by (simp add: overwrite_def)

lemma overwrite_append:
  assumes "q + length ys + length zs \<le> length xs"
  shows "overwrite (overwrite xs q ys) (q + length ys) zs = overwrite xs q (ys @ zs)"
  by (rule nth_equalityI) (use assms in \<open>auto simp: nth_overwrite nth_append\<close>)

lemma contents_update:
  assumes "length (sectors (dev s) (start d + q div 512)) = 512" "q + length ys \<le> nat (ilength d)" "q mod 512 + length ys \<le> 512"
    and "sectors (dev s') = (sectors (dev s))(start d + q div 512 := overwrite (sectors (dev s) (start d + q div 512)) (q mod 512) ys)"
  shows "contents d s' = overwrite (contents d s) q ys"
proof (rule nth_equalityI)
  fix j assume "j < length (contents d s')"
  then have j: "j < nat (ilength d)" by simp
  let ?x = "sectors (dev s) (start d + q div 512)"
  show "contents d s' ! j = overwrite (contents d s) q ys ! j"
  proof (cases "q \<le> j \<and> j < q + length ys")
    case True
    then obtain k where k: "j = q + k" "k < length ys" by (metis add_less_cancel_left le_iff_add)
    then have e: "j div 512 = q div 512" "j mod 512 = q mod 512 + k" using div_mod_shift [of q k] assms(3) by simp_all
    have "contents d s' ! j = ys ! k" using j k(2) assms by (simp add: nth_contents e nth_overwrite)
    then show ?thesis using True k assms(2) j by (simp add: nth_overwrite)
  next
    case False
    have "contents d s' ! j = contents d s ! j"
    proof (cases "j div 512 = q div 512")
      case True
      then have "\<not> (q mod 512 \<le> j mod 512 \<and> j mod 512 < q mod 512 + length ys)"
        using False div_mult_mod_eq [of j 512] div_mult_mod_eq [of q 512] by linarith
      moreover have "j mod 512 < 512" by simp
      ultimately show ?thesis using j assms True by (auto simp: nth_contents nth_overwrite)
    next
      case False
      then show ?thesis using j assms(4) by (simp add: nth_contents)
    qed
    then show ?thesis using False assms(2) j by (auto simp: nth_overwrite)
  qed
qed (use assms in simp)

lemma dev_write_in:
  assumes "i < bsize (dev s)" "btype (dev s) \<noteq> BLOCK_FOREIGN"
  shows "\<exists>s'. dev_write i ys s = Inr s' \<and> same_but_data s s' \<and> sectors (dev s') = (sectors (dev s))(i := ys) \<and> mem s' = mem s"
  using assms by (auto simp: dev_write_def block_write_def check_sector_def same_but_data_def intro: exI [of _ 0])

text \<open>The effect of a write of \<open>ys\<close> at offset \<open>q\<close>: the contents change there and the device nowhere outside the file.\<close>

definition wrote :: "inode_disk \<Rightarrow> nat \<Rightarrow> byte list \<Rightarrow> fs \<Rightarrow> fs \<Rightarrow> bool" where
  "wrote d q ys s s' \<longleftrightarrow> same_but_data s s' \<and> dev_ok s' \<and> contents d s' = overwrite (contents d s) q ys
     \<and> (\<forall>i. i < start d \<or> start d + sector_cnt d \<le> i \<longrightarrow> sectors (dev s') i = sectors (dev s) i)"

lemma wrote_nil: "dev_ok s \<Longrightarrow> same_data s s' \<Longrightarrow> wrote d q [] s s'"
  using dev_ok_same [of s s'] contents_same [of s' s d] by (simp add: wrote_def same_data_def)

lemma wrote_append:
  assumes "wrote d q ys s t" "wrote d (q + length ys) zs t u" "q + length ys + length zs \<le> nat (ilength d)"
  shows "wrote d q (ys @ zs) s u"
  using assms overwrite_append [of q ys zs "contents d s"] by (auto simp: wrote_def intro: same_but_data_trans)

lemma write_piece:
  assumes ok: "dev_ok s" "extent_ok d s" and q: "q < nat (ilength d)" and ys: "q + length ys \<le> nat (ilength d)" "q mod 512 + length ys \<le> 512"
  shows "\<exists>s'. dev_write (start d + q div 512) (overwrite (sectors (dev s) (start d + q div 512)) (q mod 512) ys) s = Inr s'
    \<and> wrote d q ys s s' \<and> mem s' = mem s"
proof -
  let ?i = "start d + q div 512"
  have ii: "?i < bsize (dev s)" by (rule sector_in_extent [OF ok(2) q])
  have len: "length (sectors (dev s) ?i) = 512" using ii ok(1) by (simp add: dev_ok_def)
  obtain s' where s': "dev_write ?i (overwrite (sectors (dev s) ?i) (q mod 512) ys) s = Inr s'" "same_but_data s s'"
    "sectors (dev s') = (sectors (dev s))(?i := overwrite (sectors (dev s) ?i) (q mod 512) ys)" "mem s' = mem s"
    using dev_write_in [OF ii] ok(1) by (auto simp: dev_ok_def)
  have "contents d s' = overwrite (contents d s) q ys" by (rule contents_update [OF len ys s'(3)])
  moreover have "dev_ok s'" using ok(1) s'(2,3) len ys(2) by (auto simp: dev_ok_def same_but_data_def)
  moreover have "q div 512 < sector_cnt d" using q by (simp add: sector_cnt_def)
  ultimately show ?thesis using s' by (auto simp: wrote_def)
qed

lemma write_loop_correct:
  assumes "dev_ok s" "extent_ok d s" "w + min sz (nat (ilength d) - q) \<le> length buf"
  shows "\<exists>s' k. write_loop d buf (int sz) (int q) bounce w s = Inr (s', w + k) \<and> wrote d q (take k (drop w buf)) s s'
    \<and> k \<le> min sz (nat (ilength d) - q) \<and> (mem_ok s \<longrightarrow> k = min sz (nat (ilength d) - q))"
  using assms
proof (induction sz arbitrary: q bounce w s rule: less_induct)
  case (less sz)
  show ?case
  proof (cases "sz = 0 \<or> nat (ilength d) \<le> q")
    case True
    then have "write_loop d buf (int sz) (int q) bounce w s = Inr (s, w)"
      using chunk_end [of d q "int sz"] by (subst write_loop.simps) auto
    then show ?thesis using True wrote_nil [OF less.prems(1), of s d q] by (intro exI [of _ s] exI [of _ 0]) auto
  next
    case False
    then have q: "q < nat (ilength d)" "0 < sz" by auto
    define n where "n = piece d sz q"
    define ys where "ys = take n (drop w buf)"
    note P = piece_bounds [OF q, folded n_def]
    let ?i = "start d + q div 512" let ?m = "min sz (nat (ilength d) - q)"
    have ii: "?i < bsize (dev s)" by (rule sector_in_extent [OF less.prems(2) q(1)])
    then have len: "length (sectors (dev s) ?i) = 512" using less.prems(1) by (simp add: dev_ok_def)
    have nm: "n \<le> ?m" using P(2,3) by linarith
    then have "w + n \<le> length buf" using less.prems(3) by linarith
    then have ys: "length ys = n" "w + n \<le> length buf" by (simp_all add: ys_def)
    have c: "chunk d (int sz) (int q) = int n" using chunk_piece [of q d sz] q(1) by (simp add: n_def)
    have eqs: "byte_to_sector d (int q) = ?i" "cmod (int q) 512 = int (q mod 512)"
      using byte_to_sector_in [OF less.prems(2,1) q(1)] cmod_nat by simp_all
    have sub: "int sz - int n = int (sz - n)" "int q + int n = int (q + n)" using P(2) by simp_all
    have rec: "\<exists>s' k. write_loop d buf (int sz - int n) (int q + int n) b (w + n) t = Inr (s', w + k) \<and> wrote d q (take k (drop w buf)) s s'
        \<and> k \<le> ?m \<and> (mem_ok s \<longrightarrow> k = ?m)" if t: "wrote d q ys s t" for t b
    proof -
      have "dev_ok t" "extent_ok d t" "mem_ok s \<longrightarrow> mem_ok t"
        using t less.prems(2) extent_ok_same [of s t d] mem_ok_same [of s t] by (auto simp: wrote_def)
      moreover have "w + n + min (sz - n) (nat (ilength d) - (q + n)) \<le> length buf" using less.prems(3) P(2,3) by linarith
      ultimately obtain s' k where r: "write_loop d buf (int (sz - n)) (int (q + n)) b (w + n) t = Inr (s', w + n + k)"
        "wrote d (q + n) (take k (drop (w + n) buf)) t s'" "k \<le> min (sz - n) (nat (ilength d) - (q + n))"
        "mem_ok s \<longrightarrow> k = min (sz - n) (nat (ilength d) - (q + n))"
        using less.IH [of "sz - n" t "w + n" "q + n" b] P(1) q(2) by auto
      have "length (take k (drop (w + n) buf)) \<le> k" by simp
      then have "q + n + length (take k (drop (w + n) buf)) \<le> nat (ilength d)" using r(3) P(3) by linarith
      then have "wrote d q (ys @ take k (drop (w + n) buf)) s s'" using wrote_append [OF t, of "take k (drop (w + n) buf)" s'] r(2) ys(1) by simp
      moreover have "ys @ take k (drop (w + n) buf) = take (n + k) (drop w buf)" unfolding ys_def take_add by (simp add: add.commute)
      moreover have e: "n + min (sz - n) (nat (ilength d) - (q + n)) = ?m" using P(2,3) by linarith
      moreover have "n + k \<le> ?m" using r(3) e by linarith
      moreover have "mem_ok s \<longrightarrow> n + k = ?m" using r(4) e by simp
      ultimately show ?thesis using r(1) unfolding sub by (intro exI [of _ s'] exI [of _ "n + k"]) (simp add: add.assoc)
    qed
    have put: "overwrite xs (q mod 512) ys = take (q mod 512) xs @ take n (drop w buf) @ drop (q mod 512 + n) xs" for xs
      unfolding overwrite_def ys(1) by (simp add: ys_def)
    have drp: "nat (int (q mod 512) + int n) = q mod 512 + n" by linarith
    show ?thesis
    proof (cases "q mod 512 = 0 \<and> n = 512")
      case True
      obtain t where t: "dev_write ?i (overwrite (sectors (dev s) ?i) (q mod 512) ys) s = Inr t" "wrote d q ys s t"
        using write_piece [OF less.prems(1,2) q(1), of ys] P ys(1) by auto
      have "overwrite (sectors (dev s) ?i) (q mod 512) ys = take 512 (drop w buf)" unfolding put using True len by simp
      then have "write_loop d buf (int sz) (int q) bounce w s = write_loop d buf (int sz - int n) (int q + int n) bounce (w + n) t"
        using True q P(1) t(1) ys(2) by (subst write_loop.simps) (simp add: Let_def eqs c)
      then show ?thesis using rec [OF t(2)] by simp
    next
      case False
      obtain u ok where u: "(if bounce then (s, True) else malloc s) = (u, ok)" by (cases "if bounce then (s, True) else malloc s")
      then have su: "same_data s u" "mem_ok s \<longrightarrow> ok" using malloc_same [of s u ok] by (auto split: if_splits)
      have nf: "\<not> (int (q mod 512) = 0 \<and> int n = 512)" using False by linarith
      show ?thesis
      proof (cases ok)
        case False
        then have "write_loop d buf (int sz) (int q) bounce w s = Inr (u, w)"
          using nf q P(1) u ys(2) by (subst write_loop.simps) (auto simp: Let_def eqs c)
        then show ?thesis using su False wrote_nil [OF less.prems(1) su(1), of d q] by (intro exI [of _ u] exI [of _ 0]) auto
      next
        case True
        have rd: "int (q mod 512) > 0 \<or> int n < 512 - int (q mod 512)" using nf P(4) by linarith
        have "?i < bsize (dev u)" "sectors (dev u) = sectors (dev s)" using ii su(1) by (simp_all add: same_data_def same_but_data_def)
        then obtain v where v: "dev_read ?i u = Inr (v, sectors (dev s) ?i)" "same_data u v" using dev_read_in [of ?i u] by auto
        have sv: "same_data s v" by (rule same_data_trans [OF su(1) v(2)])
        then have "dev_ok v" "extent_ok d v" "sectors (dev v) = sectors (dev s)"
          using less.prems dev_ok_same [OF sv] extent_ok_same [of s v d] by (auto simp: same_data_def)
        then obtain t where t: "dev_write ?i (overwrite (sectors (dev s) ?i) (q mod 512) ys) v = Inr t" "wrote d q ys v t"
          using write_piece [of v d q ys] q(1) P ys(1) by auto
        have st: "wrote d q ys s t" using wrote_append [OF wrote_nil [OF less.prems(1) sv, of d q], of ys t] t(2) P(3) ys(1) by simp
        have "write_loop d buf (int sz) (int q) bounce w s = write_loop d buf (int sz - int n) (int q + int n) True (w + n) t"
          using nf q P(1) u True ys(2) rd v(1) t(1) unfolding put by (subst write_loop.simps) (auto simp: Let_def eqs c drp)
        then show ?thesis using rec [OF st] by simp
      qed
    qed
  qed
qed

lemma inode_write_at_correct:
  assumes "dev_ok s" "inodes s p = Some i" "extent_ok (idata i) s" "deny_write_cnt i = 0" "min sz (nat (ilength (idata i)) - q) \<le> length buf"
  shows "\<exists>s' k. inode_write_at p buf (int sz) (int q) s = Inr (s', k) \<and> wrote (idata i) q (take k buf) s s'
    \<and> k \<le> min sz (nat (ilength (idata i)) - q) \<and> (mem_ok s \<longrightarrow> k = min sz (nat (ilength (idata i)) - q))"
  using write_loop_correct [OF assms(1,3), of 0 sz q buf False] assms(2,4,5) by (simp add: inode_write_at_def)

end
