(* ===== verification/FsInv.thy ===== *)
theory FsInv
  imports FsData
begin

text \<open>
  The invariant of the file system. An inode lives in a sector and owns an extent of data sectors; the live inodes are
  the free map, the root directory, the files of the directory and the open inodes. Their sectors are disjoint and
  marked in the free map, the open inodes and their use counts agree with the open files, and the free map on disk is the one
  in memory. The abstraction of a file system is the map from the names in the root directory to the contents of the files.
\<close>

section \<open>Inodes on disk\<close>

definition D :: "fs \<Rightarrow> nat \<Rightarrow> inode_disk" where
  "D s k = bytes_inode (sectors (dev s) k)"

definition ext :: "inode_disk \<Rightarrow> nat set" where
  "ext d = {start d..<start d + sector_cnt d}"

definition region :: "fs \<Rightarrow> nat \<Rightarrow> nat set" where
  "region s k = insert k (ext (D s k))"

definition used :: "fs \<Rightarrow> nat \<Rightarrow> bool" where
  "used s x \<longleftrightarrow> x < bit_cnt (free_map s) \<and> bitmap_abs (free_map s) ! x"

definition regions_ok :: "nat set \<Rightarrow> fs \<Rightarrow> bool" where
  "regions_ok U s \<longleftrightarrow>
     (\<forall>k\<in>U. extent_ok (D s k) s \<and> k < bsize (dev s) \<and> k \<notin> ext (D s k) \<and> (\<forall>x\<in>region s k. used s x))
   \<and> (\<forall>k\<in>U. \<forall>k'\<in>U. k \<noteq> k' \<longrightarrow> region s k \<inter> region s k' = {})"

lemma regions_okD:
  assumes "regions_ok U s" "k \<in> U"
  shows "extent_ok (D s k) s" "k < bsize (dev s)" "k \<notin> ext (D s k)"
  using assms by (simp_all add: regions_ok_def)

lemma bytes_to_sectors_eq:
  assumes "0 \<le> n" "n + 511 < 2 ^ 31"
  shows "bytes_to_sectors n = (nat n + 511) div 512"
proof -
  have "signed_take_bit 31 (n + 511) = n + 511" using assms by (simp add: signed_take_bit_int_eq_self)
  moreover have "cdiv (n + 511) 512 = int ((nat n + 511) div 512)"
    using cdiv_nat [of "nat n + 511"] assms(1) by simp
  moreover have "(nat n + 511) div 512 < 2 ^ 32"
  proof -
    have "(nat n + 511) div 512 \<le> nat n + 511" by (rule div_le_dividend)
    also have "\<dots> < 4294967296" using assms by simp
    finally show ?thesis by simp
  qed
  ultimately show ?thesis by (simp add: bytes_to_sectors_def)
qed

lemma sector_cnt_eq: "extent_ok d s \<Longrightarrow> bytes_to_sectors (ilength d) = sector_cnt d"
  by (simp add: extent_ok_def sector_cnt_def bytes_to_sectors_eq)

text \<open>A change of the device inside one extent keeps every live inode and the contents of all others.\<close>

lemma D_cong: "sectors (dev s') k = sectors (dev s) k \<Longrightarrow> D s' k = D s k"
  by (simp add: D_def)

lemma contents_cong:
  assumes "\<And>i. i \<in> ext d \<Longrightarrow> sectors (dev s') i = sectors (dev s) i"
  shows "contents d s' = contents d s"
proof -
  have "start d + i div 512 \<in> ext d" if "i < nat (ilength d)" for i
    using that by (simp add: ext_def sector_cnt_def)
  then show ?thesis using assms by (simp add: contents_def)
qed

lemma region_kept:
  assumes "regions_ok U s" "k0 \<in> U" "k \<in> U" "\<And>i. i \<notin> ext (D s k0) \<Longrightarrow> sectors (dev s') i = sectors (dev s) i"
  shows "D s' k = D s k" and "region s' k = region s k" and "k \<noteq> k0 \<Longrightarrow> contents (D s k) s' = contents (D s k) s"
proof -
  have "k \<notin> ext (D s k0)"
    using assms(1-3) unfolding regions_ok_def region_def by (cases "k = k0") auto
  then show d: "D s' k = D s k" using assms(4) by (intro D_cong)
  then show "region s' k = region s k" by (simp add: region_def)
  assume "k \<noteq> k0"
  then have "ext (D s k) \<inter> ext (D s k0) = {}" using assms(1-3) unfolding regions_ok_def region_def by blast
  then show "contents (D s k) s' = contents (D s k) s" using assms(4) by (intro contents_cong) blast
qed

lemma regions_cong:
  assumes "regions_ok U s" "\<And>k. k \<in> U \<Longrightarrow> D s' k = D s k" "bsize (dev s') = bsize (dev s)"
    "\<And>k x. k \<in> U \<Longrightarrow> x \<in> region s k \<Longrightarrow> used s x \<Longrightarrow> used s' x"
  shows "regions_ok U s'"
proof -
  have r: "region s' k = region s k" if "k \<in> U" for k using assms(2) [OF that] by (simp add: region_def)
  show ?thesis using assms unfolding regions_ok_def extent_ok_def by (simp add: r)
qed

lemma regions_subset: "regions_ok U s \<Longrightarrow> V \<subseteq> U \<Longrightarrow> regions_ok V s"
  unfolding regions_ok_def by blast

section \<open>The root directory\<close>

definition nth_entry :: "byte list \<Rightarrow> nat \<Rightarrow> dir_entry" where
  "nth_entry bs j = bytes_entry (take 20 (drop (20 * j) bs))"

definition entry_list :: "byte list \<Rightarrow> dir_entry list" where
  "entry_list bs = map (nth_entry bs) [0..<length bs div 20]"

definition entries :: "fs \<Rightarrow> dir_entry list" where
  "entries s = entry_list (contents (D s ROOT_DIR_SECTOR) s)"

definition entry_name :: "dir_entry \<Rightarrow> byte list" where
  "entry_name e = takeWhile (\<lambda>c. c \<noteq> 0) (ename e)"

definition entries_ok :: "dir_entry list \<Rightarrow> bool" where
  "entries_ok es \<longleftrightarrow> (\<forall>e\<in>set es. in_use e \<longrightarrow> 0 \<in> set (ename e) \<and> entry_name e \<noteq> [] \<and> inode_sector e \<notin> {FREE_MAP_SECTOR, ROOT_DIR_SECTOR})
     \<and> distinct (map entry_name (filter in_use es)) \<and> distinct (map inode_sector (filter in_use es))"

definition root_ok :: "fs \<Rightarrow> bool" where
  "root_ok s \<longleftrightarrow> ilength (D s ROOT_DIR_SECTOR) mod 20 = 0 \<and> entries_ok (entries s)"

definition dir_sectors :: "fs \<Rightarrow> nat set" where
  "dir_sectors s = inode_sector ` {e \<in> set (entries s). in_use e}"

definition dir_map :: "dir_entry list \<Rightarrow> byte list \<Rightarrow> nat option" where
  "dir_map es nm = map_option inode_sector (List.find (\<lambda>e. in_use e \<and> entry_name e = nm) es)"

section \<open>Open inodes and files\<close>

text \<open>\<open>Z\<close> is the set of files that are being closed and no longer count.\<close>

definition openers :: "nat set \<Rightarrow> fs \<Rightarrow> nat \<Rightarrow> nat set" where
  "openers Z s p = {f. f \<notin> Z \<and> (\<exists>x. files s f = Some x \<and> finode x = p)}"

definition deniers :: "nat set \<Rightarrow> fs \<Rightarrow> nat \<Rightarrow> nat set" where
  "deniers Z s p = {f. f \<notin> Z \<and> (\<exists>x. files s f = Some x \<and> finode x = p \<and> deny_write x)}"

text \<open>\<open>ex\<close> counts the references to inodes that are not files: those the operation at work holds.\<close>

definition inode_ok :: "nat set \<Rightarrow> (nat \<Rightarrow> nat) \<Rightarrow> fs \<Rightarrow> nat \<Rightarrow> inode \<Rightarrow> bool" where
  "inode_ok Z ex s p i \<longleftrightarrow> p < nextp s \<and> idata i = D s (isector i) \<and> 1 \<le> open_cnt i
     \<and> open_cnt i = int (card (openers Z s p) + ex p) \<and> deny_write_cnt i = int (card (deniers Z s p))"

definition refs_ok :: "nat set \<Rightarrow> (nat \<Rightarrow> nat) \<Rightarrow> fs \<Rightarrow> bool" where
  "refs_ok Z ex s \<longleftrightarrow> distinct (open_inodes s) \<and> (\<forall>p. inodes s p \<noteq> None \<longleftrightarrow> p \<in> set (open_inodes s))
     \<and> (\<forall>p i. inodes s p = Some i \<longrightarrow> inode_ok Z ex s p i)
     \<and> (\<forall>p p' i i'. inodes s p = Some i \<longrightarrow> inodes s p' = Some i' \<longrightarrow> isector i = isector i' \<longrightarrow> p = p')
     \<and> (\<forall>f x. files s f = Some x \<longrightarrow> f < nextp s \<and> (f \<notin> Z \<longrightarrow> inodes s (finode x) \<noteq> None))
     \<and> (\<forall>p. inodes s p = None \<longrightarrow> ex p = 0) \<and> (\<forall>f\<in>Z. free_map_file s \<noteq> Some f)"

definition open_sectors :: "fs \<Rightarrow> nat set" where
  "open_sectors s = {k. \<exists>p i. inodes s p = Some i \<and> isector i = k}"

definition live :: "fs \<Rightarrow> nat set" where
  "live s = {FREE_MAP_SECTOR, ROOT_DIR_SECTOR} \<union> dir_sectors s \<union> open_sectors s"

text \<open>An open inode is marked removed exactly when it is no longer in the directory.\<close>

definition removed_ok :: "fs \<Rightarrow> bool" where
  "removed_ok s \<longleftrightarrow> (\<forall>p i. inodes s p = Some i \<longrightarrow> (removed i \<longleftrightarrow> isector i \<notin> {FREE_MAP_SECTOR, ROOT_DIR_SECTOR} \<union> dir_sectors s))"

text \<open>The bits of the free map on disk.\<close>

definition disk_map :: "byte list \<Rightarrow> nat \<Rightarrow> bool list" where
  "disk_map bs n = bitmap_abs \<lparr>bit_cnt = n, bits = bytes_words bs\<rparr>"

definition map_open :: "fs \<Rightarrow> bool" where
  "map_open s \<longleftrightarrow> bitmap_ok (free_map s) \<and> bit_cnt (free_map s) = bsize (dev s)
     \<and> extent_ok (D s FREE_MAP_SECTOR) s \<and> FREE_MAP_SECTOR \<notin> ext (D s FREE_MAP_SECTOR)
     \<and> ilength (D s FREE_MAP_SECTOR) = int (byte_cnt (bit_cnt (free_map s)))
     \<and> (\<exists>f x i. free_map_file s = Some f \<and> files s f = Some x \<and> inodes s (finode x) = Some i \<and> isector i = FREE_MAP_SECTOR
          \<and> deny_write_cnt i = 0 \<and> idata i = D s FREE_MAP_SECTOR)"

definition map_ok :: "fs \<Rightarrow> bool" where
  "map_ok s \<longleftrightarrow> map_open s \<and> disk_map (contents (D s FREE_MAP_SECTOR) s) (bsize (dev s)) = bitmap_abs (free_map s)"

definition inv :: "nat set \<Rightarrow> (nat \<Rightarrow> nat) \<Rightarrow> fs \<Rightarrow> bool" where
  "inv Z ex s \<longleftrightarrow> dev_ok s \<and> mem_ok s \<and> map_ok s \<and> regions_ok (live s) s \<and> root_ok s \<and> refs_ok Z ex s \<and> removed_ok s"

definition fs_abs :: "fs \<Rightarrow> byte list \<Rightarrow> byte list option" where
  "fs_abs s nm = map_option (\<lambda>k. contents (D s k) s) (dir_map (entries s) nm)"

lemma invD:
  assumes "inv Z ex s"
  shows "dev_ok s" "mem_ok s" "map_ok s" "regions_ok (live s) s" "root_ok s" "refs_ok Z ex s" "removed_ok s"
  using assms by (simp_all add: inv_def)

lemma live_simps [simp]: "FREE_MAP_SECTOR \<in> live s" "ROOT_DIR_SECTOR \<in> live s" "FREE_MAP_SECTOR \<noteq> ROOT_DIR_SECTOR"
  by (simp_all add: live_def FREE_MAP_SECTOR_def ROOT_DIR_SECTOR_def)

section \<open>Writing the free map\<close>

definition map_step :: "fs \<Rightarrow> fs \<Rightarrow> bool" where
  "map_step s s' \<longleftrightarrow> (\<forall>i. i \<notin> ext (D s FREE_MAP_SECTOR) \<longrightarrow> sectors (dev s') i = sectors (dev s) i)
     \<and> bsize (dev s') = bsize (dev s) \<and> nextp s' = nextp s \<and> inodes s' = inodes s \<and> open_inodes s' = open_inodes s \<and> files s' = files s
     \<and> free_map_file s' = free_map_file s \<and> dev_ok s' \<and> map_ok s' \<and> mem_ok s'"

lemma map_open_inode:
  assumes "map_open s"
  obtains f x i where "free_map_file s = Some f" "files s f = Some x" "inodes s (finode x) = Some i" "isector i = FREE_MAP_SECTOR"
    "deny_write_cnt i = 0" "idata i = D s FREE_MAP_SECTOR"
  using assms that unfolding map_open_def by blast

lemma map_okD: "map_ok s \<Longrightarrow> map_open s"
  by (simp add: map_ok_def)

lemmas free_map_inode = map_open_inode [OF map_okD]

lemma byte_cnt_le: "bitmap_ok b \<Longrightarrow> byte_cnt (bit_cnt b) \<le> length (words_bytes (bits b))"
  by (simp add: byte_cnt_def mul32_def bitmap_ok_def) (metis mod_less_eq_dividend mult_le_mono2 order_trans)

lemma byte_cnt_eq: "n + 32 \<le> u32_mod \<Longrightarrow> byte_cnt n = 4 * elem_cnt n"
  by (simp add: byte_cnt_def mul32_def elem_cnt_def DIV_ROUND_UP_def ELEM_BITS_def)

lemma bytes_words_take: "bytes_words (take (4 * m) (words_bytes ws)) = take m ws"
proof -
  have "take (4 * m) (words_bytes ws) = words_bytes (take m ws)"
  proof (induction ws arbitrary: m)
    case (Cons w ws)
    have w: "words_bytes (w # vs) = le32 w @ words_bytes vs" "length (le32 w) = 4" for vs by (simp_all add: words_bytes_def le32_def)
    then show ?case using Cons by (cases m) (simp_all add: w words_bytes_def [of "[]"])
  qed (simp add: words_bytes_def)
  then show ?thesis by simp
qed

lemma disk_map_written:
  assumes "bitmap_ok b"
  shows "disk_map (take (byte_cnt (bit_cnt b)) (words_bytes (bits b))) (bit_cnt b) = bitmap_abs b"
proof -
  have "i div 32 < elem_cnt (bit_cnt b)" if "i < bit_cnt b" for i using assms that by (simp add: bitmap_ok_def elem_cnt_def DIV_ROUND_UP_def ELEM_BITS_def)
  then show ?thesis using assms by (simp add: disk_map_def bitmap_abs_def byte_cnt_eq bitmap_ok_def bytes_words_take)
qed

lemma bitmap_write_step:
  assumes I: "dev_ok s" "mem_ok s" "map_open s" and b: "bitmap_ok b" "bit_cnt b = bit_cnt (free_map s)"
  shows "\<exists>f s'. free_map_file s = Some f \<and> bitmap_write b f (s\<lparr>free_map := b\<rparr>) = Inr (s', True) \<and> map_step s s' \<and> free_map s' = b"
proof -
  obtain f x n where f: "free_map_file s = Some f" "files s f = Some x" "inodes s (finode x) = Some n" "isector n = FREE_MAP_SECTOR"
    "deny_write_cnt n = 0" "idata n = D s FREE_MAP_SECTOR" by (rule map_open_inode [OF I(3)])
  let ?s = "s\<lparr>free_map := b\<rparr>" let ?d = "D s FREE_MAP_SECTOR" let ?sz = "byte_cnt (bit_cnt b)"
  have d: "ilength ?d = int ?sz" using I(3) b(2) by (simp add: map_open_def)
  have e: "extent_ok ?d s" "FREE_MAP_SECTOR \<notin> ext ?d" using I(3) by (simp_all add: map_open_def)
  have "dev_ok ?s" "mem_ok ?s" "extent_ok ?d ?s" "inodes ?s (finode x) = Some n"
    using I(1,2) e(1) f(3) by (simp_all add: dev_ok_def mem_ok_def extent_ok_def)
  then obtain s' k where w: "inode_write_at (finode x) (words_bytes (bits b)) (int ?sz) (int 0) ?s = Inr (s', k)"
    "wrote ?d 0 (take k (words_bytes (bits b))) ?s s'" "k = ?sz"
    using inode_write_at_correct [of ?s "finode x" n ?sz 0 "words_bytes (bits b)"] f(5,6) d byte_cnt_le [OF b(1)] by auto
  have same: "same_but_data ?s s'" and ds: "dev_ok s'" and c: "contents ?d s' = take ?sz (words_bytes (bits b))"
    using w(2) d byte_cnt_le [OF b(1)] unfolding wrote_def w(3) by (simp_all add: overwrite_def contents_def)
  have out: "sectors (dev s') j = sectors (dev s) j" if "j \<notin> ext ?d" for j
    using w(2) that by (auto simp: wrote_def ext_def not_le)
  have D': "D s' FREE_MAP_SECTOR = ?d" by (rule D_cong) (use out e(2) in blast)
  have "extent_ok ?d s'" using e(1) same by (simp add: extent_ok_def same_but_data_def)
  then have "map_ok s'"
    using I(3) same f b c d e disk_map_written [OF b(1)] unfolding map_ok_def map_open_def D' by (simp add: same_but_data_def)
  moreover have "mem_ok s'" by (rule mem_ok_same [OF same]) (use I(2) in \<open>simp add: mem_ok_def\<close>)
  ultimately have "map_step s s'" using out same ds by (auto simp: map_step_def same_but_data_def)
  moreover have "bitmap_write b f ?s = Inr (s', True)" using w f(2) by (simp add: bitmap_write_def file_write_at_def Let_def)
  ultimately show ?thesis using f(1) same by (simp add: same_but_data_def)
qed

text \<open>The views of the file system, unchanged by writing the free map.\<close>

definition same_view :: "fs \<Rightarrow> fs \<Rightarrow> bool" where
  "same_view s s' \<longleftrightarrow> (\<forall>k\<in>live s. D s' k = D s k) \<and> (\<forall>k\<in>live s. k \<noteq> FREE_MAP_SECTOR \<longrightarrow> contents (D s k) s' = contents (D s k) s)"

lemma same_view_entries: "same_view s s' \<Longrightarrow> entries s' = entries s"
  unfolding same_view_def entries_def using live_simps(2,3) by metis

lemma dir_map_SomeD: "dir_map es nm = Some k \<Longrightarrow> \<exists>e\<in>set es. in_use e \<and> entry_name e = nm \<and> inode_sector e = k"
  by (auto simp: dir_map_def find_Some_iff intro!: bexI nth_mem)

lemma same_view_abs:
  assumes "same_view s s'" "root_ok s"
  shows "fs_abs s' = fs_abs s"
proof
  fix nm
  show "fs_abs s' nm = fs_abs s nm"
  proof (cases "dir_map (entries s) nm")
    case (Some k)
    then obtain e where "e \<in> set (entries s)" "in_use e" "k = inode_sector e" using dir_map_SomeD by blast
    then have "k \<in> live s" "k \<noteq> FREE_MAP_SECTOR" using assms(2) by (auto simp: live_def dir_sectors_def root_ok_def entries_ok_def)
    then show ?thesis using assms(1) same_view_entries [OF assms(1)] Some by (simp add: fs_abs_def same_view_def)
  qed (simp add: fs_abs_def same_view_entries [OF assms(1)])
qed

lemma same_view_root_ok: "same_view s s' \<Longrightarrow> root_ok s \<Longrightarrow> root_ok s'"
  using same_view_entries [of s s'] unfolding root_ok_def same_view_def by simp

lemma same_view_dir_sectors: "same_view s s' \<Longrightarrow> dir_sectors s' = dir_sectors s"
  by (simp add: dir_sectors_def same_view_entries)

lemma refs_cong:
  assumes "refs_ok Z ex s" "inodes s' = inodes s" "open_inodes s' = open_inodes s" "files s' = files s" "nextp s' = nextp s" "free_map_file s' = free_map_file s"
    "\<And>k. k \<in> open_sectors s \<Longrightarrow> D s' k = D s k"
  shows "refs_ok Z ex s'"
proof -
  have o: "openers Z s' p = openers Z s p" "deniers Z s' p = deniers Z s p" for p using assms(4) by (simp_all add: openers_def deniers_def)
  have d: "D s' (isector i) = D s (isector i)" if "inodes s p = Some i" for p i
    by (rule assms(7)) (use that in \<open>auto simp: open_sectors_def\<close>)
  have "inode_ok Z ex s' p i = inode_ok Z ex s p i" if "inodes s p = Some i" for p i
    unfolding inode_ok_def o assms(5) d [OF that] ..
  then show ?thesis using assms(1) unfolding refs_ok_def assms(2-6) by blast
qed

lemma map_step_inv:
  assumes i: "inv Z ex s" and m: "map_step s s'" and u: "\<forall>k\<in>live s. \<forall>x\<in>region s k. used s' x"
  shows "inv Z ex s'" "same_view s s'" "live s' = live s"
proof -
  note I = invD [OF i]
  have M: "\<And>i. i \<notin> ext (D s FREE_MAP_SECTOR) \<Longrightarrow> sectors (dev s') i = sectors (dev s) i" "bsize (dev s') = bsize (dev s)" "nextp s' = nextp s"
    "inodes s' = inodes s" "open_inodes s' = open_inodes s" "files s' = files s" "dev_ok s'" "map_ok s'" "mem_ok s'" "free_map_file s' = free_map_file s"
    using m by (auto simp: map_step_def)
  note K = region_kept [OF I(4) live_simps(1) _ M(1)]
  show v: "same_view s s'" using K(1,3) by (simp add: same_view_def)
  show l: "live s' = live s" using same_view_dir_sectors [OF v] M(4) by (simp add: live_def open_sectors_def)
  have "regions_ok (live s) s'" by (rule regions_cong [OF I(4) K(1) M(2)]) (use u in auto)
  moreover have "refs_ok Z ex s'" by (rule refs_cong [OF I(6)]) (use M K(1) in \<open>auto simp: live_def\<close>)
  moreover have "removed_ok s'" using I(7) M(4) same_view_dir_sectors [OF v] by (simp add: removed_ok_def)
  ultimately show "inv Z ex s'" using M(7-9) same_view_root_ok [OF v I(5)] l by (simp add: inv_def)
qed

section \<open>Allocating and releasing sectors\<close>

lemma used_set_range:
  assumes "bitmap_abs (free_map s') = set_range (bitmap_abs (free_map s)) r n v" "bit_cnt (free_map s') = bit_cnt (free_map s)"
    "r + n \<le> bit_cnt (free_map s)"
  shows "used s' x \<longleftrightarrow> (if r \<le> x \<and> x < r + n then v else used s x)"
  using assms by (auto simp: used_def)

definition free_run :: "fs \<Rightarrow> nat \<Rightarrow> nat \<Rightarrow> bool" where
  "free_run s i n \<longleftrightarrow> i + n \<le> bsize (dev s) \<and> (\<forall>x. i \<le> x \<longrightarrow> x < i + n \<longrightarrow> \<not> used s x)"

lemma free_run_group:
  assumes "map_ok s"
  shows "free_run s i n \<longleftrightarrow> group_at (bitmap_abs (free_map s)) i n False"
proof -
  have l: "length (bitmap_abs (free_map s)) = bsize (dev s)" "bit_cnt (free_map s) = bsize (dev s)" using assms by (simp_all add: map_ok_def map_open_def)
  have "(\<forall>x. i \<le> x \<longrightarrow> x < i + n \<longrightarrow> \<not> bitmap_abs (free_map s) ! x) \<longleftrightarrow> (\<forall>y<n. \<not> bitmap_abs (free_map s) ! (i + y))"
    by (metis add_less_cancel_left le_add1 nat_le_iff_add)
  then show ?thesis unfolding free_run_def group_at_def used_def l by auto
qed

lemma free_map_allocate_cases:
  assumes I: "dev_ok s" "mem_ok s" "map_ok s"
  obtains (found) r s' where "free_map_allocate n s = Inr (s', Some r)" "map_step s s'" "free_run s r n"
      "\<And>x. used s' x \<longleftrightarrow> r \<le> x \<and> x < r + n \<or> used s x" "\<And>i. i < r \<Longrightarrow> \<not> free_run s i n"
  | (none) "free_map_allocate n s = Inr (s, None)" "\<And>i. \<not> free_run s i n"
proof -
  have b: "bitmap_ok (free_map s)" "bit_cnt (free_map s) = bsize (dev s)" using I(3) by (simp_all add: map_ok_def map_open_def)
  note G = free_run_group [OF I(3)]
  show thesis
  proof (rule scan_and_flip_cases [OF b(1) le0, of n False])
    fix r b' assume r: "bitmap_scan_and_flip (free_map s) 0 n False = Inr (b', r)" "r \<noteq> BITMAP_ERROR"
      "group_at (bitmap_abs (free_map s)) r n False" "bitmap_ok b'" "bit_cnt b' = bit_cnt (free_map s)"
      "bitmap_abs b' = set_range (bitmap_abs (free_map s)) r n (\<not> False)" "first_group (bitmap_abs (free_map s)) 0 n False r"
    obtain f s' where s': "free_map_file s = Some f" "bitmap_write b' f (s\<lparr>free_map := b'\<rparr>) = Inr (s', True)" "map_step s s'" "free_map s' = b'"
      using bitmap_write_step [OF I(1,2) map_okD [OF I(3)] r(4,5)] by blast
    have rn: "free_run s r n" using r(3) by (simp add: G)
    have "free_map_allocate n s = Inr (s', Some r)" using r(1,2) s' by (simp add: free_map_allocate_def Let_def)
    moreover have "used s' x \<longleftrightarrow> r \<le> x \<and> x < r + n \<or> used s x" for x
      using used_set_range [of s' s r n True x] r(5,6) s'(4) rn b(2) by (auto simp: free_run_def)
    moreover have "\<not> free_run s i n" if "i < r" for i using r(3,7) that unfolding first_group_def G by (metis le0)
    ultimately show thesis using found s'(3) rn by simp
  next
    assume "bitmap_scan_and_flip (free_map s) 0 n False = Inr (free_map s, BITMAP_ERROR)" "\<not> (\<exists>i\<ge>0. group_at (bitmap_abs (free_map s)) i n False)"
    then show thesis using none by (simp add: free_map_allocate_def G)
  qed
qed

lemma free_map_release_ok:
  assumes I: "dev_ok s" "mem_ok s" "map_ok s" and r: "\<And>x. r \<le> x \<Longrightarrow> x < r + n \<Longrightarrow> used s x" "r + n \<le> bsize (dev s)"
  shows "\<exists>s'. free_map_release r n s = Inr s' \<and> map_step s s' \<and> (\<forall>x. used s' x \<longleftrightarrow> used s x \<and> \<not> (r \<le> x \<and> x < r + n))"
proof -
  have b: "bitmap_ok (free_map s)" "bit_cnt (free_map s) = bsize (dev s)" using I(3) by (simp_all add: map_ok_def map_open_def)
  have g: "group_at (bitmap_abs (free_map s)) r n True" using r b(2) by (auto simp: group_at_def used_def)
  obtain b' where b': "bitmap_set_multiple (free_map s) r n False = Inr b'" "bitmap_ok b'" "bit_cnt b' = bit_cnt (free_map s)"
    "bitmap_abs b' = set_range (bitmap_abs (free_map s)) r n False"
    using bitmap_set_multiple_becomes [OF b(1), of r n False] r(2) b(2) by (auto simp: bitmap_becomes_def)
  obtain f s' where s': "free_map_file s = Some f" "bitmap_write b' f (s\<lparr>free_map := b'\<rparr>) = Inr (s', True)" "map_step s s'" "free_map s' = b'"
    using bitmap_write_step [OF I(1,2) map_okD [OF I(3)] b'(2,3)] by blast
  have "bitmap_all (free_map s) r n = Inr True" using bitmap_all_eq [OF b(1), of r n] r(2) b(2) g by simp
  then have "free_map_release r n s = Inr s'" using b'(1) s' by (simp add: free_map_release_def Let_def)
  moreover have "used s' x \<longleftrightarrow> used s x \<and> \<not> (r \<le> x \<and> x < r + n)" for x
    using used_set_range [of s' s r n False x] b'(3,4) s'(4) r(2) b(2) by auto
  ultimately show ?thesis using s'(3) by blast
qed

end
