(* ===== verification/FsOps.thy ===== *)
theory FsOps
  imports FsInv
begin

text \<open>
  The operations of the file system keep the invariant and act on the map from names to contents: opening and
  closing inodes and files, reading and writing, and the directory.
\<close>

section \<open>Changes outside the device\<close>

definition quiet :: "fs \<Rightarrow> fs \<Rightarrow> bool" where
  "quiet s s' \<longleftrightarrow> sectors (dev s') = sectors (dev s) \<and> bsize (dev s') = bsize (dev s) \<and> btype (dev s') = btype (dev s)
     \<and> free_map s' = free_map s \<and> free_map_file s' = free_map_file s"

lemma quiet_refl [simp]: "quiet s s"
  by (simp add: quiet_def)

lemma quiet_trans: "quiet s t \<Longrightarrow> quiet t u \<Longrightarrow> quiet s u"
  by (simp add: quiet_def)

lemma same_data_quiet: "same_data s s' \<Longrightarrow> quiet s s'"
  by (simp add: same_data_def same_but_data_def quiet_def)

lemma quiet_views:
  assumes "quiet s s'"
  shows "D s' = D s" "contents d s' = contents d s" "entries s' = entries s" "used s' = used s" "region s' = region s"
    "dev_ok s' = dev_ok s" "regions_ok U s' = regions_ok U s" "root_ok s' = root_ok s" "dir_sectors s' = dir_sectors s" "fs_abs s' = fs_abs s"
    "extent_ok d s' = extent_ok d s"
proof -
  have d: "D s' = D s" using assms by (simp add: quiet_def D_def fun_eq_iff)
  have c: "contents d s' = contents d s" for d using assms by (simp add: quiet_def contents_def)
  have e: "entries s' = entries s" by (simp add: entries_def d c)
  have u: "used s' = used s" using assms by (simp add: quiet_def used_def fun_eq_iff)
  have r: "region s' = region s" by (simp add: region_def fun_eq_iff d)
  show "D s' = D s" "contents d s' = contents d s" "entries s' = entries s" "used s' = used s" "region s' = region s"
    by (simp_all add: d c e u r)
  show x: "extent_ok d s' = extent_ok d s" for d using assms by (simp add: quiet_def extent_ok_def)
  show "dev_ok s' = dev_ok s" using assms by (simp add: quiet_def dev_ok_def)
  have b: "bsize (dev s') = bsize (dev s)" using assms by (simp add: quiet_def)
  show "regions_ok U s' = regions_ok U s" by (simp add: regions_ok_def d u r x b)
  show "root_ok s' = root_ok s" by (simp add: root_ok_def d e)
  show "dir_sectors s' = dir_sectors s" by (simp add: dir_sectors_def e)
  show "fs_abs s' = fs_abs s" by (simp add: fs_abs_def fun_eq_iff e d c)
qed

text \<open>The invariant after a quiet change, from its parts about open inodes and files.\<close>

lemma quiet_inv:
  assumes q: "quiet s s'" and i: "inv Z ex s" and m: "mem_ok s'"
    and f: "\<exists>f x i. free_map_file s' = Some f \<and> files s' f = Some x \<and> inodes s' (finode x) = Some i \<and> isector i = FREE_MAP_SECTOR
          \<and> deny_write_cnt i = 0 \<and> idata i = D s' FREE_MAP_SECTOR"
    and o: "open_sectors s' \<subseteq> live s" and r: "refs_ok Z' ex' s'" and rm: "removed_ok s'"
  shows "inv Z' ex' s'"
proof -
  note I = invD [OF i] and Q = quiet_views [OF q]
  have l: "live s' \<subseteq> live s" using o by (auto simp: live_def Q)
  have "map_ok s'" using I(3) f q unfolding map_ok_def map_open_def by (simp add: Q quiet_def)
  moreover have "regions_ok (live s') s'" using regions_subset [OF I(4) l] by (simp add: Q)
  ultimately show ?thesis using I(1,5) m r rm by (simp add: inv_def Q)
qed

lemma refs_okD:
  assumes "refs_ok Z ex s"
  shows "distinct (open_inodes s)" "\<And>p. inodes s p \<noteq> None \<longleftrightarrow> p \<in> set (open_inodes s)"
    "\<And>p i. inodes s p = Some i \<Longrightarrow> inode_ok Z ex s p i"
    "\<And>p p' i i'. inodes s p = Some i \<Longrightarrow> inodes s p' = Some i' \<Longrightarrow> isector i = isector i' \<Longrightarrow> p = p'"
    "\<And>f x. files s f = Some x \<Longrightarrow> f < nextp s" "\<And>f x. files s f = Some x \<Longrightarrow> f \<notin> Z \<Longrightarrow> inodes s (finode x) \<noteq> None"
    "\<And>p. inodes s p = None \<Longrightarrow> ex p = 0" "\<And>f. f \<in> Z \<Longrightarrow> free_map_file s \<noteq> Some f"
  using assms unfolding refs_ok_def by auto

lemma finite_openers:
  assumes "refs_ok Z ex s"
  shows "finite (openers Z' s p)" "finite (deniers Z' s p)"
  by (rule finite_subset [of _ "{..<nextp s}"]; use refs_okD(5) [OF assms] in \<open>auto simp: openers_def deniers_def\<close>)+

section \<open>Opening an inode\<close>

lemma upd_inode_fields [simp]:
  "dev (upd_inode p g s) = dev s" "mem (upd_inode p g s) = mem s" "nextp (upd_inode p g s) = nextp s" "open_inodes (upd_inode p g s) = open_inodes s"
  "files (upd_inode p g s) = files s" "free_map (upd_inode p g s) = free_map s" "free_map_file (upd_inode p g s) = free_map_file s"
  "inodes (upd_inode p g s) q = (if q = p then map_option g (inodes s p) else inodes s q)"
  by (simp_all add: upd_inode_def)

lemma open_sectors_iff: "open_sectors s = {k. \<exists>q. map_option isector (inodes s q) = Some k}"
  by (auto simp: open_sectors_def)

text \<open>Changing only the counters of an open inode.\<close>

lemma upd_inode_inv:
  assumes i: "inv Z ex s" and p: "inodes s p = Some n" and g: "isector (g n) = isector n" "idata (g n) = idata n" "removed (g n) = removed n"
    and ok: "inode_ok Z ex' s p (g n)" and ex: "\<And>q. q \<noteq> p \<Longrightarrow> ex' q = ex q"
  shows "inv Z ex' (upd_inode p g s)" (is "inv Z ex' ?s")
proof -
  note I = invD [OF i] and R = refs_okD [OF invD(6) [OF i]]
  have q: "quiet s ?s" by (simp add: quiet_def)
  note Q = quiet_views [OF q]
  have os: "open_sectors ?s = open_sectors s"
    unfolding open_sectors_iff using p g(1) by (intro Collect_cong ex_cong1) simp
  have op: "openers Z ?s r = openers Z s r" "deniers Z ?s r = deniers Z s r" for r by (simp_all add: openers_def deniers_def)
  have ik: "inode_ok Z ex' ?s r m = inode_ok Z ex' s r m" for r m by (simp add: inode_ok_def op Q)
  have ie: "inode_ok Z ex' s r m = inode_ok Z ex s r m" if "r \<noteq> p" for r m using ex [OF that] by (simp add: inode_ok_def)
  obtain f x m where f: "free_map_file s = Some f" "files s f = Some x" "inodes s (finode x) = Some m" "isector m = FREE_MAP_SECTOR"
    "deny_write_cnt m = 0" "idata m = D s FREE_MAP_SECTOR" by (rule free_map_inode [OF I(3)])
  have dn: "deny_write_cnt (g n) = deny_write_cnt n" if "finode x = p" using ok R(3) [OF p] by (simp add: inode_ok_def)
  have fm: "\<exists>f x i. free_map_file ?s = Some f \<and> files ?s f = Some x \<and> inodes ?s (finode x) = Some i \<and> isector i = FREE_MAP_SECTOR
      \<and> deny_write_cnt i = 0 \<and> idata i = D ?s FREE_MAP_SECTOR"
    using f dn g p by (intro exI [of _ f] exI [of _ x] exI [of _ "if finode x = p then g m else m"]) (auto simp: Q)
  have "refs_ok Z ex' ?s"
    unfolding refs_ok_def ik using R p g(1) ok ie ex by (auto split: if_splits)
  moreover have "removed_ok ?s" using I(7) p g unfolding removed_ok_def Q by (auto split: if_splits)
  ultimately show ?thesis by (intro quiet_inv [OF q i _ fm]) (use I(2) os in \<open>auto simp: mem_ok_def live_def\<close>)
qed

definition bump :: "nat \<Rightarrow> (nat \<Rightarrow> nat) \<Rightarrow> nat \<Rightarrow> nat" where
  "bump p ex = ex(p := ex p + 1)"

lemma bump_simps [simp]: "bump p ex p = ex p + 1" "q \<noteq> p \<Longrightarrow> bump p ex q = ex q" "0 < bump p ex p"
  by (simp_all add: bump_def)

lemma inode_reopen_ok:
  assumes i: "inv Z ex s" and p: "inodes s p = Some n"
  shows "\<exists>s'. inode_reopen (Some p) s = Inr (s', Some p) \<and> inv Z (bump p ex) s' \<and> quiet s s' \<and> files s' = files s \<and> nextp s' = nextp s
    \<and> inodes s' p = Some (n\<lparr>open_cnt := open_cnt n + 1\<rparr>) \<and> (\<forall>q. q \<noteq> p \<longrightarrow> inodes s' q = inodes s q)"
proof -
  let ?g = "\<lambda>i. i\<lparr>open_cnt := open_cnt i + 1\<rparr>"
  have "inode_ok Z (bump p ex) s p (?g n)" using refs_okD(3) [OF invD(6) [OF i] p] by (simp add: inode_ok_def)
  then have "inv Z (bump p ex) (upd_inode p ?g s)" by (intro upd_inode_inv [OF i p]) simp_all
  moreover have "quiet s (upd_inode p ?g s)" by (simp add: quiet_def)
  ultimately show ?thesis using p by (simp add: inode_reopen_def)
qed

lemma fresh_inode:
  assumes "refs_ok Z ex s"
  shows "inodes s (nextp s) = None" "ex (nextp s) = 0" "nextp s \<notin> set (open_inodes s)"
proof -
  show n: "inodes s (nextp s) = None"
    using refs_okD(3) [OF assms, of "nextp s"] by (cases "inodes s (nextp s)") (auto simp: inode_ok_def)
  then show "ex (nextp s) = 0" "nextp s \<notin> set (open_inodes s)" using refs_okD(2,7) [OF assms, of "nextp s"] by auto
qed

lemma no_openers:
  assumes "refs_ok Z ex s" "inodes s p = None"
  shows "openers Z s p = {}" "deniers Z s p = {}"
  using refs_okD(6) [OF assms(1)] assms(2) unfolding openers_def deniers_def by blast+

lemma new_inode_inv:
  assumes i: "inv Z ex s" and k: "k \<in> {FREE_MAP_SECTOR, ROOT_DIR_SECTOR} \<union> dir_sectors s"
    and new: "\<And>p i. inodes s p = Some i \<Longrightarrow> isector i \<noteq> k"
    and q: "quiet s s'" "mem_ok s'" and p: "p = nextp s" "nextp s' = p + 1" "open_inodes s' = p # open_inodes s" "files s' = files s"
    and n: "inodes s' = (inodes s)(p \<mapsto> n)" "n = \<lparr>isector = k, open_cnt = 1, removed = False, deny_write_cnt = 0, idata = D s k\<rparr>"
  shows "inv Z (bump p ex) s'"
proof -
  note I = invD [OF i] and R = refs_okD [OF invD(6) [OF i]] and Q = quiet_views [OF q(1)] and F = fresh_inode [OF invD(6) [OF i], folded p(1)]
  obtain f x m where f: "free_map_file s = Some f" "files s f = Some x" "inodes s (finode x) = Some m" "isector m = FREE_MAP_SECTOR"
    "deny_write_cnt m = 0" "idata m = D s FREE_MAP_SECTOR" by (rule free_map_inode [OF I(3)])
  have "finode x \<noteq> p" using f(3) F(1) by auto
  then have fm: "\<exists>f x i. free_map_file s' = Some f \<and> files s' f = Some x \<and> inodes s' (finode x) = Some i \<and> isector i = FREE_MAP_SECTOR
      \<and> deny_write_cnt i = 0 \<and> idata i = D s' FREE_MAP_SECTOR"
    using f q(1) by (intro exI [of _ f] exI [of _ x] exI [of _ m]) (simp add: Q p(4) n(1) quiet_def)
  have op: "openers Z s' r = openers Z s r" "deniers Z s' r = deniers Z s r" for r by (simp_all add: openers_def deniers_def p(4))
  have "openers Z s p = {}" "deniers Z s p = {}" using no_openers [OF I(6) F(1)] by simp_all
  then have nk: "inode_ok Z (bump p ex) s' p n" using F(2) by (simp add: inode_ok_def op Q n(2) p(2))
  have ok: "inode_ok Z (bump p ex) s' r m" if "inodes s r = Some m" for r m
  proof -
    have "r \<noteq> p" using that F(1) by auto
    then show ?thesis using R(3) [OF that] p(1,2) by (simp add: inode_ok_def op Q)
  qed
  have "refs_ok Z (bump p ex) s'"
    unfolding refs_ok_def n(1) p(2-4)
  proof (intro conjI allI impI)
    show "distinct (p # open_inodes s)" using R(1) F(3) by simp
    show "((inodes s)(p \<mapsto> n)) r \<noteq> None \<longleftrightarrow> r \<in> set (p # open_inodes s)" for r using R(2) [of r] by simp
    show "((inodes s)(p \<mapsto> n)) r = Some m \<Longrightarrow> inode_ok Z (bump p ex) s' r m" for r m using nk ok by (auto split: if_splits)
    show "((inodes s)(p \<mapsto> n)) r = Some m \<Longrightarrow> ((inodes s)(p \<mapsto> n)) r' = Some m' \<Longrightarrow> isector m = isector m' \<Longrightarrow> r = r'" for r r' m m'
      using R(4) [of r m r' m'] new [of r m] new [of r' m'] n(2) by (auto split: if_splits)
    show "files s g = Some y \<Longrightarrow> g < p + 1" for g y using R(5) [of g y] p(1) by simp
    show "files s g = Some y \<Longrightarrow> g \<notin> Z \<Longrightarrow> ((inodes s)(p \<mapsto> n)) (finode y) \<noteq> None" for g y using R(6) [of g y] by simp
    show "((inodes s)(p \<mapsto> n)) r = None \<Longrightarrow> bump p ex r = 0" for r using R(7) [of r] by (simp split: if_splits)
    show "\<forall>f\<in>Z. free_map_file s' \<noteq> Some f" using R(8) q(1) by (simp add: quiet_def)
  qed
  moreover have "removed_ok s'" using I(7) k unfolding removed_ok_def Q n(1) by (auto simp: n(2) split: if_splits)
  moreover have "open_sectors s' \<subseteq> live s"
    using k by (auto simp: open_sectors_def n(1) n(2) live_def split: if_splits)
  ultimately show ?thesis by (intro quiet_inv [OF q(1) i q(2) fm])
qed

text \<open>No open inode changes its sector.\<close>

definition secs_kept :: "fs \<Rightarrow> fs \<Rightarrow> bool" where
  "secs_kept s s' \<longleftrightarrow> (\<forall>q m m'. inodes s q = Some m \<longrightarrow> inodes s' q = Some m' \<longrightarrow> isector m' = isector m)"

lemma secs_keptI: "(\<And>q. q \<noteq> p \<Longrightarrow> inodes s' q = inodes s q) \<Longrightarrow> (\<And>m m'. inodes s p = Some m \<Longrightarrow> inodes s' p = Some m' \<Longrightarrow> isector m' = isector m) \<Longrightarrow> secs_kept s s'"
  unfolding secs_kept_def by (metis option.inject)

lemma secs_kept_same: "inodes s' = inodes s \<Longrightarrow> secs_kept s s'"
  by (simp add: secs_kept_def)

lemma inode_open_ok:
  assumes i: "inv Z ex s" and k: "k \<in> {FREE_MAP_SECTOR, ROOT_DIR_SECTOR} \<union> dir_sectors s"
  shows "\<exists>s' p n. inode_open k s = Inr (s', Some p) \<and> inv Z (bump p ex) s' \<and> quiet s s' \<and> files s' = files s \<and> nextp s \<le> nextp s'
    \<and> inodes s' p = Some n \<and> isector n = k \<and> (\<forall>q. q \<noteq> p \<longrightarrow> inodes s' q = inodes s q) \<and> secs_kept s s'"
proof (cases "List.find (\<lambda>p. case inodes s p of None \<Rightarrow> False | Some i \<Rightarrow> isector i = k) (open_inodes s)")
  case (Some p)
  then obtain n where n: "inodes s p = Some n" "isector n = k" by (auto simp: find_Some_iff split: option.splits)
  obtain s' where s': "inode_reopen (Some p) s = Inr (s', Some p)" "inv Z (bump p ex) s'" "quiet s s'" "files s' = files s" "nextp s' = nextp s"
    "inodes s' p = Some (n\<lparr>open_cnt := open_cnt n + 1\<rparr>)" "\<forall>q. q \<noteq> p \<longrightarrow> inodes s' q = inodes s q"
    using inode_reopen_ok [OF i n(1)] by blast
  then have "secs_kept s s'" using n(1) by (intro secs_keptI [of p]) auto
  then show ?thesis using s' Some n(2) by (simp add: inode_open_def)
next
  case None
  note I = invD [OF i] and R = refs_okD [OF invD(6) [OF i]]
  have new: "isector m \<noteq> k" if "inodes s r = Some m" for r m
  proof -
    have "r \<in> set (open_inodes s)" using R(2) [of r] that by simp
    then show ?thesis using None that by (auto simp: find_None_iff)
  qed
  have kb: "k < bsize (dev s)" using I(4) k by (auto simp: regions_ok_def live_def)
  obtain t ok where t: "malloc s = (t, ok)" by fastforce
  then have td: "same_data s t" "ok" using malloc_same [OF t] I(2) by auto
  let ?p = "nextp s" let ?u = "t\<lparr>nextp := ?p + 1, open_inodes := ?p # open_inodes s\<rparr>"
  have tf: "nextp t = nextp s" "inodes t = inodes s" "open_inodes t = open_inodes s" "files t = files s" "bsize (dev t) = bsize (dev s)"
    "sectors (dev t) = sectors (dev s)" using td(1) by (simp_all add: same_data_def same_but_data_def)
  obtain v where v: "dev_read k ?u = Inr (v, sectors (dev s) k)" "same_data ?u v"
    using dev_read_in [of k ?u] kb tf by auto
  have vf: "nextp v = ?p + 1" "inodes v = inodes s" "open_inodes v = ?p # open_inodes s" "files v = files s"
    using v(2) tf by (simp_all add: same_data_def same_but_data_def)
  let ?n = "\<lparr>isector = k, open_cnt = 1, removed = False, deny_write_cnt = 0, idata = D s k\<rparr>"
  let ?s' = "v\<lparr>inodes := (inodes v)(?p \<mapsto> ?n)\<rparr>"
  have "quiet s t" "quiet ?u v" using same_data_quiet td(1) v(2) by blast+
  then have q: "quiet s ?s'" by (simp add: quiet_def)
  have "mem_ok t" using mem_ok_same [of s t] I(2) td(1) by (simp add: same_data_def)
  then have "mem_ok v" using mem_ok_same [of ?u v] v(2) by (simp add: same_data_def mem_ok_def)
  then have m: "mem_ok ?s'" by (simp add: mem_ok_def)
  have "inv Z (bump ?p ex) ?s'" by (rule new_inode_inv [OF i k new q m, where p = ?p and n = ?n]) (simp_all add: vf)
  moreover have "inode_open k s = Inr (?s', Some ?p)"
    using None t td(2) v(1) tf by (simp add: inode_open_def Let_def D_def vf)
  moreover have "secs_kept s ?s'" by (rule secs_keptI [of ?p]) (use fresh_inode(1) [OF I(6)] vf in auto)
  ultimately show ?thesis using q vf by (intro exI [of _ ?s'] exI [of _ ?p] exI [of _ ?n]) simp
qed

section \<open>Closing an inode\<close>

text \<open>What the other inodes and the directory keep when an inode is closed.\<close>

definition kept :: "fs \<Rightarrow> fs \<Rightarrow> bool" where
  "kept s s' \<longleftrightarrow> live s' \<subseteq> live s \<and> entries s' = entries s \<and> fs_abs s' = fs_abs s \<and> free_map_file s' = free_map_file s
     \<and> (\<forall>k\<in>live s'. D s' k = D s k \<and> (k \<noteq> FREE_MAP_SECTOR \<longrightarrow> contents (D s k) s' = contents (D s k) s))"

lemma kept_trans: "kept s t \<Longrightarrow> kept t u \<Longrightarrow> kept s u"
  unfolding kept_def by (metis subsetD subset_trans)

lemma quiet_kept:
  assumes "quiet s s'" "open_sectors s' \<subseteq> live s"
  shows "kept s s'"
proof -
  note Q = quiet_views [OF assms(1)]
  have "free_map_file s' = free_map_file s" using assms(1) by (simp add: quiet_def)
  moreover have "live s' \<subseteq> live s" using assms(2) by (auto simp: live_def Q)
  ultimately show ?thesis by (simp add: kept_def Q)
qed

lemma map_step_kept:
  assumes i: "inv Z ex s" and m: "map_step s s'" and u: "\<forall>k\<in>live s. \<forall>x\<in>region s k. used s' x"
  shows "kept s s'"
  using map_step_inv(2,3) [OF i m u] same_view_abs [of s s'] same_view_entries [of s s'] invD(5) [OF i] m
  by (simp add: kept_def same_view_def map_step_def)

definition drop_ref :: "nat \<Rightarrow> (nat \<Rightarrow> nat) \<Rightarrow> nat \<Rightarrow> nat" where
  "drop_ref p ex = ex(p := ex p - 1)"

lemma drop_ref_simps [simp]: "drop_ref p ex p = ex p - 1" "q \<noteq> p \<Longrightarrow> drop_ref p ex q = ex q" "drop_ref p (bump p ex) = ex"
  by (simp_all add: drop_ref_def bump_def)

text \<open>The inode leaves the list and the memory.\<close>

lemma forget_inv:
  assumes i: "inv Z ex s" and p: "inodes s p = Some n" and one: "ex p = 1" "openers Z s p = {}"
  shows "inv Z (drop_ref p ex) (s\<lparr>open_inodes := remove1 p (open_inodes s), inodes := (inodes s)(p := None)\<rparr>)" (is "inv Z ?ex ?s")
proof -
  note I = invD [OF i] and R = refs_okD [OF invD(6) [OF i]]
  have q: "quiet s ?s" by (simp add: quiet_def)
  note Q = quiet_views [OF q]
  obtain f x m where f: "free_map_file s = Some f" "files s f = Some x" "inodes s (finode x) = Some m" "isector m = FREE_MAP_SECTOR"
    "deny_write_cnt m = 0" "idata m = D s FREE_MAP_SECTOR" by (rule free_map_inode [OF I(3)])
  have "f \<notin> Z" using R(8) f(1) by auto
  then have "finode x \<noteq> p" using one(2) f(2) by (auto simp: openers_def)
  then have fm: "\<exists>f x i. free_map_file ?s = Some f \<and> files ?s f = Some x \<and> inodes ?s (finode x) = Some i \<and> isector i = FREE_MAP_SECTOR
      \<and> deny_write_cnt i = 0 \<and> idata i = D ?s FREE_MAP_SECTOR"
    using f by (intro exI [of _ f] exI [of _ x] exI [of _ m]) (simp add: Q)
  have op: "openers Z ?s r = openers Z s r" "deniers Z ?s r = deniers Z s r" for r by (simp_all add: openers_def deniers_def)
  have ok: "inode_ok Z ?ex ?s r m = inode_ok Z ex s r m" if "r \<noteq> p" for r m using that by (simp add: inode_ok_def op Q)
  have nf: "finode y \<noteq> p" if "files s g = Some y" "g \<notin> Z" for g y using one(2) that by (auto simp: openers_def)
  have "refs_ok Z ?ex ?s"
    unfolding refs_ok_def using R(1) R(2) R(3) R(4) R(5) R(6) R(7) R(8) ok nf one(1)
    by (auto simp: distinct_remove1 split: if_splits)
  moreover have "removed_ok ?s" using I(7) unfolding removed_ok_def Q by auto
  moreover have "open_sectors ?s \<subseteq> live s" by (auto simp: open_sectors_def live_def)
  ultimately show ?thesis by (intro quiet_inv [OF q i _ fm]) (use I(2) in \<open>simp_all add: mem_ok_def\<close>)
qed

lemma map_ok_other:
  assumes "map_ok s" "quiet s s'" "files s' = files s"
    and "\<And>f x i. free_map_file s = Some f \<Longrightarrow> files s f = Some x \<Longrightarrow> inodes s' (finode x) = inodes s (finode x)"
  shows "map_ok s'"
proof -
  note Q = quiet_views [OF assms(2)]
  have "free_map s' = free_map s" "free_map_file s' = free_map_file s" "bsize (dev s') = bsize (dev s)" using assms(2) by (simp_all add: quiet_def)
  then show ?thesis using assms(1,3,4) unfolding map_ok_def map_open_def by (auto simp: Q)
qed

lemma map_step_trans:
  assumes "map_step s t" "map_step t u" "map_ok s"
  shows "map_step s u"
proof -
  have "D t FREE_MAP_SECTOR = D s FREE_MAP_SECTOR"
    using assms(1,3) by (intro D_cong) (simp add: map_step_def map_ok_def map_open_def)
  then show ?thesis using assms(1,2) by (simp add: map_step_def)
qed

text \<open>The sector and the extent of a removed inode are given back.\<close>

lemma release_both:
  assumes I: "dev_ok s" "mem_ok s" "map_ok s" and d: "extent_ok d s" "k < bsize (dev s)" "k \<notin> ext d"
    and u: "used s k" "\<forall>x\<in>ext d. used s x"
  shows "\<exists>s'. bind_r (free_map_release k 1 s) (free_map_release (start d) (bytes_to_sectors (ilength d))) = Inr s' \<and> map_step s s'
    \<and> (\<forall>x. used s' x \<longleftrightarrow> used s x \<and> x \<noteq> k \<and> x \<notin> ext d)"
proof -
  have n: "bytes_to_sectors (ilength d) = sector_cnt d" by (rule sector_cnt_eq [OF d(1)])
  obtain t where t: "free_map_release k 1 s = Inr t" "map_step s t" "\<forall>x. used t x \<longleftrightarrow> used s x \<and> \<not> (k \<le> x \<and> x < k + 1)"
    using free_map_release_ok [OF I, of k 1] u(1) d(2) by (metis Suc_eq_plus1 Suc_leI le_antisym less_Suc_eq_le)
  have T: "dev_ok t" "mem_ok t" "map_ok t" "bsize (dev t) = bsize (dev s)" using t(2) by (simp_all add: map_step_def)
  have "used t x" if "start d \<le> x" "x < start d + sector_cnt d" for x
    using that u(2) d(3) t(3) by (auto simp: ext_def)
  moreover have "start d + sector_cnt d \<le> bsize (dev t)" using d(1) T(4) by (simp add: extent_ok_def)
  ultimately obtain s' where s': "free_map_release (start d) (sector_cnt d) t = Inr s'" "map_step t s'"
    "\<forall>x. used s' x \<longleftrightarrow> used t x \<and> \<not> (start d \<le> x \<and> x < start d + sector_cnt d)"
    using free_map_release_ok [OF T(1-3), of "start d" "sector_cnt d"] by blast
  have "used s' x \<longleftrightarrow> used s x \<and> x \<noteq> k \<and> x \<notin> ext d" for x
    using spec [OF s'(3), of x] spec [OF t(3), of x] by (auto simp: ext_def)
  then show ?thesis using t(1) s'(1) map_step_trans [OF t(2) s'(2) I(3)] by (simp add: n)
qed

lemma inode_close_ok:
  assumes i: "inv Z ex s" and p: "inodes s p = Some n" and ex: "0 < ex p"
  shows "\<exists>s'. inode_close (Some p) s = Inr s' \<and> inv Z (drop_ref p ex) s' \<and> kept s s' \<and> files s' = files s \<and> nextp s' = nextp s
    \<and> (\<forall>q. q \<noteq> p \<longrightarrow> inodes s' q = inodes s q) \<and> (open_cnt n \<noteq> 1 \<longrightarrow> inodes s' p = Some (n\<lparr>open_cnt := open_cnt n - 1\<rparr>)) \<and> secs_kept s s'"
proof (cases "open_cnt n = 1")
  case False
  let ?g = "\<lambda>i. i\<lparr>open_cnt := open_cnt i - 1\<rparr>"
  have "inode_ok Z (drop_ref p ex) s p (?g n)" using refs_okD(3) [OF invD(6) [OF i] p] ex False by (simp add: inode_ok_def)
  then have "inv Z (drop_ref p ex) (upd_inode p ?g s)" by (intro upd_inode_inv [OF i p]) simp_all
  moreover have q: "quiet s (upd_inode p ?g s)" by (simp add: quiet_def)
  moreover have "kept s (upd_inode p ?g s)" by (rule quiet_kept [OF q]) (use p in \<open>auto simp: open_sectors_def live_def split: if_splits\<close>)
  moreover have "secs_kept s (upd_inode p ?g s)" by (rule secs_keptI [of p]) (use p in auto)
  ultimately show ?thesis using p False by (simp add: inode_close_def Let_def)
next
  case True
  note I = invD [OF i] and R = refs_okD [OF invD(6) [OF i]]
  have nk: "inode_ok Z ex s p n" by (rule R(3) [OF p])
  then have "card (openers Z s p) + ex p = 1" using True by (simp add: inode_ok_def)
  then have "ex p = 1" "card (openers Z s p) = 0" using ex by auto
  then have one: "ex p = 1" "openers Z s p = {}" using finite_openers(1) [OF I(6), of Z p] by simp_all
  let ?t = "s\<lparr>open_inodes := remove1 p (open_inodes s), inodes := (inodes s)(p := None)\<rparr>"
  let ?u = "(upd_inode p (\<lambda>i. i\<lparr>open_cnt := open_cnt i - 1\<rparr>) s)\<lparr>open_inodes := remove1 p (open_inodes s)\<rparr>"
  have it: "inv Z (drop_ref p ex) ?t" by (rule forget_inv [OF i p one])
  have qt: "quiet s ?t" "quiet s ?u" by (simp_all add: quiet_def)
  have kt: "kept s ?t" by (rule quiet_kept [OF qt(1)]) (auto simp: open_sectors_def live_def)
  have sk: "secs_kept s u" if "inodes u = inodes ?t" for u by (rule secs_keptI [of p]) (simp_all add: that)
  show ?thesis
  proof (cases "removed n")
    case False
    have "inode_close (Some p) s = Inr ?t" using p True False by (simp add: inode_close_def Let_def upd_inode_def)
    then show ?thesis using it kt True sk [of ?t] by simp
  next
    case rem: True
    let ?k = "isector n"
    have kd: "idata n = D s ?k" using nk by (simp add: inode_ok_def)
    have kl: "?k \<in> live s" "?k \<notin> live ?t"
    proof -
      show "?k \<in> live s" using p by (auto simp: live_def open_sectors_def)
      have "?k \<notin> {FREE_MAP_SECTOR, ROOT_DIR_SECTOR} \<union> dir_sectors s" using I(7) p rem by (auto simp: removed_ok_def)
      moreover have "?k \<notin> open_sectors ?t" using R(4) [OF p] by (auto simp: open_sectors_def split: if_splits)
      ultimately show "?k \<notin> live ?t" by (auto simp: live_def quiet_views [OF qt(1)])
    qed
    have U: "dev_ok ?u" "mem_ok ?u" "map_ok ?u"
    proof -
      show "dev_ok ?u" "mem_ok ?u" using I(1,2) by (simp_all add: dev_ok_def mem_ok_def)
      have "finode x \<noteq> p" if "free_map_file s = Some f" "files s f = Some x" for f x
        using one(2) R(8) that by (auto simp: openers_def)
      then show "map_ok ?u" by (intro map_ok_other [OF I(3) qt(2)]) auto
    qed
    note Qu = quiet_views [OF qt(2)] and Qt = quiet_views [OF qt(1)]
    have G: "extent_ok (D s ?k) s" "?k < bsize (dev s)" "?k \<notin> ext (D s ?k)" "\<forall>x\<in>region s ?k. used s x"
      using I(4) kl(1) by (auto simp: regions_ok_def)
    obtain v where v: "bind_r (free_map_release ?k 1 ?u) (free_map_release (start (idata n)) (bytes_to_sectors (ilength (idata n)))) = Inr v"
      "map_step ?u v" "\<forall>x. used v x \<longleftrightarrow> used s x \<and> x \<notin> region s ?k"
      using release_both [OF U, of "D s ?k" ?k] G by (auto simp: Qu kd region_def)
    let ?s' = "v\<lparr>inodes := (inodes v)(p := None)\<rparr>"
    have qv: "quiet v ?s'" by (simp add: quiet_def)
    note Qv = quiet_views [OF qv]
    have vi: "inodes v = inodes ?u" "files v = files s" "free_map_file v = free_map_file s" using v(2) by (simp_all add: map_step_def)
    have mo: "map_ok ?s'"
    proof (rule map_ok_other [OF _ qv])
      show "map_ok v" using v(2) by (simp add: map_step_def)
      show "inodes ?s' (finode x) = inodes v (finode x)" if "free_map_file v = Some f" "files v f = Some x" for f x
        using one(2) R(8) that vi by (auto simp: openers_def)
    qed simp
    have ii: "inodes ?s' = inodes ?t" by (rule ext) (simp add: vi)
    moreover have V: "dev_ok v" "mem_ok v" "nextp v = nextp s" "open_inodes v = open_inodes ?t" "bsize (dev v) = bsize (dev s)"
      using v(2) by (simp_all add: map_step_def)
    moreover have "dev_ok ?s'" "mem_ok ?s'" using V(1,2) by (simp_all only: Qv(6) mem_ok_def) simp
    moreover have "sectors (dev v) j = sectors (dev s) j" if "j \<notin> ext (D s FREE_MAP_SECTOR)" for j
      using v(2) that by (simp add: map_step_def Qu)
    ultimately have st: "map_step ?t ?s'" unfolding map_step_def Qt using mo vi(2,3) by simp
    have us: "\<forall>k\<in>live ?t. \<forall>x\<in>region ?t k. used ?s' x"
    proof (intro ballI)
      fix k x assume k: "k \<in> live ?t" "x \<in> region ?t k"
      then have "k \<in> live s" "k \<noteq> ?k" using kt kl(2) by (auto simp: kept_def)
      then have "x \<notin> region s ?k" "used s x" using I(4) kl(1) k(2) unfolding regions_ok_def Qt by blast+
      then show "used ?s' x" using v(3) by (simp add: Qv)
    qed
    have "inode_close (Some p) s = Inr ?s'" using p True rem v(1) by (simp add: inode_close_def Let_def)
    moreover have "inv Z (drop_ref p ex) ?s'" by (rule map_step_inv(1) [OF it st us])
    moreover have "kept s ?s'" by (rule kept_trans [OF kt map_step_kept [OF it st us]])
    moreover note sk [OF ii]
    ultimately show ?thesis using vi True v(2) by (simp add: map_step_def)
  qed
qed

end
