(* ===== verification/FsFile.thy ===== *)
theory FsFile
  imports FsOps
begin

text \<open>
  Open files: opening, closing, denying writes, and reading and writing at the position keep the invariant of
  the file system; a read returns the contents at the position and a write changes them there and nowhere else.
\<close>

section \<open>Opening and closing\<close>

lemma upd_file_fields [simp]:
  "dev (upd_file f g s) = dev s" "mem (upd_file f g s) = mem s" "nextp (upd_file f g s) = nextp s" "open_inodes (upd_file f g s) = open_inodes s"
  "inodes (upd_file f g s) = inodes s" "free_map (upd_file f g s) = free_map s" "free_map_file (upd_file f g s) = free_map_file s"
  "files (upd_file f g s) h = (if h = f then map_option g (files s f) else files s h)"
  by (simp_all add: upd_file_def)

text \<open>A change of the files alone.\<close>

lemma files_inv:
  assumes i: "inv Z ex s" and q: "quiet s s'" "mem_ok s'" and o: "open_inodes s' = open_inodes s" "inodes s' = inodes s" "nextp s \<le> nextp s'"
    and m: "\<And>f x. free_map_file s = Some f \<Longrightarrow> files s f = Some x \<Longrightarrow> \<exists>y. files s' f = Some y \<and> finode y = finode x"
    and f: "\<And>f x. files s' f = Some x \<Longrightarrow> f < nextp s' \<and> (f \<notin> Z' \<longrightarrow> inodes s (finode x) \<noteq> None)"
    and z: "\<And>f. f \<in> Z' \<Longrightarrow> free_map_file s \<noteq> Some f" and ex: "\<And>p. inodes s p = None \<Longrightarrow> ex' p = 0"
    and c: "\<And>p n. inodes s p = Some n \<Longrightarrow> card (openers Z' s' p) + ex' p = card (openers Z s p) + ex p \<and> card (deniers Z' s' p) = card (deniers Z s p)"
  shows "inv Z' ex' s'"
proof -
  note I = invD [OF i] and R = refs_okD [OF invD(6) [OF i]] and Q = quiet_views [OF q(1)]
  obtain f0 x0 n0 where f0: "free_map_file s = Some f0" "files s f0 = Some x0" "inodes s (finode x0) = Some n0" "isector n0 = FREE_MAP_SECTOR"
    "deny_write_cnt n0 = 0" "idata n0 = D s FREE_MAP_SECTOR" by (rule free_map_inode [OF I(3)])
  have fm: "free_map_file s' = free_map_file s" using q(1) by (simp add: quiet_def)
  have "\<exists>f x i. free_map_file s' = Some f \<and> files s' f = Some x \<and> inodes s' (finode x) = Some i \<and> isector i = FREE_MAP_SECTOR
      \<and> deny_write_cnt i = 0 \<and> idata i = D s' FREE_MAP_SECTOR"
    using m [OF f0(1,2)] f0 fm o(2) by (auto simp: Q)
  moreover have "inode_ok Z' ex' s' p n" if "inodes s p = Some n" for p n
    using R(3) [OF that] c [OF that] o(3) unfolding inode_ok_def Q by auto
  then have "refs_ok Z' ex' s'" unfolding refs_ok_def o fm using R(1) R(2) R(4) f z ex by (auto simp: o)
  moreover have "removed_ok s'" using I(7) by (simp add: removed_ok_def o Q)
  moreover have "open_sectors s' \<subseteq> live s" by (auto simp: open_sectors_def live_def o)
  ultimately show ?thesis using quiet_inv [OF q(1) i q(2)] by blast
qed

lemma file_open_ok:
  assumes i: "inv {} ex s" and p: "inodes s p = Some n" "0 < ex p"
  shows "\<exists>s'. file_open (Some p) s = Inr (s', Some (nextp s)) \<and> inv {} (drop_ref p ex) s' \<and> quiet s s' \<and> inodes s' = inodes s
    \<and> files s' = (files s)(nextp s \<mapsto> \<lparr>finode = p, fpos = 0, deny_write = False\<rparr>)"
proof -
  note I = invD [OF i] and R = refs_okD [OF invD(6) [OF i]]
  obtain t ok where t: "malloc s = (t, ok)" by fastforce
  then have td: "same_data s t" "ok" using malloc_same [OF t] I(2) by auto
  then have tf: "nextp t = nextp s" "inodes t = inodes s" "open_inodes t = open_inodes s" "files t = files s" by (simp_all add: same_data_def same_but_data_def)
  let ?f = "nextp s" let ?x = "\<lparr>finode = p, fpos = 0, deny_write = False\<rparr>" let ?s = "t\<lparr>nextp := Suc ?f, files := (files t)(?f \<mapsto> ?x)\<rparr>"
  have q: "quiet s ?s" using same_data_quiet [OF td(1)] by (simp add: quiet_def)
  have m: "mem_ok ?s" using mem_ok_same [of s t] td(1) I(2) by (simp add: same_data_def mem_ok_def)
  have new: "files s ?f = None" using R(5) by (cases "files s ?f") auto
  have op: "openers {} ?s r = (if r = p then insert ?f (openers {} s r) else openers {} s r)" "deniers {} ?s r = deniers {} s r" for r
    using new by (auto simp: openers_def deniers_def tf)
  have "?f \<notin> openers {} s p" using new by (simp add: openers_def)
  then have c: "card (openers {} ?s r) + drop_ref p ex r = card (openers {} s r) + ex r" for r
    using p(2) finite_openers(1) [OF I(6), of "{}" p] by (cases "r = p") (simp_all add: op)
  have "inv {} (drop_ref p ex) ?s"
  proof (rule files_inv [OF i q m])
    show "\<exists>y. files ?s f = Some y \<and> finode y = finode x" if "files s f = Some x" for f x using that new by (auto simp: tf)
    show "f < nextp ?s \<and> (f \<notin> {} \<longrightarrow> inodes s (finode x) \<noteq> None)" if "files ?s f = Some x" for f x
      using that R(5) [of f x] R(6) [of f x] p(1) by (auto simp: tf split: if_splits)
    show "drop_ref p ex r = 0" if "inodes s r = None" for r using that p(1) R(7) by (cases "r = p") auto
    show "card (openers {} ?s r) + drop_ref p ex r = card (openers {} s r) + ex r \<and> card (deniers {} ?s r) = card (deniers {} s r)" for r
      using c by (simp add: op)
  qed (simp_all add: tf)
  then show ?thesis using q t td(2) tf by (intro exI [of _ ?s]) (simp add: file_open_def Let_def)
qed

lemma deniers_openers: "deniers Z s p \<subseteq> openers Z s p"
  by (auto simp: deniers_def openers_def)

section \<open>Denying writes\<close>

lemma deny_inv:
  assumes i: "inv Z ex s" and f: "files s f = Some x" "finode (h x) = finode x" and p: "inodes s (finode x) = Some n" "isector n \<noteq> FREE_MAP_SECTOR"
    and g: "isector (g n) = isector n" "idata (g n) = idata n" "removed (g n) = removed n" "open_cnt (g n) = open_cnt n"
    and d: "deny_write_cnt (g n) = int (card (deniers Z (upd_file f h s) (finode x)))"
  shows "inv Z ex (upd_inode (finode x) g (upd_file f h s))" (is "inv Z ex ?s")
proof -
  note I = invD [OF i] and R = refs_okD [OF invD(6) [OF i]]
  have q: "quiet s ?s" by (simp add: quiet_def)
  note Q = quiet_views [OF q]
  have op: "openers Z ?s r = openers Z s r" for r using f by (auto simp: openers_def split: if_splits)
  have dn: "deniers Z ?s r = (if r = finode x then deniers Z (upd_file f h s) r else deniers Z s r)" for r
    using f by (auto simp: deniers_def split: if_splits)
  have ik: "inode_ok Z ex ?s r m" if "inodes ?s r = Some m" for r m
    using that R(3) [of r] p(1) g d unfolding inode_ok_def op dn Q by (auto split: if_splits)
  obtain f0 x0 n0 where f0: "free_map_file s = Some f0" "files s f0 = Some x0" "inodes s (finode x0) = Some n0" "isector n0 = FREE_MAP_SECTOR"
    "deny_write_cnt n0 = 0" "idata n0 = D s FREE_MAP_SECTOR" by (rule free_map_inode [OF I(3)])
  have ne: "finode x0 \<noteq> finode x" "f0 \<noteq> f" using f0 p f by auto
  have fm: "\<exists>f x i. free_map_file ?s = Some f \<and> files ?s f = Some x \<and> inodes ?s (finode x) = Some i \<and> isector i = FREE_MAP_SECTOR
      \<and> deny_write_cnt i = 0 \<and> idata i = D ?s FREE_MAP_SECTOR"
    using f0 ne by (intro exI [of _ f0] exI [of _ x0] exI [of _ n0]) (simp add: Q)
  have os: "open_sectors ?s = open_sectors s" unfolding open_sectors_iff using p(1) g(1) by (intro Collect_cong ex_cong1) simp
  have "refs_ok Z ex ?s"
    unfolding refs_ok_def
  proof (intro conjI allI impI)
    show "distinct (open_inodes ?s)" using R(1) by simp
    show "inodes ?s r \<noteq> None \<longleftrightarrow> r \<in> set (open_inodes ?s)" for r using R(2) [of r] p(1) by auto
    show "inodes ?s r = Some m \<Longrightarrow> inode_ok Z ex ?s r m" for r m by (rule ik)
    show "inodes ?s r = Some m \<Longrightarrow> inodes ?s r' = Some m' \<Longrightarrow> isector m = isector m' \<Longrightarrow> r = r'" for r r' m m'
      using R(4) [of r "if r = finode x then n else m" r' "if r' = finode x then n else m'"] p(1) g(1) by (auto split: if_splits)
    show "files ?s h = Some y \<Longrightarrow> h < nextp ?s" for h y using R(5) [of h] f by (auto split: if_splits)
    show "files ?s h = Some y \<Longrightarrow> h \<notin> Z \<Longrightarrow> inodes ?s (finode y) \<noteq> None" for h y using R(6) [of h] f p(1) by (auto split: if_splits)
    show "inodes ?s r = None \<Longrightarrow> ex r = 0" for r using R(7) [of r] by (simp split: if_splits)
    show "\<forall>f\<in>Z. free_map_file ?s \<noteq> Some f" using R(8) by simp
  qed
  moreover have "removed_ok ?s" using I(7) p g unfolding removed_ok_def Q by (auto split: if_splits)
  ultimately show ?thesis by (intro quiet_inv [OF q i _ fm]) (use I(2) os in \<open>auto simp: mem_ok_def live_def\<close>)
qed

lemma card_deniers:
  assumes i: "inv Z ex s" and f: "files s f = Some x" "f \<notin> Z" and h: "finode (h x) = finode x"
  shows "card (deniers Z (upd_file f h s) (finode x)) + (if deny_write x then 1 else 0) = card (deniers Z s (finode x)) + (if deny_write (h x) then 1 else 0)"
proof -
  let ?p = "finode x"
  define A where "A = deniers Z s ?p - {f}"
  have A: "finite A" "f \<notin> A" using finite_openers(2) [OF invD(6) [OF i]] by (auto simp: A_def)
  have "deniers Z (upd_file f h s) ?p = (if deny_write (h x) then insert f A else A)" using f h by (auto simp: A_def deniers_def split: if_splits)
  moreover have "deniers Z s ?p = (if deny_write x then insert f A else A)" using f by (auto simp: A_def deniers_def)
  ultimately show ?thesis using A by simp
qed

lemma file_deny_write_ok:
  assumes i: "inv {} ex s" and f: "files s f = Some x" and n: "inodes s (finode x) = Some n" "isector n \<noteq> FREE_MAP_SECTOR"
  shows "\<exists>s'. file_deny_write f s = Inr s' \<and> inv {} ex s' \<and> quiet s s' \<and> files s' = (files s)(f \<mapsto> x\<lparr>deny_write := True\<rparr>)
    \<and> (\<exists>m. inodes s' (finode x) = Some m \<and> deny_write_cnt m \<noteq> 0 \<and> isector m = isector n) \<and> (\<forall>q. q \<noteq> finode x \<longrightarrow> inodes s' q = inodes s q)"
proof -
  note I = invD [OF i] and ok = refs_okD(3) [OF invD(6) [OF i] n(1)]
  let ?h = "\<lambda>x. x\<lparr>deny_write := True\<rparr>" let ?g = "\<lambda>i. i\<lparr>deny_write_cnt := deny_write_cnt i + 1\<rparr>"
  have fo: "f \<in> openers {} s (finode x)" using f by (simp add: openers_def)
  show ?thesis
  proof (cases "deny_write x")
    case True
    then have "f \<in> deniers {} s (finode x)" using f by (simp add: deniers_def)
    then have "deny_write_cnt n \<noteq> 0" using ok finite_openers(2) [OF I(6)] by (auto simp: inode_ok_def card_eq_0_iff)
    moreover have "x\<lparr>deny_write := True\<rparr> = x" using True by simp
    ultimately show ?thesis using True f i n by (intro exI [of _ s]) (auto simp: file_deny_write_def)
  next
    case False
    have c: "card (deniers {} (upd_file f ?h s) (finode x)) = card (deniers {} s (finode x)) + 1"
      using card_deniers [OF i f, of ?h] False by simp
    have op: "openers {} (upd_file f ?h s) (finode x) = openers {} s (finode x)" using f by (auto simp: openers_def)
    have "card (deniers {} (upd_file f ?h s) (finode x)) \<le> card (openers {} s (finode x))"
      by (rule card_mono [OF finite_openers(1) [OF I(6)]]) (use deniers_openers [of "{}" "upd_file f ?h s"] op in blast)
    then have le: "deny_write_cnt n + 1 \<le> open_cnt n" using ok c by (simp add: inode_ok_def)
    let ?s = "upd_inode (finode x) ?g (upd_file f ?h s)"
    have "inv {} ex ?s" by (rule deny_inv [OF i f _ n]) (use ok c in \<open>simp_all add: inode_ok_def\<close>)
    moreover have "file_deny_write f s = Inr ?s" using False f n le by (simp add: file_deny_write_def inode_deny_write_def)
    moreover have "deny_write_cnt n + 1 \<noteq> 0" using ok by (simp add: inode_ok_def)
    moreover have "quiet s ?s" by (simp add: quiet_def)
    moreover have "files ?s = (files s)(f \<mapsto> x\<lparr>deny_write := True\<rparr>)" using f by (simp add: fun_eq_iff)
    ultimately show ?thesis using n by (intro exI [of _ ?s]) simp
  qed
qed

lemma file_allow_write_ok:
  assumes i: "inv {} ex s" and f: "files s f = Some x" and n: "inodes s (finode x) = Some n" "isector n \<noteq> FREE_MAP_SECTOR"
  shows "\<exists>s'. file_allow_write f s = Inr s' \<and> inv {} ex s' \<and> quiet s s' \<and> files s' = (files s)(f \<mapsto> x\<lparr>deny_write := False\<rparr>)
    \<and> (\<exists>m. inodes s' (finode x) = Some m \<and> isector m = isector n) \<and> (\<forall>q. q \<noteq> finode x \<longrightarrow> inodes s' q = inodes s q) \<and> nextp s' = nextp s"
proof -
  note I = invD [OF i] and ok = refs_okD(3) [OF invD(6) [OF i] n(1)]
  let ?h = "\<lambda>x. x\<lparr>deny_write := False\<rparr>" let ?g = "\<lambda>i. i\<lparr>deny_write_cnt := deny_write_cnt i - 1\<rparr>"
  show ?thesis
  proof (cases "deny_write x")
    case False
    then have "x\<lparr>deny_write := False\<rparr> = x" by simp
    then show ?thesis using False f i n by (intro exI [of _ s]) (auto simp: file_allow_write_def)
  next
    case True
    have c: "card (deniers {} (upd_file f ?h s) (finode x)) + 1 = card (deniers {} s (finode x))"
      using card_deniers [OF i f, of ?h] True by simp
    have "card (deniers {} s (finode x)) \<le> card (openers {} s (finode x))"
      by (rule card_mono [OF finite_openers(1) [OF I(6)] deniers_openers])
    then have le: "deny_write_cnt n \<le> open_cnt n" "0 < deny_write_cnt n" using ok c by (simp_all add: inode_ok_def)
    let ?s = "upd_inode (finode x) ?g (upd_file f ?h s)"
    have "inv {} ex ?s" by (rule deny_inv [OF i f _ n]) (use ok c in \<open>simp_all add: inode_ok_def\<close>)
    moreover have "file_allow_write f s = Inr ?s" using True f n le by (simp add: file_allow_write_def inode_allow_write_def)
    moreover have "quiet s ?s" by (simp add: quiet_def)
    moreover have "files ?s = (files s)(f \<mapsto> x\<lparr>deny_write := False\<rparr>)" using f by (simp add: fun_eq_iff)
    ultimately show ?thesis using n by (intro exI [of _ ?s]) simp
  qed
qed

section \<open>Closing\<close>

text \<open>A file that is about to be closed hands its reference to the operation.\<close>

lemma hand_over:
  assumes i: "inv {} ex s" and f: "files s f = Some x" "\<not> deny_write x" "free_map_file s \<noteq> Some f" and n: "inodes s (finode x) = Some n"
  shows "inv {f} (bump (finode x) ex) s"
proof -
  note I = invD [OF i] and R = refs_okD [OF invD(6) [OF i]]
  have op: "openers {} s r = (if r = finode x then insert f (openers {f} s r) else openers {f} s r)" for r using f by (auto simp: openers_def)
  have "f \<notin> openers {f} s (finode x)" "finite (openers {f} s (finode x))" by (simp add: openers_def) (rule finite_openers(1) [OF I(6)])
  then have c: "card (openers {f} s r) + bump (finode x) ex r = card (openers {} s r) + ex r" for r by (cases "r = finode x") (simp_all add: op)
  have dn: "deniers {f} s r = deniers {} s r" for r using f by (auto simp: deniers_def)
  show ?thesis
    by (rule files_inv [OF i quiet_refl I(2)]) (use R(5,6,7) f n c in \<open>auto simp: dn bump_def\<close>)
qed

lemma forget_file:
  assumes i: "inv {f} ex s" and f: "free_map_file s \<noteq> Some f"
  shows "inv {} ex (s\<lparr>files := (files s)(f := None)\<rparr>)" (is "inv {} ex ?s")
proof -
  note I = invD [OF i] and R = refs_okD [OF invD(6) [OF i]]
  have q: "quiet s ?s" by (simp add: quiet_def)
  have op: "openers {} ?s r = openers {f} s r" "deniers {} ?s r = deniers {f} s r" for r by (auto simp: openers_def deniers_def)
  show ?thesis
  proof (rule files_inv [OF i q])
    show "\<exists>y. files ?s h = Some y \<and> finode y = finode x" if "free_map_file s = Some h" "files s h = Some x" for h x using that f by auto
    show "h < nextp ?s \<and> (h \<notin> {} \<longrightarrow> inodes s (finode x) \<noteq> None)" if "files ?s h = Some x" for h x
      using that R(5) [of h] R(6) [of h] by (auto split: if_splits)
  qed (use I(2) R(7) in \<open>simp_all add: op mem_ok_def\<close>)
qed

lemma file_close_ok:
  assumes i: "inv {} ex s" and f: "files s f = Some x" and m: "free_map_file s \<noteq> Some f" "isector n \<noteq> FREE_MAP_SECTOR" and n: "inodes s (finode x) = Some n"
  shows "\<exists>s'. file_close (Some f) s = Inr s' \<and> inv {} ex s' \<and> kept s s' \<and> files s' = (files s)(f := None) \<and> secs_kept s s'"
proof -
  let ?y = "x\<lparr>deny_write := False\<rparr>"
  obtain t k where t: "file_allow_write f s = Inr t" "inv {} ex t" "quiet s t" "files t = (files s)(f \<mapsto> ?y)" "inodes t (finode x) = Some k"
    "isector k = isector n" "\<forall>q. q \<noteq> finode x \<longrightarrow> inodes t q = inodes s q" using file_allow_write_ok [OF i f n m(2)] by blast
  have ft: "free_map_file t = free_map_file s" using t(3) by (simp add: quiet_def)
  have "open_sectors t \<subseteq> live s"
  proof -
    have "isector k' \<in> live s" if "inodes t q = Some k'" for q k'
      using that t(5-7) n by (cases "q = finode x") (auto simp: live_def open_sectors_def)
    then show ?thesis by (auto simp: open_sectors_def)
  qed
  then have kt: "kept s t" by (rule quiet_kept [OF t(3)])
  have "inv {f} (bump (finode x) ex) t" using hand_over [OF t(2), of f ?y k] t(4,5) m(1) ft by simp
  then obtain u where u: "inode_close (Some (finode x)) t = Inr u" "inv {f} ex u" "kept t u" "files u = files t"
      "\<forall>q. q \<noteq> finode x \<longrightarrow> inodes u q = inodes t q" "secs_kept t u"
    using inode_close_ok [OF _ t(5), of "{f}" "bump (finode x) ex"] by auto
  let ?s = "u\<lparr>files := (files u)(f := None)\<rparr>"
  have fu: "free_map_file u \<noteq> Some f" using u(3) ft m(1) by (simp add: kept_def)
  have q: "quiet u ?s" by (simp add: quiet_def)
  have ku: "kept u ?s" by (rule quiet_kept [OF q]) (auto simp: open_sectors_def live_def)
  have "file_close (Some f) s = Inr ?s" using f t(1) u(1) by (simp add: file_close_def)
  moreover have "inv {} ex ?s" by (rule forget_file [OF u(2) fu])
  moreover have "kept s ?s" using kt u(3) ku kept_trans by blast
  moreover have "secs_kept s ?s"
  proof (rule secs_keptI [of "finode x"])
    show "inodes ?s q = inodes s q" if "q \<noteq> finode x" for q using that u(5) t(7) by simp
    show "isector m' = isector m" if "inodes s (finode x) = Some m" "inodes ?s (finode x) = Some m'" for m m'
    proof -
      have "inodes u (finode x) = Some m'" using that(2) by simp
      then have "isector m' = isector k" using u(6) t(5) unfolding secs_kept_def by blast
      then show ?thesis using that(1) n t(6) by simp
    qed
  qed
  ultimately show ?thesis using u(4) t(4) by (intro exI [of _ ?s]) simp
qed

section \<open>Reading and writing\<close>

lemma live_open: "inodes s p = Some n \<Longrightarrow> isector n \<in> live s"
  by (auto simp: live_def open_sectors_def)

lemma open_idata: "inv Z ex s \<Longrightarrow> inodes s p = Some n \<Longrightarrow> idata n = D s (isector n)"
  using refs_okD(3) [OF invD(6), of Z ex s p n] by (simp add: inode_ok_def)

lemma live_extent: "inv Z ex s \<Longrightarrow> k \<in> live s \<Longrightarrow> extent_ok (D s k) s"
  using invD(4) by (simp add: regions_ok_def)

lemma same_data_inv: "inv Z ex s \<Longrightarrow> same_data s s' \<Longrightarrow> inv Z ex s'"
proof -
  assume i: "inv Z ex s" and d: "same_data s s'"
  note I = invD [OF i] and q = same_data_quiet [OF d]
  have f: "inodes s' = inodes s" "files s' = files s" "open_inodes s' = open_inodes s" "nextp s' = nextp s" "free_map_file s' = free_map_file s"
    using d by (simp_all add: same_data_def same_but_data_def)
  note Q = quiet_views [OF q]
  have "map_ok s'" using I(3) unfolding map_ok_def map_open_def by (simp add: Q f) (use q in \<open>simp add: quiet_def\<close>)
  then show "inv Z ex s'"
    using i mem_ok_same [of s s'] d refs_cong [OF I(6) f(1,3,2,4,5)] unfolding inv_def removed_ok_def live_def open_sectors_def f Q
    by (simp add: same_data_def Q)
qed

text \<open>A write inside the data of a live inode.\<close>

lemma wrote_views:
  assumes i: "inv Z ex s" and k: "k \<in> live s" "k \<noteq> FREE_MAP_SECTOR" and w: "wrote (D s k) q ys s s'"
  shows "\<And>j. j \<in> live s \<Longrightarrow> D s' j = D s j" "\<And>j. j \<in> live s \<Longrightarrow> j \<noteq> k \<Longrightarrow> contents (D s j) s' = contents (D s j) s"
    "contents (D s k) s' = overwrite (contents (D s k) s) q ys"
    "dev_ok s'" "mem_ok s'" "map_ok s'" "refs_ok Z ex s'" "regions_ok (live s) s'"
proof -
  note I = invD [OF i]
  have b: "same_but_data s s'" and ds: "dev_ok s'" and out: "\<And>i. i \<notin> ext (D s k) \<Longrightarrow> sectors (dev s') i = sectors (dev s) i"
    and c: "contents (D s k) s' = overwrite (contents (D s k) s) q ys"
    using w by (auto simp: wrote_def ext_def not_le)
  note K = region_kept [OF I(4) k(1) _ out]
  show d: "D s' j = D s j" if "j \<in> live s" for j using K(1) [of j] that by blast
  show c': "contents (D s j) s' = contents (D s j) s" if "j \<in> live s" "j \<noteq> k" for j using K(3) [of j] that by blast
  show "contents (D s k) s' = overwrite (contents (D s k) s) q ys" "dev_ok s'" by fact+
  show "mem_ok s'" by (rule mem_ok_same [OF b I(2)])
  have f: "inodes s' = inodes s" "files s' = files s" "open_inodes s' = open_inodes s" "nextp s' = nextp s" "free_map_file s' = free_map_file s"
    "free_map s' = free_map s" "bsize (dev s') = bsize (dev s)" using b by (simp_all add: same_but_data_def)
  show "refs_ok Z ex s'" by (rule refs_cong [OF I(6) f(1,3,2,4,5)]) (use d in \<open>simp add: live_def\<close>)
  show "regions_ok (live s) s'" by (rule regions_cong [OF I(4) d f(7)]) (simp_all add: used_def f)
  have e: "contents (D s FREE_MAP_SECTOR) s' = contents (D s FREE_MAP_SECTOR) s" using c' [of FREE_MAP_SECTOR] k(2) by auto
  show "map_ok s'" using I(3) unfolding map_ok_def map_open_def extent_ok_def f d [OF live_simps(1)] e .
qed

lemma wrote_inv:
  assumes i: "inv Z ex s" and k: "k \<in> live s" "k \<noteq> FREE_MAP_SECTOR" "k \<noteq> ROOT_DIR_SECTOR" and w: "wrote (D s k) q ys s s'"
  shows "inv Z ex s'" "entries s' = entries s"
    "fs_abs s' = (\<lambda>nm. if dir_map (entries s) nm = Some k then Some (overwrite (contents (D s k) s) q ys) else fs_abs s nm)"
proof -
  note I = invD [OF i] and W = wrote_views [OF i k(1,2) w]
  have r: "D s' ROOT_DIR_SECTOR = D s ROOT_DIR_SECTOR" "contents (D s ROOT_DIR_SECTOR) s' = contents (D s ROOT_DIR_SECTOR) s"
    using W(1,2) [of ROOT_DIR_SECTOR] k(3) by auto
  show e: "entries s' = entries s" unfolding entries_def r ..
  have f: "inodes s' = inodes s" using w by (simp add: wrote_def same_but_data_def)
  have l: "live s' = live s" "dir_sectors s' = dir_sectors s" unfolding live_def dir_sectors_def e open_sectors_def f by simp_all
  have "root_ok s'" "removed_ok s'" using I(5,7) unfolding root_ok_def removed_ok_def r e l(2) f by simp_all
  then show "inv Z ex s'" using W(4-8) l by (simp add: inv_def)
  have "contents (D s' j) s' = contents (D s j) s" if "dir_map (entries s) nm = Some j" "j \<noteq> k" for nm j
  proof -
    have "j \<in> live s" using dir_map_SomeD [OF that(1)] by (auto simp: live_def dir_sectors_def)
    then show ?thesis using W(1,2) that(2) by simp
  qed
  then show "fs_abs s' = (\<lambda>nm. if dir_map (entries s) nm = Some k then Some (overwrite (contents (D s k) s) q ys) else fs_abs s nm)"
    using W(1) [OF k(1)] W(3) by (auto simp: fs_abs_def e fun_eq_iff split: option.split intro!: option.map_cong0)
qed

text \<open>Moving the position of a file.\<close>

lemma move_ok:
  assumes i: "inv Z ex s"
  shows "inv Z ex (upd_file f (\<lambda>x. x\<lparr>fpos := v x\<rparr>) s)" and "quiet s (upd_file f (\<lambda>x. x\<lparr>fpos := v x\<rparr>) s)"
proof -
  let ?s = "upd_file f (\<lambda>x. x\<lparr>fpos := v x\<rparr>) s"
  note I = invD [OF i] and R = refs_okD [OF invD(6) [OF i]]
  show q: "quiet s ?s" by (simp add: quiet_def)
  have op: "openers Z ?s r = openers Z s r" "deniers Z ?s r = deniers Z s r" for r by (auto simp: openers_def deniers_def split: if_splits)
  show "inv Z ex ?s"
  proof (rule files_inv [OF i q])
    show "\<exists>y. files ?s h = Some y \<and> finode y = finode x" if "files s h = Some x" for h x using that by auto
    show "h < nextp ?s \<and> (h \<notin> Z \<longrightarrow> inodes s (finode x) \<noteq> None)" if "files ?s h = Some x" for h x
      using that R(5) [of h] R(6) [of h] by (auto split: if_splits)
  qed (use I(2) R(7,8) in \<open>simp_all add: op mem_ok_def\<close>)
qed

lemma file_read_ok:
  fixes sz :: nat
  assumes i: "inv Z ex s" and f: "files s f = Some x" "0 \<le> fpos x" and n: "inodes s (finode x) = Some n"
  defines "xs \<equiv> take sz (drop (nat (fpos x)) (contents (D s (isector n)) s))"
  shows "\<exists>s'. file_read f (int sz) s = Inr (s', xs) \<and> inv Z ex s' \<and> quiet s s' \<and> inodes s' = inodes s
    \<and> files s' = (files s)(f \<mapsto> x\<lparr>fpos := fpos x + int (length xs)\<rparr>)"
proof -
  note I = invD [OF i]
  obtain t where t: "inode_read_at (finode x) (int sz) (fpos x) s = Inr (t, xs)" "same_data s t"
    using inode_read_at_correct [OF I(1) n, of sz "nat (fpos x)"] I(2) open_idata [OF i n] live_extent [OF i live_open [OF n]] f(2)
    by (auto simp: xs_def)
  let ?s = "upd_file f (\<lambda>x. x\<lparr>fpos := fpos x + int (length xs)\<rparr>) t"
  have ti: "inv Z ex t" by (rule same_data_inv [OF i t(2)])
  have "files t = files s" "inodes t = inodes s" using t(2) by (simp_all add: same_data_def same_but_data_def)
  moreover have "inv Z ex ?s" "quiet s ?s" by (rule move_ok(1) [OF ti]) (rule quiet_trans [OF same_data_quiet [OF t(2)] move_ok(2) [OF ti]])
  ultimately show ?thesis using f t(1) by (intro exI [of _ ?s]) (simp add: file_read_def fun_eq_iff)
qed

lemma file_write_ok:
  assumes i: "inv Z ex s" and f: "files s f = Some x" "0 \<le> fpos x" and n: "inodes s (finode x) = Some n" "isector n \<notin> {FREE_MAP_SECTOR, ROOT_DIR_SECTOR}"
    and d: "deny_write_cnt n = 0" and b: "sz \<le> length buf"
  defines "k \<equiv> min sz (length (contents (D s (isector n)) s) - nat (fpos x))"
  shows "\<exists>s'. file_write f buf (int sz) s = Inr (s', k) \<and> inv Z ex s' \<and> entries s' = entries s
    \<and> contents (D s' (isector n)) s' = overwrite (contents (D s (isector n)) s) (nat (fpos x)) (take k buf)
    \<and> fs_abs s' = (\<lambda>nm. if dir_map (entries s) nm = Some (isector n) then Some (overwrite (contents (D s (isector n)) s) (nat (fpos x)) (take k buf))
                         else fs_abs s nm)
    \<and> inodes s' = inodes s \<and> free_map_file s' = free_map_file s \<and> files s' = (files s)(f \<mapsto> x\<lparr>fpos := fpos x + int k\<rparr>)"
proof -
  note I = invD [OF i]
  have c: "length (contents (D s (isector n)) s) = nat (ilength (D s (isector n)))" by (simp add: contents_def)
  have "min sz (nat (ilength (idata n)) - nat (fpos x)) \<le> length buf" using b by linarith
  then obtain t where t: "inode_write_at (finode x) buf (int sz) (fpos x) s = Inr (t, k)" "wrote (D s (isector n)) (nat (fpos x)) (take k buf) s t"
    using inode_write_at_correct [OF I(1) n(1) _ d, of sz "nat (fpos x)" buf] I(2) open_idata [OF i n(1)] live_extent [OF i live_open [OF n(1)]] f(2) c
    by (auto simp: k_def)
  let ?s = "upd_file f (\<lambda>x. x\<lparr>fpos := fpos x + int k\<rparr>) t"
  have nn: "isector n \<noteq> FREE_MAP_SECTOR" "isector n \<noteq> ROOT_DIR_SECTOR" using n(2) by auto
  note W = wrote_inv [OF i live_open [OF n(1)] nn t(2)] and V = wrote_views(1,3) [OF i live_open [OF n(1)] nn(1) t(2)]
  have q: "quiet t ?s" by (simp add: quiet_def)
  note Q = quiet_views [OF q]
  have "files t = files s" "inodes t = inodes s" "free_map_file t = free_map_file s" using t(2) by (simp_all add: wrote_def same_but_data_def)
  moreover have "inv Z ex ?s" by (rule move_ok(1) [OF W(1)])
  moreover have "contents (D ?s (isector n)) ?s = overwrite (contents (D s (isector n)) s) (nat (fpos x)) (take k buf)"
    using V(1) [OF live_open [OF n(1)]] V(2) by (simp add: Q)
  ultimately show ?thesis using f t(1) W(2,3) by (intro exI [of _ ?s]) (simp add: file_write_def fun_eq_iff Q)
qed

end
