(* ===== verification/FsDir.thy ===== *)
theory FsDir
  imports FsFile
begin

text \<open>
  The root directory: the loops over its entries find the first entry they look for, lookup is the map of the directory,
  and adding and removing an entry change that map at one name, keeping the invariant of the file system.
\<close>

section \<open>Entries\<close>

lemma length_entry_list [simp]: "length (entry_list bs) = length bs div 20"
  by (simp add: entry_list_def)

lemma nth_entry_list: "j < length bs div 20 \<Longrightarrow> entry_list bs ! j = nth_entry bs j"
  by (simp add: entry_list_def)

lemma entry_bounds:
  assumes "e \<in> set (entry_list bs)"
  shows "inode_sector e < u32_mod" "length (ename e) = 15"
proof -
  obtain j where j: "j < length bs div 20" "e = nth_entry bs j" using assms by (auto simp: entry_list_def)
  show "inode_sector e < u32_mod" by (simp add: j nth_entry_def bytes_entry_bound)
  have "length (take 20 (drop (20 * j) bs)) = 20" using j(1) by simp
  then show "length (ename e) = 15" unfolding j nth_entry_def by (rule bytes_entry_bound(2))
qed

lemma nth_entry_overwrite:
  assumes "length ys = 20" "k < length bs div 20" "j < length bs div 20"
  shows "nth_entry (overwrite bs (20 * k) ys) j = (if j = k then bytes_entry ys else nth_entry bs j)"
proof -
  have le: "20 * k + length ys \<le> length bs" using assms by simp
  have "take 20 (drop (20 * j) (overwrite bs (20 * k) ys)) = (if j = k then ys else take 20 (drop (20 * j) bs))"
  proof (rule nth_equalityI)
    show "length (take 20 (drop (20 * j) (overwrite bs (20 * k) ys))) = length (if j = k then ys else take 20 (drop (20 * j) bs))"
      using le assms by simp
    fix i assume i: "i < length (take 20 (drop (20 * j) (overwrite bs (20 * k) ys)))"
    then have "i < 20" by simp
    have in_bs: "20 * j + i < length bs" using \<open>i < 20\<close> assms(3) by simp
    have slot: "20 * k \<le> 20 * j + i \<and> 20 * j + i < 20 * k + 20 \<longleftrightarrow> j = k" using \<open>i < 20\<close> by presburger
    have "20 * j \<le> length (overwrite bs (20 * k) ys)" using le in_bs by simp
    then have "take 20 (drop (20 * j) (overwrite bs (20 * k) ys)) ! i = overwrite bs (20 * k) ys ! (20 * j + i)" using \<open>i < 20\<close> by simp
    also have "\<dots> = (if j = k then ys ! i else bs ! (20 * j + i))" using nth_overwrite [OF le in_bs] slot assms(1) by auto
    finally show "take 20 (drop (20 * j) (overwrite bs (20 * k) ys)) ! i = (if j = k then ys else take 20 (drop (20 * j) bs)) ! i"
      using \<open>i < 20\<close> in_bs by simp
  qed
  then show ?thesis by (simp add: nth_entry_def)
qed

lemma entry_list_overwrite:
  assumes "length ys = 20" "k < length bs div 20"
  shows "entry_list (overwrite bs (20 * k) ys) = (entry_list bs)[k := bytes_entry ys]"
proof (rule nth_equalityI)
  have l: "length (overwrite bs (20 * k) ys) = length bs" by (rule length_overwrite) (use assms in simp)
  then show "length (entry_list (overwrite bs (20 * k) ys)) = length ((entry_list bs)[k := bytes_entry ys])" by simp
  fix j assume "j < length (entry_list (overwrite bs (20 * k) ys))"
  then show "entry_list (overwrite bs (20 * k) ys) ! j = (entry_list bs)[k := bytes_entry ys] ! j"
    using l assms nth_entry_overwrite [OF assms, of j] by (simp add: nth_entry_list nth_list_update)
qed

section \<open>The loops over the entries\<close>

definition at_root :: "nat \<Rightarrow> fs \<Rightarrow> bool" where
  "at_root p s \<longleftrightarrow> (\<exists>n. inodes s p = Some n \<and> isector n = ROOT_DIR_SECTOR)"

lemma root_length: "inv Z ex s \<Longrightarrow> length (contents (D s ROOT_DIR_SECTOR) s) = 20 * length (entries s)"
proof -
  assume i: "inv Z ex s"
  have "ilength (D s ROOT_DIR_SECTOR) mod 20 = 0" using invD(5) [OF i] by (simp add: root_ok_def)
  then have "nat (ilength (D s ROOT_DIR_SECTOR)) mod 20 = 0" by (metis nat_0 nat_mod_distrib nat_numeral le_cases nat_le_0 mod_0 zero_le_numeral)
  then show ?thesis by (simp add: entries_def entry_list_def contents_def mod_eq_0_iff_dvd)
qed

lemma root_read:
  assumes i: "inv Z ex s" and p: "at_root p s" and t: "same_data s t"
  shows "\<exists>u. inode_read_at p (int DIR_ENTRY_SIZE) (int q) t = Inr (u, take 20 (drop q (contents (D s ROOT_DIR_SECTOR) s))) \<and> same_data s u"
proof -
  note it = same_data_inv [OF i t] and Q = quiet_views [OF same_data_quiet [OF t]]
  obtain n where n: "inodes s p = Some n" "isector n = ROOT_DIR_SECTOR" using p by (auto simp: at_root_def)
  have nt: "inodes t p = Some n" using n t by (simp add: same_data_def same_but_data_def)
  have "extent_ok (D t ROOT_DIR_SECTOR) t" using live_extent [OF it] by simp
  then obtain u k where "inode_read_at p (int DIR_ENTRY_SIZE) (int q) t = Inr (u, take k (drop q (contents (D s ROOT_DIR_SECTOR) s)))" "same_data t u" "k = 20"
    using inode_read_at_correct [OF invD(1) [OF it] nt, of DIR_ENTRY_SIZE q] open_idata [OF it nt] invD(2) [OF it] n(2) by (auto simp: Q DIR_ENTRY_SIZE_def)
  then show ?thesis using same_data_trans [OF t] by blast
qed

definition scanned :: "dir_entry list \<Rightarrow> (dir_entry \<Rightarrow> bool) \<Rightarrow> nat \<Rightarrow> nat \<times> dir_entry \<times> bool \<Rightarrow> bool" where
  "scanned es Q j = (\<lambda>(ofs, e, found).
     if found then (\<exists>k. j \<le> k \<and> k < length es \<and> ofs = 20 * k \<and> e = es ! k \<and> Q (es ! k) \<and> (\<forall>i. j \<le> i \<longrightarrow> i < k \<longrightarrow> \<not> Q (es ! i)))
     else ofs = 20 * length es \<and> (\<forall>i. j \<le> i \<longrightarrow> i < length es \<longrightarrow> \<not> Q (es ! i)) \<and> inode_sector e < u32_mod \<and> length (ename e) = 15)"

lemma slot_stop [simp]: "while_r slot_cond b (u, ofs, e, found, False) = Inr (u, ofs, e, found, False)"
  by (rule while_r_False) (simp add: slot_cond_def)

lemma slot_step: "b (t, ofs, e, found, True) = Inr r \<Longrightarrow> while_r slot_cond b (t, ofs, e, found, True) = while_r slot_cond b r"
  by (rule while_r_step) (simp_all add: slot_cond_def)

lemma slots_loop:
  assumes i: "inv Z ex s" and p: "at_root p s" and P: "\<And>e. e \<in> set (entries s) \<Longrightarrow> P e = Inr (Q e)"
  shows "same_data s t \<Longrightarrow> j + m = length (entries s) \<Longrightarrow> inode_sector e < u32_mod \<Longrightarrow> length (ename e) = 15 \<Longrightarrow>
    \<exists>t' r. while_r slot_cond (slot_body p P) (t, 20 * j, e, False, True) = Inr (t', fst r, fst (snd r), snd (snd r), False) \<and> same_data s t' \<and> scanned (entries s) Q j r"
proof (induction m arbitrary: t j e)
  case 0
  obtain u where u: "inode_read_at p (int DIR_ENTRY_SIZE) (int (20 * j)) t = Inr (u, take 20 (drop (20 * j) (contents (D s ROOT_DIR_SECTOR) s)))" "same_data s u"
    using root_read [OF i p 0(1)] by blast
  have "slot_body p P (t, 20 * j, e, False, True) = Inr (u, 20 * j, e, False, False)"
    using u(1) 0(2) root_length [OF i] entry_bytes_roundtrip(1) [OF 0(3,4)] by (simp add: slot_body_def DIR_ENTRY_SIZE_def)
  then have "while_r slot_cond (slot_body p P) (t, 20 * j, e, False, True) = Inr (u, 20 * j, e, False, False)"
    by (simp add: slot_step)
  then show ?case using u(2) 0 by (intro exI [of _ u] exI [of _ "(20 * j, e, False)"]) (simp add: scanned_def)
next
  case (Suc m)
  let ?es = "entries s"
  have j: "j < length ?es" using Suc(3) by simp
  then have js: "j < length (contents (D s ROOT_DIR_SECTOR) s) div 20" by (simp add: entries_def)
  let ?xs = "take 20 (drop (20 * j) (contents (D s ROOT_DIR_SECTOR) s))"
  obtain u where u: "inode_read_at p (int DIR_ENTRY_SIZE) (int (20 * j)) t = Inr (u, ?xs)" "same_data s u"
    using root_read [OF i p Suc(2)] by blast
  have l: "length ?xs = 20" using js by simp
  have e': "bytes_entry ?xs = ?es ! j" using js by (simp add: entries_def nth_entry_list nth_entry_def)
  have l': "length (entry_bytes e) = 20" by (rule entry_bytes_roundtrip(2) [OF Suc(4,5)])
  have b: "slot_body p P (t, 20 * j, e, False, True) = Inr (if Q (?es ! j) then (u, 20 * j, ?es ! j, True, False) else (u, 20 * Suc j, ?es ! j, False, True))"
    using u(1) P [OF nth_mem [OF j]] e' l l' by (simp add: slot_body_def DIR_ENTRY_SIZE_def Let_def)
  have w: "while_r slot_cond (slot_body p P) (t, 20 * j, e, False, True)
      = while_r slot_cond (slot_body p P) (if Q (?es ! j) then (u, 20 * j, ?es ! j, True, False) else (u, 20 * Suc j, ?es ! j, False, True))"
    by (rule slot_step [where b = "slot_body p P", OF b])
  show ?case
  proof (cases "Q (?es ! j)")
    case True
    then have "scanned ?es Q j (20 * j, ?es ! j, True)" using j by (auto simp: scanned_def intro!: exI [of _ j])
    then show ?thesis using True u(2) by (intro exI [of _ u] exI [of _ "(20 * j, ?es ! j, True)"]) (simp add: w)
  next
    case False
    have "?es ! j \<in> set (entry_list (contents (D s ROOT_DIR_SECTOR) s))" using nth_mem [OF j] by (simp add: entries_def)
    then obtain t' r where r: "while_r slot_cond (slot_body p P) (u, 20 * Suc j, ?es ! j, False, True) = Inr (t', fst r, fst (snd r), snd (snd r), False)"
        "same_data s t'" "scanned ?es Q (Suc j) r"
      using Suc.IH [OF u(2), of "Suc j" "?es ! j"] Suc(3) entry_bounds by auto
    have all: "\<not> Q (?es ! i)" if "j \<le> i" "\<not> (Suc j \<le> i \<and> Q (?es ! i))" for i using that False by (cases "i = j") auto
    have "scanned ?es Q j r"
      using r(3) all unfolding scanned_def by (auto split: if_splits intro: Suc_leD simp: less_eq_Suc_le)
    then show ?thesis using r False by (intro exI [of _ t'] exI [of _ r]) (simp add: w)
  qed
qed

lemma scan_slots_ok:
  assumes i: "inv Z ex s" and p: "at_root p s" and P: "\<And>e. e \<in> set (entries s) \<Longrightarrow> P e = Inr (Q e)" and j: "j \<le> length (entries s)"
  shows "\<exists>t ofs e found. scan_slots p P (20 * j) s = Inr (t, ofs, e, found) \<and> same_data s t \<and> scanned (entries s) Q j (ofs, e, found)"
proof -
  have "inode_sector no_entry < u32_mod" "length (ename no_entry) = 15" by (simp_all add: no_entry_def)
  then obtain t r where r: "while_r slot_cond (slot_body p P) (s, 20 * j, no_entry, False, True) = Inr (t, fst r, fst (snd r), snd (snd r), False)"
      "same_data s t" "scanned (entries s) Q j r"
    using slots_loop [where P = P and Q = Q, OF i p P same_data_refl le_add_diff_inverse [OF j]] by blast
  then show ?thesis by (cases r) (auto simp: scan_slots_def)
qed

section \<open>Lookup\<close>

lemma entry_named_total: "inv Z ex s \<Longrightarrow> e \<in> set (entries s) \<Longrightarrow> entry_named nm e = Inr (in_use e \<and> entry_name e = nm)"
  using invD(5) by (auto simp: entry_named_def entry_name_def root_ok_def entries_ok_def)

lemma find_first:
  assumes "k < length es" "Q (es ! k)" "\<forall>i<k. \<not> Q (es ! i)"
  shows "List.find Q es = Some (es ! k)"
  using assms by (auto simp: find_Some_iff)

lemma lookup_ok:
  assumes i: "inv Z ex s" and p: "at_root (dinode d) s"
  obtains (found) t k where "lookup d nm s = Inr (t, Some (entries s ! k, 20 * k))" "same_data s t" "k < length (entries s)"
      "in_use (entries s ! k)" "entry_name (entries s ! k) = nm" "dir_map (entries s) nm = Some (inode_sector (entries s ! k))"
  | (none) t where "lookup d nm s = Inr (t, None)" "same_data s t" "dir_map (entries s) nm = None"
proof -
  let ?Q = "\<lambda>e. in_use e \<and> entry_name e = nm"
  obtain t ofs e f where r: "scan_slots (dinode d) (entry_named nm) 0 s = Inr (t, ofs, e, f)" "same_data s t" "scanned (entries s) ?Q 0 (ofs, e, f)"
    using scan_slots_ok [where P = "entry_named nm" and Q = ?Q and j = 0, OF i p entry_named_total [OF i]] by auto
  show thesis
  proof (cases f)
    case True
    then obtain k where k: "k < length (entries s)" "ofs = 20 * k" "e = entries s ! k" "?Q (entries s ! k)" "\<forall>i<k. \<not> ?Q (entries s ! i)"
      using r(3) unfolding scanned_def by auto
    have "dir_map (entries s) nm = Some (inode_sector (entries s ! k))" unfolding dir_map_def find_first [OF k(1,4,5)] by simp
    then show thesis using found [of t k] True k r(1,2) by (simp add: lookup_def)
  next
    case False
    then have "\<forall>e\<in>set (entries s). \<not> ?Q e" using r(3) by (auto simp: scanned_def in_set_conv_nth)
    then have "List.find ?Q (entries s) = None" unfolding find_None_iff by blast
    then show thesis using none [of t] False r(1,2) by (simp add: lookup_def dir_map_def)
  qed
qed

section \<open>Writing an entry\<close>

lemma put_entry:
  assumes i: "inv Z ex s" and p: "inodes s p = Some n" "isector n = ROOT_DIR_SECTOR" "deny_write_cnt n = 0" and e: "inode_sector e < u32_mod" "length (ename e) = 15"
  shows "k < length (entries s) \<Longrightarrow> \<exists>s'. inode_write_at p (entry_bytes e) (int DIR_ENTRY_SIZE) (int (20 * k)) s = Inr (s', DIR_ENTRY_SIZE)
      \<and> wrote (D s ROOT_DIR_SECTOR) (20 * k) (entry_bytes e) s s' \<and> entries s' = (entries s)[k := e]"
    and "k = length (entries s) \<Longrightarrow> inode_write_at p (entry_bytes e) (int DIR_ENTRY_SIZE) (int (20 * k)) s = Inr (s, 0)"
proof -
  note I = invD [OF i]
  let ?d = "D s ROOT_DIR_SECTOR"
  have d: "idata n = ?d" using open_idata [OF i p(1)] p(2) by simp
  have x: "extent_ok ?d s" by (rule live_extent [OF i]) simp
  have len: "nat (ilength ?d) = 20 * length (entries s)" using root_length [OF i] by (simp add: contents_def)
  note E = entry_bytes_roundtrip [OF e]
  have "min DIR_ENTRY_SIZE (nat (ilength (idata n)) - 20 * k) \<le> length (entry_bytes e)" unfolding E(2) DIR_ENTRY_SIZE_def by linarith
  then obtain s' m where w: "inode_write_at p (entry_bytes e) (int DIR_ENTRY_SIZE) (int (20 * k)) s = Inr (s', m)"
      "wrote ?d (20 * k) (take m (entry_bytes e)) s s'" "m = min 20 (20 * length (entries s) - 20 * k)"
    using inode_write_at_correct [OF I(1) p(1) _ p(3), of DIR_ENTRY_SIZE "20 * k" "entry_bytes e"] d x I(2) len
    by (auto simp: DIR_ENTRY_SIZE_def)
  { assume k: "k < length (entries s)"
    then have m: "m = 20" using w(3) by linarith
    have w2: "wrote ?d (20 * k) (entry_bytes e) s s'" using w(2) E(2) m by simp
    note W = wrote_views [OF i live_simps(2) live_simps(3) [symmetric] w2]
    have "entries s' = (entries s)[k := e]"
      using entry_list_overwrite [OF E(2), of k "contents ?d s"] k W(1) [of ROOT_DIR_SECTOR] W(3) E(1) by (simp add: entries_def)
    then show "\<exists>s'. inode_write_at p (entry_bytes e) (int DIR_ENTRY_SIZE) (int (20 * k)) s = Inr (s', DIR_ENTRY_SIZE)
      \<and> wrote ?d (20 * k) (entry_bytes e) s s' \<and> entries s' = (entries s)[k := e]" using w(1) m w2 by (auto simp: DIR_ENTRY_SIZE_def) }
  { assume "k = length (entries s)"
    then have "write_loop ?d (entry_bytes e) (int DIR_ENTRY_SIZE) (int (20 * k)) False 0 s = Inr (s, 0)"
      using chunk_end [of ?d "20 * k" "int DIR_ENTRY_SIZE"] len by (subst write_loop.simps) auto
    then show "inode_write_at p (entry_bytes e) (int DIR_ENTRY_SIZE) (int (20 * k)) s = Inr (s, 0)"
      using p d by (simp add: inode_write_at_def) }
qed

section \<open>The map of the directory\<close>

lemma distinct_filter_iff:
  "distinct (map f (filter P xs)) \<longleftrightarrow> (\<forall>i<length xs. \<forall>j<length xs. P (xs ! i) \<longrightarrow> P (xs ! j) \<longrightarrow> f (xs ! i) = f (xs ! j) \<longrightarrow> i = j)"
proof (induction xs)
  case (Cons x xs)
  have "f x \<in> f ` {y \<in> set xs. P y} \<longleftrightarrow> (\<exists>j<length xs. P (xs ! j) \<and> f x = f (xs ! j))" by (auto simp: in_set_conv_nth image_iff)
  moreover have "f (xs ! j) = f x \<longleftrightarrow> f x = f (xs ! j)" for j by (rule eq_commute)
  ultimately show ?case using Cons by (simp add: All_less_Suc2) blast
qed simp

definition in_uses :: "dir_entry list \<Rightarrow> dir_entry set" where
  "in_uses es = {e \<in> set es. in_use e}"

lemma in_uses_inj:
  assumes "entries_ok es" "e \<in> in_uses es" "e' \<in> in_uses es" "entry_name e = entry_name e' \<or> inode_sector e = inode_sector e'"
  shows "e = e'"
proof -
  obtain i j where "i < length es" "j < length es" "e = es ! i" "e' = es ! j" "in_use e" "in_use e'"
    using assms(2,3) by (auto simp: in_uses_def in_set_conv_nth)
  then show ?thesis using assms(1,4) unfolding entries_ok_def distinct_filter_iff by blast
qed

lemma dir_map_iff:
  assumes "entries_ok es"
  shows "dir_map es nm = Some k \<longleftrightarrow> (\<exists>e\<in>in_uses es. entry_name e = nm \<and> inode_sector e = k)" (is "_ \<longleftrightarrow> ?R")
proof
  show "dir_map es nm = Some k \<Longrightarrow> ?R" using dir_map_SomeD [of es nm k] by (auto simp: in_uses_def)
  assume ?R
  then obtain e where e: "e \<in> in_uses es" "entry_name e = nm" "inode_sector e = k" by blast
  then have "List.find (\<lambda>e. in_use e \<and> entry_name e = nm) es \<noteq> None" by (auto simp: find_None_iff in_uses_def)
  then obtain k' where k': "dir_map es nm = Some k'" by (auto simp: dir_map_def)
  then obtain e' where "e' \<in> in_uses es" "entry_name e' = nm" "inode_sector e' = k'" using dir_map_SomeD [of es nm k'] by (auto simp: in_uses_def)
  then show "dir_map es nm = Some k" using in_uses_inj [OF assms e(1), of e'] e k' by auto
qed

lemma in_uses_update:
  assumes "j < length es"
  shows "\<not> in_use (es ! j) \<Longrightarrow> in_use e \<Longrightarrow> in_uses (es[j := e]) = insert e (in_uses es)"
    and "entries_ok es \<Longrightarrow> in_use (es ! j) \<Longrightarrow> \<not> in_use e \<Longrightarrow> in_uses (es[j := e]) = in_uses es - {es ! j}"
proof -
  have iff: "x \<in> set (es[j := e]) \<longleftrightarrow> x = e \<or> (\<exists>i<length es. i \<noteq> j \<and> x = es ! i)" for x
    using assms by (auto simp: in_set_conv_nth nth_list_update)
  show "in_uses (es[j := e]) = insert e (in_uses es)" if "\<not> in_use (es ! j)" "in_use e"
    using that unfolding in_uses_def set_eq_iff mem_Collect_eq iff by (auto simp: in_set_conv_nth)
  show "in_uses (es[j := e]) = in_uses es - {es ! j}" if ok: "entries_ok es" and u: "in_use (es ! j)" "\<not> in_use e"
  proof -
    have "i = j" if "i < length es" "es ! i = es ! j" for i
      using ok that u assms unfolding entries_ok_def distinct_filter_iff by metis
    then show ?thesis using u unfolding in_uses_def set_eq_iff mem_Collect_eq iff by (auto simp: in_set_conv_nth)
  qed
qed

lemma distinct_add:
  assumes j: "j < length es" and f: "distinct (map f (filter in_use es))" "\<forall>x\<in>in_uses es. f x \<noteq> f e"
  shows "distinct (map f (filter in_use (es[j := e])))"
  using f(1) unfolding distinct_filter_iff
proof (intro allI impI)
  have in_es: "in_use (es ! i) \<Longrightarrow> i < length es \<Longrightarrow> es ! i \<in> in_uses es" for i by (simp add: in_uses_def)
  fix i k assume r: "\<forall>i<length es. \<forall>j<length es. in_use (es ! i) \<longrightarrow> in_use (es ! j) \<longrightarrow> f (es ! i) = f (es ! j) \<longrightarrow> i = j"
    and ik: "i < length (es[j := e])" "k < length (es[j := e])" "in_use (es[j := e] ! i)" "in_use (es[j := e] ! k)" "f (es[j := e] ! i) = f (es[j := e] ! k)"
  show "i = k"
    by (cases "i = j"; cases "k = j") (use r ik f(2) in_es [of i] in_es [of k] j(1) in \<open>auto simp: nth_list_update\<close>)
qed

lemma distinct_clear:
  assumes "j < length es" "distinct (map f (filter in_use es))" "\<not> in_use e"
  shows "distinct (map f (filter in_use (es[j := e])))"
  using assms unfolding distinct_filter_iff by (auto simp: nth_list_update split: if_splits)

lemma map_eqI: "(\<And>x y. f x = Some y \<longleftrightarrow> g x = Some y) \<Longrightarrow> f = g"
  by (metis (no_types, lifting) ext option.exhaust)

lemma entries_ok_add:
  assumes ok: "entries_ok es" and j: "j < length es" "\<not> in_use (es ! j)" and e: "in_use e" "0 \<in> set (ename e)" "entry_name e \<noteq> []"
    "inode_sector e \<notin> {FREE_MAP_SECTOR, ROOT_DIR_SECTOR}" and fresh: "\<forall>x\<in>in_uses es. entry_name x \<noteq> entry_name e \<and> inode_sector x \<noteq> inode_sector e"
  shows "entries_ok (es[j := e])" and "dir_map (es[j := e]) = (dir_map es)(entry_name e \<mapsto> inode_sector e)"
proof -
  have U: "in_uses (es[j := e]) = insert e (in_uses es)" by (rule in_uses_update(1) [OF j e(1)])
  have "\<forall>x\<in>in_uses (es[j := e]). 0 \<in> set (ename x) \<and> entry_name x \<noteq> [] \<and> inode_sector x \<notin> {FREE_MAP_SECTOR, ROOT_DIR_SECTOR}"
    unfolding U using ok e by (auto simp: entries_ok_def in_uses_def)
  then show ok': "entries_ok (es[j := e])"
    using ok fresh distinct_add [OF j(1), of entry_name e] distinct_add [OF j(1), of inode_sector e] by (auto simp: entries_ok_def in_uses_def)
  show "dir_map (es[j := e]) = (dir_map es)(entry_name e \<mapsto> inode_sector e)"
  proof (rule map_eqI)
    fix nm k
    show "dir_map (es[j := e]) nm = Some k \<longleftrightarrow> ((dir_map es)(entry_name e \<mapsto> inode_sector e)) nm = Some k"
      using dir_map_iff [OF ok', of nm k] dir_map_iff [OF ok, of nm k] fresh unfolding U by auto
  qed
qed

lemma entries_ok_remove:
  assumes ok: "entries_ok es" and j: "j < length es" "in_use (es ! j)" and e: "\<not> in_use e"
  shows "entries_ok (es[j := e])" and "dir_map (es[j := e]) = (dir_map es)(entry_name (es ! j) := None)"
proof -
  have U: "in_uses (es[j := e]) = in_uses es - {es ! j}" by (rule in_uses_update(2) [OF j(1) ok j(2) e])
  have "\<forall>x\<in>in_uses (es[j := e]). 0 \<in> set (ename x) \<and> entry_name x \<noteq> [] \<and> inode_sector x \<notin> {FREE_MAP_SECTOR, ROOT_DIR_SECTOR}"
    unfolding U using ok by (auto simp: entries_ok_def in_uses_def)
  then show ok': "entries_ok (es[j := e])"
    using ok distinct_clear [OF j(1) _ e, of entry_name] distinct_clear [OF j(1) _ e, of inode_sector] by (auto simp: entries_ok_def in_uses_def)
  have "es ! j \<in> in_uses es" using j by (simp add: in_uses_def)
  then have one: "\<forall>x\<in>in_uses es. entry_name x = entry_name (es ! j) \<longrightarrow> x = es ! j" using in_uses_inj [OF ok] by blast
  show "dir_map (es[j := e]) = (dir_map es)(entry_name (es ! j) := None)"
  proof (rule map_eqI)
    fix nm k
    show "dir_map (es[j := e]) nm = Some k \<longleftrightarrow> ((dir_map es)(entry_name (es ! j) := None)) nm = Some k"
      using dir_map_iff [OF ok', of nm k] dir_map_iff [OF ok, of nm k] one unfolding U by auto
  qed
qed

section \<open>Adding an entry\<close>

lemma dir_sectors_uses: "dir_sectors s = inode_sector ` in_uses (entries s)"
  by (simp add: dir_sectors_def in_uses_def)

lemma add_entry_inv:
  assumes i: "inv Z ex s" and w: "wrote (D s ROOT_DIR_SECTOR) q ys s s'" and es: "entries s' = (entries s)[j := e]"
    and j: "j < length (entries s)" "\<not> in_use (entries s ! j)" and e: "in_use e" "0 \<in> set (ename e)" "entry_name e \<noteq> []"
    and fresh: "dir_map (entries s) (entry_name e) = None" and k: "inode_sector e = k" "k \<notin> live s" and r: "regions_ok (insert k (live s)) s"
  shows "inv Z ex s'" "fs_abs s' = (fs_abs s)(entry_name e \<mapsto> contents (D s k) s)" "live s' = insert k (live s)" "same_but_data s s'"
proof -
  note I = invD [OF i] and W = wrote_views [OF i live_simps(2) live_simps(3) [symmetric] w]
  have b: "same_but_data s s'" and out: "\<And>i. i \<notin> ext (D s ROOT_DIR_SECTOR) \<Longrightarrow> sectors (dev s') i = sectors (dev s) i"
    using w by (auto simp: wrote_def ext_def not_le)
  show "same_but_data s s'" by fact
  have f: "inodes s' = inodes s" "bsize (dev s') = bsize (dev s)" "free_map s' = free_map s" using b by (simp_all add: same_but_data_def)
  note K = region_kept [OF r insertI2 [OF live_simps(2)] _ out]
  have "k \<noteq> ROOT_DIR_SECTOR" using k(2) live_simps(2) [of s] by metis
  then have dk: "D s' k = D s k" "contents (D s k) s' = contents (D s k) s" using K(1) [of k] K(3) [of k] by auto
  have ok: "entries_ok (entries s)" using I(5) by (simp add: root_ok_def)
  have "x \<in> in_uses (entries s) \<Longrightarrow> inode_sector x \<in> live s" for x by (auto simp: live_def dir_sectors_uses)
  moreover have "x \<in> in_uses (entries s) \<Longrightarrow> entry_name x \<noteq> entry_name e" for x using fresh dir_map_iff [OF ok, of "entry_name x" "inode_sector x"] by auto
  ultimately have fr: "\<forall>x\<in>in_uses (entries s). entry_name x \<noteq> entry_name e \<and> inode_sector x \<noteq> inode_sector e" using k by metis
  have "inode_sector e \<notin> {FREE_MAP_SECTOR, ROOT_DIR_SECTOR}" using k live_simps(1,2) [of s] by (metis insertE emptyE)
  note E = entries_ok_add [OF ok j e this fr]
  have U: "in_uses (entries s') = insert e (in_uses (entries s))" unfolding es by (rule in_uses_update(1) [OF j e(1)])
  have ds: "dir_sectors s' = insert k (dir_sectors s)" by (simp add: dir_sectors_uses U k)
  show l: "live s' = insert k (live s)" by (auto simp: live_def ds open_sectors_def f)
  have "regions_ok (live s') s'"
    unfolding l by (rule regions_cong [OF r _ f(2)]) (use dk W(1) in \<open>auto simp: used_def f\<close>)
  moreover have "root_ok s'" using I(5) E(1) W(1) [of ROOT_DIR_SECTOR] by (simp add: root_ok_def es)
  moreover have "isector n \<noteq> k" if "inodes s p = Some n" for p n using live_open [OF that] k(2) by auto
  then have "removed_ok s'" using I(7) unfolding removed_ok_def f ds by auto
  ultimately show "inv Z ex s'" using W(4-8) by (simp add: inv_def)
  have "contents (D s' x) s' = contents (D s x) s" if "dir_map (entries s) nm = Some x" for nm x
  proof -
    have "x \<in> dir_sectors s" using that dir_map_iff [OF ok] by (auto simp: dir_sectors_uses)
    then have "x \<in> live s" "x \<noteq> ROOT_DIR_SECTOR" using ok by (auto simp: live_def dir_sectors_def entries_ok_def)
    then show ?thesis using W(1,2) by simp
  qed
  then show "fs_abs s' = (fs_abs s)(entry_name e \<mapsto> contents (D s k) s)"
    using E(2) k(1) dk by (auto simp: fs_abs_def es fun_eq_iff intro!: option.map_cong0)
qed

text \<open>Marking an open inode as removed.\<close>

lemma flag_ok:
  assumes m: "map_ok s" and r: "refs_ok Z ex s" and p: "inodes s p = Some n" "isector n \<noteq> FREE_MAP_SECTOR"
  shows "map_ok (upd_inode p (\<lambda>i. i\<lparr>removed := True\<rparr>) s)" "refs_ok Z ex (upd_inode p (\<lambda>i. i\<lparr>removed := True\<rparr>) s)"
proof -
  let ?s = "upd_inode p (\<lambda>i. i\<lparr>removed := True\<rparr>) s"
  note R = refs_okD [OF r]
  have q: "quiet s ?s" by (simp add: quiet_def)
  note Q = quiet_views [OF q]
  obtain f0 x0 n0 where f0: "free_map_file s = Some f0" "files s f0 = Some x0" "inodes s (finode x0) = Some n0" "isector n0 = FREE_MAP_SECTOR"
    "deny_write_cnt n0 = 0" "idata n0 = D s FREE_MAP_SECTOR" by (rule free_map_inode [OF m])
  have "finode x0 \<noteq> p" using f0 p by auto
  then have "\<exists>f x i. free_map_file ?s = Some f \<and> files ?s f = Some x \<and> inodes ?s (finode x) = Some i \<and> isector i = FREE_MAP_SECTOR
      \<and> deny_write_cnt i = 0 \<and> idata i = D ?s FREE_MAP_SECTOR"
    using f0 by (intro exI [of _ f0] exI [of _ x0] exI [of _ n0]) (simp add: Q)
  then show "map_ok ?s" using m unfolding map_ok_def map_open_def by (simp add: Q)
  have op: "openers Z ?s r = openers Z s r" "deniers Z ?s r = deniers Z s r" for r by (simp_all add: openers_def deniers_def)
  have ik: "inode_ok Z ex ?s r m" if "inodes ?s r = Some m" for r m
    using that R(3) [of r] p(1) unfolding inode_ok_def op Q by (auto split: if_splits)
  show "refs_ok Z ex ?s"
    unfolding refs_ok_def
  proof (intro conjI allI impI)
    show "distinct (open_inodes ?s)" using R(1) by simp
    show "inodes ?s r \<noteq> None \<longleftrightarrow> r \<in> set (open_inodes ?s)" for r using R(2) [of r] p(1) by auto
    show "inodes ?s r = Some m \<Longrightarrow> inode_ok Z ex ?s r m" for r m by (rule ik)
    show "inodes ?s r = Some m \<Longrightarrow> inodes ?s r' = Some m' \<Longrightarrow> isector m = isector m' \<Longrightarrow> r = r'" for r r' m m'
      using R(4) [of r "if r = p then n else m" r' "if r' = p then n else m'"] p(1) by (auto split: if_splits)
    show "files ?s h = Some y \<Longrightarrow> h < nextp ?s" for h y using R(5) [of h] by simp
    show "files ?s h = Some y \<Longrightarrow> h \<notin> Z \<Longrightarrow> inodes ?s (finode y) \<noteq> None" for h y using R(6) [of h] by auto
    show "inodes ?s r = None \<Longrightarrow> ex r = 0" for r using R(7) [of r] by (simp split: if_splits)
    show "\<forall>f\<in>Z. free_map_file ?s \<noteq> Some f" using R(8) by simp
  qed
qed

section \<open>Removing an entry\<close>

lemma remove_entry_inv:
  assumes i: "inv Z ex s" and w: "wrote (D s ROOT_DIR_SECTOR) q ys s t" and es: "entries t = (entries s)[j := e]"
    and j: "j < length (entries s)" "in_use (entries s ! j)" and e: "\<not> in_use e"
    and p: "inodes s p = Some n" "isector n = inode_sector (entries s ! j)"
  defines "s' \<equiv> upd_inode p (\<lambda>i. i\<lparr>removed := True\<rparr>) t"
  shows "inv Z ex s'" "fs_abs s' = (fs_abs s)(entry_name (entries s ! j) := None)" "live s' = live s" "\<And>k. k \<in> live s \<Longrightarrow> D s' k = D s k"
    "\<And>k. k \<in> live s \<Longrightarrow> k \<noteq> ROOT_DIR_SECTOR \<Longrightarrow> contents (D s k) s' = contents (D s k) s"
proof -
  note I = invD [OF i] and W = wrote_views [OF i live_simps(2) live_simps(3) [symmetric] w]
  have f: "inodes t = inodes s" "files t = files s" "free_map_file t = free_map_file s" "nextp t = nextp s" using w by (simp_all add: wrote_def same_but_data_def)
  have q: "quiet t s'" by (simp add: quiet_def s'_def)
  note Q = quiet_views [OF q]
  have ok: "entries_ok (entries s)" using I(5) by (simp add: root_ok_def)
  note E = entries_ok_remove [OF ok j e]
  have U: "in_uses (entries t) = in_uses (entries s) - {entries s ! j}" unfolding es by (rule in_uses_update(2) [OF j(1) ok j(2) e])
  have jin: "entries s ! j \<in> in_uses (entries s)" using j by (simp add: in_uses_def)
  have np: "isector n \<notin> {FREE_MAP_SECTOR, ROOT_DIR_SECTOR}" using ok jin p(2) by (auto simp: entries_ok_def in_uses_def)
  have "inode_sector x = isector n \<longleftrightarrow> x = entries s ! j" if "x \<in> in_uses (entries s)" for x using in_uses_inj [OF ok that jin] p(2) by auto
  then have ds: "dir_sectors t = dir_sectors s - {isector n}" unfolding dir_sectors_uses U by auto
  have os: "open_sectors s' = open_sectors s" unfolding open_sectors_iff s'_def using p(1) f(1) by (intro Collect_cong ex_cong1) simp
  have "isector n \<in> open_sectors s" using p(1) by (auto simp: open_sectors_def)
  moreover have "isector n \<in> dir_sectors s" using jin p(2) by (auto simp: dir_sectors_uses)
  ultimately show l: "live s' = live s" by (auto simp: live_def os Q ds)
  have "map_ok s'" "refs_ok Z ex s'" using flag_ok [OF W(6,7), of p n] p(1) f np by (simp_all add: s'_def)
  moreover have "removed_ok s'"
    unfolding removed_ok_def
  proof (intro allI impI)
    fix r m assume "inodes s' r = Some m"
    then obtain m0 where m0: "inodes s r = Some m0" "isector m = isector m0" "removed m \<longleftrightarrow> r = p \<or> removed m0"
      by (auto simp: s'_def f split: if_splits)
    have "removed m0 \<longleftrightarrow> isector m0 \<notin> {FREE_MAP_SECTOR, ROOT_DIR_SECTOR} \<union> dir_sectors s" using I(7) m0(1) by (simp add: removed_ok_def)
    moreover have "isector m0 = isector n \<longleftrightarrow> r = p" using refs_okD(4) [OF I(6) m0(1) p(1)] m0(1) p(1) by auto
    ultimately show "removed m \<longleftrightarrow> isector m \<notin> {FREE_MAP_SECTOR, ROOT_DIR_SECTOR} \<union> dir_sectors s'"
      using np m0(2,3) by (auto simp: Q ds)
  qed
  moreover have "root_ok s'" using I(5) E(1) W(1) [of ROOT_DIR_SECTOR] by (simp add: root_ok_def Q es)
  moreover have "dev_ok s'" "mem_ok s'" using W(4,5) Q by (simp_all add: s'_def dev_ok_def mem_ok_def)
  moreover have "regions_ok (live s') s'" using W(8) by (simp add: l Q)
  ultimately show "inv Z ex s'" by (simp add: inv_def)
  show d: "D s' k = D s k" if "k \<in> live s" for k using W(1) [OF that] by (simp add: Q)
  show c: "contents (D s k) s' = contents (D s k) s" if "k \<in> live s" "k \<noteq> ROOT_DIR_SECTOR" for k using W(2) [OF that] by (simp add: Q)
  have "contents (D s' x) s' = contents (D s x) s" if "dir_map (entries s) nm = Some x" for nm x
  proof -
    have "x \<in> dir_sectors s" using that dir_map_iff [OF ok] by (auto simp: dir_sectors_uses)
    then have "x \<in> live s" "x \<noteq> ROOT_DIR_SECTOR" using ok by (auto simp: live_def dir_sectors_def entries_ok_def)
    then show ?thesis using c d by simp
  qed
  then show "fs_abs s' = (fs_abs s)(entry_name (entries s ! j) := None)"
    using E(2) by (auto simp: fs_abs_def Q es fun_eq_iff intro!: option.map_cong0)
qed

end
