(* ===== verification/FsSys.thy ===== *)
theory FsSys
  imports FsDir
begin

text \<open>
  The file system by names: opening, removing and creating files refine the corresponding changes of a map from names
  to contents, keeping the invariant. The invariant holds between system calls: no operation holds a reference to an
  inode, and no file is open on the root directory, nor on the free map but the file system's own.
\<close>

section \<open>The invariant between operations\<close>

definition files_ok :: "fs \<Rightarrow> bool" where
  "files_ok s \<longleftrightarrow> (\<forall>f x. files s f = Some x \<longrightarrow> 0 \<le> fpos x \<and>
     (\<forall>n. inodes s (finode x) = Some n \<longrightarrow> isector n \<noteq> ROOT_DIR_SECTOR \<and> (isector n = FREE_MAP_SECTOR \<longrightarrow> free_map_file s = Some f)))"

definition fs_ok :: "fs \<Rightarrow> bool" where
  "fs_ok s \<longleftrightarrow> inv {} (\<lambda>_. 0) s \<and> files_ok s"

lemma files_ok_sub:
  assumes i: "inv {} ex s" and ok: "files_ok s" and s': "\<And>g z. files s' g = Some z \<Longrightarrow> files s g = Some z" "free_map_file s' = free_map_file s" "secs_kept s s'"
  shows "files_ok s'"
  unfolding files_ok_def s'(2)
proof (intro allI impI)
  fix f x assume "files s' f = Some x"
  then have f: "files s f = Some x" by (rule s'(1))
  have "inodes s (finode x) \<noteq> None" by (rule refs_okD(6) [OF invD(6) [OF i] f]) simp
  then obtain m where m: "inodes s (finode x) = Some m" by blast
  have "0 \<le> fpos x \<and> isector m \<noteq> ROOT_DIR_SECTOR \<and> (isector m = FREE_MAP_SECTOR \<longrightarrow> free_map_file s = Some f)"
    using ok f m unfolding files_ok_def by blast
  moreover have "isector n = isector m" if "inodes s' (finode x) = Some n" for n using s'(3) m that unfolding secs_kept_def by blast
  ultimately show "0 \<le> fpos x \<and> (\<forall>n. inodes s' (finode x) = Some n \<longrightarrow> isector n \<noteq> ROOT_DIR_SECTOR \<and> (isector n = FREE_MAP_SECTOR \<longrightarrow> free_map_file s = Some f))"
    by metis
qed

lemma files_ok_step:
  assumes "inv {} ex s" "files_ok s" "files s' = files s" "free_map_file s' = free_map_file s" "secs_kept s s'"
  shows "files_ok s'"
  by (rule files_ok_sub [OF assms(1,2) _ assms(4,5)]) (simp add: assms(3))

text \<open>Every open file keeps its inode's sector.\<close>

definition fkept :: "fs \<Rightarrow> fs \<Rightarrow> bool" where
  "fkept s s' \<longleftrightarrow> files s' = files s
     \<and> (\<forall>f x n. files s f = Some x \<longrightarrow> inodes s (finode x) = Some n \<longrightarrow> (\<exists>m. inodes s' (finode x) = Some m \<and> isector m = isector n))"

lemma fkept_trans: "fkept s t \<Longrightarrow> fkept t u \<Longrightarrow> fkept s u"
  unfolding fkept_def by metis

lemma fkeptI:
  assumes i: "inv {} ex s'" and s': "files s' = files s" "secs_kept s s'"
  shows "fkept s s'"
proof -
  have "\<exists>m. inodes s' (finode x) = Some m \<and> isector m = isector n" if "files s f = Some x" "inodes s (finode x) = Some n" for f x n
  proof -
    have "files s' f = Some x" using that(1) s'(1) by simp
    then have "inodes s' (finode x) \<noteq> None" by (rule refs_okD(6) [OF invD(6) [OF i]]) simp
    then show ?thesis using that(2) s'(2) unfolding secs_kept_def by blast
  qed
  then show ?thesis using s'(1) unfolding fkept_def by blast
qed

lemma kept_free_map_file: "kept s s' \<Longrightarrow> free_map_file s' = free_map_file s" and quiet_free_map_file: "quiet s s' \<Longrightarrow> free_map_file s' = free_map_file s"
  by (simp_all add: kept_def quiet_def)

lemma same_data_files:
  assumes "same_data s s'"
  shows "files s' = files s" "inodes s' = inodes s" "free_map_file s' = free_map_file s" "open_inodes s' = open_inodes s" "nextp s' = nextp s"
  using assms by (simp_all add: same_data_def same_but_data_def)

lemma same_data_files_ok: "same_data s s' \<Longrightarrow> files_ok s \<Longrightarrow> files_ok s'"
  by (simp add: files_ok_def same_data_files)

lemma same_data_fkept: "same_data s s' \<Longrightarrow> fkept s s'"
  by (simp add: fkept_def same_data_files)

lemma root_undenied:
  assumes i: "inv {} ex s" and ok: "files_ok s" and n: "inodes s p = Some n" "isector n = ROOT_DIR_SECTOR"
  shows "deny_write_cnt n = 0"
proof -
  have "deniers {} s p = {}" using ok n by (auto simp: deniers_def files_ok_def)
  then show ?thesis using refs_okD(3) [OF invD(6) [OF i] n(1)] by (simp add: inode_ok_def)
qed

lemma open_kept:
  assumes "quiet s s'" "\<forall>q. q \<noteq> p \<longrightarrow> inodes s' q = inodes s q" "inodes s' p = Some n" "isector n \<in> live s"
  shows "kept s s'"
proof (rule quiet_kept [OF assms(1)])
  have "isector m \<in> live s" if "inodes s' q = Some m" for q m using assms(2-4) that live_open [of s q m] by (cases "q = p") auto
  then show "open_sectors s' \<subseteq> live s" by (auto simp: open_sectors_def)
qed

lemma same_data_kept: "same_data s s' \<Longrightarrow> kept s s'"
  by (rule quiet_kept [OF same_data_quiet]) (auto simp: open_sectors_def live_def same_data_files)

section \<open>The root directory around an operation\<close>

lemma dir_open_root_ok:
  assumes i: "inv {} ex s" and ok: "files_ok s"
  shows "\<exists>s' p. dir_open_root s = Inr (s', Some \<lparr>dinode = p, dpos = 0\<rparr>) \<and> inv {} (bump p ex) s' \<and> files_ok s' \<and> kept s s' \<and> at_root p s' \<and> files s' = files s \<and> quiet s s' \<and> fkept s s'"
proof -
  obtain t p n where t: "inode_open ROOT_DIR_SECTOR s = Inr (t, Some p)" "inv {} (bump p ex) t" "quiet s t" "files t = files s"
      "inodes t p = Some n" "isector n = ROOT_DIR_SECTOR" "secs_kept s t" "\<forall>q. q \<noteq> p \<longrightarrow> inodes t q = inodes s q"
    using inode_open_ok [OF i, of ROOT_DIR_SECTOR] by auto
  obtain u b where u: "malloc t = (u, b)" by fastforce
  have du: "same_data t u" "b" using malloc_same [OF u] invD(2) [OF t(2)] by auto
  have "files_ok t" by (rule files_ok_step [OF i ok t(4) quiet_free_map_file [OF t(3)] t(7)])
  then have "files_ok u" by (rule same_data_files_ok [OF du(1)])
  moreover have "dir_open_root s = Inr (u, Some \<lparr>dinode = p, dpos = 0\<rparr>)" using t(1) u du(2) by (simp add: dir_open_root_def dir_open_def)
  moreover have "inv {} (bump p ex) u" by (rule same_data_inv [OF t(2) du(1)])
  moreover have "kept s u" using open_kept [OF t(3,8,5)] t(6) kept_trans [OF _ same_data_kept [OF du(1)]] by simp
  moreover have "at_root p u" using t(5,6) by (simp add: at_root_def same_data_files [OF du(1)])
  moreover have "quiet s u" by (rule quiet_trans [OF t(3) same_data_quiet [OF du(1)]])
  moreover have "fkept s u" by (rule fkept_trans [OF fkeptI [OF t(2,4,7)] same_data_fkept [OF du(1)]])
  ultimately show ?thesis using t(4) same_data_files [OF du(1)] by (intro exI [of _ u] exI [of _ p]) simp
qed

lemma dir_close_ok:
  assumes i: "inv {} ex s" and ok: "files_ok s" and p: "at_root p s" "0 < ex p"
  shows "\<exists>s'. dir_close (Some \<lparr>dinode = p, dpos = q\<rparr>) s = Inr s' \<and> inv {} (drop_ref p ex) s' \<and> files_ok s' \<and> kept s s' \<and> files s' = files s
    \<and> (\<forall>q. q \<noteq> p \<longrightarrow> inodes s' q = inodes s q) \<and> fkept s s'"
proof -
  obtain n where n: "inodes s p = Some n" "isector n = ROOT_DIR_SECTOR" using p(1) by (auto simp: at_root_def)
  obtain s' where s': "inode_close (Some p) s = Inr s'" "inv {} (drop_ref p ex) s'" "kept s s'" "files s' = files s" "secs_kept s s'"
      "\<forall>q. q \<noteq> p \<longrightarrow> inodes s' q = inodes s q"
    using inode_close_ok [OF i n(1) p(2)] by blast
  moreover have "files_ok s'" by (rule files_ok_step [OF i ok s'(4) kept_free_map_file [OF s'(3)] s'(5)])
  moreover have "fkept s s'" by (rule fkeptI [OF s'(2,4,5)])
  ultimately show ?thesis by (simp add: dir_close_def)
qed

lemma drop_bump: "drop_ref r (bump p (bump r ex)) = bump p ex"
  by (auto simp: drop_ref_def bump_def fun_eq_iff)

section \<open>Opening a file\<close>

lemma filesys_open_ok:
  assumes ok: "fs_ok s"
  shows "dir_map (entries s) nm = None \<Longrightarrow> \<exists>s'. filesys_open nm s = Inr (s', None) \<and> fs_ok s' \<and> kept s s' \<and> files s' = files s"
    and "dir_map (entries s) nm = Some k \<Longrightarrow> \<exists>s' f p n. filesys_open nm s = Inr (s', Some f) \<and> fs_ok s' \<and> kept s s' \<and> files s f = None
      \<and> files s' = (files s)(f \<mapsto> \<lparr>finode = p, fpos = 0, deny_write = False\<rparr>) \<and> inodes s' p = Some n \<and> isector n = k"
proof -
  have i: "inv {} (\<lambda>_. 0) s" and fo: "files_ok s" using ok by (simp_all add: fs_ok_def)
  let ?d = "\<lambda>r. \<lparr>dinode = r, dpos = 0\<rparr>"
  obtain t r where t: "dir_open_root s = Inr (t, Some (?d r))" "inv {} (bump r (\<lambda>_. 0)) t" "files_ok t" "kept s t" "at_root r t" "files t = files s"
    using dir_open_root_ok [OF i fo] by blast
  have et: "entries t = entries s" using t(4) by (simp add: kept_def)
  have rt: "at_root (dinode (?d r)) t" using t(5) by simp
  {
    assume none: "dir_map (entries s) nm = None"
    show "\<exists>s'. filesys_open nm s = Inr (s', None) \<and> fs_ok s' \<and> kept s s' \<and> files s' = files s"
    proof (cases rule: lookup_ok [OF t(2) rt, of nm])
      case (2 u)
      have ru: "at_root r u" using t(5) by (simp add: at_root_def same_data_files [OF 2(2)])
      obtain v where v: "dir_close (Some (?d r)) u = Inr v" "inv {} (\<lambda>_. 0) v" "files_ok v" "kept u v" "files v = files u"
        using dir_close_ok [OF same_data_inv [OF t(2) 2(2)] same_data_files_ok [OF 2(2) t(3)] ru] by auto
      obtain w b where w: "malloc v = (w, b)" by fastforce
      have dw: "same_data v w" using malloc_same [OF w] by simp
      have "filesys_open nm s = Inr (w, None)" using t(1) 2(1) v(1) w by (simp add: filesys_open_def dir_lookup_def file_open_def inode_close_def)
      moreover have "kept s w" using t(4) same_data_kept [OF 2(2)] v(4) same_data_kept [OF dw] kept_trans by blast
      moreover have "fs_ok w" using same_data_inv [OF v(2) dw] same_data_files_ok [OF dw v(3)] by (simp add: fs_ok_def)
      ultimately show ?thesis using same_data_files(1) [OF dw] v(5) same_data_files(1) [OF 2(2)] t(6) by auto
    qed (use none et in simp)
  }
  assume some: "dir_map (entries s) nm = Some k"
  show "\<exists>s' f p n. filesys_open nm s = Inr (s', Some f) \<and> fs_ok s' \<and> kept s s' \<and> files s f = None
      \<and> files s' = (files s)(f \<mapsto> \<lparr>finode = p, fpos = 0, deny_write = False\<rparr>) \<and> inodes s' p = Some n \<and> isector n = k"
  proof (cases rule: lookup_ok [OF t(2) rt, of nm])
    case (1 u j)
    then have kj: "inode_sector (entries s ! j) = k" using some et by simp
    note iu = same_data_inv [OF t(2) 1(2)] and fu = same_data_files_ok [OF 1(2) t(3)] and F = same_data_files [OF 1(2)]
    have "entries u = entries s" using quiet_views(3) [OF same_data_quiet [OF 1(2)]] et by simp
    then have kd: "k \<in> dir_sectors u" using 1(3,4) et kj by (auto simp: dir_sectors_def intro!: image_eqI)
    then obtain v p n where v: "inode_open k u = Inr (v, Some p)" "inv {} (bump p (bump r (\<lambda>_. 0))) v" "quiet u v" "files v = files u" "inodes v p = Some n"
        "isector n = k" "\<forall>q. q \<noteq> p \<longrightarrow> inodes v q = inodes u q" "secs_kept u v"
      using inode_open_ok [OF iu, of k] by auto
    have fv: "files_ok v" by (rule files_ok_step [OF iu fu v(4) quiet_free_map_file [OF v(3)] v(8)])
    have kl: "k \<in> live u" "k \<noteq> ROOT_DIR_SECTOR" "k \<noteq> FREE_MAP_SECTOR"
      using kd invD(5) [OF iu] by (auto simp: live_def dir_sectors_def root_ok_def entries_ok_def)
    obtain m where m: "inodes u r = Some m" "isector m = ROOT_DIR_SECTOR" using t(5) by (auto simp: at_root_def F)
    then have ne: "p \<noteq> r" using v(5,6,8) kl(2) unfolding secs_kept_def by metis
    have rv: "at_root r v" using t(5) v(7) ne by (simp add: at_root_def F)
    obtain w where w: "dir_close (Some (?d r)) v = Inr w" "inv {} (bump p (\<lambda>_. 0)) w" "files_ok w" "kept v w" "files w = files v" "inodes w p = Some n"
      using dir_close_ok [OF v(2) fv rv, unfolded drop_bump, of 0] v(5) ne by auto
    obtain x where x: "file_open (Some p) w = Inr (x, Some (nextp w))" "inv {} (\<lambda>_. 0) x" "quiet w x" "inodes x = inodes w"
        "files x = (files w)(nextp w \<mapsto> \<lparr>finode = p, fpos = 0, deny_write = False\<rparr>)"
      using file_open_ok [OF w(2,6)] by auto
    have kx: "kept w x" by (rule quiet_kept [OF x(3)]) (auto simp: open_sectors_def live_def x(4))
    have "files_ok x" using w(3,6) v(6) kl x(4,5) quiet_free_map_file [OF x(3)] by (auto simp: files_ok_def)
    then have "fs_ok x" using x(2) by (simp add: fs_ok_def)
    moreover have "kept s x" using t(4) same_data_kept [OF 1(2)] open_kept [OF v(3,7,5)] v(6) kl(1) w(4) kx kept_trans by metis
    moreover have "filesys_open nm s = Inr (x, Some (nextp w))"
      using t(1) 1(1) et kj v(1) w(1) x(1) by (simp add: filesys_open_def dir_lookup_def)
    moreover have "files w = files s" using w(5) v(4) F(1) t(6) by simp
    moreover have "files w (nextp w) = None" using refs_okD(5) [OF invD(6) [OF w(2)], of "nextp w"] by (cases "files w (nextp w)") auto
    ultimately show ?thesis using x(4,5) w(6) v(6) by (intro exI [of _ x] exI [of _ "nextp w"] exI [of _ p] exI [of _ n]) simp
  qed (use some et in simp)
qed

section \<open>Removing a file\<close>

text \<open>The data of the inodes that are still live.\<close>

definition data_kept :: "fs \<Rightarrow> fs \<Rightarrow> bool" where
  "data_kept s s' \<longleftrightarrow> (\<forall>k\<in>live s'. k \<in> live s \<and> D s' k = D s k
     \<and> (k \<notin> {FREE_MAP_SECTOR, ROOT_DIR_SECTOR} \<longrightarrow> contents (D s k) s' = contents (D s k) s))"

lemma kept_data: "kept s s' \<Longrightarrow> data_kept s s'"
  by (auto simp: kept_def data_kept_def)

lemma data_kept_trans: "data_kept s t \<Longrightarrow> data_kept t u \<Longrightarrow> data_kept s u"
  unfolding data_kept_def by metis

lemma kept_abs: "kept s s' \<Longrightarrow> fs_abs s' = fs_abs s" and kept_entries: "kept s s' \<Longrightarrow> entries s' = entries s"
  by (simp_all add: kept_def)

lemma dir_remove_ok:
  assumes i: "inv {} ex s" and fo: "files_ok s" and r: "at_root (dinode d) s"
  shows "dir_map (entries s) nm = None \<Longrightarrow> \<exists>s'. dir_remove d nm s = Inr (s', False) \<and> same_data s s'"
    and "dir_map (entries s) nm = Some k \<Longrightarrow> \<exists>s'. dir_remove d nm s = Inr (s', True) \<and> inv {} ex s' \<and> files_ok s' \<and> at_root (dinode d) s'
      \<and> fs_abs s' = (fs_abs s)(nm := None) \<and> data_kept s s' \<and> files s' = files s \<and> fkept s s'"
proof -
  show "\<exists>s'. dir_remove d nm s = Inr (s', False) \<and> same_data s s'" if none: "dir_map (entries s) nm = None"
    by (cases rule: lookup_ok [OF i r, of nm]) (use none in \<open>simp_all add: dir_remove_def\<close>)
  assume some: "dir_map (entries s) nm = Some k"
  show "\<exists>s'. dir_remove d nm s = Inr (s', True) \<and> inv {} ex s' \<and> files_ok s' \<and> at_root (dinode d) s'
      \<and> fs_abs s' = (fs_abs s)(nm := None) \<and> data_kept s s' \<and> files s' = files s \<and> fkept s s'"
  proof (cases rule: lookup_ok [OF i r, of nm])
    case (1 t j)
    let ?e = "entries s ! j" let ?p = "dinode d"
    have kj: "inode_sector ?e = k" using 1(6) some by simp
    note it = same_data_inv [OF i 1(2)] and ft = same_data_files_ok [OF 1(2) fo] and F = same_data_files [OF 1(2)]
    have et: "entries t = entries s" by (rule quiet_views(3) [OF same_data_quiet [OF 1(2)]])
    have kd: "k \<in> dir_sectors t" using 1(3,4) et kj by (auto simp: dir_sectors_def intro!: image_eqI)
    then obtain v p n where v: "inode_open k t = Inr (v, Some p)" "inv {} (bump p ex) v" "quiet t v" "files v = files t" "inodes v p = Some n"
        "isector n = k" "\<forall>q. q \<noteq> p \<longrightarrow> inodes v q = inodes t q" "secs_kept t v"
      using inode_open_ok [OF it, of k] by auto
    have fv: "files_ok v" by (rule files_ok_step [OF it ft v(4) quiet_free_map_file [OF v(3)] v(8)])
    have kl: "k \<in> live t" "k \<noteq> ROOT_DIR_SECTOR" "k \<noteq> FREE_MAP_SECTOR"
      using kd invD(5) [OF it] by (auto simp: live_def dir_sectors_def root_ok_def entries_ok_def)
    obtain m where m: "inodes t ?p = Some m" "isector m = ROOT_DIR_SECTOR" using r by (auto simp: at_root_def F)
    then have ne: "p \<noteq> ?p" using v(5,6,8) kl(2) unfolding secs_kept_def by metis
    then have mv: "inodes v ?p = Some m" using v(7) m by auto
    have kv: "kept s v" using same_data_kept [OF 1(2)] open_kept [OF v(3,7,5)] v(6) kl(1) kept_trans by metis
    have ev: "entries v = entries s" by (rule kept_entries [OF kv])
    have eb: "inode_sector (?e\<lparr>in_use := False\<rparr>) < u32_mod" "length (ename (?e\<lparr>in_use := False\<rparr>)) = 15"
      using entry_bounds [of ?e "contents (D s ROOT_DIR_SECTOR) s"] nth_mem [OF 1(3)] by (simp_all add: entries_def)
    obtain w where w: "inode_write_at ?p (entry_bytes (?e\<lparr>in_use := False\<rparr>)) (int DIR_ENTRY_SIZE) (int (20 * j)) v = Inr (w, DIR_ENTRY_SIZE)"
        "wrote (D v ROOT_DIR_SECTOR) (20 * j) (entry_bytes (?e\<lparr>in_use := False\<rparr>)) v w" "entries w = (entries v)[j := ?e\<lparr>in_use := False\<rparr>]"
      using put_entry(1) [OF v(2) mv m(2) root_undenied [OF v(2) fv mv m(2)] eb, of j] 1(3) ev by auto
    let ?x = "upd_inode p (\<lambda>i. i\<lparr>removed := True\<rparr>) w"
    have fw: "inodes w = inodes v" "files w = files v" "free_map_file w = free_map_file v" using w(2) by (simp_all add: wrote_def same_but_data_def)
    have "isector n = inode_sector (entries v ! j)" using v(6) kj ev by simp
    note X = remove_entry_inv [OF v(2) w(2,3), of p n, unfolded ev, OF 1(3,4) _ v(5) this [unfolded ev], simplified]
    have xp: "inodes ?x p = Some (n\<lparr>removed := True\<rparr>)" "inodes ?x ?p = Some m" using v(5) mv ne fw by simp_all
    have sx: "secs_kept v ?x" by (rule secs_keptI [of p]) (use v(5) fw in auto)
    then have fx: "files_ok ?x" by (intro files_ok_step [OF v(2) fv]) (simp_all add: fw)
    obtain y where y: "inode_close (Some p) ?x = Inr y" "inv {} ex y" "kept ?x y" "files y = files ?x" "\<forall>q. q \<noteq> p \<longrightarrow> inodes y q = inodes ?x q" "secs_kept ?x y"
      using inode_close_ok [OF X(1) xp(1)] by auto
    have "files_ok y" by (rule files_ok_step [OF X(1) fx y(4) kept_free_map_file [OF y(3)] y(6)])
    moreover have "dir_remove d nm s = Inr (y, True)"
      using 1(1) kj v(1) w(1) fw v(5) y(1) by (simp add: dir_remove_def inode_remove_def)
    moreover have "fs_abs y = (fs_abs s)(nm := None)" using kept_abs [OF y(3)] X(2) kept_abs [OF kv] 1(5) by simp
    moreover have "data_kept v ?x" using X(3,4,5) by (simp add: data_kept_def)
    then have "data_kept s y" using kept_data [OF kv] kept_data [OF y(3)] data_kept_trans by blast
    moreover have "at_root ?p y" using y(5) ne xp(2) m(2) by (auto simp: at_root_def)
    moreover have "files y = files s" using y(4) fw(2) v(4) F(1) by (simp add: fun_eq_iff)
    moreover have "fkept s y"
      using fkept_trans [OF fkept_trans [OF same_data_fkept [OF 1(2)] fkeptI [OF v(2,4,8)]] fkept_trans [OF fkeptI [OF X(1) _ sx] fkeptI [OF y(2,4,6)]]] fw(2)
      by (simp add: fun_eq_iff)
    ultimately show ?thesis using y(2) by blast
  qed (use some in simp)
qed

lemma filesys_remove_ok:
  assumes ok: "fs_ok s"
  shows "\<exists>s'. filesys_remove nm s = Inr (s', dir_map (entries s) nm \<noteq> None) \<and> fs_ok s' \<and> fs_abs s' = (fs_abs s)(nm := None)
    \<and> data_kept s s' \<and> files s' = files s \<and> fkept s s'"
proof -
  have i: "inv {} (\<lambda>_. 0) s" and fo: "files_ok s" using ok by (simp_all add: fs_ok_def)
  let ?d = "\<lambda>r. \<lparr>dinode = r, dpos = 0\<rparr>"
  obtain t r where t: "dir_open_root s = Inr (t, Some (?d r))" "inv {} (bump r (\<lambda>_. 0)) t" "files_ok t" "kept s t" "at_root r t" "files t = files s" "fkept s t"
    using dir_open_root_ok [OF i fo] by blast
  have rt: "at_root (dinode (?d r)) t" using t(5) by simp
  have et: "entries t = entries s" by (rule kept_entries [OF t(4)])
  have "\<exists>u. dir_remove (?d r) nm t = Inr (u, dir_map (entries s) nm \<noteq> None) \<and> inv {} (bump r (\<lambda>_. 0)) u \<and> files_ok u \<and> at_root r u
      \<and> fs_abs u = (fs_abs s)(nm := None) \<and> data_kept t u \<and> files u = files s \<and> fkept t u"
  proof (cases "dir_map (entries s) nm")
    case None
    then obtain u where u: "dir_remove (?d r) nm t = Inr (u, False)" "same_data t u" using dir_remove_ok(1) [OF t(2,3) rt, of nm] et by auto
    note F = same_data_files [OF u(2)]
    have "at_root r u" using t(5) by (simp add: at_root_def F)
    moreover have "(fs_abs s)(nm := None) = fs_abs u" using None kept_abs [OF t(4)] kept_abs [OF same_data_kept [OF u(2)]] by (auto simp: fs_abs_def)
    ultimately show ?thesis
      using None u(1) same_data_inv [OF t(2) u(2)] same_data_files_ok [OF u(2) t(3)] kept_data [OF same_data_kept [OF u(2)]] same_data_fkept [OF u(2)] F(1) t(6) by auto
  next
    case (Some k)
    then show ?thesis using dir_remove_ok(2) [OF t(2,3) rt, of nm k] et kept_abs [OF t(4)] t(6) by auto
  qed
  then obtain u where u: "dir_remove (?d r) nm t = Inr (u, dir_map (entries s) nm \<noteq> None)" "inv {} (bump r (\<lambda>_. 0)) u" "files_ok u" "at_root r u"
      "fs_abs u = (fs_abs s)(nm := None)" "data_kept t u" "files u = files s" "fkept t u" by blast
  obtain v where v: "dir_close (Some (?d r)) u = Inr v" "inv {} (\<lambda>_. 0) v" "files_ok v" "kept u v" "files v = files u" "fkept u v"
    using dir_close_ok [OF u(2,3,4)] by auto
  have "data_kept s v" using kept_data [OF t(4)] u(6) kept_data [OF v(4)] data_kept_trans by blast
  moreover have "filesys_remove nm s = Inr (v, dir_map (entries s) nm \<noteq> None)" using t(1) u(1) v(1) by (simp add: filesys_remove_def)
  moreover have "fkept s v" using t(7) u(8) v(6) fkept_trans by blast
  ultimately show ?thesis using v(2,3,5) u(5,7) kept_abs [OF v(4)] by (intro exI [of _ v]) (simp add: fs_ok_def)
qed

end
