(* ===== verification/FsCreate.thy ===== *)
theory FsCreate
  imports FsSys
begin

text \<open>
  Creating files: a new inode takes free sectors, is written and its data zeroed; then an entry is added to the directory. When a
  step fails the directory and the files are as before.
\<close>

section \<open>Writing outside the live inodes\<close>

lemma outside_inv:
  assumes i: "inv Z ex s" and b: "same_but_data s s'" "dev_ok s'"
    and out: "\<And>j x. j \<in> live s \<Longrightarrow> x \<in> region s j \<Longrightarrow> sectors (dev s') x = sectors (dev s) x"
  shows "inv Z ex s'" "kept s s'" "live s' = live s"
proof -
  note I = invD [OF i]
  have f: "inodes s' = inodes s" "files s' = files s" "open_inodes s' = open_inodes s" "nextp s' = nextp s" "free_map_file s' = free_map_file s"
    "free_map s' = free_map s" "bsize (dev s') = bsize (dev s)" using b(1) by (simp_all add: same_but_data_def)
  have d: "D s' j = D s j" if "j \<in> live s" for j by (rule D_cong) (rule out [OF that], simp add: region_def)
  have c: "contents (D s j) s' = contents (D s j) s" if "j \<in> live s" for j by (rule contents_cong) (rule out [OF that], simp add: region_def)
  then have v: "same_view s s'" using d by (simp add: same_view_def)
  show l: "live s' = live s" using same_view_dir_sectors [OF v] f(1) by (simp add: live_def open_sectors_def)
  show "kept s s'" using l same_view_entries [OF v] same_view_abs [OF v I(5)] f d c by (simp add: kept_def)
  have "map_ok s'" using I(3) unfolding map_ok_def map_open_def extent_ok_def f d [OF live_simps(1)] c [OF live_simps(1)] .
  moreover have "refs_ok Z ex s'" by (rule refs_cong [OF I(6) f(1,3,2,4,5)]) (use d in \<open>simp add: live_def\<close>)
  moreover have "regions_ok (live s') s'" unfolding l by (rule regions_cong [OF I(4) d f(7)]) (simp_all add: used_def f)
  moreover have "removed_ok s'" using I(7) f(1) same_view_dir_sectors [OF v] by (simp add: removed_ok_def)
  ultimately show "inv Z ex s'" using b(2) mem_ok_same [OF b(1) I(2)] same_view_root_ok [OF v I(5)] by (simp add: inv_def)
qed

lemma zero_sectors_ok:
  assumes "dev_ok s" "r + n \<le> bsize (dev s)"
  shows "\<exists>s'. zero_sectors r n s = Inr s' \<and> same_but_data s s' \<and> dev_ok s'
    \<and> sectors (dev s') = (\<lambda>x. if r \<le> x \<and> x < r + n then replicate 512 0 else sectors (dev s) x)"
  using assms
proof (induction n arbitrary: r s)
  case 0
  then show ?case by (intro exI [of _ s]) (auto simp: fun_eq_iff)
next
  case (Suc n)
  have r: "r < bsize (dev s)" "btype (dev s) \<noteq> BLOCK_FOREIGN" "bsize (dev s) < u32_mod" using Suc.prems by (auto simp: dev_ok_def)
  obtain t where t: "dev_write r (replicate 512 0) s = Inr t" "same_but_data s t" "sectors (dev t) = (sectors (dev s))(r := replicate 512 0)"
    using dev_write_in [OF r(1,2)] by blast
  have dt: "dev_ok t" "bsize (dev t) = bsize (dev s)" using Suc.prems(1) t(2,3) by (auto simp: dev_ok_def same_but_data_def)
  show ?case
  proof (cases n)
    case 0
    then show ?thesis using t dt(1) by (intro exI [of _ t]) (auto simp: fun_eq_iff)
  next
    case (Suc m)
    then have "add32 r 1 = Suc r" using r Suc.prems(2) by (simp add: add32_def)
    moreover obtain s' where "zero_sectors (Suc r) n t = Inr s'" "same_but_data t s'" "dev_ok s'"
        "sectors (dev s') = (\<lambda>x. if Suc r \<le> x \<and> x < Suc r + n then replicate 512 0 else sectors (dev t) x)"
      using Suc.IH [OF dt(1), of "Suc r"] Suc.prems(2) dt(2) by auto
    ultimately show ?thesis using t same_but_data_trans [OF t(2)] by (intro exI [of _ s']) (auto simp: fun_eq_iff)
  qed
qed

section \<open>Creating an inode\<close>

text \<open>A sector that has been set aside and belongs to no live inode.\<close>

definition set_aside :: "fs \<Rightarrow> nat \<Rightarrow> bool" where
  "set_aside s k \<longleftrightarrow> k < bsize (dev s) \<and> used s k \<and> (\<forall>j\<in>live s. k \<notin> region s j)"

definition same_open :: "fs \<Rightarrow> fs \<Rightarrow> bool" where
  "same_open s s' \<longleftrightarrow> inodes s' = inodes s \<and> files s' = files s \<and> open_inodes s' = open_inodes s \<and> nextp s' = nextp s \<and> free_map_file s' = free_map_file s"

lemma same_open_simps:
  "same_but_data s s' \<Longrightarrow> same_open s s'" "map_step s s' \<Longrightarrow> same_open s s'" "same_open s t \<Longrightarrow> same_open t u \<Longrightarrow> same_open s u"
  by (simp_all add: same_open_def same_but_data_def map_step_def)

lemma same_open_files_ok: "same_open s s' \<Longrightarrow> files_ok s \<Longrightarrow> files_ok s'"
  by (simp add: files_ok_def same_open_def)

lemma same_open_root: "same_open s s' \<Longrightarrow> at_root p s \<Longrightarrow> at_root p s'"
  by (simp add: at_root_def same_open_def)

lemma regions_insert:
  assumes "regions_ok U s" "extent_ok (D s k) s" "k < bsize (dev s)" "k \<notin> ext (D s k)" "\<forall>x\<in>region s k. used s x" "\<forall>j\<in>U. region s k \<inter> region s j = {}"
  shows "regions_ok (insert k U) s"
  using assms unfolding regions_ok_def by (simp add: Int_commute)

lemma write_inode_raw:
  assumes ok: "dev_ok s" and k: "k < bsize (dev s)" and len: "0 \<le> len" "len + 511 < 2 ^ 31"
    and r: "\<not> (r \<le> k \<and> k < r + bytes_to_sectors len)" "r + bytes_to_sectors len \<le> bsize (dev s)"
  defines "d \<equiv> \<lparr>start = r, ilength = len, magic = INODE_MAGIC\<rparr>"
  shows "\<exists>s'. bind_r (dev_write k (inode_bytes d) s) (zero_sectors r (bytes_to_sectors len)) = Inr s' \<and> same_but_data s s' \<and> dev_ok s'
    \<and> (\<forall>x. x \<noteq> k \<longrightarrow> \<not> (r \<le> x \<and> x < r + bytes_to_sectors len) \<longrightarrow> sectors (dev s') x = sectors (dev s) x)
    \<and> D s' k = d \<and> contents d s' = replicate (nat len) 0 \<and> ext d = {r..<r + bytes_to_sectors len} \<and> extent_ok d s'"
proof -
  let ?n = "bytes_to_sectors len"
  have kb: "btype (dev s) \<noteq> BLOCK_FOREIGN" "bsize (dev s) < u32_mod" using ok by (auto simp: dev_ok_def)
  have "r \<le> bsize (dev s)" using r(2) by linarith
  then have B: "bytes_inode (inode_bytes d) = d" "length (inode_bytes d) = 512" using inode_bytes_roundtrip [of d] kb(2) len by (auto simp: d_def)
  obtain t where t: "dev_write k (inode_bytes d) s = Inr t" "same_but_data s t" "sectors (dev t) = (sectors (dev s))(k := inode_bytes d)"
    using dev_write_in [OF k kb(1)] by blast
  have dt: "dev_ok t" "bsize (dev t) = bsize (dev s)" using ok t(2,3) B(2) by (auto simp: dev_ok_def same_but_data_def)
  obtain u where u: "zero_sectors r ?n t = Inr u" "same_but_data t u" "dev_ok u"
      "sectors (dev u) = (\<lambda>x. if r \<le> x \<and> x < r + ?n then replicate 512 0 else sectors (dev t) x)"
    using zero_sectors_ok [OF dt(1), of r ?n] r(2) dt(2) by auto
  have su: "same_but_data s u" by (rule same_but_data_trans [OF t(2) u(2)])
  have n: "sector_cnt d = ?n" using bytes_to_sectors_eq [OF len] by (simp add: sector_cnt_def d_def)
  then have ext: "ext d = {r..<r + ?n}" by (simp add: ext_def d_def)
  have "x div 512 < ?n" if "x < nat len" for x using that bytes_to_sectors_eq [OF len] by simp
  then have "contents d u = map (\<lambda>i. replicate 512 0 ! (i mod 512)) [0..<nat len]" unfolding contents_def u(4) by (simp add: d_def)
  also have "\<dots> = map (\<lambda>i. 0) [0..<nat len]" by simp
  finally have "contents d u = replicate (nat len) 0" by (simp add: map_replicate_const)
  moreover have "D u k = d" using B(1) r(1) by (auto simp: D_def u(4) t(3))
  moreover have "extent_ok d u" using len r(2) n su by (simp add: extent_ok_def d_def same_but_data_def)
  ultimately show ?thesis using t(1) u(1,3) su ext by (intro exI [of _ u]) (simp add: u(4) t(3))
qed

lemma write_inode:
  assumes i: "inv Z ex s" and k: "set_aside s k" and len: "0 \<le> len" "len + 511 < 2 ^ 31"
    and r: "\<And>x. r \<le> x \<Longrightarrow> x < r + bytes_to_sectors len \<Longrightarrow> used s x \<and> x \<noteq> k \<and> (\<forall>j\<in>live s. x \<notin> region s j)" "r + bytes_to_sectors len \<le> bsize (dev s)"
  shows "\<exists>s'. bind_r (dev_write k (inode_bytes \<lparr>start = r, ilength = len, magic = INODE_MAGIC\<rparr>) s) (zero_sectors r (bytes_to_sectors len)) = Inr s'
    \<and> inv Z ex s' \<and> kept s s' \<and> live s' = live s \<and> same_but_data s s' \<and> regions_ok (insert k (live s)) s' \<and> contents (D s' k) s' = replicate (nat len) 0"
proof -
  let ?d = "\<lparr>start = r, ilength = len, magic = INODE_MAGIC\<rparr>" let ?n = "bytes_to_sectors len"
  have kb: "k < bsize (dev s)" and kr: "\<not> (r \<le> k \<and> k < r + ?n)" using k r(1) by (auto simp: set_aside_def)
  obtain u where u: "bind_r (dev_write k (inode_bytes ?d) s) (zero_sectors r ?n) = Inr u" and su: "same_but_data s u" and du: "dev_ok u"
      and o: "\<forall>x. x \<noteq> k \<longrightarrow> \<not> (r \<le> x \<and> x < r + ?n) \<longrightarrow> sectors (dev u) x = sectors (dev s) x"
      and dk: "D u k = ?d" "contents ?d u = replicate (nat len) 0" "ext ?d = {r..<r + ?n}" "extent_ok ?d u"
    using write_inode_raw [OF invD(1) [OF i] kb len kr r(2)] by blast
  have out: "sectors (dev u) x = sectors (dev s) x" if "j \<in> live s" "x \<in> region s j" for j x
  proof -
    have "x \<noteq> k" using that k by (auto simp: set_aside_def)
    then show ?thesis using that r(1) [of x] o by blast
  qed
  have O: "inv Z ex u" "kept s u" "live u = live s" by (rule outside_inv [OF i su du], rule out, assumption+)+
  have "regions_ok (insert k (live s)) u"
  proof (rule regions_insert)
    show "regions_ok (live s) u" using invD(4) [OF O(1)] O(3) by simp
    have us: "used u x = used s x" for x using su by (simp add: used_def same_but_data_def)
    show "extent_ok (D u k) u" "k < bsize (dev u)" "k \<notin> ext (D u k)" using dk kr kb su by (auto simp: same_but_data_def)
    have rk: "region u k = insert k {r..<r + ?n}" by (simp add: region_def dk)
    show "\<forall>x\<in>region u k. used u x" using r(1) k by (auto simp: rk us set_aside_def)
    have "region u j = region s j" if "j \<in> live s" for j using O(2,3) that by (simp add: kept_def region_def)
    then show "\<forall>j\<in>live s. region u k \<inter> region u j = {}" using r(1) k by (auto simp: rk set_aside_def)
  qed
  then show ?thesis using u O su dk by (intro exI [of _ u]) simp
qed

lemma live_used: "inv Z ex s \<Longrightarrow> j \<in> live s \<Longrightarrow> x \<in> region s j \<Longrightarrow> used s x"
  using invD(4) by (auto simp: regions_ok_def)

lemma inode_create_cases:
  assumes i: "inv Z ex s" and k: "set_aside s k" and len: "0 \<le> len" "len + 511 < 2 ^ 31"
  obtains (made) s' where "inode_create k len s = Inr (s', True)" "inv Z ex s'" "kept s s'" "live s' = live s" "same_open s s'"
      "regions_ok (insert k (live s')) s'" "contents (D s' k) s' = replicate (nat len) 0" "set_aside s' k"
  | (full) s' where "inode_create k len s = Inr (s', False)" "same_data s s'" "\<And>x. \<not> free_run s x (bytes_to_sectors len)"
proof -
  let ?n = "bytes_to_sectors len"
  obtain t ok where t: "malloc s = (t, ok)" by fastforce
  then have td: "same_data s t" "ok" using malloc_same [OF t] invD(2) [OF i] by auto
  note it = same_data_inv [OF i td(1)] and Q = quiet_views [OF same_data_quiet [OF td(1)]]
  note I = invD [OF it] and F = same_data_files [OF td(1)]
  have tl: "live t = live s" "bsize (dev t) = bsize (dev s)" using td(1) by (simp_all add: live_def open_sectors_def Q F same_data_def same_but_data_def)
  show thesis
  proof (cases rule: free_map_allocate_cases [OF I(1-3), of ?n])
    case (1 r u)
    have al: "\<forall>j\<in>live t. \<forall>x\<in>region t j. used u x" using live_used [OF it] 1(4) by blast
    note U = map_step_inv [OF it 1(2) al] and kt = map_step_kept [OF it 1(2) al]
    have ru: "region u j = region t j" if "j \<in> live t" for j using U(2) that by (simp add: same_view_def region_def)
    have ub: "bsize (dev u) = bsize (dev t)" using 1(2) by (simp add: map_step_def)
    have ku: "set_aside u k" using k 1(4) ub ru by (simp add: set_aside_def U(3) tl Q)
    have nr: "used u x \<and> x \<noteq> k \<and> (\<forall>j\<in>live u. x \<notin> region u j)" if "r \<le> x" "x < r + ?n" for x
    proof -
      have "\<not> used t x" using 1(3) that by (simp add: free_run_def)
      then show ?thesis using k 1(4) that live_used [OF it] ru by (auto simp: set_aside_def U(3) Q)
    qed
    obtain v where v: "bind_r (dev_write k (inode_bytes \<lparr>start = r, ilength = len, magic = INODE_MAGIC\<rparr>) u) (zero_sectors r ?n) = Inr v"
        "inv Z ex v" "kept u v" "live v = live u" "same_but_data u v" "regions_ok (insert k (live u)) v" "contents (D v k) v = replicate (nat len) 0"
      using write_inode [where r = r, OF U(1) ku len] nr 1(3) ub by (auto simp: free_run_def)
    have "inode_create k len s = Inr (v, True)" using len(1) t td(2) 1(1) v(1) by (auto simp: inode_create_def Let_def bind_r_def split: sum.splits)
    moreover have "kept s v" using same_data_kept [OF td(1)] kt v(3) kept_trans by blast
    moreover have "same_open s v" using td(1) 1(2) v(5) same_open_simps by (meson same_data_def)
    moreover have "region v j = region u j" if "j \<in> live u" for j using v(3,4) that by (simp add: kept_def region_def)
    then have "set_aside v k" using ku v(4,5) by (simp add: set_aside_def used_def same_but_data_def)
    ultimately show thesis using made [of v] v U(3) tl(1) by simp
  next
    case 2
    then have "inode_create k len s = Inr (t, False)" using len(1) t td(2) by (simp add: inode_create_def)
    moreover have "\<not> free_run s x ?n" for x using 2(2) [of x] by (simp add: free_run_def tl(2) Q)
    ultimately show thesis using full td(1) by blast
  qed
qed

section \<open>Adding to the directory\<close>

lemma named_entry:
  assumes "0 \<notin> set nm" "nm \<noteq> []" "length nm \<le> 14" "length xs = 15"
  shows "length (nm @ [0] @ drop (length nm + 1) xs) = 15" "takeWhile (\<lambda>c. c \<noteq> 0) (nm @ [0] @ drop (length nm + 1) xs) = nm"
proof -
  show "length (nm @ [0] @ drop (length nm + 1) xs) = 15" using assms(3,4) by simp
  have "takeWhile (\<lambda>c. c \<noteq> 0) (nm @ [0] @ drop (length nm + 1) xs) = nm @ takeWhile (\<lambda>c. c \<noteq> 0) ([0] @ drop (length nm + 1) xs)"
    by (rule takeWhile_append2) (use assms(1) in auto)
  then show "takeWhile (\<lambda>c. c \<noteq> 0) (nm @ [0] @ drop (length nm + 1) xs) = nm" by simp
qed

definition dir_room :: "byte list \<Rightarrow> fs \<Rightarrow> bool" where
  "dir_room nm s \<longleftrightarrow> nm \<noteq> [] \<and> length nm \<le> NAME_MAX \<and> dir_map (entries s) nm = None \<and> (\<exists>e\<in>set (entries s). \<not> in_use e)"

lemma dir_add_cases:
  assumes i: "inv {} ex s" and fo: "files_ok s" and d: "at_root (dinode d) s" and nm: "0 \<notin> set nm"
    and k: "k \<notin> live s" "regions_ok (insert k (live s)) s"
  obtains (added) s' where "dir_add d nm k s = Inr (s', True)" "dir_room nm s" "inv {} ex s'" "same_open s s'"
      "fs_abs s' = (fs_abs s)(nm \<mapsto> contents (D s k) s)"
  | (failed) s' where "dir_add d nm k s = Inr (s', False)" "\<not> dir_room nm s" "same_data s s'"
proof (cases "nm = [] \<or> length nm > NAME_MAX")
  case True
  then show thesis using failed [of s] by (auto simp: dir_add_def dir_room_def)
next
  case ok: False
  show thesis
  proof (cases rule: lookup_ok [OF i d, of nm])
    case (1 t j)
    then show thesis using ok failed [of t] by (simp add: dir_add_def dir_room_def)
  next
    case (2 t)
    note it = same_data_inv [OF i 2(2)] and ft = same_data_files_ok [OF 2(2) fo] and F = same_data_files [OF 2(2)]
    have dt: "at_root (dinode d) t" using d by (simp add: at_root_def F)
    have et: "entries t = entries s" by (rule quiet_views(3) [OF same_data_quiet [OF 2(2)]])
    obtain u ofs e f where u: "scan_slots (dinode d) (\<lambda>e. Inr (\<not> in_use e)) 0 t = Inr (u, ofs, e, f)" "same_data t u"
        "scanned (entries s) (\<lambda>e. \<not> in_use e) 0 (ofs, e, f)"
      using scan_slots_ok [where P = "\<lambda>e. Inr (\<not> in_use e)" and Q = "\<lambda>e. \<not> in_use e" and j = 0, OF it dt] et by auto
    have su: "same_data s u" by (rule same_data_trans [OF 2(2) u(2)])
    note iu = same_data_inv [OF i su] and fu = same_data_files_ok [OF su fo] and G = same_data_files [OF su] and Q = quiet_views [OF same_data_quiet [OF su]]
    have eu: "entries u = entries s" by (simp add: Q)
    obtain m where m: "inodes u (dinode d) = Some m" "isector m = ROOT_DIR_SECTOR" using d by (auto simp: at_root_def G)
    note un = root_undenied [OF iu fu m]
    have len: "length (ename e) = 15"
      using u(3) entry_bounds(2) [of e "contents (D s ROOT_DIR_SECTOR) s"] by (auto simp: scanned_def entries_def split: if_splits)
    let ?e = "e\<lparr>in_use := True, ename := nm @ [0] @ drop (length nm + 1) (ename e), inode_sector := k\<rparr>"
    have N: "length (ename ?e) = 15" "entry_name ?e = nm"
      using named_entry [OF nm, of "ename e"] ok len by (simp_all add: entry_name_def NAME_MAX_def)
    have kb: "inode_sector ?e < u32_mod" using k(2) invD(1) [OF i] by (auto simp: regions_ok_def dev_ok_def)
    show thesis
    proof (cases f)
      case False
      then have all: "ofs = 20 * length (entries u)" "\<forall>x\<in>set (entries s). in_use x" using u(3) eu by (auto simp: scanned_def in_set_conv_nth)
      have "dir_add d nm k s = Inr (u, False)"
        using ok 2(1) u(1) put_entry(2) [OF iu m un kb N(1) refl] all(1) by (simp add: dir_add_def Let_def DIR_ENTRY_SIZE_def)
      then show thesis using failed [of u] su all(2) by (simp add: dir_room_def)
    next
      case True
      then obtain j where j: "j < length (entries s)" "ofs = 20 * j" "\<not> in_use (entries s ! j)" using u(3) by (auto simp: scanned_def)
      obtain v where v: "inode_write_at (dinode d) (entry_bytes ?e) (int DIR_ENTRY_SIZE) (int (20 * j)) u = Inr (v, DIR_ENTRY_SIZE)"
          "wrote (D u ROOT_DIR_SECTOR) (20 * j) (entry_bytes ?e) u v" "entries v = (entries u)[j := ?e]"
        using put_entry(1) [OF iu m un kb N(1), of j] j(1) eu by auto
      have lu: "live u = live s" by (simp add: live_def open_sectors_def Q G)
      have A: "inv {} ex v" "fs_abs v = (fs_abs u)(entry_name ?e \<mapsto> contents (D u k) u)" "same_but_data u v"
        by (rule add_entry_inv [OF iu v(2,3)]; use j k ok N 2(3) eu lu in \<open>simp add: Q\<close>)+
      have "dir_add d nm k s = Inr (v, True)" using ok 2(1) u(1) v(1) j(2) by (simp add: dir_add_def Let_def)
      moreover have "dir_room nm s" using ok 2(3) j nth_mem [OF j(1)] by (auto simp: dir_room_def)
      moreover have "same_open s v" using A(3) su same_open_simps by (meson same_data_def)
      moreover have "fs_abs v = (fs_abs s)(nm \<mapsto> contents (D s k) s)" using A(2) unfolding N(2) Q .
      ultimately show thesis using added [of v] A(1) by blast
    qed
  qed
qed

section \<open>Creating a file\<close>

lemma set_aside_same: "same_data s s' \<Longrightarrow> set_aside s k \<Longrightarrow> set_aside s' k"
proof -
  assume d: "same_data s s'" and a: "set_aside s k"
  have "live s' = live s" by (simp add: live_def open_sectors_def quiet_views [OF same_data_quiet [OF d]] same_data_files [OF d])
  then show "set_aside s' k" using a d by (simp add: set_aside_def quiet_views [OF same_data_quiet [OF d]] same_data_def same_but_data_def)
qed

lemma allocate_aside:
  assumes i: "inv Z ex s" and f: "map_step s s'" "free_run s k 1" "\<And>x. used s' x \<longleftrightarrow> k \<le> x \<and> x < k + 1 \<or> used s x"
  shows "inv Z ex s'" "kept s s'" "set_aside s' k" "k \<notin> live s'" "k \<noteq> 0"
proof -
  have al: "\<forall>j\<in>live s. \<forall>x\<in>region s j. used s' x" using live_used [OF i] f(3) by blast
  note M = map_step_inv [OF i f(1) al]
  show "inv Z ex s'" "kept s s'" by (rule M(1)) (rule map_step_kept [OF i f(1) al])
  have r: "region s' j = region s j" if "j \<in> live s" for j using M(2) that by (simp add: same_view_def region_def)
  have nk: "k \<notin> region s j" if "j \<in> live s" for j using live_used [OF i that, of k] f(2) by (auto simp: free_run_def)
  then show "set_aside s' k" using f r by (auto simp: set_aside_def M(3) free_run_def map_step_def)
  then show "k \<notin> live s'" by (auto simp: set_aside_def region_def)
  then show "k \<noteq> 0" using live_simps(1) [of s'] unfolding FREE_MAP_SECTOR_def by metis
qed

lemma release_aside:
  assumes i: "inv Z ex s" and k: "set_aside s k"
  shows "\<exists>s'. free_map_release k 1 s = Inr s' \<and> inv Z ex s' \<and> kept s s' \<and> same_open s s'"
proof -
  note I = invD [OF i]
  obtain s' where s': "free_map_release k 1 s = Inr s'" "map_step s s'" "\<forall>x. used s' x \<longleftrightarrow> used s x \<and> \<not> (k \<le> x \<and> x < k + 1)"
    using free_map_release_ok [OF I(1-3), of k 1] k by (auto simp: set_aside_def le_less_Suc_eq)
  have "used s' x" if "j \<in> live s" "x \<in> region s j" for j x
  proof -
    have "x \<noteq> k" "used s x" using k that live_used [OF i that] by (auto simp: set_aside_def)
    then show ?thesis using s'(3) by auto
  qed
  then have u: "\<forall>j\<in>live s. \<forall>x\<in>region s j. used s' x" by blast
  show ?thesis using s'(1) map_step_inv(1) [OF i s'(2) u] map_step_kept [OF i s'(2) u] same_open_simps(2) [OF s'(2)] by blast
qed

text \<open>Between opening and closing the directory.\<close>

definition create_in :: "dir \<Rightarrow> byte list \<Rightarrow> int \<Rightarrow> fs \<Rightarrow> (fs \<times> nat \<times> bool) res" where
  "create_in dd nm len s = bind_r (free_map_allocate 1 s) (\<lambda>(s, r).
     case r of None \<Rightarrow> Inr (s, 0, False)
     | Some isec \<Rightarrow> bind_r (inode_create isec len s) (\<lambda>(s, ok).
         if ok then bind_r (dir_add dd nm isec s) (\<lambda>(s, ok). Inr (s, isec, ok)) else Inr (s, isec, False)))"

lemma second_run:
  assumes "free_run s i (Suc n)" "\<And>j. j < k \<Longrightarrow> \<not> free_run s j 1" "\<And>x. used t x \<longleftrightarrow> k \<le> x \<and> x < k + 1 \<or> used s x" "bsize (dev t) = bsize (dev s)"
  shows "free_run t (Suc i) n"
proof -
  have "free_run s i 1" using assms(1) by (simp add: free_run_def)
  then have "k \<le> i" using assms(2) [of i] by (metis leI)
  then show ?thesis using assms(1,3,4) by (simp add: free_run_def)
qed

lemma create_in_ok:
  assumes i: "inv {} ex s" and fo: "files_ok s" and d: "at_root (dinode d) s" and nm: "0 \<notin> set nm" and len: "0 \<le> len" "len + 511 < 2 ^ 31"
  shows "\<exists>s' k b. create_in d nm len s = Inr (s', k, b) \<and> inv {} ex s' \<and> same_open s s' \<and> (b \<longrightarrow> dir_room nm s)
    \<and> fs_abs s' = (if b then (fs_abs s)(nm \<mapsto> replicate (nat len) 0) else fs_abs s) \<and> (\<not> b \<and> k \<noteq> 0 \<longrightarrow> set_aside s' k)
    \<and> (dir_room nm s \<and> (\<exists>x. free_run s x (Suc (bytes_to_sectors len))) \<longrightarrow> b)"
proof -
  note I = invD [OF i]
  show ?thesis
  proof (cases rule: free_map_allocate_cases [OF I(1-3), of 1])
    case 2
    have "\<not> free_run s x (Suc n)" for x n using 2(2) [of x] by (auto simp: free_run_def)
    then show ?thesis using 2(1) i by (intro exI [of _ s] exI [of _ 0] exI [of _ False]) (simp add: create_in_def same_open_def)
  next
    case (1 k t)
    note A = allocate_aside [OF i 1(2,3,4)]
    have ft: "files_ok t" and dt: "at_root (dinode d) t" and so: "same_open s t" using same_open_simps(2) [OF 1(2)] fo d same_open_files_ok same_open_root by blast+
    have rt: "dir_room nm t = dir_room nm s" by (simp add: dir_room_def kept_entries [OF A(2)])
    show ?thesis
    proof (cases rule: inode_create_cases [OF A(1,3) len])
      case (2 u)
      have "\<not> free_run s x (Suc (bytes_to_sectors len))" for x
        using second_run [of s x "bytes_to_sectors len" k t] 1(2,4,5) 2(3) by (auto simp: map_step_def)
      moreover have "kept s u" "same_open s u" using A(2) same_data_kept [OF 2(2)] kept_trans so 2(2) same_open_simps by (blast, meson same_data_def)
      ultimately show ?thesis
        using 1(1) 2(1) same_data_inv [OF A(1) 2(2)] set_aside_same [OF 2(2) A(3)] kept_abs [of s u]
        by (intro exI [of _ u] exI [of _ k] exI [of _ False]) (simp add: create_in_def)
    next
      case (1 u)
      have ku: "k \<notin> live u" using A(4) 1(4) by simp
      have fu: "files_ok u" and du: "at_root (dinode d) u" and su: "same_open s u" using 1(5) ft dt so same_open_files_ok same_open_root same_open_simps(3) by blast+
      have ru: "dir_room nm u = dir_room nm s" and au: "fs_abs u = fs_abs s"
        using rt kept_entries [OF 1(3)] kept_abs [OF 1(3)] kept_abs [OF A(2)] by (simp_all add: dir_room_def)
      have step: "create_in d nm len s = bind_r (dir_add d nm k u) (\<lambda>(s, ok). Inr (s, k, ok))"
        using \<open>free_map_allocate 1 s = Inr (t, Some k)\<close> 1(1) by (simp add: create_in_def)
      show ?thesis
      proof (cases rule: dir_add_cases [OF 1(2) fu du nm ku 1(6)])
        case (1 v)
        then show ?thesis using step ru au same_open_simps(3) [OF su] \<open>contents (D u k) u = replicate (nat len) 0\<close>
          by (intro exI [of _ v] exI [of _ k] exI [of _ True]) simp
      next
        case (2 v)
        have "same_open s v" using su 2(3) same_open_simps by (meson same_data_def)
        then show ?thesis
          using 2(1,2) step ru au same_data_inv [OF \<open>inv {} ex u\<close> 2(3)] kept_abs [OF same_data_kept [OF 2(3)]] set_aside_same [OF 2(3) \<open>set_aside u k\<close>]
          by (intro exI [of _ v] exI [of _ k] exI [of _ False]) simp
      qed
    qed
  qed
qed

lemma free_run_quiet: "quiet s s' \<Longrightarrow> free_run s' x n = free_run s x n"
  using quiet_views(4) [of s s'] by (simp add: free_run_def quiet_def)

lemma filesys_create_ok:
  assumes ok: "fs_ok s" and nm: "0 \<notin> set nm" and len: "0 \<le> len" "len + 511 < 2 ^ 31"
  shows "\<exists>s' b. filesys_create nm len s = Inr (s', b) \<and> fs_ok s' \<and> files s' = files s \<and> free_map_file s' = free_map_file s \<and> (b \<longrightarrow> dir_room nm s)
    \<and> fs_abs s' = (if b then (fs_abs s)(nm \<mapsto> replicate (nat len) 0) else fs_abs s)
    \<and> (dir_room nm s \<and> (\<exists>x. free_run s x (Suc (bytes_to_sectors len))) \<longrightarrow> b)"
proof -
  have i: "inv {} (\<lambda>_. 0) s" and fo: "files_ok s" using ok by (simp_all add: fs_ok_def)
  let ?d = "\<lambda>r. \<lparr>dinode = r, dpos = 0\<rparr>"
  obtain t r where t: "dir_open_root s = Inr (t, Some (?d r))" "inv {} (bump r (\<lambda>_. 0)) t" "files_ok t" "kept s t" "at_root r t" "files t = files s" "quiet s t"
    using dir_open_root_ok [OF i fo] by blast
  have rt: "at_root (dinode (?d r)) t" using t(5) by simp
  have room: "dir_room nm t = dir_room nm s" by (simp add: dir_room_def kept_entries [OF t(4)])
  obtain u k b where u: "create_in (?d r) nm len t = Inr (u, k, b)" "inv {} (bump r (\<lambda>_. 0)) u" "same_open t u" "b \<longrightarrow> dir_room nm s"
      "fs_abs u = (if b then (fs_abs s)(nm \<mapsto> replicate (nat len) 0) else fs_abs s)" "\<not> b \<and> k \<noteq> 0 \<longrightarrow> set_aside u k"
      "dir_room nm s \<and> (\<exists>x. free_run s x (Suc (bytes_to_sectors len))) \<longrightarrow> b"
    using create_in_ok [OF t(2,3) rt nm len] unfolding room kept_abs [OF t(4)] free_run_quiet [OF t(7)] by (elim exE conjE) (rule that; assumption)
  have "\<exists>v. (if \<not> b \<and> k \<noteq> 0 then free_map_release k 1 u else Inr u) = Inr v \<and> inv {} (bump r (\<lambda>_. 0)) v \<and> kept u v \<and> same_open u v"
    using release_aside [OF u(2), of k] u(2,6) same_data_kept [OF same_data_refl, of u] by (auto simp: same_open_def)
  then obtain v where v: "(if \<not> b \<and> k \<noteq> 0 then free_map_release k 1 u else Inr u) = Inr v" "inv {} (bump r (\<lambda>_. 0)) v" "kept u v" "same_open u v" by blast
  have so: "same_open t v" by (rule same_open_simps(3) [OF u(3) v(4)])
  obtain w where w: "dir_close (Some (?d r)) v = Inr w" "inv {} (\<lambda>_. 0) w" "files_ok w" "kept v w" "files w = files v"
    using dir_close_ok [OF v(2) same_open_files_ok [OF so t(3)] same_open_root [OF so t(5)]] by auto
  have "filesys_create nm len s = Inr (w, b)"
    using t(1) u(1) v(1) w(1) unfolding filesys_create_def create_in_def by simp
  moreover have "files w = files s" using w(5) so t(6) by (simp add: same_open_def)
  moreover have "free_map_file w = free_map_file s" using kept_free_map_file [OF w(4)] so kept_free_map_file [OF t(4)] by (simp add: same_open_def)
  ultimately show ?thesis using w(2,3) u(4,5,7) kept_abs [OF v(3)] kept_abs [OF w(4)] by (intro exI [of _ w] exI [of _ b]) (simp add: fs_ok_def)
qed

end
