(* ===== verification/FsMount.thy ===== *)
theory FsMount
  imports FsCreate
begin

text \<open>
  Mounting, unmounting and formatting. A device that holds a file system is mounted into a state that satisfies the
  invariant, with the files the device has; formatting makes a device with an empty root directory; unmounting leaves a
  device that mounts to the same files.
\<close>

unbundle bit_operations_syntax

section \<open>Reading the free map\<close>

lemma bytes_words_append: "length xs mod 4 = 0 \<Longrightarrow> bytes_words (xs @ ys) = bytes_words xs @ bytes_words ys"
proof (induction xs rule: bytes_words.induct)
  case (1 a b c d bs)
  then show ?case by simp
qed auto

lemma length_bytes_words: "length (bytes_words xs) = length xs div 4"
  by (induction xs rule: bytes_words.induct) auto

lemma bit_last_mask:
  assumes "i < bit_cnt b" "i div 32 = (bit_cnt b - 1) div 32"
  shows "bit (last_mask b) (i mod 32)"
proof (cases "bit_cnt b mod 32 = 0")
  case True
  then show ?thesis by (simp add: last_mask_def ELEM_BITS_def)
next
  case False
  have "(bit_cnt b - 1) div 32 = bit_cnt b div 32" using False by (cases "bit_cnt b") (simp_all add: div_Suc)
  then have "32 * (i div 32) + i mod 32 < 32 * (i div 32) + bit_cnt b mod 32"
    using assms mult_div_mod_eq [of 32 i] mult_div_mod_eq [of 32 "bit_cnt b"] by argo
  then have l: "i mod 32 < bit_cnt b mod 32" by linarith
  have "push_bit (bit_cnt b mod 32) 1 - 1 = (mask (bit_cnt b mod 32) :: 32 word)" by (simp add: mask_eq_exp_minus_1 push_bit_eq_mult)
  then show ?thesis using False l by (simp add: last_mask_def ELEM_BITS_def bit_mask_iff)
qed

lemma bitmap_read_ok:
  assumes b: "bitmap_ok b" "0 < bit_cnt b" and r: "file_read_at f (int (byte_cnt (bit_cnt b))) 0 s = Inr (s', xs)" "length xs = byte_cnt (bit_cnt b)"
  shows "\<exists>b'. bitmap_read b f s = Inr (s', b', True) \<and> bitmap_ok b' \<and> bit_cnt b' = bit_cnt b \<and> bitmap_abs b' = disk_map xs (bit_cnt b)"
proof -
  let ?n = "bit_cnt b" let ?e = "elem_cnt ?n"
  let ?ws = "bytes_words (xs @ drop (length xs) (words_bytes (bits b)))"
  have n: "?n + 32 \<le> u32_mod" and e: "?e \<le> length (bits b)" using b(1) by (simp_all add: bitmap_ok_def)
  have ee: "?e = (?n + 31) div 32" using n by (simp add: elem_cnt_def DIV_ROUND_UP_def ELEM_BITS_def)
  have l: "length xs = 4 * ?e" using r(2) byte_cnt_eq [OF n] by simp
  have ws: "?ws = bytes_words xs @ bytes_words (drop (length xs) (words_bytes (bits b)))" by (rule bytes_words_append) (simp add: l)
  have lw: "length (bytes_words xs) = ?e" by (simp add: length_bytes_words l)
  have e0: "0 < ?e" "sub32 ?e 1 = ?e - 1" using b(2) ee n by (simp_all add: sub32_small)
  have le: "?e - 1 < length ?ws" "?e \<le> length ?ws" using e0(1) lw by (simp_all add: ws)
  let ?b = "b\<lparr>bits := ?ws[?e - 1 := (?ws ! (?e - 1)) AND last_mask (b\<lparr>bits := ?ws\<rparr>)]\<rparr>"
  have "bitmap_read b f s = Inr (s', ?b, True)" using r b(2) e0 le(1) by (simp add: bitmap_read_def Let_def)
  moreover have "bitmap_ok ?b" using n le(2) by (simp add: bitmap_ok_def)
  moreover have "bitmap_abs ?b = disk_map xs ?n"
  proof (rule nth_equalityI)
    fix i assume "i < length (bitmap_abs ?b)"
    then have i: "i < ?n" by simp
    then have id: "i div 32 < ?e" by (simp add: ee)
    have "i div 32 = ?e - 1 \<Longrightarrow> bit (last_mask (b\<lparr>bits := ?ws\<rparr>)) (i mod 32)" using bit_last_mask [of i "b\<lparr>bits := ?ws\<rparr>"] i by (simp add: ee)
    then have "bit (bits ?b ! (i div 32)) (i mod 32) = bit (bytes_words xs ! (i div 32)) (i mod 32)"
      using id lw le(1) by (cases "i div 32 = ?e - 1") (simp_all add: ws nth_append bit_and_iff)
    then show "bitmap_abs ?b ! i = disk_map xs ?n ! i" using i by (simp add: disk_map_def nth_bitmap_abs)
  qed (simp add: disk_map_def)
  ultimately show ?thesis by (intro exI [of _ ?b]) simp
qed

section \<open>Mounting\<close>

definition blank :: "fs \<Rightarrow> bool" where
  "blank s \<longleftrightarrow> inodes s = (\<lambda>_. None) \<and> files s = (\<lambda>_. None) \<and> open_inodes s = []"

text \<open>No file is open but the free map.\<close>

definition all_closed :: "fs \<Rightarrow> bool" where
  "all_closed s \<longleftrightarrow> (\<forall>f. files s f \<noteq> None \<longrightarrow> free_map_file s = Some f)"

definition disk_map_of :: "fs \<Rightarrow> bool list" where
  "disk_map_of s = disk_map (contents (D s FREE_MAP_SECTOR) s) (bsize (dev s))"

text \<open>A device that holds a file system. The sectors in use are those of the free map on the device.\<close>

definition disk_regions :: "nat set \<Rightarrow> fs \<Rightarrow> bool" where
  "disk_regions U s \<longleftrightarrow>
     (\<forall>k\<in>U. extent_ok (D s k) s \<and> k < bsize (dev s) \<and> k \<notin> ext (D s k) \<and> (\<forall>x\<in>region s k. x < bsize (dev s) \<and> disk_map_of s ! x))
   \<and> (\<forall>k\<in>U. \<forall>k'\<in>U. k \<noteq> k' \<longrightarrow> region s k \<inter> region s k' = {})"

definition disk_ok :: "fs \<Rightarrow> bool" where
  "disk_ok s \<longleftrightarrow> dev_ok s \<and> 2 \<le> bsize (dev s) \<and> bsize (dev s) + 32 \<le> u32_mod \<and> ilength (D s FREE_MAP_SECTOR) = int (byte_cnt (bsize (dev s)))
     \<and> disk_regions ({FREE_MAP_SECTOR, ROOT_DIR_SECTOR} \<union> dir_sectors s) s \<and> root_ok s"

lemma disk_ok_cong:
  assumes "sectors (dev s') = sectors (dev s)" "bsize (dev s') = bsize (dev s)" "btype (dev s') = btype (dev s)"
  shows "disk_ok s' = disk_ok s" "fs_abs s' = fs_abs s"
proof -
  have d: "D s' = D s" using assms by (simp add: D_def fun_eq_iff)
  have c: "contents d s' = contents d s" for d using assms by (simp add: contents_def)
  have e: "entries s' = entries s" by (simp add: entries_def d c)
  show "fs_abs s' = fs_abs s" by (simp add: fs_abs_def fun_eq_iff e d c)
  show "disk_ok s' = disk_ok s"
    using assms by (simp add: disk_ok_def dev_ok_def disk_regions_def disk_map_of_def extent_ok_def region_def root_ok_def dir_sectors_def d c e)
qed

lemma disk_regions_used:
  assumes "disk_regions U s" "bitmap_abs (free_map s) = disk_map_of s" "bit_cnt (free_map s) = bsize (dev s)"
  shows "regions_ok U s"
  using assms unfolding disk_regions_def regions_ok_def used_def by simp

text \<open>One inode and one file open: those of the free map.\<close>

lemma mounted_ok:
  assumes d: "disk_ok s" "mem_ok s" and p: "inodes s = [p \<mapsto> n]" "open_inodes s = [p]" "files s = [f \<mapsto> \<lparr>finode = p, fpos = 0, deny_write = False\<rparr>]"
    and n: "n = \<lparr>isector = FREE_MAP_SECTOR, open_cnt = 1, removed = False, deny_write_cnt = 0, idata = D s FREE_MAP_SECTOR\<rparr>"
    and f: "free_map_file s = Some f" "p < nextp s" "f < nextp s"
    and b: "bitmap_ok (free_map s)" "bit_cnt (free_map s) = bsize (dev s)" "bitmap_abs (free_map s) = disk_map_of s"
  shows "fs_ok s"
proof -
  have K: "dev_ok s" "ilength (D s FREE_MAP_SECTOR) = int (byte_cnt (bsize (dev s)))" "root_ok s"
    "disk_regions ({FREE_MAP_SECTOR, ROOT_DIR_SECTOR} \<union> dir_sectors s) s" using d(1) by (simp_all add: disk_ok_def)
  have ps: "inodes s q = (if q = p then Some n else None)" "files s g = (if g = f then Some \<lparr>finode = p, fpos = 0, deny_write = False\<rparr> else None)" for q g
    by (simp_all add: p)
  have os: "open_sectors s = {FREE_MAP_SECTOR}" by (auto simp: open_sectors_def ps n split: if_splits)
  have "live s = {FREE_MAP_SECTOR, ROOT_DIR_SECTOR} \<union> dir_sectors s" by (auto simp: live_def os)
  then have r: "regions_ok (live s) s" using disk_regions_used [OF K(4) b(3,2)] by simp
  have m: "map_ok s" unfolding map_ok_def map_open_def
    using b K(2) regions_okD [OF r live_simps(1)] ps f(1) n by (auto simp: disk_map_of_def)
  have "openers {} s q = (if q = p then {f} else {})" "deniers {} s q = {}" for q by (auto simp: openers_def deniers_def ps split: if_splits)
  then have "refs_ok {} (\<lambda>_. 0) s" unfolding refs_ok_def inode_ok_def using f p(2) by (auto simp: ps n split: if_splits)
  moreover have "removed_ok s" by (auto simp: removed_ok_def ps n split: if_splits)
  ultimately have "inv {} (\<lambda>_. 0) s" using K m r d(2) by (simp add: inv_def)
  moreover have "files_ok s" by (auto simp: files_ok_def ps n f(1) split: if_splits)
  ultimately show ?thesis by (simp add: fs_ok_def)
qed

definition free_map_opened :: "fs \<Rightarrow> nat \<Rightarrow> nat \<Rightarrow> bool" where
  "free_map_opened s p f \<longleftrightarrow>
     inodes s = [p \<mapsto> \<lparr>isector = FREE_MAP_SECTOR, open_cnt = 1, removed = False, deny_write_cnt = 0, idata = D s FREE_MAP_SECTOR\<rparr>]
   \<and> open_inodes s = [p] \<and> files s = [f \<mapsto> \<lparr>finode = p, fpos = 0, deny_write = False\<rparr>] \<and> p < nextp s \<and> f < nextp s"

lemma open_free_map:
  assumes d: "dev_ok s" "mem_ok s" "0 < bsize (dev s)" and b: "blank s"
  shows "\<exists>t u p f. inode_open FREE_MAP_SECTOR s = Inr (t, Some p) \<and> file_open (Some p) t = Inr (u, Some f) \<and> free_map_opened u p f
    \<and> sectors (dev u) = sectors (dev s) \<and> bsize (dev u) = bsize (dev s) \<and> btype (dev u) = btype (dev s) \<and> free_map u = free_map s \<and> mem_ok u"
proof -
  have B: "inodes s = (\<lambda>_. None)" "files s = (\<lambda>_. None)" "open_inodes s = []" using b by (simp_all add: blank_def)
  obtain t ok where t: "malloc s = (t, ok)" by fastforce
  then have td: "same_data s t" "ok" using malloc_same [OF t] d(2) by auto
  note T = td(1) [unfolded same_data_def same_but_data_def]
  let ?p = "nextp s" let ?u = "t\<lparr>nextp := ?p + 1, open_inodes := [?p]\<rparr>"
  have "FREE_MAP_SECTOR < bsize (dev ?u)" using d(3) T by (simp add: FREE_MAP_SECTOR_def)
  then obtain v where v: "dev_read FREE_MAP_SECTOR ?u = Inr (v, sectors (dev s) FREE_MAP_SECTOR)" "same_data ?u v"
    using dev_read_in [of FREE_MAP_SECTOR ?u] T by auto
  note V = v(2) [unfolded same_data_def same_but_data_def, simplified]
  let ?n = "\<lparr>isector = FREE_MAP_SECTOR, open_cnt = 1, removed = False, deny_write_cnt = 0, idata = D s FREE_MAP_SECTOR\<rparr>"
  let ?w = "v\<lparr>inodes := (inodes v)(?p \<mapsto> ?n)\<rparr>"
  have o: "inode_open FREE_MAP_SECTOR s = Inr (?w, Some ?p)"
    using B t td(2) v(1) T V by (simp add: inode_open_def Let_def D_def)
  have "mem_ok t" using mem_ok_same [of s t] d(2) td(1) by (simp add: same_data_def)
  then have mw: "mem_ok ?w" using mem_ok_same [of ?u v] v(2) by (simp add: same_data_def mem_ok_def)
  obtain x ok' where x: "malloc ?w = (x, ok')" by fastforce
  then have xd: "same_data ?w x" "ok'" using malloc_same [OF x] mw by auto
  note X = xd(1) [unfolded same_data_def same_but_data_def, simplified]
  let ?f = "nextp x" let ?y = "x\<lparr>nextp := ?f + 1, files := (files x)(?f \<mapsto> \<lparr>finode = ?p, fpos = 0, deny_write = False\<rparr>)\<rparr>"
  have "file_open (Some ?p) ?w = Inr (?y, Some ?f)" using x xd(2) by (simp add: file_open_def Let_def)
  moreover have "D ?y FREE_MAP_SECTOR = D s FREE_MAP_SECTOR" using X V T by (simp add: D_def)
  then have "free_map_opened ?y ?p ?f" using X V T B by (simp add: free_map_opened_def)
  moreover have "mem_ok ?y" using mem_ok_same [of ?w x] xd(1) mw by (simp add: same_data_def mem_ok_def)
  ultimately show ?thesis using o X V T by (intro exI [of _ ?w] exI [of _ ?y] exI [of _ ?p] exI [of _ ?f]) simp
qed

lemma free_map_open_ok:
  assumes d: "disk_ok s" "mem_ok s" "blank s" and b: "bitmap_ok (free_map s)" "bit_cnt (free_map s) = bsize (dev s)"
  shows "\<exists>s'. free_map_open s = Inr s' \<and> fs_ok s' \<and> fs_abs s' = fs_abs s \<and> entries s' = entries s \<and> bsize (dev s') = bsize (dev s)
    \<and> all_closed s' \<and> (\<forall>x. used s' x \<longleftrightarrow> x < bsize (dev s) \<and> disk_map_of s ! x)"
proof -
  have K: "dev_ok s" "2 \<le> bsize (dev s)" "ilength (D s FREE_MAP_SECTOR) = int (byte_cnt (bsize (dev s)))" "extent_ok (D s FREE_MAP_SECTOR) s"
    using d(1) by (simp_all add: disk_ok_def disk_regions_def)
  have b0: "0 < bsize (dev s)" "0 < bit_cnt (free_map s)" using K(2) b(2) by linarith+
  obtain t u p f where t: "inode_open FREE_MAP_SECTOR s = Inr (t, Some p)" "file_open (Some p) t = Inr (u, Some f)" "free_map_opened u p f"
      "sectors (dev u) = sectors (dev s)" "bsize (dev u) = bsize (dev s)" "btype (dev u) = btype (dev s)" "free_map u = free_map s" "mem_ok u"
    using open_free_map [OF K(1) d(2) b0(1) d(3)] by blast
  let ?u = "u\<lparr>free_map_file := Some f\<rparr>"
  have du: "D u = D s" "contents x ?u = contents x s" "extent_ok x ?u = extent_ok x s" "dev_ok ?u" for x
    using t(4,5,6) K(1) by (simp_all add: D_def fun_eq_iff contents_def extent_ok_def dev_ok_def)
  let ?n = "\<lparr>isector = FREE_MAP_SECTOR, open_cnt = 1, removed = False, deny_write_cnt = 0, idata = D s FREE_MAP_SECTOR\<rparr>"
  have O: "inodes ?u p = Some ?n" "files ?u f = Some \<lparr>finode = p, fpos = 0, deny_write = False\<rparr>" using t(3) du(1) by (simp_all add: free_map_opened_def)
  let ?bs = "contents (D s FREE_MAP_SECTOR) s"
  have lb: "length ?bs = byte_cnt (bsize (dev s))" using K(3) by (simp add: contents_def)
  have "mem_ok ?u" using t(8) by (simp add: mem_ok_def)
  then obtain v where v: "inode_read_at p (int (byte_cnt (bsize (dev s)))) (int 0) ?u = Inr (v, ?bs)" "same_data ?u v"
    using inode_read_at_correct [OF du(4) O(1), of "byte_cnt (bsize (dev s))" 0] K(4) lb du by auto
  note V = v(2) [unfolded same_data_def same_but_data_def, simplified]
  have "file_read_at f (int (byte_cnt (bit_cnt (free_map s)))) 0 ?u = Inr (v, ?bs)" using O(2) v(1) b(2) by (simp add: file_read_at_def)
  then obtain b' where b': "bitmap_read (free_map s) f ?u = Inr (v, b', True)" "bitmap_ok b'" "bit_cnt b' = bsize (dev s)" "bitmap_abs b' = disk_map ?bs (bsize (dev s))"
    using bitmap_read_ok [OF b(1) b0(2), of f ?u v ?bs] lb b(2) by auto
  let ?v = "v\<lparr>free_map := b'\<rparr>"
  have D: "sectors (dev ?v) = sectors (dev s)" "bsize (dev ?v) = bsize (dev s)" "btype (dev ?v) = btype (dev s)" using V t(4,5,6) by simp_all
  have dv: "D ?v = D s" "contents x ?v = contents x s" for x using D by (simp_all add: D_def fun_eq_iff contents_def)
  have "fs_ok ?v"
  proof (rule mounted_ok [where p = p and f = f and n = ?n])
    show "disk_ok ?v" using disk_ok_cong(1) [OF D] d(1) by simp
    show "mem_ok ?v" using mem_ok_same [of ?u v] v(2) t(8) by (simp add: same_data_def mem_ok_def)
    show "bitmap_abs (free_map ?v) = disk_map_of ?v" using b'(4) D(2) by (simp add: disk_map_of_def dv)
  qed (use V t(3) b' D(2) in \<open>simp_all add: free_map_opened_def dv du(1)\<close>)
  moreover have "free_map_open s = Inr ?v" using t(1,2,7) b'(1) by (simp add: free_map_open_def Let_def)
  moreover have "entries ?v = entries s" by (simp add: entries_def dv)
  moreover have "used ?v x \<longleftrightarrow> x < bsize (dev s) \<and> disk_map_of s ! x" for x using b'(3,4) by (simp add: used_def disk_map_of_def)
  moreover have "all_closed ?v" using V t(3) by (simp add: all_closed_def free_map_opened_def)
  ultimately show ?thesis using disk_ok_cong(2) [OF D] D(2) by (intro exI [of _ ?v]) simp
qed

lemma free_map_init_ok:
  assumes m: "mem_ok s" and n: "2 \<le> bsize (dev s)" "bsize (dev s) + 32 \<le> u32_mod"
  shows "\<exists>t b. free_map_init s = Inr (t\<lparr>free_map := b\<rparr>) \<and> same_data s t \<and> bitmap_ok b \<and> bit_cnt b = bsize (dev s)
    \<and> (\<forall>x. used (t\<lparr>free_map := b\<rparr>) x \<longleftrightarrow> x < 2)"
proof -
  let ?n = "bsize (dev s)"
  obtain t ok where t: "malloc s = (t, ok)" by fastforce
  then have td: "same_data s t" "ok" using malloc_same [OF t] m by auto
  then have mt: "mem_ok t" using mem_ok_same m by (auto simp: same_data_def)
  obtain u ok' where u: "malloc t = (u, ok')" by fastforce
  then have ud: "same_data t u" "ok'" using malloc_same [OF u] mt by auto
  have su: "same_data s u" by (rule same_data_trans [OF td(1) ud(1)])
  obtain b where b: "bitmap_create ?n True (Some (replicate (elem_cnt ?n) 0)) = Inr (Some b)" "bitmap_ok b" "bitmap_abs b = replicate ?n False"
    using bitmap_create_zeroed [OF n(2), of "replicate (elem_cnt ?n) 0"] by auto
  have bc: "bit_cnt b = ?n" using arg_cong [OF b(3), of length] by simp
  obtain b1 where b1: "bitmap_mark b FREE_MAP_SECTOR = Inr b1" "bitmap_ok b1" "bit_cnt b1 = ?n" "bitmap_abs b1 = (replicate ?n False)[0 := True]"
    using bitmap_mark_becomes [OF b(2), of FREE_MAP_SECTOR] n(1) bc b(3) by (auto simp: bitmap_becomes_def FREE_MAP_SECTOR_def)
  obtain b2 where b2: "bitmap_mark b1 ROOT_DIR_SECTOR = Inr b2" "bitmap_ok b2" "bit_cnt b2 = ?n" "bitmap_abs b2 = (replicate ?n False)[0 := True, 1 := True]"
    using bitmap_mark_becomes [OF b1(2), of ROOT_DIR_SECTOR] n(1) b1(3,4) by (auto simp: bitmap_becomes_def ROOT_DIR_SECTOR_def)
  let ?s = "u\<lparr>free_map := b2\<rparr>"
  have "free_map_init s = Inr ?s" using t td(2) u ud(2) b(1) b1(1) b2(1) by (simp add: free_map_init_def block_size_def Let_def)
  moreover have "used ?s x \<longleftrightarrow> x < 2" for x using n(1) b2(3,4) by (auto simp: used_def nth_list_update less_2_cases_iff)
  ultimately show ?thesis using b2(2,3) su by blast
qed

lemma mount_ok:
  assumes m: "mem_ok s" and b: "inodes s = (\<lambda>_. None)" "files s = (\<lambda>_. None)" and d: "disk_ok (s\<lparr>dev := d\<rparr>)"
  shows "\<exists>s'. filesys_init (Some d) False s = Inr s' \<and> fs_ok s' \<and> fs_abs s' = fs_abs (s\<lparr>dev := d\<rparr>)"
proof -
  let ?s = "inode_init (s\<lparr>dev := d\<rparr>)"
  have dd: "dev ?s = d" "inodes ?s = (\<lambda>_. None)" "files ?s = (\<lambda>_. None)" "open_inodes ?s = []" "mem_ok ?s" using b m by (simp_all add: inode_init_def mem_ok_def)
  have n: "2 \<le> bsize (dev ?s)" "bsize (dev ?s) + 32 \<le> u32_mod" using d by (simp_all add: disk_ok_def dd(1))
  obtain t b where s1: "free_map_init ?s = Inr (t\<lparr>free_map := b\<rparr>)" "same_data ?s t" "bitmap_ok b" "bit_cnt b = bsize d"
    using free_map_init_ok [OF dd(5) n] unfolding dd(1) by blast
  let ?s1 = "t\<lparr>free_map := b\<rparr>"
  have T: "sectors (dev t) = sectors d" "bsize (dev t) = bsize d" "btype (dev t) = btype d" "inodes t = (\<lambda>_. None)" "files t = (\<lambda>_. None)" "open_inodes t = []"
    using s1(2) dd by (simp_all add: same_data_def same_but_data_def)
  note C = disk_ok_cong [of ?s1 "s\<lparr>dev := d\<rparr>"]
  have k: "disk_ok ?s1" and a: "fs_abs ?s1 = fs_abs (s\<lparr>dev := d\<rparr>)" using C d T by simp_all
  have "mem_ok ?s1" using mem_ok_same [of ?s t] s1(2) dd(5) by (simp add: same_data_def mem_ok_def)
  moreover have "blank ?s1" using T by (simp add: blank_def)
  ultimately obtain s' where "free_map_open ?s1 = Inr s'" "fs_ok s'" "fs_abs s' = fs_abs (s\<lparr>dev := d\<rparr>)"
    using free_map_open_ok [OF k] s1(3,4) T(2) a by auto
  then show ?thesis using s1(1) by (simp add: filesys_init_def)
qed

section \<open>Unmounting\<close>

lemma fs_ok_disk:
  assumes i: "inv Z ex s" and c: "sectors (dev t) = sectors (dev s)" "bsize (dev t) = bsize (dev s)" "btype (dev t) = btype (dev s)"
  shows "disk_ok t"
proof -
  note I = invD [OF i]
  have m: "bitmap_ok (free_map s)" "bit_cnt (free_map s) = bsize (dev s)" "ilength (D s FREE_MAP_SECTOR) = int (byte_cnt (bsize (dev s)))"
    "bitmap_abs (free_map s) = disk_map_of s" using I(3) by (auto simp: map_ok_def map_open_def disk_map_of_def)
  let ?U = "{FREE_MAP_SECTOR, ROOT_DIR_SECTOR} \<union> dir_sectors s"
  have "regions_ok ?U s" by (rule regions_subset [OF I(4)]) (auto simp: live_def)
  then have "disk_regions ?U s" unfolding regions_ok_def disk_regions_def used_def m(2,4) by simp
  moreover have "2 \<le> bsize (dev s)" using regions_okD(2) [OF I(4) live_simps(2)] by (simp add: ROOT_DIR_SECTOR_def)
  ultimately have "disk_ok s" using I(1,5) m by (simp add: disk_ok_def bitmap_ok_def)
  then show ?thesis using disk_ok_cong(1) [OF c] by simp
qed

lemma unmount_ok:
  assumes ok: "fs_ok s" and c: "all_closed s"
  shows "\<exists>t. filesys_done s = Inr t \<and> inodes t = (\<lambda>_. None) \<and> files t = (\<lambda>_. None) \<and> disk_ok t \<and> fs_abs t = fs_abs s"
proof -
  have i: "inv {} (\<lambda>_. 0) s" using ok by (simp add: fs_ok_def)
  note I = invD [OF i] and R = refs_okD [OF invD(6) [OF i]]
  obtain f x n where f: "free_map_file s = Some f" "files s f = Some x" "inodes s (finode x) = Some n" "isector n = FREE_MAP_SECTOR"
    "deny_write_cnt n = 0" by (rule free_map_inode [OF I(3)])
  have fs: "files s g = None" if "g \<noteq> f" for g using c that f(1) by (auto simp: all_closed_def)
  have op: "openers {} s q \<subseteq> {f}" for q using fs unfolding openers_def by force
  have one: "q = finode x" if "inodes s q = Some m" for q m
  proof -
    have "1 \<le> int (card (openers {} s q))" using R(3) [OF that] by (simp add: inode_ok_def)
    then have "openers {} s q \<noteq> {}" by auto
    then show ?thesis using op [of q] f(2) by (auto simp: openers_def)
  qed
  have "openers {} s (finode x) = {f}" using op [of "finode x"] f(2) by (auto simp: openers_def)
  then have oc: "open_cnt n = 1" using R(3) [OF f(3)] by (simp add: inode_ok_def)
  have "deniers {} s (finode x) = {}" using R(3) [OF f(3)] f(5) finite_openers(2) [OF I(6), of "{}" "finode x"] by (simp add: inode_ok_def)
  then have nd: "\<not> deny_write x" using f(2) by (auto simp: deniers_def)
  have nr: "\<not> removed n" using I(7) f(3,4) by (auto simp: removed_ok_def)
  let ?t = "s\<lparr>open_inodes := remove1 (finode x) (open_inodes s), inodes := (inodes s)(finode x := None), files := (files s)(f := None)\<rparr>"
  have "filesys_done s = Inr ?t"
    using f nd oc nr by (simp add: filesys_done_def free_map_close_def file_close_def file_allow_write_def inode_close_def Let_def upd_inode_def)
  moreover have "inodes s q = None" if "q \<noteq> finode x" for q using one [of q] that by (cases "inodes s q") auto
  then have "inodes ?t = (\<lambda>_. None)" by (simp add: fun_eq_iff)
  moreover have "files ?t = (\<lambda>_. None)" using fs by (auto simp: fun_eq_iff)
  moreover have "disk_ok ?t" by (rule fs_ok_disk [OF i]) simp_all
  moreover have "fs_abs ?t = fs_abs s" by (rule disk_ok_cong(2)) simp_all
  ultimately show ?thesis by blast
qed

section \<open>Formatting\<close>

definition map_sectors :: "nat \<Rightarrow> nat" where
  "map_sectors n = bytes_to_sectors (int (byte_cnt n))"

lemma map_sectors_bound:
  assumes "4 \<le> n" "n + 32 \<le> u32_mod"
  shows "int (byte_cnt n) + 511 < 2 ^ 31" "1 \<le> map_sectors n" "map_sectors n + 3 \<le> n"
proof -
  define e where "e = (n + 31) div 32"
  have e: "32 * e \<le> n + 31" "n \<le> 32 * e" unfolding e_def by linarith+
  have b: "byte_cnt n = 4 * e" using byte_cnt_eq [OF assms(2)] assms(2) by (simp add: e_def elem_cnt_def DIV_ROUND_UP_def ELEM_BITS_def)
  have "8 * byte_cnt n \<le> n + 31" using e(1) b by linarith
  then show l: "int (byte_cnt n) + 511 < 2 ^ 31" using assms(2) by simp
  have q: "map_sectors n = (byte_cnt n + 511) div 512" using bytes_to_sectors_eq [OF _ l] by (simp add: map_sectors_def)
  have "1 \<le> byte_cnt n" using e(2) b assms(1) by linarith
  then show "1 \<le> map_sectors n" unfolding q by linarith
  have "512 * map_sectors n \<le> byte_cnt n + 511" unfolding q by linarith
  then show "map_sectors n + 3 \<le> n" using e(1) b assms(1) by linarith
qed

text \<open>After the free map has been written: it is open, and marks its own sectors and those of the two inodes.\<close>

definition map_made :: "fs \<Rightarrow> nat \<Rightarrow> nat \<Rightarrow> nat \<Rightarrow> bool" where
  "map_made s r p f \<longleftrightarrow> dev_ok s \<and> mem_ok s \<and> map_ok s \<and> free_map_opened s p f \<and> free_map_file s = Some f
     \<and> (\<forall>x. used s x \<longleftrightarrow> x < 2 \<or> r \<le> x \<and> x < r + map_sectors (bsize (dev s))) \<and> 2 \<le> r \<and> r + map_sectors (bsize (dev s)) \<le> bsize (dev s)
     \<and> ext (D s FREE_MAP_SECTOR) = {r..<r + map_sectors (bsize (dev s))}"

lemma allocate_unopened:
  assumes "free_map_file s = None" "bitmap_ok (free_map s)" "bit_cnt (free_map s) = bsize (dev s)" "free_run s i n"
  shows "\<exists>r b. free_map_allocate n s = Inr (s\<lparr>free_map := b\<rparr>, Some r) \<and> bitmap_ok b \<and> bit_cnt b = bsize (dev s) \<and> free_run s r n
    \<and> (\<forall>x. used (s\<lparr>free_map := b\<rparr>) x \<longleftrightarrow> r \<le> x \<and> x < r + n \<or> used s x)"
proof -
  have run: "free_run s j n \<longleftrightarrow> group_at (bitmap_abs (free_map s)) j n False" for j
  proof -
    have "(\<forall>x. j \<le> x \<longrightarrow> x < j + n \<longrightarrow> \<not> bitmap_abs (free_map s) ! x) \<longleftrightarrow> (\<forall>y<n. \<not> bitmap_abs (free_map s) ! (j + y))"
      by (metis add_less_cancel_left le_add1 nat_le_iff_add)
    then show ?thesis unfolding free_run_def group_at_def used_def using assms(3) by auto
  qed
  show ?thesis
  proof (rule scan_and_flip_cases [OF assms(2) le0, of n False])
    fix r b assume r: "bitmap_scan_and_flip (free_map s) 0 n False = Inr (b, r)" "r \<noteq> BITMAP_ERROR"
      "group_at (bitmap_abs (free_map s)) r n False" "bitmap_ok b" "bit_cnt b = bit_cnt (free_map s)"
      "bitmap_abs b = set_range (bitmap_abs (free_map s)) r n (\<not> False)"
    have "free_map_allocate n s = Inr (s\<lparr>free_map := b\<rparr>, Some r)" using r(1,2) assms(1) by (simp add: free_map_allocate_def Let_def)
    moreover have rr: "free_run s r n" using r(3) run by simp
    moreover have "used (s\<lparr>free_map := b\<rparr>) x \<longleftrightarrow> r \<le> x \<and> x < r + n \<or> used s x" for x
      using used_set_range [of "s\<lparr>free_map := b\<rparr>" s r n True x] r(5,6) rr assms(3) by (auto simp: free_run_def)
    ultimately show ?thesis using r(4,5) assms(3) by auto
  qed (use assms(4) run in auto)
qed

lemma free_map_create_ok:
  assumes m: "dev_ok s" "mem_ok s" "blank s" "free_map_file s = None" "bitmap_ok (free_map s)" "bit_cnt (free_map s) = bsize (dev s)"
    and n: "4 \<le> bsize (dev s)" "bsize (dev s) + 32 \<le> u32_mod" and u: "\<And>x. used s x \<longleftrightarrow> x < 2"
  shows "\<exists>s' r p f. free_map_create s = Inr s' \<and> map_made s' r p f \<and> bsize (dev s') = bsize (dev s)"
proof -
  let ?n = "bsize (dev s)" let ?m = "map_sectors ?n" let ?len = "int (byte_cnt ?n)"
  note N = map_sectors_bound [OF n]
  obtain t ok where t: "malloc s = (t, ok)" by fastforce
  then have td: "same_data s t" "ok" using malloc_same [OF t] m(2) by auto
  note T = td(1) [unfolded same_data_def same_but_data_def]
  have ut: "used t x \<longleftrightarrow> x < 2" for x using u [of x] T by (simp add: used_def)
  have "free_run t 2 ?m" using N(3) T by (auto simp: free_run_def ut)
  then obtain r b where a: "free_map_allocate ?m t = Inr (t\<lparr>free_map := b\<rparr>, Some r)" "bitmap_ok b" "bit_cnt b = ?n" "free_run t r ?m"
      "\<forall>x. used (t\<lparr>free_map := b\<rparr>) x \<longleftrightarrow> r \<le> x \<and> x < r + ?m \<or> used t x"
    using allocate_unopened [of t 2 ?m] T m(4,5,6) by auto
  let ?v = "t\<lparr>free_map := b\<rparr>"
  have r: "2 \<le> r" "r + ?m \<le> ?n"
  proof -
    have "\<not> used t r" using a(4) N(2) by (auto simp: free_run_def)
    then show "2 \<le> r" by (simp add: ut not_less)
    show "r + ?m \<le> ?n" using a(4) T by (simp add: free_run_def)
  qed
  have dv: "dev_ok ?v" "bsize (dev ?v) = ?n" using m(1) T by (simp_all add: dev_ok_def)
  let ?d = "\<lparr>start = r, ilength = ?len, magic = INODE_MAGIC\<rparr>"
  obtain w where w: "bind_r (dev_write FREE_MAP_SECTOR (inode_bytes ?d) ?v) (zero_sectors r ?m) = Inr w" "same_but_data ?v w" "dev_ok w"
      "D w FREE_MAP_SECTOR = ?d" "ext ?d = {r..<r + ?m}" "extent_ok ?d w"
    using write_inode_raw [OF dv(1), of FREE_MAP_SECTOR ?len r] N(1) r n(1) dv(2) unfolding map_sectors_def by (auto simp: FREE_MAP_SECTOR_def)
  note W = w(2) [unfolded same_but_data_def, simplified]
  have c: "inode_create FREE_MAP_SECTOR ?len s = Inr (w, True)"
    using t td(2) a(1) w(1) by (auto simp: inode_create_def Let_def map_sectors_def bind_r_def split: sum.splits)
  have bw: "blank w" "mem_ok w" "0 < bsize (dev w)"
    using m(3) W T mem_ok_same [OF w(2)] mem_ok_same [of s t] td(1) m(2) n(1) by (auto simp: blank_def same_data_def mem_ok_def)
  obtain o1 x p f where x: "inode_open FREE_MAP_SECTOR w = Inr (o1, Some p)" "file_open (Some p) o1 = Inr (x, Some f)" "free_map_opened x p f"
      "sectors (dev x) = sectors (dev w)" "bsize (dev x) = bsize (dev w)" "btype (dev x) = btype (dev w)" "free_map x = free_map w" "mem_ok x"
    using open_free_map [OF w(3) bw(2,3,1)] by blast
  let ?x = "x\<lparr>free_map_file := Some f\<rparr>"
  have X: "D ?x = D w" "dev_ok ?x" "mem_ok ?x" "extent_ok ?d ?x" "bsize (dev ?x) = ?n" "free_map ?x = b"
    using x(4-8) w(3,6) W T by (simp_all add: D_def fun_eq_iff dev_ok_def mem_ok_def extent_ok_def)
  have xo: "free_map_opened ?x p f" using x(3) by (simp add: free_map_opened_def D_def)
  have "map_open ?x"
    unfolding map_open_def X(1) w(4) X(5,6) using a(2,3) X(4) w(5) r xo X(1) w(4) by (auto simp: FREE_MAP_SECTOR_def free_map_opened_def)
  then obtain y where y: "bitmap_write b f ?x = Inr (y, True)" "map_step ?x y" "free_map y = b"
    using bitmap_write_step [OF X(2,3) _ a(2), of] X(5,6) a(3) by auto
  note Y = y(2) [unfolded map_step_def]
  have dy: "D y FREE_MAP_SECTOR = ?d"
  proof -
    have "FREE_MAP_SECTOR \<notin> ext (D ?x FREE_MAP_SECTOR)" using w(4,5) r X(1) by (auto simp: FREE_MAP_SECTOR_def)
    then have "D y FREE_MAP_SECTOR = D ?x FREE_MAP_SECTOR" using Y by (intro D_cong) blast
    then show ?thesis using X(1) w(4) by simp
  qed
  have "free_map_opened y p f" using xo Y dy X(1) w(4) by (simp add: free_map_opened_def)
  moreover have "used y z \<longleftrightarrow> z < 2 \<or> r \<le> z \<and> z < r + ?m" for z using a(5) ut [of z] y(3) by (auto simp: used_def)
  ultimately have "map_made y r p f" using Y X(5) r dy w(5) by (simp add: map_made_def)
  moreover have "free_map_create s = Inr y"
    using c x(1,2,7) y(1) W a(1) m(6) by (simp add: free_map_create_def bitmap_file_size_def Let_def)
  ultimately show ?thesis using Y X(5) by auto
qed

lemma empty_entries: "entry_list (replicate 320 0) = replicate 16 \<lparr>inode_sector = 0, ename = replicate 15 0, in_use = False\<rparr>"
proof (rule nth_equalityI)
  fix j assume "j < length (entry_list (replicate 320 0))"
  then have j: "j < 16" by simp
  then have "20 \<le> 320 - 20 * j" by simp
  then have "take 20 (drop (20 * j) (replicate 320 (0 :: byte))) = replicate 20 0" by (simp add: min_def)
  moreover have "bytes_entry (replicate 20 0) = \<lparr>inode_sector = 0, ename = replicate 15 0, in_use = False\<rparr>"
    by (simp add: bytes_entry_def numeral_eq_Suc)
  ultimately show "entry_list (replicate 320 0) ! j = replicate 16 \<lparr>inode_sector = 0, ename = replicate 15 0, in_use = False\<rparr> ! j"
    using j by (simp add: nth_entry_list nth_entry_def)
qed simp

lemma close_free_map:
  assumes "free_map_opened s p f" "free_map_file s = Some f"
  shows "free_map_close s = Inr (s\<lparr>open_inodes := [], inodes := (\<lambda>_. None), files := (\<lambda>_. None)\<rparr>)"
  using assms
  by (simp add: free_map_opened_def free_map_close_def file_close_def file_allow_write_def inode_close_def upd_inode_def Let_def)

lemma dir_create_ok:
  assumes m: "map_made s r p f" and n: "map_sectors (bsize (dev s)) + 3 \<le> bsize (dev s)"
  shows "\<exists>s'. dir_create ROOT_DIR_SECTOR 16 s = Inr (s', True) \<and> disk_ok s' \<and> mem_ok s' \<and> free_map_opened s' p f \<and> free_map_file s' = Some f
    \<and> bitmap_ok (free_map s') \<and> bit_cnt (free_map s') = bsize (dev s') \<and> fs_abs s' = (\<lambda>_. None) \<and> bsize (dev s') = bsize (dev s)
    \<and> entries s' = replicate 16 \<lparr>inode_sector = 0, ename = replicate 15 0, in_use = False\<rparr>
    \<and> (\<exists>q. \<forall>x. (x < bsize (dev s') \<and> disk_map_of s' ! x) \<longleftrightarrow> used s x \<or> x = q)"
proof -
  let ?n = "bsize (dev s)" let ?m = "map_sectors ?n" let ?k = ROOT_DIR_SECTOR let ?z = FREE_MAP_SECTOR
  note M = m [unfolded map_made_def]
  obtain t ok where t: "malloc s = (t, ok)" by fastforce
  then have td: "same_data s t" "ok" using malloc_same [OF t] M by auto
  note Q = quiet_views [OF same_data_quiet [OF td(1)]] and F = same_data_files [OF td(1)]
  have bt: "bsize (dev t) = ?n" using td(1) by (simp add: same_data_def same_but_data_def)
  have "dev_ok t" "mem_ok t" "map_ok t"
    using M mem_ok_same [of s t] td(1) unfolding map_ok_def map_open_def by (auto simp: Q F same_data_def same_but_data_def)
  note al = free_map_allocate_cases [OF this, of 1]
  have "\<exists>x. free_run t x 1"
  proof (cases "r = 2")
    case True
    then have "free_run t (2 + ?m) 1" using M n by (auto simp: free_run_def Q bt)
    then show ?thesis by blast
  next
    case False
    then have "free_run t 2 1" using M n by (auto simp: free_run_def Q bt)
    then show ?thesis by blast
  qed
  then obtain q u where u: "free_map_allocate 1 t = Inr (u, Some q)" "map_step t u" "free_run t q 1" "\<forall>x. used u x \<longleftrightarrow> q \<le> x \<and> x < q + 1 \<or> used t x"
    using al by (metis (no_types, lifting))
  note U = u(2) [unfolded map_step_def]
  have q: "2 \<le> q" "q < ?n" "\<not> (r \<le> q \<and> q < r + ?m)" using u(3) M by (auto simp: free_run_def Q bt dest!: spec [of _ q])
  have b1: "bytes_to_sectors 320 = 1" using bytes_to_sectors_eq [of 320] by simp
  have rz: "?z \<notin> ext (D t ?z)" "ext (D t ?z) = {r..<r + ?m}" using M by (auto simp: Q FREE_MAP_SECTOR_def)
  have zu: "D u ?z = D s ?z" using U rz(1) by (subst D_cong [of u ?z t]) (auto simp: Q)
  have kb: "?k < bsize (dev u)" "q + bytes_to_sectors 320 \<le> bsize (dev u)" "\<not> (q \<le> ?k \<and> ?k < q + bytes_to_sectors 320)"
    using U bt q b1 by (auto simp: ROOT_DIR_SECTOR_def)
  let ?d = "\<lparr>start = q, ilength = 320, magic = INODE_MAGIC\<rparr>"
  have du: "dev_ok u" using U by blast
  obtain v where v: "bind_r (dev_write ?k (inode_bytes ?d) u) (zero_sectors q (bytes_to_sectors 320)) = Inr v" "same_but_data u v" "dev_ok v"
      "\<forall>x. x \<noteq> ?k \<longrightarrow> \<not> (q \<le> x \<and> x < q + bytes_to_sectors 320) \<longrightarrow> sectors (dev v) x = sectors (dev u) x"
      "D v ?k = ?d" "contents ?d v = replicate (nat 320) 0" "ext ?d = {q..<q + bytes_to_sectors 320}" "extent_ok ?d v"
    using write_inode_raw [OF du kb(1) _ _ kb(3,2)] by auto
  note V = v(2) [unfolded same_but_data_def, simplified]
  have "dir_create ?k 16 s = inode_create ?k 320 s" by (simp add: dir_create_def mul32_def DIR_ENTRY_SIZE_def)
  then have c: "dir_create ?k 16 s = Inr (v, True)"
    using t td(2) u(1) v(1) b1 by (auto simp: inode_create_def Let_def bind_r_def split: sum.splits)
  have same: "sectors (dev v) x = sectors (dev u) x" if "x = ?z \<or> x \<in> ext (D s ?z)" for x
    using v(4) that q M b1 by (auto simp: FREE_MAP_SECTOR_def ROOT_DIR_SECTOR_def)
  have zv: "D v ?z = D s ?z" using same [of ?z] zu D_cong [of v ?z u] by simp
  have cv: "contents (D s ?z) v = contents (D s ?z) u" by (rule contents_cong) (rule same, simp)
  have ev: "entries v = replicate 16 \<lparr>inode_sector = 0, ename = replicate 15 0, in_use = False\<rparr>" using v(5,6) empty_entries by (simp add: entries_def)
  have ds: "dir_sectors v = {}" and ro: "root_ok v" and ab: "fs_abs v = (\<lambda>_. None)"
    using v(5) by (auto simp: dir_sectors_def ev root_ok_def entries_ok_def fs_abs_def dir_map_def find_None_iff fun_eq_iff)
  have uu: "used v x = used u x" for x using V by (simp add: used_def)
  have mu: "map_ok u" using U by blast
  have mm: "disk_map_of v = bitmap_abs (free_map v)" using mu V by (simp add: disk_map_of_def map_ok_def zv cv zu)
  have vf: "bsize (dev v) = ?n" "free_map v = free_map u" "bsize (dev u) = ?n" using V U bt by auto
  have "bitmap_ok (free_map u)" "bit_cnt (free_map u) = bsize (dev u)" using mu unfolding map_ok_def map_open_def by blast+
  then have bv: "bsize (dev v) = ?n" "bitmap_ok (free_map v)" "bit_cnt (free_map v) = ?n" using vf by simp_all
  have us: "x < ?n \<and> disk_map_of v ! x" if "used t x \<or> x = q" for x using that u(4) uu [of x] bv mm by (auto simp: used_def)
  have regs: "region v ?z = insert ?z {r..<r + ?m}" "region v ?k = {?k, q}" using M by (auto simp: region_def zv v(5,7) b1)
  have "disk_regions ({?z, ?k} \<union> dir_sectors v) v"
  proof -
    have "extent_ok (D u ?z) u" using mu unfolding map_ok_def map_open_def by blast
    then have "extent_ok (D v ?z) v" using vf by (simp add: extent_ok_def zu zv)
    moreover have "\<forall>x\<in>region v ?z \<union> region v ?k. x < bsize (dev v) \<and> disk_map_of v ! x"
      unfolding regs bv(1) using us M by (auto simp: Q FREE_MAP_SECTOR_def ROOT_DIR_SECTOR_def)
    moreover have "region v ?z \<inter> region v ?k = {}" unfolding regs using q M by (auto simp: FREE_MAP_SECTOR_def ROOT_DIR_SECTOR_def)
    moreover have "?z \<notin> ext (D v ?z)" using rz(1) by (simp add: zv Q)
    moreover have "?k \<notin> ext (D v ?k)" unfolding v(5,7) b1 using q(1) by (simp add: ROOT_DIR_SECTOR_def)
    ultimately show ?thesis using v(5,8) bv q unfolding disk_regions_def ds by (auto simp: FREE_MAP_SECTOR_def ROOT_DIR_SECTOR_def)
  qed
  moreover have "ilength (D u ?z) = int (byte_cnt (bit_cnt (free_map u)))" using mu unfolding map_ok_def map_open_def by blast
  then have "ilength (D v ?z) = int (byte_cnt ?n)" using bv(3) vf(2) zu zv by simp
  ultimately have "disk_ok v" using v(3) ro bv q by (simp add: disk_ok_def bitmap_ok_def)
  moreover have "mem_ok v" using mem_ok_same [OF v(2)] U by blast
  moreover have "free_map_opened v p f" "free_map_file v = Some f" using M V U F by (auto simp: free_map_opened_def zv)
  moreover have "(x < bsize (dev v) \<and> disk_map_of v ! x) \<longleftrightarrow> used s x \<or> x = q" for x
  proof -
    have "used v x \<longleftrightarrow> x < bsize (dev v) \<and> disk_map_of v ! x" using bv mm by (simp add: used_def)
    moreover have "used t x = used s x" by (simp add: Q)
    moreover have "used u x \<longleftrightarrow> q \<le> x \<and> x < q + 1 \<or> used t x" using u(4) by blast
    moreover have "q \<le> x \<and> x < q + 1 \<longleftrightarrow> x = q" by auto
    ultimately show ?thesis using uu [of x] by blast
  qed
  ultimately show ?thesis using c ab bv ev by (intro exI [of _ v]) (simp, blast)
qed

lemma format_ok:
  assumes m: "mem_ok s" and b: "inodes s = (\<lambda>_. None)" "files s = (\<lambda>_. None)" "free_map_file s = None"
    and d: "dev_ok (s\<lparr>dev := d\<rparr>)" "4 \<le> bsize d" "bsize d + 32 \<le> u32_mod"
  shows "\<exists>s'. filesys_init (Some d) True s = Inr s' \<and> fs_ok s' \<and> fs_abs s' = (\<lambda>_. None)
    \<and> entries s' = replicate 16 \<lparr>inode_sector = 0, ename = replicate 15 0, in_use = False\<rparr> \<and> bsize (dev s') = bsize d \<and> all_closed s'
    \<and> (\<exists>r q. \<forall>x. used s' x \<longleftrightarrow> x < 2 \<or> r \<le> x \<and> x < r + map_sectors (bsize d) \<or> x = q)"
proof -
  let ?s = "inode_init (s\<lparr>dev := d\<rparr>)"
  have dd: "dev ?s = d" "inodes ?s = (\<lambda>_. None)" "files ?s = (\<lambda>_. None)" "open_inodes ?s = []" "mem_ok ?s" "free_map_file ?s = None"
    using b m by (simp_all add: inode_init_def mem_ok_def)
  have n: "2 \<le> bsize (dev ?s)" "bsize (dev ?s) + 32 \<le> u32_mod" using d by (simp_all add: dd(1))
  obtain t c where t: "free_map_init ?s = Inr (t\<lparr>free_map := c\<rparr>)" "same_data ?s t" "bitmap_ok c" "bit_cnt c = bsize d" "\<forall>x. used (t\<lparr>free_map := c\<rparr>) x \<longleftrightarrow> x < 2"
    using free_map_init_ok [OF dd(5) n] unfolding dd(1) by blast
  let ?t = "t\<lparr>free_map := c\<rparr>"
  have T: "bsize (dev ?t) = bsize d" "blank ?t" "free_map_file ?t = None" using t(2) dd by (simp_all add: same_data_def same_but_data_def blank_def)
  have "dev_ok ?t" "mem_ok ?t" using t(2) d(1) dd mem_ok_same [of ?s t] by (simp_all add: same_data_def same_but_data_def dev_ok_def mem_ok_def)
  then obtain u r p f where u: "free_map_create ?t = Inr u" "map_made u r p f" "bsize (dev u) = bsize d"
    using free_map_create_ok [of ?t] T t(3-5) d(2,3) by auto
  have room: "map_sectors (bsize (dev u)) + 3 \<le> bsize (dev u)" using map_sectors_bound(3) [OF d(2,3)] u(3) by simp
  obtain v q where v: "dir_create ROOT_DIR_SECTOR 16 u = Inr (v, True)" "disk_ok v" "mem_ok v" "free_map_opened v p f" "free_map_file v = Some f"
      "bitmap_ok (free_map v)" "bit_cnt (free_map v) = bsize (dev v)" "fs_abs v = (\<lambda>_. None)" "bsize (dev v) = bsize (dev u)"
      "entries v = replicate 16 \<lparr>inode_sector = 0, ename = replicate 15 0, in_use = False\<rparr>"
      "\<forall>x. (x < bsize (dev v) \<and> disk_map_of v ! x) \<longleftrightarrow> used u x \<or> x = q" using dir_create_ok [OF u(2) room] by (elim exE conjE) (rule that; assumption)
  let ?w = "v\<lparr>open_inodes := [], inodes := (\<lambda>_. None), files := (\<lambda>_. None)\<rparr>"
  have w: "disk_ok ?w" "fs_abs ?w = (\<lambda>_. None)" using disk_ok_cong [of ?w v] v(2,8) by simp_all
  have "mem_ok ?w" "blank ?w" using v(3) by (simp_all add: mem_ok_def blank_def)
  then obtain x where x: "free_map_open ?w = Inr x" "fs_ok x" "fs_abs x = (\<lambda>_. None)" "entries x = entries ?w" "bsize (dev x) = bsize (dev ?w)"
      "\<forall>y. used x y \<longleftrightarrow> y < bsize (dev ?w) \<and> disk_map_of ?w ! y" "all_closed x"
    using free_map_open_ok [OF w(1)] v(6,7) w(2) by (simp, blast)
  have "disk_map_of ?w = disk_map_of v" "entries ?w = entries v" by (simp_all add: disk_map_of_def entries_def D_def contents_def)
  then have "used x y \<longleftrightarrow> y < 2 \<or> r \<le> y \<and> y < r + map_sectors (bsize d) \<or> y = q" for y
    using x(6) v(11) u(2,3) unfolding map_made_def by simp
  moreover have "filesys_init (Some d) True s = Inr x" using x(1) t(1) u(1) v(1) close_free_map [OF v(4,5)] by (simp add: filesys_init_def do_format_def)
  ultimately show ?thesis using x(2-5,7) v(9,10) u(3) \<open>entries ?w = entries v\<close> by (intro exI [of _ x]) (simp, blast)
qed

end
