(* ===== verification/FsProps.thy ===== *)
theory FsProps
  imports FsMount
begin

text \<open>
  What the file system promises: its operations never fault and keep the invariant, and they refine operations on a map from
  names to contents and on open files with a position.
\<close>

section \<open>Sequences of operations\<close>

datatype fs_op = Op_create "byte list" int | Op_open "byte list" | Op_remove "byte list" | Op_close nat | Op_read nat nat
  | Op_write nat "byte list" | Op_seek nat int | Op_deny nat | Op_allow nat

definition run_op :: "fs_op \<Rightarrow> fs \<Rightarrow> fs res" where
  "run_op a s = (case a of
     Op_create nm len \<Rightarrow> bind_r (filesys_create nm len s) (\<lambda>(s, _). Inr s)
   | Op_open nm \<Rightarrow> bind_r (filesys_open nm s) (\<lambda>(s, _). Inr s)
   | Op_remove nm \<Rightarrow> bind_r (filesys_remove nm s) (\<lambda>(s, _). Inr s)
   | Op_close f \<Rightarrow> file_close (Some f) s
   | Op_read f n \<Rightarrow> bind_r (file_read f (int n) s) (\<lambda>(s, _). Inr s)
   | Op_write f buf \<Rightarrow> bind_r (file_write f buf (int (length buf)) s) (\<lambda>(s, _). Inr s)
   | Op_seek f pos \<Rightarrow> file_seek f pos s
   | Op_deny f \<Rightarrow> file_deny_write f s
   | Op_allow f \<Rightarrow> file_allow_write f s)"

definition user_file :: "nat \<Rightarrow> fs \<Rightarrow> bool" where
  "user_file f s \<longleftrightarrow> files s f \<noteq> None \<and> free_map_file s \<noteq> Some f"

text \<open>What the callers have to respect: names are strings, sizes are not negative and fit, and file pointers are open files.\<close>

definition admissible :: "fs_op \<Rightarrow> fs \<Rightarrow> bool" where
  "admissible a s = (case a of
     Op_create nm len \<Rightarrow> 0 \<notin> set nm \<and> 0 \<le> len \<and> len + 511 < 2 ^ 31
   | Op_open nm \<Rightarrow> True | Op_remove nm \<Rightarrow> True
   | Op_close f \<Rightarrow> user_file f s | Op_read f n \<Rightarrow> user_file f s | Op_write f buf \<Rightarrow> user_file f s
   | Op_seek f pos \<Rightarrow> user_file f s \<and> 0 \<le> pos | Op_deny f \<Rightarrow> user_file f s | Op_allow f \<Rightarrow> user_file f s)"

fun run_ops :: "fs_op list \<Rightarrow> fs \<Rightarrow> fs res" where
  "run_ops [] s = Inr s"
| "run_ops (a # as) s = bind_r (run_op a s) (run_ops as)"

fun all_admissible :: "fs_op list \<Rightarrow> fs \<Rightarrow> bool" where
  "all_admissible [] s = True"
| "all_admissible (a # as) s = (admissible a s \<and> (case run_op a s of Inl _ \<Rightarrow> True | Inr s' \<Rightarrow> all_admissible as s'))"

lemma user_fileE:
  assumes "fs_ok s" "user_file f s"
  obtains x n where "files s f = Some x" "0 \<le> fpos x" "inodes s (finode x) = Some n" "isector n \<noteq> FREE_MAP_SECTOR" "isector n \<noteq> ROOT_DIR_SECTOR"
    "inv {} (\<lambda>_. 0) s" "files_ok s" "free_map_file s \<noteq> Some f"
proof -
  have i: "inv {} (\<lambda>_. 0) s" and fo: "files_ok s" using assms(1) by (simp_all add: fs_ok_def)
  obtain x where x: "files s f = Some x" "free_map_file s \<noteq> Some f" using assms(2) by (auto simp: user_file_def)
  have "inodes s (finode x) \<noteq> None" by (rule refs_okD(6) [OF invD(6) [OF i] x(1)]) simp
  then obtain n where n: "inodes s (finode x) = Some n" by blast
  have "0 \<le> fpos x" "isector n \<noteq> FREE_MAP_SECTOR" "isector n \<noteq> ROOT_DIR_SECTOR" using fo x n unfolding files_ok_def by blast+
  then show thesis using that x n i fo by blast
qed

text \<open>A change of one open file that keeps its inode.\<close>

lemma files_ok_upd:
  assumes i: "inv {} ex s" and fo: "files_ok s" and f: "files s f = Some x" and y: "finode y = finode x" "0 \<le> fpos y"
    and s': "files s' = (files s)(f \<mapsto> y)" "free_map_file s' = free_map_file s" "secs_kept s s'"
  shows "files_ok s'"
  unfolding files_ok_def s'(1,2)
proof (intro allI impI)
  fix g z assume g: "((files s)(f \<mapsto> y)) g = Some z"
  obtain w where w: "files s g = Some w" "finode z = finode w" using g f y(1) by (cases "g = f") auto
  have "0 \<le> fpos w \<longrightarrow> 0 \<le> fpos z" using g y(2) w(1) by (cases "g = f") auto
  moreover have "inodes s (finode w) \<noteq> None" by (rule refs_okD(6) [OF invD(6) [OF i] w(1)]) simp
  then obtain m where m: "inodes s (finode w) = Some m" by blast
  have "0 \<le> fpos w \<and> isector m \<noteq> ROOT_DIR_SECTOR \<and> (isector m = FREE_MAP_SECTOR \<longrightarrow> free_map_file s = Some g)"
    using fo w(1) m unfolding files_ok_def by blast
  moreover have "isector n = isector m" if "inodes s' (finode z) = Some n" for n using s'(3) m w(2) that unfolding secs_kept_def by metis
  ultimately show "0 \<le> fpos z \<and> (\<forall>n. inodes s' (finode z) = Some n \<longrightarrow> isector n \<noteq> ROOT_DIR_SECTOR \<and> (isector n = FREE_MAP_SECTOR \<longrightarrow> free_map_file s = Some g))"
    by metis
qed

lemma denied_write:
  assumes f: "files s f = Some x" and n: "inodes s (finode x) = Some n" "deny_write_cnt n \<noteq> 0"
  shows "file_write f buf (int (length buf)) s = Inr (s, 0)"
proof -
  have "upd_file f (\<lambda>x. x\<lparr>fpos := fpos x + 0\<rparr>) s = s"
    using f by (cases s) (auto simp: upd_file_def fun_eq_iff)
  then show ?thesis using f n by (simp add: file_write_def inode_write_at_def)
qed

lemma exec_file_ok:
  assumes ok: "fs_ok s" "user_file f s" and pos: "0 \<le> pos"
  shows "\<exists>s'. run_op (Op_close f) s = Inr s' \<and> fs_ok s'" "\<exists>s'. run_op (Op_read f n) s = Inr s' \<and> fs_ok s'"
    "\<exists>s'. run_op (Op_seek f pos) s = Inr s' \<and> fs_ok s'"
    "\<exists>s'. run_op (Op_deny f) s = Inr s' \<and> fs_ok s'" "\<exists>s'. run_op (Op_allow f) s = Inr s' \<and> fs_ok s'"
proof -
  obtain x m where x: "files s f = Some x" "0 \<le> fpos x" "inodes s (finode x) = Some m" "isector m \<noteq> FREE_MAP_SECTOR" "isector m \<noteq> ROOT_DIR_SECTOR"
    "inv {} (\<lambda>_. 0) s" "files_ok s" "free_map_file s \<noteq> Some f" by (rule user_fileE [OF ok])
  note U = files_ok_upd [OF x(6,7,1)]
  obtain a where a: "file_close (Some f) s = Inr a" "inv {} (\<lambda>_. 0) a" "kept s a" "files a = (files s)(f := None)" "secs_kept s a"
    using file_close_ok [OF x(6,1,8,4,3)] by blast
  have "files_ok a" by (rule files_ok_sub [OF x(6,7) _ kept_free_map_file [OF a(3)] a(5)]) (simp add: a(4) split: if_splits)
  then show "\<exists>s'. run_op (Op_close f) s = Inr s' \<and> fs_ok s'" using a(1,2) by (simp add: run_op_def fs_ok_def)
  obtain b xs where b: "file_read f (int n) s = Inr (b, xs)" "inv {} (\<lambda>_. 0) b" "quiet s b" "inodes b = inodes s"
      "files b = (files s)(f \<mapsto> x\<lparr>fpos := fpos x + int (length xs)\<rparr>)" using file_read_ok [OF x(6,1,2,3), of n] by blast
  have "files_ok b" by (rule U [OF _ _ b(5) quiet_free_map_file [OF b(3)] secs_kept_same [OF b(4)]]) (use x(2) in simp_all)
  then show "\<exists>s'. run_op (Op_read f n) s = Inr s' \<and> fs_ok s'" using b(1,2) by (simp add: run_op_def fs_ok_def)
  let ?c = "upd_file f (\<lambda>x. x\<lparr>fpos := pos\<rparr>) s"
  have "files ?c = (files s)(f \<mapsto> x\<lparr>fpos := pos\<rparr>)" using x(1) by (simp add: fun_eq_iff)
  then have "files_ok ?c" using U [of "x\<lparr>fpos := pos\<rparr>" ?c] pos secs_kept_same [of ?c s] by simp
  moreover have "inv {} (\<lambda>_. 0) ?c" by (rule move_ok(1) [OF x(6)])
  ultimately show "\<exists>s'. run_op (Op_seek f pos) s = Inr s' \<and> fs_ok s'" using x(1) pos by (simp add: run_op_def file_seek_def fs_ok_def)
  obtain d where d: "file_deny_write f s = Inr d" "inv {} (\<lambda>_. 0) d" "quiet s d" "files d = (files s)(f \<mapsto> x\<lparr>deny_write := True\<rparr>)"
      "\<exists>m'. inodes d (finode x) = Some m' \<and> isector m' = isector m" "\<forall>q. q \<noteq> finode x \<longrightarrow> inodes d q = inodes s q"
    using file_deny_write_ok [OF x(6,1,3,4)] by blast
  have "secs_kept s d" by (rule secs_keptI [of "finode x"]) (use d(5,6) x(3) in auto)
  then have "files_ok d" using U [OF _ _ d(4) quiet_free_map_file [OF d(3)]] x(2) by simp
  then show "\<exists>s'. run_op (Op_deny f) s = Inr s' \<and> fs_ok s'" using d(1,2) by (simp add: run_op_def fs_ok_def)
  obtain e where e: "file_allow_write f s = Inr e" "inv {} (\<lambda>_. 0) e" "quiet s e" "files e = (files s)(f \<mapsto> x\<lparr>deny_write := False\<rparr>)"
      "\<exists>m'. inodes e (finode x) = Some m' \<and> isector m' = isector m" "\<forall>q. q \<noteq> finode x \<longrightarrow> inodes e q = inodes s q"
    using file_allow_write_ok [OF x(6,1,3,4)] by blast
  have "secs_kept s e" by (rule secs_keptI [of "finode x"]) (use e(5,6) x(3) in auto)
  then have "files_ok e" using U [OF _ _ e(4) quiet_free_map_file [OF e(3)]] x(2) by simp
  then show "\<exists>s'. run_op (Op_allow f) s = Inr s' \<and> fs_ok s'" using e(1,2) by (simp add: run_op_def fs_ok_def)
qed

lemma exec_write_ok:
  assumes ok: "fs_ok s" "user_file f s"
  shows "\<exists>s'. run_op (Op_write f buf) s = Inr s' \<and> fs_ok s'"
proof -
  obtain x m where x: "files s f = Some x" "0 \<le> fpos x" "inodes s (finode x) = Some m" "isector m \<noteq> FREE_MAP_SECTOR" "isector m \<noteq> ROOT_DIR_SECTOR"
    "inv {} (\<lambda>_. 0) s" "files_ok s" "free_map_file s \<noteq> Some f" by (rule user_fileE [OF ok])
  show ?thesis
  proof (cases "deny_write_cnt m = 0")
    case True
    have "isector m \<notin> {FREE_MAP_SECTOR, ROOT_DIR_SECTOR}" using x(4,5) by simp
    then obtain s' k where s': "file_write f buf (int (length buf)) s = Inr (s', k)" "inv {} (\<lambda>_. 0) s'" "inodes s' = inodes s"
        "free_map_file s' = free_map_file s" "files s' = (files s)(f \<mapsto> x\<lparr>fpos := fpos x + int k\<rparr>)"
      using file_write_ok [OF x(6,1,2,3) _ True order_refl] by blast
    have "files_ok s'" by (rule files_ok_upd [OF x(6,7,1) _ _ s'(5,4) secs_kept_same [OF s'(3)]]) (use x(2) in simp_all)
    then show ?thesis using s'(1,2) by (simp add: run_op_def fs_ok_def)
  next
    case False
    then show ?thesis using denied_write [OF x(1,3)] ok(1) by (simp add: run_op_def)
  qed
qed

lemma exec_op_ok:
  assumes ok: "fs_ok s" and a: "admissible a s"
  shows "\<exists>s'. run_op a s = Inr s' \<and> fs_ok s'"
proof (cases a)
  case (Op_create nm len)
  then show ?thesis using filesys_create_ok [OF ok, of nm len] a by (auto simp: run_op_def admissible_def)
next
  case (Op_open nm)
  then show ?thesis using filesys_open_ok [OF ok, of nm] by (cases "dir_map (entries s) nm") (auto simp: run_op_def)
next
  case (Op_remove nm)
  then show ?thesis using filesys_remove_ok [OF ok, of nm] by (auto simp: run_op_def)
next
  case (Op_seek f pos)
  then show ?thesis using exec_file_ok(3) [OF ok, of f pos] a by (simp add: admissible_def)
next
  case (Op_write f buf)
  then show ?thesis using exec_write_ok [OF ok] a by (simp add: admissible_def)
qed (use exec_file_ok [OF ok, of _ 0] a in \<open>simp_all add: admissible_def\<close>)

section \<open>Open files\<close>

text \<open>The bytes of an open file.\<close>

definition file_data :: "fs \<Rightarrow> nat \<Rightarrow> byte list option" where
  "file_data s f = (case files s f of None \<Rightarrow> None
     | Some x \<Rightarrow> (case inodes s (finode x) of None \<Rightarrow> None | Some n \<Rightarrow> Some (contents (D s (isector n)) s)))"

definition file_pos :: "fs \<Rightarrow> nat \<Rightarrow> nat" where
  "file_pos s f = (case files s f of None \<Rightarrow> 0 | Some x \<Rightarrow> nat (fpos x))"

text \<open>The names under which the directory has the file.\<close>

definition file_names :: "fs \<Rightarrow> nat \<Rightarrow> byte list set" where
  "file_names s f = {nm. \<exists>x n. files s f = Some x \<and> inodes s (finode x) = Some n \<and> dir_map (entries s) nm = Some (isector n)}"

definition denied :: "fs \<Rightarrow> nat \<Rightarrow> bool" where
  "denied s f = (case files s f of None \<Rightarrow> False
     | Some x \<Rightarrow> (case inodes s (finode x) of None \<Rightarrow> False | Some n \<Rightarrow> deny_write_cnt n \<noteq> 0))"

lemma file_dataI: "files s f = Some x \<Longrightarrow> inodes s (finode x) = Some n \<Longrightarrow> file_data s f = Some (contents (D s (isector n)) s)"
  by (simp add: file_data_def)

lemma same_file_data:
  assumes d: "data_kept s s'" and f: "fkept s s'" "fs_ok s" "user_file f s"
  shows "file_data s' f = file_data s f"
proof -
  obtain x n where x: "files s f = Some x" "inodes s (finode x) = Some n" "isector n \<noteq> FREE_MAP_SECTOR" "isector n \<noteq> ROOT_DIR_SECTOR"
    by (rule user_fileE [OF f(2,3)])
  obtain m where m: "inodes s' (finode x) = Some m" "isector m = isector n" "files s' f = Some x" using f(1) x(1,2) unfolding fkept_def by metis
  have "isector n \<in> live s'" using live_open [OF m(1)] m(2) by simp
  then show ?thesis using d x m unfolding data_kept_def by (simp add: file_data_def)
qed

lemma exec_ops_ok: "fs_ok s \<Longrightarrow> all_admissible as s \<Longrightarrow> \<exists>s'. run_ops as s = Inr s' \<and> fs_ok s'"
proof (induction as arbitrary: s)
  case (Cons a as)
  then obtain t where t: "run_op a s = Inr t" "fs_ok t" using exec_op_ok [of s a] by auto
  then show ?case using Cons.IH [of t] Cons.prems(2) by simp
qed simp

section \<open>An example\<close>

definition example_disk :: block where
  "example_disk = \<lparr>bname = ''hda'', btype = BLOCK_FILESYS, bsize = 16, sectors = (\<lambda>_. replicate 512 0), read_cnt = 0, write_cnt = 0\<rparr>"

definition boot_fs :: fs where
  "boot_fs = \<lparr>dev = example_disk, mem = [], nextp = 1, inodes = (\<lambda>_. None), open_inodes = [], files = (\<lambda>_. None),
     free_map = \<lparr>bit_cnt = 0, bits = []\<rparr>, free_map_file = None\<rparr>"

lemma boot_fs_ok: "mem_ok boot_fs" "inodes boot_fs = (\<lambda>_. None)" "files boot_fs = (\<lambda>_. None)" "free_map_file boot_fs = None"
  "dev_ok (boot_fs\<lparr>dev := example_disk\<rparr>)" "4 \<le> bsize example_disk" "bsize example_disk + 32 \<le> u32_mod"
  by (simp_all add: boot_fs_def example_disk_def mem_ok_def dev_ok_def)

lemma example_formatted:
  "\<exists>s. filesys_init (Some example_disk) True boot_fs = Inr s \<and> fs_ok s \<and> fs_abs s = (\<lambda>_. None) \<and> all_closed s \<and> dir_room [97] s
     \<and> (\<exists>x. free_run s x 2)"
proof -
  obtain s r q where s: "filesys_init (Some example_disk) True boot_fs = Inr s" "fs_ok s" "fs_abs s = (\<lambda>_. None)" "all_closed s"
      "entries s = replicate 16 \<lparr>inode_sector = 0, ename = replicate 15 0, in_use = False\<rparr>" "bsize (dev s) = bsize example_disk"
      "\<forall>x. used s x \<longleftrightarrow> x < 2 \<or> r \<le> x \<and> x < r + map_sectors (bsize example_disk) \<or> x = q"
    using format_ok [OF boot_fs_ok] by (elim exE conjE) (rule that; assumption)
  have "map_sectors 16 = 1" using bytes_to_sectors_eq [of 4] by (simp add: map_sectors_def byte_cnt_def elem_cnt_def DIV_ROUND_UP_def ELEM_BITS_def mul32_def)
  then have u: "used s x \<longleftrightarrow> x < 2 \<or> x = r \<or> x = q" for x using s(7) by (auto simp: example_disk_def)
  have "free_run s 4 2 \<or> free_run s 6 2 \<or> free_run s 8 2" unfolding free_run_def u s(6) by (simp add: example_disk_def) presburger
  moreover have "dir_room [97] s" by (simp add: dir_room_def s(5) NAME_MAX_def dir_map_def find_None_iff)
  ultimately show ?thesis using s by blast
qed

lemma example_created:
  "\<exists>s. fs_ok s \<and> fs_abs s = [[97] \<mapsto> replicate 10 0] \<and> all_closed s"
proof -
  obtain s where s: "fs_ok s" "fs_abs s = (\<lambda>_. None)" "all_closed s" "dir_room [97] s" "\<exists>x. free_run s x 2" using example_formatted by blast
  have e: "Suc (bytes_to_sectors 10) = 2" using bytes_to_sectors_eq [of 10] by simp
  have "(0 :: byte) \<notin> set [97]" by simp
  then obtain t where t: "fs_ok t" "fs_abs t = (fs_abs s)([97] \<mapsto> replicate 10 0)" "files t = files s" "free_map_file t = free_map_file s"
    using filesys_create_ok [OF s(1), of "[97]" 10] s(4,5) unfolding e by auto
  then show ?thesis using s(2,3) by (auto simp: all_closed_def)
qed

lemma example_open:
  "\<exists>s f. fs_ok s \<and> user_file f s \<and> file_data s f = Some (replicate 10 0) \<and> file_pos s f = 0 \<and> \<not> denied s f \<and> [97] \<in> file_names s f"
proof -
  obtain s where s: "fs_ok s" "fs_abs s = [[97] \<mapsto> replicate 10 0]" "all_closed s" using example_created by blast
  obtain k where k: "dir_map (entries s) [97] = Some k" "contents (D s k) s = replicate 10 0"
    using s(2) by (auto simp: fs_abs_def fun_eq_iff split: if_splits dest!: spec [of _ "[97]"])
  obtain t f p n where t: "fs_ok t" "kept s t" "files s f = None" "files t = (files s)(f \<mapsto> \<lparr>finode = p, fpos = 0, deny_write = False\<rparr>)"
      "inodes t p = Some n" "isector n = k" using filesys_open_ok(2) [OF s(1) k(1)] by blast
  have i: "inv {} (\<lambda>_. 0) t" "files_ok t" using t(1) by (simp_all add: fs_ok_def)
  have kl: "k \<in> live t" using live_open [OF t(5)] t(6) by simp
  have "k \<in> dir_sectors t" using dir_map_SomeD [OF k(1)] kept_entries [OF t(2)] by (auto simp: dir_sectors_def)
  then have kz: "k \<noteq> FREE_MAP_SECTOR" using invD(5) [OF i(1)] by (auto simp: dir_sectors_def root_ok_def entries_ok_def)
  have c: "contents (D t k) t = replicate 10 0" using t(2) kl kz k(2) by (simp add: kept_def)
  have ff: "free_map_file t = free_map_file s" by (rule kept_free_map_file [OF t(2)])
  have "inv {} (\<lambda>_. 0) s" using s(1) by (simp add: fs_ok_def)
  then obtain h0 x0 m0 where "free_map_file s = Some h0" "files s h0 = Some x0" using free_map_inode [OF invD(3)] by blast
  then have "free_map_file s \<noteq> Some f" using t(3) by auto
  then have "user_file f t" using t(4) ff by (simp add: user_file_def)
  moreover have "deniers {} t p = {}"
  proof -
    have "g = f" if g: "files t g = Some y" "finode y = p" for g y
    proof (rule ccontr)
      assume "g \<noteq> f"
      then have "free_map_file t = Some g" using g(1) t(4) s(3) ff by (simp add: all_closed_def)
      moreover obtain h x m where "free_map_file t = Some h" "files t h = Some x" "inodes t (finode x) = Some m" "isector m = FREE_MAP_SECTOR"
        by (rule free_map_inode [OF invD(3) [OF i(1)]])
      ultimately show False using g t(5,6) kz by auto
    qed
    then have one: "g \<in> deniers {} t p \<Longrightarrow> g = f" for g unfolding deniers_def by blast
    have "f \<notin> deniers {} t p" using t(4) by (simp add: deniers_def)
    then show ?thesis using one by blast
  qed
  then have "\<not> denied t f" using refs_okD(3) [OF invD(6) [OF i(1)] t(5)] t(4,5) by (simp add: denied_def inode_ok_def)
  moreover have "[97] \<in> file_names t f" using t(4,5,6) k(1) kept_entries [OF t(2)] by (simp add: file_names_def)
  ultimately show ?thesis using t c by (intro exI [of _ t] exI [of _ f]) (simp add: file_data_def file_pos_def)
qed

lemma file_write_spec:
  assumes "fs_ok s" "user_file f s" "\<not> denied s f" "file_data s f = Some c" "sz \<le> length buf"
  shows "\<exists>s'. file_write f buf (int sz) s = Inr (s', min sz (length c - file_pos s f)) \<and> fs_ok s'
    \<and> file_data s' f = Some (overwrite c (file_pos s f) (take (min sz (length c - file_pos s f)) buf))
    \<and> file_pos s' f = file_pos s f + min sz (length c - file_pos s f)
    \<and> (\<forall>nm. fs_abs s' nm = (if nm \<in> file_names s f then file_data s' f else fs_abs s nm)) \<and> user_file f s'"
proof -
  obtain x n where x: "files s f = Some x" "0 \<le> fpos x" "inodes s (finode x) = Some n" "isector n \<noteq> FREE_MAP_SECTOR" "isector n \<noteq> ROOT_DIR_SECTOR"
    "inv {} (\<lambda>_. 0) s" "files_ok s" by (rule user_fileE [OF assms(1,2)])
  have c: "contents (D s (isector n)) s = c" using assms(4) x by (simp add: file_data_def)
  have d: "deny_write_cnt n = 0" using assms(3) x by (simp add: denied_def)
  have p: "file_pos s f = nat (fpos x)" using x by (simp add: file_pos_def)
  have nn: "isector n \<notin> {FREE_MAP_SECTOR, ROOT_DIR_SECTOR}" using x by simp
  let ?k = "min sz (length c - file_pos s f)"
  obtain s' where s': "file_write f buf (int sz) s = Inr (s', ?k)" "inv {} (\<lambda>_. 0) s'"
      "contents (D s' (isector n)) s' = overwrite c (file_pos s f) (take ?k buf)"
      "fs_abs s' = (\<lambda>nm. if dir_map (entries s) nm = Some (isector n) then Some (overwrite c (file_pos s f) (take ?k buf)) else fs_abs s nm)"
      "inodes s' = inodes s" "free_map_file s' = free_map_file s" "files s' = (files s)(f \<mapsto> x\<lparr>fpos := fpos x + int ?k\<rparr>)"
    using file_write_ok [OF x(6,1,2,3) nn d assms(5), unfolded c, folded p] by (elim exE conjE) (rule that; assumption)
  have "files_ok s'" by (rule files_ok_upd [OF x(6,7,1) _ _ s'(7,6) secs_kept_same [OF s'(5)]]) (use x(2) in simp_all)
  then have "fs_ok s'" using s'(2) by (simp add: fs_ok_def)
  moreover have "file_data s' f = Some (overwrite c (file_pos s f) (take ?k buf))" using s'(3,5,7) x by (simp add: file_data_def)
  moreover have "file_pos s' f = file_pos s f + ?k" using s'(7) x p by (simp add: file_pos_def nat_add_distrib)
  moreover have "nm \<in> file_names s f \<longleftrightarrow> dir_map (entries s) nm = Some (isector n)" for nm using x by (simp add: file_names_def)
  moreover have "user_file f s'" using s'(6,7) assms(2) by (simp add: user_file_def)
  ultimately show ?thesis using s'(1,4) by (intro exI [of _ s']) simp
qed

lemma file_read_spec:
  assumes "fs_ok s" "user_file f s" "file_data s f = Some c"
  shows "\<exists>s'. file_read f (int sz) s = Inr (s', take sz (drop (file_pos s f) c)) \<and> fs_ok s' \<and> quiet s s' \<and> file_data s' f = Some c
    \<and> file_pos s' f = file_pos s f + min sz (length c - file_pos s f)"
proof -
  obtain x n where x: "files s f = Some x" "0 \<le> fpos x" "inodes s (finode x) = Some n" "isector n \<noteq> FREE_MAP_SECTOR" "isector n \<noteq> ROOT_DIR_SECTOR"
    "inv {} (\<lambda>_. 0) s" "files_ok s" by (rule user_fileE [OF assms(1,2)])
  have c: "contents (D s (isector n)) s = c" using assms(3) x by (simp add: file_data_def)
  have p: "file_pos s f = nat (fpos x)" using x by (simp add: file_pos_def)
  let ?xs = "take sz (drop (file_pos s f) c)"
  obtain s' where s': "file_read f (int sz) s = Inr (s', ?xs)" "inv {} (\<lambda>_. 0) s'" "quiet s s'" "inodes s' = inodes s"
      "files s' = (files s)(f \<mapsto> x\<lparr>fpos := fpos x + int (length ?xs)\<rparr>)"
    using file_read_ok [OF x(6,1,2,3), of sz, unfolded c, folded p] by (elim exE conjE) (rule that; assumption)
  have "files_ok s'" by (rule files_ok_upd [OF x(6,7,1) _ _ s'(5) quiet_free_map_file [OF s'(3)] secs_kept_same [OF s'(4)]]) (use x(2) in simp_all)
  moreover have "file_data s' f = Some c" using s'(3-5) x c by (simp add: file_data_def quiet_views)
  moreover have "file_pos s' f = file_pos s f + min sz (length c - file_pos s f)" using s'(5) x p by (simp add: file_pos_def nat_add_distrib min.commute)
  ultimately show ?thesis using s'(1-3) by (intro exI [of _ s']) (simp add: fs_ok_def)
qed

lemma file_seek_spec:
  assumes "fs_ok s" "user_file f s" "file_data s f = Some c"
  shows "\<exists>s'. file_seek f (int p) s = Inr s' \<and> fs_ok s' \<and> user_file f s' \<and> quiet s s' \<and> file_data s' f = Some c \<and> file_pos s' f = p"
proof -
  obtain x n where x: "files s f = Some x" "inodes s (finode x) = Some n" by (rule user_fileE [OF assms(1,2)])
  let ?s = "upd_file f (\<lambda>x. x\<lparr>fpos := int p\<rparr>) s"
  have q: "quiet s ?s" by (simp add: quiet_def)
  have "file_seek f (int p) s = Inr ?s" using x by (simp add: file_seek_def)
  moreover have "fs_ok ?s" using exec_file_ok(3) [OF assms(1,2), of "int p"] x by (simp add: run_op_def file_seek_def)
  moreover have "file_data ?s f = Some c" using assms(3) x by (simp add: file_data_def quiet_views [OF q])
  ultimately show ?thesis using x q assms(2) by (intro exI [of _ ?s]) (simp add: file_pos_def user_file_def)
qed

lemma filesys_open_spec:
  assumes "fs_ok s"
  shows "\<exists>s' r. filesys_open nm s = Inr (s', r) \<and> fs_ok s' \<and> fs_abs s' = fs_abs s \<and> (r = None \<longleftrightarrow> fs_abs s nm = None)
    \<and> (case r of None \<Rightarrow> files s' = files s
        | Some f \<Rightarrow> files s f = None \<and> file_data s' f = fs_abs s nm \<and> file_pos s' f = 0 \<and> (\<exists>x. files s' = (files s)(f \<mapsto> x)) \<and> user_file f s')"
proof (cases "dir_map (entries s) nm")
  case None
  then show ?thesis using filesys_open_ok(1) [OF assms None] kept_abs by (fastforce simp: fs_abs_def)
next
  case (Some k)
  obtain s' f p n where s': "filesys_open nm s = Inr (s', Some f)" "fs_ok s'" "kept s s'" "files s f = None"
      "files s' = (files s)(f \<mapsto> \<lparr>finode = p, fpos = 0, deny_write = False\<rparr>)" "inodes s' p = Some n" "isector n = k"
    using filesys_open_ok(2) [OF assms Some] by blast
  have "k \<in> dir_sectors s" using dir_map_SomeD [OF Some] by (auto simp: dir_sectors_def)
  moreover have "root_ok s" using assms invD(5) unfolding fs_ok_def by blast
  ultimately have "k \<noteq> FREE_MAP_SECTOR" by (auto simp: dir_sectors_def root_ok_def entries_ok_def)
  moreover have "k \<in> live s'" using live_open [OF s'(6)] s'(7) by simp
  ultimately have "contents (D s' k) s' = contents (D s k) s" using s'(3) by (simp add: kept_def)
  then have "file_data s' f = fs_abs s nm" "file_pos s' f = 0" using s'(5-7) Some by (simp_all add: file_data_def fs_abs_def file_pos_def)
  moreover have "user_file f s'"
  proof -
    obtain h x m where "free_map_file s = Some h" "files s h = Some x" using assms invD(3) free_map_inode unfolding fs_ok_def by metis
    then have "free_map_file s' \<noteq> Some f" using kept_free_map_file [OF s'(3)] s'(4) by auto
    then show ?thesis using s'(5) by (simp add: user_file_def)
  qed
  ultimately show ?thesis using s' kept_abs [OF s'(3)] Some by (intro exI [of _ s'] exI [of _ "Some f"]) (auto simp: fs_abs_def)
qed

section \<open>What the file system promises\<close>

text \<open>C19: Formatting. On any device of at least four sectors \<open>filesys_init\<close> with the format option ends without a panic in a state
  that satisfies the invariant of the file system and holds no file.\<close>

theorem filesys_format:
  assumes "mem_ok s" "inodes s = (\<lambda>_. None)" "files s = (\<lambda>_. None)" "free_map_file s = None"
    and "dev_ok (s\<lparr>dev := d\<rparr>)" "4 \<le> bsize d" "bsize d + 32 \<le> u32_mod"
  shows "\<exists>s'. filesys_init (Some d) True s = Inr s' \<and> fs_ok s' \<and> fs_abs s' = Map.empty"
  using format_ok [OF assms] by auto

theorem filesys_format_witness:
  "bsize example_disk = 16 \<and> (\<exists>s'. filesys_init (Some example_disk) True boot_fs = Inr s' \<and> fs_ok s' \<and> fs_abs s' = Map.empty)"
  using filesys_format [OF boot_fs_ok] by (simp add: example_disk_def)









text \<open>C20: \<open>file_write\<close> overwrites the file from its position on, never beyond its end, and advances the position by the number of
  bytes it returns. Under every name the directory has for the file the new contents show, and no other file changes.\<close>

theorem file_write_refines:
  assumes "fs_ok s" "user_file f s" "\<not> denied s f" "file_data s f = Some c" "sz \<le> length buf"
  shows "\<exists>s'. file_write f buf (int sz) s = Inr (s', min sz (length c - file_pos s f)) \<and> fs_ok s'
    \<and> file_data s' f = Some (overwrite c (file_pos s f) (take (min sz (length c - file_pos s f)) buf))
    \<and> file_pos s' f = file_pos s f + min sz (length c - file_pos s f)
    \<and> (\<forall>nm. fs_abs s' nm = (if nm \<in> file_names s f then file_data s' f else fs_abs s nm))"
  using file_write_spec [OF assms] by (elim exE conjE) (intro exI conjI; assumption)

theorem file_write_refines_witness:
  "\<exists>s s' f. fs_ok s \<and> file_write f [1, 2, 3] 3 s = Inr (s', 3) \<and> fs_abs s' [97] = Some [1, 2, 3, 0, 0, 0, 0, 0, 0, 0]"
proof -
  obtain s f where s: "fs_ok s" "user_file f s" "file_data s f = Some (replicate 10 0)" "file_pos s f = 0" "\<not> denied s f" "[97] \<in> file_names s f"
    using example_open by blast
  obtain s' where s': "file_write f [1, 2, 3] 3 s = Inr (s', 3)" "file_data s' f = Some (overwrite (replicate 10 0) 0 [1, 2, 3])"
      "\<forall>nm. fs_abs s' nm = (if nm \<in> file_names s f then file_data s' f else fs_abs s nm)"
    using file_write_refines [OF s(1,2,5,3), of 3 "[1, 2, 3]"] s(4) by (auto simp: min_def)
  have "fs_abs s' [97] = Some [1, 2, 3, 0, 0, 0, 0, 0, 0, 0]" using s'(2,3) s(6) by (simp add: overwrite_def numeral_eq_Suc)
  then show ?thesis using s(1) s'(1) by blast
qed



text \<open>What is written is read back: after a write that stays inside the file, seeking back to where it began and reading the same
  number of bytes returns the bytes written.\<close>

theorem write_read_roundtrip:
  assumes "fs_ok s" "user_file f s" "\<not> denied s f" "file_data s f = Some c" "file_pos s f + length buf \<le> length c"
  shows "\<exists>s1 s2 s3. file_write f buf (int (length buf)) s = Inr (s1, length buf) \<and> file_seek f (int (file_pos s f)) s1 = Inr s2
    \<and> file_read f (int (length buf)) s2 = Inr (s3, buf) \<and> fs_ok s3 \<and> fs_abs s3 = fs_abs s1"
proof -
  have k: "min (length buf) (length c - file_pos s f) = length buf" using assms(5) by linarith
  let ?c = "overwrite c (file_pos s f) buf"
  obtain s1 where s1: "file_write f buf (int (length buf)) s = Inr (s1, length buf)" "fs_ok s1" "file_data s1 f = Some ?c" "user_file f s1"
    using file_write_spec [OF assms(1-4), of "length buf" buf, unfolded k] by auto
  obtain s2 where s2: "file_seek f (int (file_pos s f)) s1 = Inr s2" "fs_ok s2" "user_file f s2" "quiet s1 s2" "file_data s2 f = Some ?c" "file_pos s2 f = file_pos s f"
    using file_seek_spec [OF s1(2,4,3)] by blast
  obtain s3 where s3: "file_read f (int (length buf)) s2 = Inr (s3, take (length buf) (drop (file_pos s f) ?c))" "fs_ok s3" "quiet s2 s3"
    using file_read_spec [OF s2(2,3,5), of "length buf"] s2(6) by auto
  have "take (length buf) (drop (file_pos s f) ?c) = buf" using assms(5) by (simp add: overwrite_def)
  then show ?thesis using s1 s2 s3 quiet_views(10) [OF quiet_trans [OF s2(4) s3(3)]] by auto
qed

text \<open>C22: While writes to an inode are denied through one file, as they are for a running executable, no write through any file of
  the inode changes a byte: it returns zero and leaves the whole state as it is.\<close>

theorem deny_write_safe:
  assumes "fs_ok s" "user_file f s" "files s f = Some x"
  shows "\<exists>s'. file_deny_write f s = Inr s' \<and> fs_ok s' \<and> file_data s' f = file_data s f \<and> files s' = (files s)(f \<mapsto> x\<lparr>deny_write := True\<rparr>)
    \<and> (\<forall>g y buf. files s' g = Some y \<and> finode y = finode x \<longrightarrow> file_write g buf (int (length buf)) s' = Inr (s', 0))"
proof -
  obtain n where n: "inodes s (finode x) = Some n" "isector n \<noteq> FREE_MAP_SECTOR" and i: "inv {} (\<lambda>_. 0) s"
    using user_fileE [OF assms(1,2)] assms(3) by auto
  obtain s' m where s': "file_deny_write f s = Inr s'" "quiet s s'" "files s' = (files s)(f \<mapsto> x\<lparr>deny_write := True\<rparr>)"
      "inodes s' (finode x) = Some m" "deny_write_cnt m \<noteq> 0" "isector m = isector n" using file_deny_write_ok [OF i assms(3) n] by blast
  have "fs_ok s'" using exec_file_ok(4) [OF assms(1,2), of 0] s'(1) by (simp add: run_op_def)
  moreover have "file_data s' f = file_data s f" using s' assms(3) n(1) by (simp add: file_data_def quiet_views [OF s'(2)])
  moreover have "file_write g buf (int (length buf)) s' = Inr (s', 0)" if "files s' g = Some y" "finode y = finode x" for g y buf
    by (rule denied_write [OF that(1), of m]) (use that s'(4,5) in simp_all)
  ultimately show ?thesis using s'(1,3) by blast
qed

theorem deny_write_safe_witness:
  "\<exists>s s' f. fs_ok s \<and> file_deny_write f s = Inr s' \<and> file_write f [1, 2, 3] 3 s' = Inr (s', 0)"
proof -
  obtain s f where s: "fs_ok s" "user_file f s" using example_open by blast
  obtain x where x: "files s f = Some x" using s(2) by (auto simp: user_file_def)
  obtain s' where s': "file_deny_write f s = Inr s'" "files s' = (files s)(f \<mapsto> x\<lparr>deny_write := True\<rparr>)"
      "\<forall>g y buf. files s' g = Some y \<and> finode y = finode x \<longrightarrow> file_write g buf (int (length buf)) s' = Inr (s', 0)"
    using deny_write_safe [OF s x] by blast
  have "files s' f = Some (x\<lparr>deny_write := True\<rparr>) \<and> finode (x\<lparr>deny_write := True\<rparr>) = finode x" using s'(2) by simp
  then have "file_write f [1, 2, 3] (int (length [1, 2, 3 :: byte])) s' = Inr (s', 0)" using s'(3) by blast
  then show ?thesis using s(1) s'(1) by (intro exI [of _ s] exI [of _ s'] exI [of _ f]) simp
qed

text \<open>C18: Nothing is lost over a shutdown: when all files are closed, \<open>filesys_done\<close> leaves a device from which \<open>filesys_init\<close>, without the
  format option and from an empty memory, brings back a file system with the same names and contents.\<close>

theorem remount_roundtrip:
  assumes "fs_ok s" "all_closed s" and "mem_ok m" "inodes m = (\<lambda>_. None)" "files m = (\<lambda>_. None)"
  shows "\<exists>t s'. filesys_done s = Inr t \<and> filesys_init (Some (dev t)) False m = Inr s' \<and> fs_ok s' \<and> fs_abs s' = fs_abs s"
proof -
  obtain t where t: "filesys_done s = Inr t" "disk_ok t" "fs_abs t = fs_abs s" using unmount_ok [OF assms(1,2)] by blast
  have d: "disk_ok (m\<lparr>dev := dev t\<rparr>)" "fs_abs (m\<lparr>dev := dev t\<rparr>) = fs_abs t" using disk_ok_cong [of "m\<lparr>dev := dev t\<rparr>" t] t(2) by simp_all
  show ?thesis using mount_ok [OF assms(3-5) d(1)] d(2) t(1,3) by auto
qed

theorem remount_roundtrip_witness:
  "\<exists>s t s'. fs_abs s = [[97] \<mapsto> replicate 10 0] \<and> filesys_done s = Inr t \<and> filesys_init (Some (dev t)) False boot_fs = Inr s'
     \<and> fs_ok s' \<and> fs_abs s' = [[97] \<mapsto> replicate 10 0]"
proof -
  obtain s where s: "fs_ok s" "fs_abs s = [[97] \<mapsto> replicate 10 0]" "all_closed s" using example_created by blast
  obtain t s' where "filesys_done s = Inr t" "filesys_init (Some (dev t)) False boot_fs = Inr s'" "fs_ok s'" "fs_abs s' = fs_abs s"
    using remount_roundtrip [OF s(1,3) boot_fs_ok(1-3)] by blast
  then show ?thesis using s(2) by auto
qed

text \<open>C23: A negative size, which is what a program's request for two gigabytes or more becomes, stops the kernel in \<open>filesys_create\<close>:
  whenever the device has a free sector the assertion on the length of the inode fails.\<close>

theorem filesys_create_negative:
  assumes "fs_ok s" "len < 0" "free_run s x 1"
  shows "filesys_create nm len s = Inl Assert_failed"
proof -
  have i: "inv {} (\<lambda>_. 0) s" and fo: "files_ok s" using assms(1) by (simp_all add: fs_ok_def)
  obtain t r where t: "dir_open_root s = Inr (t, Some \<lparr>dinode = r, dpos = 0\<rparr>)" "inv {} (bump r (\<lambda>_. 0)) t" "quiet s t"
    using dir_open_root_ok [OF i fo] by blast
  note I = invD [OF t(2)]
  have "free_run t x 1" using assms(3) free_run_quiet [OF t(3)] by simp
  then obtain k u where "free_map_allocate 1 t = Inr (u, Some k)" using free_map_allocate_cases [OF I(1-3), of 1] by metis
  then show ?thesis using t(1) assms(2) by (simp add: filesys_create_def inode_create_def ASSERT_def)
qed

theorem filesys_create_negative_witness:
  "\<exists>s. filesys_init (Some example_disk) True boot_fs = Inr s \<and> filesys_create [97] (- 1) s = Inl Assert_failed"
proof -
  obtain s x where s: "filesys_init (Some example_disk) True boot_fs = Inr s" "fs_ok s" "free_run s x 2" using example_formatted by blast
  have "free_run s x 1" using s(3) by (simp add: free_run_def)
  then show ?thesis using filesys_create_negative [OF s(2), of "- 1"] s(1) by auto
qed

end
