(* ===== verification/ArgStack.thy ===== *)
theory ArgStack
  imports Cstring Vaddr FsData
begin

unbundle bit_operations_syntax

text \<open>
  \<^verbatim>\<open>userprog/process.c\<close>, the command line: \<open>parse_command_string\<close> cuts it into words with \<open>strtok_r\<close>, and
  \<open>setup_stack\<close> pushes the words, their addresses, \<open>argv\<close>, \<open>argc\<close> and a return address on the user stack.
  Memory is the address space of the new process, a partial map from addresses to bytes, in which
  the kernel's copy of the command line and the top page of the user space are mapped. The local arrays of
  pointers are lists of fixed length, whose bounds are checked. The lemmas give the words that the parser
  finds, the command lines that overrun its array, and the stack that \<open>main\<close> starts with.
\<close>

section \<open>Operations\<close>

definition MAX_ARGS_COUNT :: nat where "MAX_ARGS_COUNT = 100"

text \<open>
  The loop of \<open>parse_command_string\<close> has the memory, the array, the parser's place in the string, the index and
  whether the loop was left by \<open>break\<close>. The string of delimiters is at address \<open>space\<close>.
\<close>

type_synonym parse_state = "mem \<times> nat option list \<times> nat \<times> nat \<times> bool"

definition parse_cond :: "parse_state \<Rightarrow> bool res" where
  "parse_cond = (\<lambda>(m, argv, save, i, stop). if stop then Inr False else bind_r (arr_get argv i) (\<lambda>t. Inr (t \<noteq> None)))"

definition parse_body :: "bool \<Rightarrow> nat \<Rightarrow> parse_state \<Rightarrow> parse_state res" where
  "parse_body set_first_only space = (\<lambda>(m, argv, save, i, stop).
     bind_r (strtok_r m None space save) (\<lambda>(m, t, save).
     bind_r (arr_set argv (i + 1) t) (\<lambda>argv. Inr (m, argv, save, i + 1, set_first_only))))"

definition parse_command_string :: "mem \<Rightarrow> nat \<Rightarrow> nat option list \<Rightarrow> bool \<Rightarrow> nat \<Rightarrow> (mem \<times> nat option list \<times> nat) res" where
  "parse_command_string m command argv set_first_only space =
     bind_r (strtok_r m (Some command) space 0) (\<lambda>(m, t, save).
     bind_r (arr_set argv 0 t) (\<lambda>argv.
     bind_r (while_r parse_cond (parse_body set_first_only space) (m, argv, save, 0, False)) (\<lambda>(m, argv, save, i, stop).
     Inr (m, argv, i))))"

text \<open>Storing bytes, and a 32-bit word, at an address.\<close>

primrec wr_bytes :: "mem \<Rightarrow> nat \<Rightarrow> byte list \<Rightarrow> mem res" where
  "wr_bytes m a [] = Inr m"
| "wr_bytes m a (b # bs) = bind_r (wr m a b) (\<lambda>m. wr_bytes m (Suc a) bs)"

definition wr_word :: "mem \<Rightarrow> nat \<Rightarrow> 32 word \<Rightarrow> mem res" where
  "wr_word m a w = wr_bytes m a (le32 w)"

text \<open>
  The two loops of \<open>setup_stack\<close>, for the index running down from \<open>argc - 1\<close> to 0: the first copies the strings,
  keeping their addresses in \<open>ptrs\<close> and their total length, and the second pushes the addresses.
\<close>

primrec push_strings :: "nat option list \<Rightarrow> nat \<Rightarrow> mem \<times> nat \<times> nat list \<times> nat \<Rightarrow> (mem \<times> nat \<times> nat list \<times> nat) res" where
  "push_strings argv 0 st = Inr st"
| "push_strings argv (Suc i) st = (case st of (m, p, ptrs, total_len) \<Rightarrow>
     bind_r (arr_get argv i) (\<lambda>a.
     let a = (case a of None \<Rightarrow> 0 | Some a \<Rightarrow> a) in
     bind_r (strlen m a) (\<lambda>l.
     let arg_length = l + 1; p = sub32 p arg_length in
     bind_r (memcpy m p a arg_length) (\<lambda>(m, _).
     bind_r (arr_set ptrs i p) (\<lambda>ptrs. push_strings argv i (m, p, ptrs, total_len + arg_length))))))"

primrec push_ptrs :: "nat list \<Rightarrow> nat \<Rightarrow> mem \<times> nat \<Rightarrow> (mem \<times> nat) res" where
  "push_ptrs ptrs 0 st = Inr st"
| "push_ptrs ptrs (Suc i) st = (case st of (m, p) \<Rightarrow>
     bind_r (arr_get ptrs i) (\<lambda>a. bind_r (wr_word m p (of_nat a)) (\<lambda>m. push_ptrs ptrs i (m, sub32 p 4))))"

text \<open>The words below the strings: the end of \<open>argv\<close>, its elements, its address, \<open>argc\<close> and the return address.\<close>

definition push_words :: "mem \<Rightarrow> nat \<Rightarrow> nat list \<Rightarrow> nat \<Rightarrow> (mem \<times> nat) res" where
  "push_words m p ptrs argc =
     (let p = sub32 p 4 in
      bind_r (wr_word m p 0) (\<lambda>m.
      bind_r (push_ptrs ptrs argc (m, sub32 p 4)) (\<lambda>(m, p).
      bind_r (wr_word m p (of_nat (add32 p 4))) (\<lambda>m.
      let p = sub32 p 4 in
      bind_r (wr_word m p (of_nat argc)) (\<lambda>m.
      let p = sub32 p 4 in
      bind_r (wr_word m p 0) (\<lambda>m. Inr (m, p)))))))"

text \<open>
  The work of \<open>setup_stack\<close> once the page of the stack is installed: it yields the memory and the stack pointer.
  \<open>argv\<close> and \<open>ptrs\<close> are the contents of the uninitialised arrays.
\<close>

definition push_arguments :: "mem \<Rightarrow> nat \<Rightarrow> nat \<Rightarrow> nat option list \<Rightarrow> nat list \<Rightarrow> (mem \<times> nat) res" where
  "push_arguments m file_name space argv ptrs =
     bind_r (parse_command_string m file_name argv False space) (\<lambda>(m, argv, argc).
     bind_r (push_strings argv argc (m, unat PHYS_BASE, ptrs, 0)) (\<lambda>(m, p, ptrs, total_len).
     let remainder = total_len mod 4 in
     push_words m (if remainder \<noteq> 0 then sub32 p (4 - remainder) else p) ptrs argc))"

section \<open>One word of the command line\<close>

lemma strtok_next:
  assumes d: "cstr m d ds" "d \<noteq> 0" and s: "cstr m s xs" "s \<noteq> 0" "s_arg = Some s \<or> (s_arg = None \<and> save = s)"
    and dis: "d + length ds < s \<or> s + length xs < d" and tk: "tokens (set ds) xs = w # ws"
  obtains m' p s' xs' where "strtok_r m s_arg d save = Inr (m', Some p, s')" "cstr m' p w" "cstr m' s' xs'"
    "tokens (set ds) xs' = ws" "length xs' < length xs" "s \<le> p" "p + length w \<le> s'" "p + length w = s' \<longrightarrow> xs' = []"
    "s' + length xs' = s + length xs" "\<And>a. a < s \<or> s' \<le> a \<Longrightarrow> m' a = m a" "\<And>a. m' a = None \<longleftrightarrow> m a = None" "cstr m' d ds"
proof -
  obtain pre tok rest where x: "xs = pre @ tok @ rest" "set pre \<subseteq> set ds" "set tok \<inter> set ds = {}"
      "rest = [] \<or> hd rest \<in> set ds" "tok = [] \<longrightarrow> rest = []"
    using split_token by metis
  have ne: "tok \<noteq> []" using tk tokens_none [OF x(2)] x(1,5) by auto
  have ts: "w = tok" "ws = tokens (set ds) (tl rest)" using tk tokens_split [OF x(2,3,4) ne] x(1) by simp_all
  define p where "p = s + length pre"
  define m1 where "m1 = (if rest = [] then m else m(p + length tok \<mapsto> 0))"
  define sv where "sv = (if rest = [] then p + length tok else p + length tok + 1)"
  have call: "strtok_r m s_arg d save = Inr (m1, Some p, sv)"
    using strtok_r_eq [OF d s(1) [unfolded x(1)] s(2,3) x(2-5)] ne by (simp add: p_def m1_def sv_def)
  have cs: "cstr m p (tok @ rest)" using s(1) unfolding x(1) by (simp add: cstr_append p_def)
  have len: "s + length xs = p + length tok + length rest" by (simp add: x(1) p_def)
  show thesis
  proof
    show "strtok_r m s_arg d save = Inr (m1, Some p, sv)" by (rule call)
    show "cstr m1 p w"
      using cs unfolding cstr_def m1_def ts by (cases rest) (auto simp: bytes_at_append bytes_at_upd)
    show "cstr m1 sv (tl rest)"
    proof (cases rest)
      case Nil
      then show ?thesis using cs [unfolded cstr_append] by (simp add: m1_def sv_def)
    next
      case (Cons c r)
      then have "cstr m (p + length tok + 1) r" using cs by (simp add: cstr_append)
      then show ?thesis unfolding m1_def sv_def Cons by (subst cstr_cong [of _ _ _ m]) auto
    qed
    show "tokens (set ds) (tl rest) = ws" by (simp add: ts)
    show "length (tl rest) < length xs" using ne unfolding x(1) by (cases rest) auto
    show "s \<le> p" "p + length w \<le> sv" "p + length w = sv \<longrightarrow> tl rest = []" "sv + length (tl rest) = s + length xs"
      using len by (cases rest; simp add: p_def sv_def ts)+
    show "m1 a = m a" if "a < s \<or> sv \<le> a" for a using that by (auto simp: m1_def sv_def p_def split: if_splits)
    have "m (p + length tok) \<noteq> None" using cs by (cases rest) (auto simp: cstr_def bytes_at_append)
    then show "m1 a = None \<longleftrightarrow> m a = None" for a by (auto simp: m1_def)
    show "cstr m1 d ds"
      using d(1) dis len unfolding m1_def p_def by (subst cstr_cong [of _ _ _ m]) auto
  qed
qed

lemma strtok_done:
  assumes d: "cstr m d ds" "d \<noteq> 0" and s: "cstr m s xs" "s \<noteq> 0" "s_arg = Some s \<or> (s_arg = None \<and> save = s)"
    and tk: "tokens (set ds) xs = []"
  obtains s' where "strtok_r m s_arg d save = Inr (m, None, s')"
proof -
  obtain pre tok rest where x: "xs = pre @ tok @ rest" "set pre \<subseteq> set ds" "set tok \<inter> set ds = {}"
      "rest = [] \<or> hd rest \<in> set ds" "tok = [] \<longrightarrow> rest = []"
    using split_token by metis
  have "tok = []" using tk tokens_split [OF x(2,3,4)] x(1) by force
  then show thesis using that strtok_r_eq [OF d s(1) [unfolded x(1)] s(2,3) x(2-5)] by auto
qed

section \<open>The words of the command line\<close>

lemma parse_step:
  assumes "argv ! i = Some p" "i < length argv"
  shows "while_r parse_cond (parse_body f d) (m, argv, save, i, False)
     = bind_r (strtok_r m None d save) (\<lambda>(m, t, save). bind_r (arr_set argv (i + 1) t) (\<lambda>argv.
         while_r parse_cond (parse_body f d) (m, argv, save, i + 1, f)))"
proof -
  have "while_r parse_cond (parse_body f d) (m, argv, save, i, False)
      = bind_r (parse_body f d (m, argv, save, i, False)) (while_r parse_cond (parse_body f d))"
    by (subst while_r_unfold) (simp add: parse_cond_def assms)
  then show ?thesis by (simp add: parse_body_def split_def bind_r_assoc)
qed

lemma parse_stop: "argv ! i = None \<Longrightarrow> i < length argv \<Longrightarrow> while_r parse_cond b (m, argv, save, i, f) = Inr (m, argv, save, i, f)"
  by (rule while_r_False) (simp add: parse_cond_def)

lemma parse_loop:
  assumes "cstr m d ds" "d \<noteq> 0" "cstr m s xs" "s \<noteq> 0" "d + length ds < s \<or> s + length xs < d"
    and "i < length argv" "argv ! i = Some p" "i + 1 + length (tokens (set ds) xs) < length argv"
  shows "\<exists>m' argv' ps s'. while_r parse_cond (parse_body False d) (m, argv, s, i, False)
             = Inr (m', argv', s', i + 1 + length (tokens (set ds) xs), False)
       \<and> length argv' = length argv \<and> take (Suc i) argv' = take (Suc i) argv
       \<and> take (length (tokens (set ds) xs) + 1) (drop (Suc i) argv') = map Some ps @ [None]
       \<and> list_all2 (cstr m') ps (tokens (set ds) xs) \<and> (\<forall>q\<in>set ps. s \<le> q)
       \<and> (\<forall>a. a < s \<or> s + length xs \<le> a \<longrightarrow> m' a = m a) \<and> (\<forall>a. m' a = None \<longleftrightarrow> m a = None)"
  using assms
proof (induction "tokens (set ds) xs" arbitrary: m s xs i p argv)
  case Nil
  obtain s' where "strtok_r m None d s = Inr (m, None, s')"
    by (rule strtok_done [OF Nil.prems(1-4) _ Nil.hyps [symmetric], of None s]) simp_all
  then show ?case
    using Nil.prems(6,7,8) by (simp add: parse_step Nil.hyps [symmetric] parse_stop) (simp add: take_Suc_conv_app_nth)
next
  case (Cons w ws)
  obtain m1 q s1 xs1 where r: "strtok_r m None d s = Inr (m1, Some q, s1)" "cstr m1 q w" "cstr m1 s1 xs1"
      "tokens (set ds) xs1 = ws" "length xs1 < length xs" "s \<le> q" "q + length w \<le> s1" "q + length w = s1 \<longrightarrow> xs1 = []"
      "s1 + length xs1 = s + length xs" "\<And>a. a < s \<or> s1 \<le> a \<Longrightarrow> m1 a = m a" "\<And>a. m1 a = None \<longleftrightarrow> m a = None" "cstr m1 d ds"
    by (rule strtok_next [OF Cons.prems(1-4) _ Cons.prems(5) Cons.hyps(2) [symmetric], of None s]) simp_all
  let ?argv = "argv[Suc i := Some q]"
  have l: "Suc i < length argv" "Suc i + 1 + length (tokens (set ds) xs1) < length ?argv"
    using Cons.prems(8) by (simp_all add: Cons.hyps(2) [symmetric] r(4))
  have s1: "s1 \<noteq> 0" "d + length ds < s1 \<or> s1 + length xs1 < d" using Cons.prems(4,5) r(6,7,9) by auto
  from Cons.hyps(1) [OF r(4) [symmetric] r(12) Cons.prems(2) r(3) s1, of "Suc i" ?argv q] l
  obtain m' argv' ps s' where ih: "while_r parse_cond (parse_body False d) (m1, ?argv, s1, Suc i, False)
             = Inr (m', argv', s', Suc i + 1 + length ws, False)"
       "length argv' = length argv" "take (Suc (Suc i)) argv' = take (Suc (Suc i)) ?argv"
       "take (length ws + 1) (drop (Suc (Suc i)) argv') = map Some ps @ [None]"
       "list_all2 (cstr m') ps ws" "\<forall>q\<in>set ps. s1 \<le> q"
       "\<forall>a. a < s1 \<or> s1 + length xs1 \<le> a \<longrightarrow> m' a = m1 a" "\<forall>a. m' a = None \<longleftrightarrow> m1 a = None"
    by (auto simp: r(4))
  have w: "while_r parse_cond (parse_body False d) (m, argv, s, i, False) = Inr (m', argv', s', i + 1 + length (tokens (set ds) xs), False)"
    using ih(1) l(1) by (simp add: parse_step [OF Cons.prems(7,6)] r(1) Cons.hyps(2) [symmetric])
  have qw: "cstr m' q w"
  proof (cases "xs1 = []")
    case True
    then have "m' = m1" using ih(7) by (intro ext) (simp add: not_less [symmetric])
    then show ?thesis using r(2) by simp
  next
    case False
    then have "\<And>j. j \<le> length w \<Longrightarrow> m' (q + j) = m1 (q + j)" using ih(7) r(7,8) by simp
    then show ?thesis using r(2) cstr_cong [of w m' q m1] by simp
  qed
  have tk: "take (Suc i) argv' = take (Suc i) argv" "argv' ! Suc i = Some q"
    using arg_cong [OF ih(3), of "take (Suc i)"] arg_cong [OF ih(3), of "\<lambda>xs. xs ! Suc i"] l(1) ih(2) by simp_all
  have dr: "drop (Suc i) argv' = Some q # drop (Suc (Suc i)) argv'"
    using l(1) ih(2) tk(2) Cons_nth_drop_Suc [of "Suc i" argv'] by simp
  have fr: "m' a = m a" if "a < s \<or> s + length xs \<le> a" for a
    using ih(7) r(6,7,9,10) that by (metis add_leD1 le_trans less_le_trans)
  show ?case
    by (rule exI [of _ m'], rule exI [of _ argv'], rule exI [of _ "q # ps"], rule exI [of _ s'])
      (use w ih(2,4,5,6,8) tk dr qw fr r(6,7,11) in \<open>auto simp: Cons.hyps(2) [symmetric]\<close>)
qed

lemma arr_set_out [simp]: "length xs \<le> i \<Longrightarrow> arr_set xs i v = Inl Out_of_bounds"
  by (simp add: arr_set_def)

lemma parse_overrun_loop:
  assumes "cstr m d ds" "d \<noteq> 0" "cstr m s xs" "s \<noteq> 0" "d + length ds < s \<or> s + length xs < d"
    and "i < length argv" "argv ! i = Some p" "length argv \<le> i + 1 + length (tokens (set ds) xs)"
  shows "while_r parse_cond (parse_body False d) (m, argv, s, i, False) = Inl Out_of_bounds"
  using assms
proof (induction "tokens (set ds) xs" arbitrary: m s xs i p argv)
  case Nil
  obtain s' where "strtok_r m None d s = Inr (m, None, s')"
    by (rule strtok_done [OF Nil.prems(1-4) _ Nil.hyps [symmetric], of None s]) simp_all
  then show ?case using Nil.prems(6,7,8) by (simp add: parse_step Nil.hyps [symmetric])
next
  case (Cons w ws)
  obtain m1 q s1 xs1 where r: "strtok_r m None d s = Inr (m1, Some q, s1)" "cstr m1 q w" "cstr m1 s1 xs1"
      "tokens (set ds) xs1 = ws" "length xs1 < length xs" "s \<le> q" "q + length w \<le> s1" "q + length w = s1 \<longrightarrow> xs1 = []"
      "s1 + length xs1 = s + length xs" "\<And>a. a < s \<or> s1 \<le> a \<Longrightarrow> m1 a = m a" "\<And>a. m1 a = None \<longleftrightarrow> m a = None" "cstr m1 d ds"
    by (rule strtok_next [OF Cons.prems(1-4) _ Cons.prems(5) Cons.hyps(2) [symmetric], of None s]) simp_all
  let ?argv = "argv[Suc i := Some q]"
  have s1: "s1 \<noteq> 0" "d + length ds < s1 \<or> s1 + length xs1 < d" using Cons.prems(4,5) r(6,7,9) by auto
  show ?case
  proof (cases "Suc i < length argv")
    case True
    moreover have "length ?argv \<le> Suc i + 1 + length (tokens (set ds) xs1)"
      using Cons.prems(8) by (simp add: Cons.hyps(2) [symmetric] r(4))
    ultimately have "while_r parse_cond (parse_body False d) (m1, ?argv, s1, Suc i, False) = Inl Out_of_bounds"
      using Cons.hyps(1) [OF r(4) [symmetric] r(12) Cons.prems(2) r(3) s1, of "Suc i" ?argv q] by simp
    then show ?thesis using True by (simp add: parse_step [OF Cons.prems(7,6)] r(1))
  qed (simp add: parse_step [OF Cons.prems(7,6)] r(1))
qed

text \<open>
  A string \<open>xs\<close> at address \<open>s\<close> that can be cut at the characters \<open>ds\<close> of the string at \<open>d\<close>, which it does not touch.
\<close>

definition cuttable :: "mem \<Rightarrow> nat \<Rightarrow> byte list \<Rightarrow> nat \<Rightarrow> byte list \<Rightarrow> bool" where
  "cuttable m s xs d ds \<longleftrightarrow> cstr m s xs \<and> cstr m d ds \<and> s \<noteq> 0 \<and> d \<noteq> 0 \<and> (d + length ds < s \<or> s + length xs < d)"

lemma cuttableD:
  assumes "cuttable m s xs d ds"
  shows "cstr m d ds" "d \<noteq> 0" "cstr m s xs" "s \<noteq> 0" "d + length ds < s \<or> s + length xs < d"
  using assms by (simp_all add: cuttable_def)

lemma parse_words:
  assumes c: "cuttable m s xs d ds" and l: "length (tokens (set ds) xs) < length argv"
  obtains m' argv' ps where "parse_command_string m s argv False d = Inr (m', argv', length (tokens (set ds) xs))"
    "length argv' = length argv" "take (length (tokens (set ds) xs) + 1) argv' = map Some ps @ [None]"
    "list_all2 (cstr m') ps (tokens (set ds) xs)" "\<forall>q\<in>set ps. s \<le> q"
    "\<And>a. a < s \<or> s + length xs \<le> a \<Longrightarrow> m' a = m a" "\<And>a. m' a = None \<longleftrightarrow> m a = None"
proof (cases "tokens (set ds) xs")
  case Nil
  obtain s' where "strtok_r m (Some s) d 0 = Inr (m, None, s')"
    by (rule strtok_done [OF cuttableD(1-4) [OF c] _ Nil, of "Some s" 0]) simp_all
  then show thesis
    by (intro that [of m "argv[0 := None]" "[]"]) (use l in \<open>simp_all add: Nil parse_command_string_def parse_stop take_Suc_conv_app_nth\<close>)
next
  case (Cons w ws)
  obtain m1 q s1 xs1 where r: "strtok_r m (Some s) d 0 = Inr (m1, Some q, s1)" "cstr m1 q w" "cstr m1 s1 xs1"
      "tokens (set ds) xs1 = ws" "length xs1 < length xs" "s \<le> q" "q + length w \<le> s1" "q + length w = s1 \<longrightarrow> xs1 = []"
      "s1 + length xs1 = s + length xs" "\<And>a. a < s \<or> s1 \<le> a \<Longrightarrow> m1 a = m a" "\<And>a. m1 a = None \<longleftrightarrow> m a = None" "cstr m1 d ds"
    by (rule strtok_next [OF cuttableD(1-4) [OF c] _ cuttableD(5) [OF c] Cons, of "Some s" 0]) simp_all
  let ?argv = "argv[0 := Some q]"
  have s1: "s1 \<noteq> 0" "d + length ds < s1 \<or> s1 + length xs1 < d" using cuttableD(4,5) [OF c] r(6,7,9) by auto
  have g: "0 < length ?argv" "?argv ! 0 = Some q" "0 + 1 + length (tokens (set ds) xs1) < length ?argv"
    using l unfolding Cons r(4) [symmetric] by (cases argv; simp)+
  obtain m' argv' ps s' where ih: "while_r parse_cond (parse_body False d) (m1, ?argv, s1, 0, False)
             = Inr (m', argv', s', 1 + length ws, False)"
       "length argv' = length argv" "take 1 argv' = take 1 ?argv"
       "take (length ws + 1) (drop 1 argv') = map Some ps @ [None]"
       "list_all2 (cstr m') ps ws" "\<forall>q\<in>set ps. s1 \<le> q"
       "\<forall>a. a < s1 \<or> s1 + length xs1 \<le> a \<longrightarrow> m' a = m1 a" "\<forall>a. m' a = None \<longleftrightarrow> m1 a = None"
    using parse_loop [OF r(12) cuttableD(2) [OF c] r(3) s1 g] by (auto simp: r(4))
  have qw: "cstr m' q w"
  proof (cases "xs1 = []")
    case True
    then have "m' = m1" using ih(7) by (intro ext) (simp add: not_less [symmetric])
    then show ?thesis using r(2) by simp
  next
    case False
    then have "\<And>j. j \<le> length w \<Longrightarrow> m' (q + j) = m1 (q + j)" using ih(7) r(7,8) by simp
    then show ?thesis using r(2) cstr_cong [of w m' q m1] by simp
  qed
  obtain x ys where a: "argv' = x # ys" using ih(2) l by (cases argv') auto
  show thesis
  proof (rule that [of m' argv' "q # ps"])
    show "parse_command_string m s argv False d = Inr (m', argv', length (tokens (set ds) xs))"
      using ih(1) g(1) by (simp add: parse_command_string_def r(1) Cons)
    show "take (length (tokens (set ds) xs) + 1) argv' = map Some (q # ps) @ [None]"
      using ih(3,4) g(1) by (simp add: a Cons take_Suc_conv_app_nth)
    show "m' a = m a" if "a < s \<or> s + length xs \<le> a" for a
      using ih(7) r(6,7,9,10) that by (metis add_leD1 le_trans less_le_trans)
  qed (use ih(2,5,6,8) qw r(6,7,11) in \<open>auto simp: Cons\<close>)
qed

lemma parse_overrun:
  assumes c: "cuttable m s xs d ds" and l: "length argv \<le> length (tokens (set ds) xs)"
  shows "parse_command_string m s argv False d = Inl Out_of_bounds"
proof (cases "tokens (set ds) xs")
  case Nil
  obtain s' where "strtok_r m (Some s) d 0 = Inr (m, None, s')"
    by (rule strtok_done [OF cuttableD(1-4) [OF c] _ Nil, of "Some s" 0]) simp_all
  then show ?thesis using l by (simp add: parse_command_string_def Nil)
next
  case (Cons w ws)
  obtain m1 q s1 xs1 where r: "strtok_r m (Some s) d 0 = Inr (m1, Some q, s1)" "cstr m1 q w" "cstr m1 s1 xs1"
      "tokens (set ds) xs1 = ws" "length xs1 < length xs" "s \<le> q" "q + length w \<le> s1" "q + length w = s1 \<longrightarrow> xs1 = []"
      "s1 + length xs1 = s + length xs" "\<And>a. a < s \<or> s1 \<le> a \<Longrightarrow> m1 a = m a" "\<And>a. m1 a = None \<longleftrightarrow> m a = None" "cstr m1 d ds"
    by (rule strtok_next [OF cuttableD(1-4) [OF c] _ cuttableD(5) [OF c] Cons, of "Some s" 0]) simp_all
  have s1: "s1 \<noteq> 0" "d + length ds < s1 \<or> s1 + length xs1 < d" using cuttableD(4,5) [OF c] r(6,7,9) by auto
  show ?thesis
  proof (cases "argv = []")
    case False
    have "while_r parse_cond (parse_body False d) (m1, argv[0 := Some q], s1, 0, False) = Inl Out_of_bounds"
      by (rule parse_overrun_loop [OF r(12) cuttableD(2) [OF c] r(3) s1]) (use False l in \<open>simp_all add: r(4) Cons\<close>)
    then show ?thesis using False by (simp add: parse_command_string_def r(1))
  qed (simp add: parse_command_string_def r(1))
qed

text \<open>With \<open>set_first_only\<close> the function still stores a second pointer.\<close>

lemma parse_first:
  assumes c: "cuttable m s xs d ds" and t: "tokens (set ds) xs = w # ws"
  shows "length argv = 1 \<Longrightarrow> parse_command_string m s argv True d = Inl Out_of_bounds"
    and "1 < length argv \<Longrightarrow> \<exists>m' argv' q. parse_command_string m s argv True d = Inr (m', argv', 1) \<and> argv' ! 0 = Some q
       \<and> length argv' = length argv \<and> s \<le> q \<and> cstr m' q w \<and> (\<forall>a. a < s \<or> s + length xs \<le> a \<longrightarrow> m' a = m a)"
proof -
  obtain m1 q s1 xs1 where r: "strtok_r m (Some s) d 0 = Inr (m1, Some q, s1)" "cstr m1 q w" "cstr m1 s1 xs1"
      "tokens (set ds) xs1 = ws" "length xs1 < length xs" "s \<le> q" "q + length w \<le> s1" "q + length w = s1 \<longrightarrow> xs1 = []"
      "s1 + length xs1 = s + length xs" "\<And>a. a < s \<or> s1 \<le> a \<Longrightarrow> m1 a = m a" "\<And>a. m1 a = None \<longleftrightarrow> m a = None" "cstr m1 d ds"
    by (rule strtok_next [OF cuttableD(1-4) [OF c] _ cuttableD(5) [OF c] t, of "Some s" 0]) simp_all
  have s1: "s1 \<noteq> 0" "d + length ds < s1 \<or> s1 + length xs1 < d" using cuttableD(4,5) [OF c] r(6,7,9) by auto
  obtain m2 u s2 where n: "strtok_r m1 None d s1 = Inr (m2, u, s2)" "\<forall>a. a < s1 \<or> s1 + length xs1 \<le> a \<longrightarrow> m2 a = m1 a"
      "xs1 = [] \<longrightarrow> m2 = m1"
  proof (cases "tokens (set ds) xs1")
    case Nil
    show ?thesis by (rule strtok_done [OF r(12) cuttableD(2) [OF c] r(3) s1(1) _ Nil, of None s1]) (use that in auto)
  next
    case (Cons v vs)
    then have ne: "xs1 \<noteq> []" using tokens_none [of "[]" "set ds"] by auto
    show ?thesis
      by (rule strtok_next [OF r(12) cuttableD(2) [OF c] r(3) s1(1) _ s1(2) Cons, of None s1]) (use that ne in auto)
  qed
  show "parse_command_string m s argv True d = Inl Out_of_bounds" if "length argv = 1"
    using that by (simp add: parse_command_string_def r(1) parse_step n(1))
  have qw: "cstr m2 q w"
  proof (cases "xs1 = []")
    case False
    then have "\<And>j. j \<le> length w \<Longrightarrow> m2 (q + j) = m1 (q + j)" using n(2) r(7,8) by simp
    then show ?thesis using r(2) cstr_cong [of w m2 q m1] by simp
  qed (use n(3) r(2) in simp)
  have fr: "m2 a = m a" if "a < s \<or> s + length xs \<le> a" for a
    using n(2) r(6,7,9,10) that by (metis add_leD1 le_trans less_le_trans)
  show "\<exists>m' argv' q. parse_command_string m s argv True d = Inr (m', argv', 1) \<and> argv' ! 0 = Some q
       \<and> length argv' = length argv \<and> s \<le> q \<and> cstr m' q w \<and> (\<forall>a. a < s \<or> s + length xs \<le> a \<longrightarrow> m' a = m a)" if l: "1 < length argv"
  proof -
    obtain x y zs where a: "argv = x # y # zs" using l by (cases argv; cases "tl argv") auto
    have "while_r parse_cond (parse_body True d) (m2, argv[0 := Some q, Suc 0 := u], s2, Suc 0, True)
        = Inr (m2, argv[0 := Some q, Suc 0 := u], s2, Suc 0, True)"
      by (rule while_r_False) (simp add: parse_cond_def)
    then have "parse_command_string m s argv True d = Inr (m2, argv[0 := Some q, Suc 0 := u], 1)"
      using l a by (simp add: parse_command_string_def r(1) parse_step n(1))
    moreover have "argv[0 := Some q, Suc 0 := u] ! 0 = Some q" by (simp add: a)
    moreover have "length (argv[0 := Some q, Suc 0 := u]) = length argv" by simp
    ultimately show ?thesis using qw fr r(6) by blast
  qed
qed

section \<open>The strings on the stack\<close>

lemma put_None: "mapped m a (length xs) \<Longrightarrow> put m a xs p = None \<longleftrightarrow> m p = None"
  unfolding put_def mapped_def by (metis le_add_diff_inverse nat_add_left_cancel_less option.distinct(1))

lemma mapped_sub:
  assumes "mapped m a n" "a \<le> b" "b + k \<le> a + n"
  shows "mapped m b k"
  unfolding mapped_def
proof (intro allI impI)
  fix i assume "i < k"
  then have "b - a + i < n" "b + i = a + (b - a + i)" using assms(2,3) by simp_all
  then show "m (b + i) \<noteq> None" using assms(1) unfolding mapped_def by metis
qed

lemma wr_bytes_eq: "mapped m a (length bs) \<Longrightarrow> wr_bytes m a bs = Inr (put m a bs)"
proof (induction bs arbitrary: m a)
  case (Cons b bs)
  then have "mapped (m(a \<mapsto> b)) (Suc a) (length bs)" by (simp add: mapped_Suc)
  then show ?case using Cons by (simp add: mapped_Suc put_Cons)
qed simp

lemma wr_word_eq: "mapped m a 4 \<Longrightarrow> wr_word m a w = Inr (put m a (le32 w))"
  by (simp add: wr_word_def wr_bytes_eq)

definition word_at :: "mem \<Rightarrow> nat \<Rightarrow> 32 word \<Rightarrow> bool" where
  "word_at m a w \<longleftrightarrow> bytes_at m a (le32 w)"

definition strings_size :: "byte list list \<Rightarrow> nat" where
  "strings_size ws = sum_list (map (\<lambda>w. length w + 1) ws)"

lemma strings_size_simps [simp]: "strings_size [] = 0" "strings_size (w # ws) = length w + 1 + strings_size ws"
  "strings_size (ws @ vs) = strings_size ws + strings_size vs"
  by (simp_all add: strings_size_def)

lemma push_strings_ok:
  assumes "n \<le> length argv" "n \<le> length ptrs" "\<And>i. i < n \<Longrightarrow> \<exists>a. argv ! i = Some a \<and> cstr m a (ws ! i) \<and> tp \<le> a"
    and "n \<le> length ws" "p \<le> tp" "tp < u32_mod" "lo + strings_size (take n ws) \<le> p" "mapped m lo (tp - lo)" "0 < lo"
  shows "\<exists>m' ptrs'. push_strings argv n (m, p, ptrs, t)
             = Inr (m', p - strings_size (take n ws), ptrs', t + strings_size (take n ws))
       \<and> length ptrs' = length ptrs \<and> (\<forall>i. n \<le> i \<longrightarrow> ptrs' ! i = ptrs ! i)
       \<and> (\<forall>i<n. cstr m' (ptrs' ! i) (ws ! i) \<and> p - strings_size (take n ws) \<le> ptrs' ! i \<and> ptrs' ! i + length (ws ! i) < p)
       \<and> (\<forall>a. a < p - strings_size (take n ws) \<or> p \<le> a \<longrightarrow> m' a = m a) \<and> (\<forall>a. m' a = None \<longleftrightarrow> m a = None)"
  using assms
proof (induction n arbitrary: m p ptrs t)
  case 0
  then show ?case by simp
next
  case (Suc n)
  obtain a where a: "argv ! n = Some a" "cstr m a (ws ! n)" "tp \<le> a" using Suc.prems(3) [of n] by auto
  let ?l = "length (ws ! n) + 1"
  define q where "q = p - ?l"
  define m1 where "m1 = put m q (ws ! n @ [0])"
  have tk: "take (Suc n) ws = take n ws @ [ws ! n]" using Suc.prems(4) by (simp add: take_Suc_conv_app_nth)
  have q: "lo + strings_size (take n ws) \<le> q" "q + ?l = p" "q \<le> tp" "q \<noteq> 0" "sub32 p ?l = q"
    using Suc.prems(5,6,7,9) unfolding tk q_def by simp_all
  have mp: "mapped m q (length (ws ! n @ [0]))" using Suc.prems(5) q(1,2) by (intro mapped_sub [OF Suc.prems(8)]) simp_all
  have cpy: "memcpy m q a ?l = Inr (m1, q)"
    using memcpy_eq [of m a "ws ! n @ [0]" q] a(2,3) q(2-4) Suc.prems(5,9) mp unfolding m1_def cstr_def by simp
  have keep: "m1 x = m x" if "x < q \<or> p \<le> x" for x using that q(2) by (auto simp: m1_def put_def)
  have none: "m1 x = None \<longleftrightarrow> m x = None" for x unfolding m1_def by (rule put_None [OF mp])
  have strs: "\<exists>a. argv ! i = Some a \<and> cstr m1 a (ws ! i) \<and> tp \<le> a" if i: "i < n" for i
  proof -
    obtain b where "argv ! i = Some b" "cstr m b (ws ! i)" "tp \<le> b" using Suc.prems(3) [OF less_SucI [OF i]] by auto
    then show ?thesis using cstr_cong [of "ws ! i" m1 b m] keep Suc.prems(5) by auto
  qed
  have "mapped m1 lo (tp - lo)" using Suc.prems(8) none by (simp add: mapped_def)
  then obtain m' ptrs' where ih: "push_strings argv n (m1, q, ptrs[n := q], t + ?l)
             = Inr (m', q - strings_size (take n ws), ptrs', t + ?l + strings_size (take n ws))"
       "length ptrs' = length ptrs" "\<forall>i. n \<le> i \<longrightarrow> ptrs' ! i = ptrs[n := q] ! i"
       "\<forall>i<n. cstr m' (ptrs' ! i) (ws ! i) \<and> q - strings_size (take n ws) \<le> ptrs' ! i \<and> ptrs' ! i + length (ws ! i) < q"
       "\<forall>a. a < q - strings_size (take n ws) \<or> q \<le> a \<longrightarrow> m' a = m1 a" "\<forall>a. m' a = None \<longleftrightarrow> m1 a = None"
    using Suc.IH [OF _ _ strs _ q(3) Suc.prems(6) q(1), of "ptrs[n := q]" "t + ?l"] Suc.prems(1,2,4,9) by auto
  have len: "strlen m a = Inr (length (ws ! n))" using strlen_eq [OF a(2)] a(3) Suc.prems(5,9) q(2,4) by simp
  have run: "push_strings argv (Suc n) (m, p, ptrs, t)
      = Inr (m', p - strings_size (take (Suc n) ws), ptrs', t + strings_size (take (Suc n) ws))"
    using ih(1) Suc.prems(1,2) a(1) len cpy q(2,5) by (simp add: tk q_def add.commute add.left_commute)
  have own: "cstr m' (ptrs' ! n) (ws ! n)" "ptrs' ! n = q"
  proof -
    show e: "ptrs' ! n = q" using ih(3) Suc.prems(2) by simp
    have "cstr m1 q (ws ! n)" using a(2) unfolding m1_def cstr_def by simp
    then show "cstr m' (ptrs' ! n) (ws ! n)" unfolding e using cstr_cong [of "ws ! n" m' q m1] ih(5) by simp
  qed
  have lo: "p - strings_size (take (Suc n) ws) = q - strings_size (take n ws)" unfolding tk q_def by simp
  have all: "\<forall>i<Suc n. cstr m' (ptrs' ! i) (ws ! i) \<and> p - strings_size (take (Suc n) ws) \<le> ptrs' ! i \<and> ptrs' ! i + length (ws ! i) < p"
    unfolding lo using ih(4) own q(2) by (auto simp: less_Suc_eq)
  have fr: "\<forall>a. a < p - strings_size (take (Suc n) ws) \<or> p \<le> a \<longrightarrow> m' a = m a"
    unfolding lo using ih(5) keep q(2) by (metis add_leD1 diff_le_self less_le_trans)
  have pt: "\<forall>i. Suc n \<le> i \<longrightarrow> ptrs' ! i = ptrs ! i" using ih(3) by simp
  show ?case using run ih(2) pt all fr ih(6) none by blast
qed

section \<open>The frame of main\<close>

lemma word_at_put [simp]: "word_at (put m a (le32 w)) a w"
  by (simp add: word_at_def)

lemma word_at_cong: "(\<And>i. i < 4 \<Longrightarrow> m' (a + i) = m (a + i)) \<Longrightarrow> word_at m' a w = word_at m a w"
  unfolding word_at_def by (rule bytes_at_cong) simp

lemma push_ptrs_ok:
  assumes "n \<le> length ptrs" "lo + 4 * n \<le> p" "p < u32_mod" "mapped m lo (p + 4 - lo)"
  shows "\<exists>m'. push_ptrs ptrs n (m, p) = Inr (m', p - 4 * n)
       \<and> (\<forall>i<n. word_at m' (p - 4 * n + 4 + 4 * i) (of_nat (ptrs ! i)))
       \<and> (\<forall>a. a < p - 4 * n + 4 \<or> p + 4 \<le> a \<longrightarrow> m' a = m a) \<and> (\<forall>a. m' a = None \<longleftrightarrow> m a = None)"
  using assms
proof (induction n arbitrary: m p)
  case 0
  then show ?case by simp
next
  case (Suc n)
  define m1 where "m1 = put m p (le32 (of_nat (ptrs ! n)))"
  have mp: "mapped m p (length (le32 (of_nat (ptrs ! n))))" by (rule mapped_sub [OF Suc.prems(4)]) (use Suc.prems(2) in simp_all)
  have wr: "wr_word m p (of_nat (ptrs ! n)) = Inr m1" using mp by (simp add: wr_word_eq m1_def)
  have none: "m1 x = None \<longleftrightarrow> m x = None" for x unfolding m1_def by (rule put_None [OF mp])
  have keep: "m1 x = m x" if "x < p \<or> p + 4 \<le> x" for x using that by (auto simp: m1_def put_def)
  have "mapped m1 lo (p + 4 - lo)" using Suc.prems(4) none by (simp add: mapped_def)
  then have mp1: "mapped m1 lo (p - 4 + 4 - lo)" by (rule mapped_sub) (use Suc.prems(2) in simp_all)
  have g: "n \<le> length ptrs" "lo + 4 * n \<le> p - 4" "p - 4 < u32_mod"
    using Suc.prems(1,2) less_imp_diff_less [OF Suc.prems(3)] by simp_all
  obtain m' where ih: "push_ptrs ptrs n (m1, p - 4) = Inr (m', p - 4 - 4 * n)"
      "\<forall>i<n. word_at m' (p - 4 - 4 * n + 4 + 4 * i) (of_nat (ptrs ! i))"
      "\<forall>a. a < p - 4 - 4 * n + 4 \<or> p - 4 + 4 \<le> a \<longrightarrow> m' a = m1 a" "\<forall>a. m' a = None \<longleftrightarrow> m1 a = None"
    using Suc.IH [OF g mp1] by blast
  have e: "p - 4 - 4 * n = p - 4 * Suc n" "p - 4 + 4 = p" using Suc.prems(2) by simp_all
  have run: "push_ptrs ptrs (Suc n) (m, p) = Inr (m', p - 4 * Suc n)"
    using ih(1) wr Suc.prems(1,2,3) by (simp add: e(1) [symmetric])
  have "word_at m1 p (of_nat (ptrs ! n))" by (simp add: m1_def)
  then have last: "word_at m' p (of_nat (ptrs ! n))" using word_at_cong [of m' p m1] ih(3) e(2) by simp
  have "word_at m' (p - 4 * Suc n + 4 + 4 * i) (of_nat (ptrs ! i))" if "i < Suc n" for i
  proof (cases "i = n")
    case True
    have "p - 4 * Suc n + 4 + 4 * n = p" using Suc.prems(2) by simp
    then show ?thesis unfolding True using last by (simp only:)
  qed (use that ih(2) in \<open>simp add: e(1)\<close>)
  moreover have "m' a = m a" if "a < p - 4 * Suc n + 4 \<or> p + 4 \<le> a" for a
  proof -
    have "a < p - 4 - 4 * n + 4 \<or> p - 4 + 4 \<le> a" "a < p \<or> p + 4 \<le> a" using that Suc.prems(2) by auto
    then show ?thesis using ih(3) keep by metis
  qed
  ultimately show ?case using run ih(4) none by blast
qed

text \<open>
  What \<open>main (argc, argv)\<close> finds on its stack: the return address, \<open>argc\<close>, \<open>argv\<close>, the array of the addresses of the
  words, ended by a null pointer, and above it the words.
\<close>

definition main_frame :: "mem \<Rightarrow> nat \<Rightarrow> byte list list \<Rightarrow> bool" where
  "main_frame m esp ws \<longleftrightarrow> word_at m esp 0 \<and> word_at m (esp + 4) (of_nat (length ws)) \<and> word_at m (esp + 8) (of_nat (esp + 12))
     \<and> word_at m (esp + 12 + 4 * length ws) 0
     \<and> (\<forall>i<length ws. \<exists>a. word_at m (esp + 12 + 4 * i) (of_nat a) \<and> esp + 16 + 4 * length ws \<le> a
           \<and> a + length (ws ! i) < unat PHYS_BASE \<and> cstr m a (ws ! i))"

text \<open>The bytes the arguments take: the strings, rounded up to words, and the words below them.\<close>

definition stack_need :: "byte list list \<Rightarrow> nat" where
  "stack_need ws = (strings_size ws + 3) div 4 * 4 + 4 * (length ws + 4)"

lemma pad_eq: "(t + 3) div 4 * 4 = t + (if t mod 4 \<noteq> 0 then 4 - t mod 4 else (0 :: nat))"
proof -
  obtain q r where t: "t = 4 * q + r" "r < 4" by (metis mod_less_divisor mult_div_mod_eq zero_less_numeral)
  then have "r = 0 \<or> r = 1 \<or> r = 2 \<or> r = 3" by auto
  then show ?thesis unfolding t(1) by auto
qed

lemma PHYS_BASE_unat: "unat PHYS_BASE = 3221225472"
  by (simp add: PHYS_BASE_def)

lemma push_words_ok:
  assumes l: "n \<le> length pt" and lo: "lo + 4 * (n + 4) \<le> A" and A: "A < u32_mod" and mp: "mapped m lo (A - lo)"
  shows "\<exists>m' esp. push_words m A pt n = Inr (m', esp) \<and> esp + 4 * (n + 4) = A
      \<and> word_at m' esp 0 \<and> word_at m' (esp + 4) (of_nat n) \<and> word_at m' (esp + 8) (of_nat (esp + 12))
      \<and> (\<forall>i<n. word_at m' (esp + 12 + 4 * i) (of_nat (pt ! i))) \<and> word_at m' (esp + 12 + 4 * n) 0
      \<and> (\<forall>a. a < esp \<or> A \<le> a \<longrightarrow> m' a = m a)"
proof -
  define esp where "esp = A - 4 * (n + 4)"
  have e: "A = esp + 16 + 4 * n" "lo \<le> esp" "esp + 16 + 4 * n < u32_mod" using lo A unfolding esp_def by simp_all
  note mp = mp [unfolded e(1)]
  define m1 where "m1 = put m (esp + 12 + 4 * n) (le32 0)"
  have w1: "mapped m (esp + 12 + 4 * n) 4" by (rule mapped_sub [OF mp]) (use e(2) in simp_all)
  have n1: "m1 a = None \<longleftrightarrow> m a = None" for a unfolding m1_def by (rule put_None) (use w1 in simp)
  have mp1: "mapped m1 lo (esp + 8 + 4 * n + 4 - lo)" using mapped_sub [OF mp, of lo "esp + 8 + 4 * n + 4 - lo"] e(2) n1
    by (simp add: mapped_def)
  have g: "lo + 4 * n \<le> esp + 8 + 4 * n" "esp + 8 + 4 * n < u32_mod" using e(2,3) by linarith+
  obtain m2 where p: "push_ptrs pt n (m1, esp + 8 + 4 * n) = Inr (m2, esp + 8)"
      "\<forall>i<n. word_at m2 (esp + 12 + 4 * i) (of_nat (pt ! i))"
      "\<forall>a. a < esp + 12 \<or> esp + 12 + 4 * n \<le> a \<longrightarrow> m2 a = m1 a" "\<forall>a. m2 a = None \<longleftrightarrow> m1 a = None"
    using push_ptrs_ok [OF l g mp1] by (auto simp: add.commute add.left_commute)
  have mp2: "mapped m2 (esp + k) 4" if "k \<le> 8" for k
    using mapped_sub [OF mp, of "esp + k" 4] e(2) that n1 p(4) by (simp add: mapped_def)
  define m3 where "m3 = put m2 (esp + 8) (le32 (of_nat (esp + 12)))"
  define m4 where "m4 = put m3 (esp + 4) (le32 (of_nat n))"
  define m5 where "m5 = put m4 esp (le32 0)"
  have w: "wr_word m2 (esp + 8) (of_nat (esp + 12)) = Inr m3" "wr_word m3 (esp + 4) (of_nat n) = Inr m4" "wr_word m4 esp 0 = Inr m5"
  proof -
    have 3: "m3 a = None \<longleftrightarrow> m2 a = None" for a unfolding m3_def by (rule put_None) (use mp2 [of 8] in simp)
    have 4: "m4 a = None \<longleftrightarrow> m3 a = None" for a unfolding m4_def by (rule put_None) (use mp2 [of 4] 3 in \<open>simp add: mapped_def\<close>)
    show "wr_word m2 (esp + 8) (of_nat (esp + 12)) = Inr m3" "wr_word m3 (esp + 4) (of_nat n) = Inr m4" "wr_word m4 esp 0 = Inr m5"
      using mp2 [of 8] mp2 [of 4] mp2 [of 0] 3 4 unfolding m3_def m4_def m5_def
      by (auto intro!: wr_word_eq simp del: of_nat_add simp: mapped_def)
  qed
  have sub: "sub32 A 4 = esp + 12 + 4 * n" "sub32 (esp + 12 + 4 * n) 4 = esp + 8 + 4 * n" "add32 (esp + 8) 4 = esp + 12"
      "sub32 (esp + 8) 4 = esp + 4" "sub32 (esp + 4) 4 = esp"
    using e(3) by (simp_all add: e(1))
  have run: "push_words m A pt n = Inr (m5, esp)"
    unfolding push_words_def sub Let_def wr_word_eq [OF w1] bind_r_Inr m1_def [symmetric] p(1) prod.case w ..
  have keep: "m5 a = m2 a" if "a < esp \<or> esp + 12 \<le> a" for a
    using that by (auto simp: m5_def m4_def m3_def put_def)
  have hi: "word_at m5 a v = word_at m2 a v" if "esp + 12 \<le> a" for a v by (rule word_at_cong) (use keep that in simp)
  have "word_at m5 esp 0" "word_at m5 (esp + 4) (of_nat n)" "word_at m5 (esp + 8) (of_nat (esp + 12))"
    unfolding m5_def m4_def m3_def word_at_def by (simp_all add: bytes_at_put_other)
  moreover have "\<forall>i<n. word_at m5 (esp + 12 + 4 * i) (of_nat (pt ! i))" using p(2) hi by simp
  moreover have "word_at m2 (esp + 12 + 4 * n) 0" using p(3) word_at_cong [of m2 "esp + 12 + 4 * n" m1 0] by (simp add: m1_def)
  then have "word_at m5 (esp + 12 + 4 * n) 0" using hi by simp
  moreover have "m5 a = m a" if "a < esp \<or> A \<le> a" for a
    using keep [of a] p(3) that e(1) by (auto simp: m1_def put_def)
  ultimately show ?thesis using run e(1) by (intro exI [of _ m5] exI [of _ esp]) simp
qed

lemma push_arguments_ok:
  assumes c: "cuttable m s xs d ds" and t: "tokens (set ds) xs = ws"
    and k: "unat PHYS_BASE \<le> s" and mp: "mapped m (unat PHYS_BASE - 4096) 4096"
    and l: "length ws < length argv" "length ws \<le> length ptrs" and fit: "stack_need ws \<le> 4096"
  obtains m' esp where "push_arguments m s d argv ptrs = Inr (m', esp)" "esp = unat PHYS_BASE - stack_need ws" "main_frame m' esp ws"
    "\<And>a. a < esp \<or> unat PHYS_BASE \<le> a \<and> (a < s \<or> s + length xs \<le> a) \<Longrightarrow> m' a = m a"
proof -
  let ?n = "length ws" and ?S = "strings_size ws"
  define T where "T = unat PHYS_BASE"
  have T: "T < u32_mod" "4096 < T" by (simp_all add: T_def PHYS_BASE_unat)
  note k = k [folded T_def] and mp = mp [folded T_def]
  obtain m1 av ps where p: "parse_command_string m s argv False d = Inr (m1, av, ?n)" "length av = length argv"
      "take (?n + 1) av = map Some ps @ [None]" "list_all2 (cstr m1) ps ws" "\<forall>q\<in>set ps. s \<le> q"
      "\<And>a. a < s \<or> s + length xs \<le> a \<Longrightarrow> m1 a = m a" "\<And>a. m1 a = None \<longleftrightarrow> m a = None"
    by (rule parse_words [OF c l(1) [folded t], unfolded t]) (rule that)
  have strs: "\<exists>a. av ! i = Some a \<and> cstr m1 a (ws ! i) \<and> T \<le> a" if i: "i < ?n" for i
  proof -
    have n: "length ps = ?n" using p(4) by (rule list_all2_lengthD)
    have "av ! i = take (?n + 1) av ! i" using i by simp
    also have "\<dots> = Some (ps ! i)" unfolding p(3) using i n by (simp add: nth_append)
    finally show ?thesis using list_all2_nthD2 [OF p(4) i] p(5) k i n by (metis le_trans nth_mem)
  qed
  have need: "(?S + 3) div 4 * 4 + 4 * (?n + 4) \<le> 4096" using fit by (simp add: stack_need_def)
  have S: "?S \<le> (?S + 3) div 4 * 4" using pad_eq [of ?S] by simp
  define A where "A = T - (?S + 3) div 4 * 4"
  have mp1: "mapped m1 (T - 4096) (T - (T - 4096))" using mp p(7) T(2) by (simp add: mapped_def)
  have g: "?n \<le> length av" "T - 4096 + strings_size (take ?n ws) \<le> T" "0 < T - 4096" using l(1) p(2) need S T(2) by simp_all
  obtain m2 pt where q: "push_strings av ?n (m1, T, ptrs, 0) = Inr (m2, T - ?S, pt, ?S)" "length pt = length ptrs"
      "\<forall>i<?n. cstr m2 (pt ! i) (ws ! i) \<and> T - ?S \<le> pt ! i \<and> pt ! i + length (ws ! i) < T"
      "\<forall>a. a < T - ?S \<or> T \<le> a \<longrightarrow> m2 a = m1 a" "\<forall>a. m2 a = None \<longleftrightarrow> m1 a = None"
    using push_strings_ok [OF g(1) l(2) strs order.refl order.refl T(1) g(2) mp1 g(3), of 0] by auto
  have A: "(if ?S mod 4 \<noteq> 0 then sub32 (T - ?S) (4 - ?S mod 4) else T - ?S) = A"
    using pad_eq [of ?S] need T unfolding A_def by auto
  have bd: "A \<le> T - ?S" "T - 4096 + 4 * (?n + 4) \<le> A" "A \<le> T" "A < u32_mod" using S need T unfolding A_def by linarith+
  have mp2: "mapped m2 (T - 4096) (A - (T - 4096))" using mapped_mono [OF mp1, of "A - (T - 4096)"] bd(3) q(5) by (simp add: mapped_def)
  obtain m3 esp where w: "push_words m2 A pt ?n = Inr (m3, esp)" "esp + 4 * (?n + 4) = A"
      "word_at m3 esp 0" "word_at m3 (esp + 4) (of_nat ?n)" "word_at m3 (esp + 8) (of_nat (esp + 12))"
      "\<forall>i<?n. word_at m3 (esp + 12 + 4 * i) (of_nat (pt ! i))" "word_at m3 (esp + 12 + 4 * ?n) 0"
      "\<forall>a. a < esp \<or> A \<le> a \<longrightarrow> m3 a = m2 a"
    using push_words_ok [OF l(2) [folded q(2)] bd(2,4) mp2] by blast
  have args: "\<exists>a. word_at m3 (esp + 12 + 4 * i) (of_nat a) \<and> esp + 16 + 4 * ?n \<le> a \<and> a + length (ws ! i) < T \<and> cstr m3 a (ws ! i)"
    if i: "i < ?n" for i
  proof -
    have "cstr m2 (pt ! i) (ws ! i)" "A \<le> pt ! i" "pt ! i + length (ws ! i) < T" using q(3) i bd(1) by (auto intro: le_trans)
    moreover have "cstr m3 (pt ! i) (ws ! i) = cstr m2 (pt ! i) (ws ! i)" by (rule cstr_cong) (use w(8) \<open>A \<le> pt ! i\<close> in simp)
    ultimately show ?thesis using w(2,6) i by auto
  qed
  show thesis
  proof (rule that [of m3 esp])
    show "push_arguments m s d argv ptrs = Inr (m3, esp)"
      unfolding push_arguments_def p(1) bind_r_Inr prod.case T_def [symmetric] q(1) Let_def A by (rule w(1))
    show "esp = unat PHYS_BASE - stack_need ws" using w(2) unfolding A_def stack_need_def T_def by simp
    show "main_frame m3 esp ws" unfolding main_frame_def T_def [symmetric] using w(3-5,7) args by blast
    show "m3 a = m a" if "a < esp \<or> unat PHYS_BASE \<le> a \<and> (a < s \<or> s + length xs \<le> a)" for a
      using that w(2,8) q(4) p(6) bd(1,3) k unfolding T_def [symmetric] by (metis add_leD1 le_trans less_le_trans)
  qed
qed

section \<open>Properties\<close>

text \<open>A command line \<open>a b\<close>, with the string of delimiters, in kernel memory, and the page of the stack below it.\<close>

definition example_mem :: mem where
  "example_mem = put (put (\<lambda>a. if 3221221376 \<le> a \<and> a < 3221225536 then Some 0 else None) 3221225472 [97, 32, 98]) 3221225520 [32]"

lemma example_mem_ok: "cuttable example_mem 3221225472 [97, 32, 98] 3221225520 [32]" "tokens (set [32]) [97, 32, 98] = [[97], [98]]"
    "mapped example_mem 3221221376 4096"
  by (simp_all add: cuttable_def example_mem_def put_def mapped_def tokens.simps)

text \<open>C11: when the words of the command line fit into the local arrays and the page of the stack, \<open>setup_stack\<close> pushes exactly the frame that
  \<open>main (argc, argv)\<close> expects: the number of the words, an array of pointers to copies of them in their order, ended by a null pointer,
  word aligned below the strings, and a return address of 0; it changes nothing below the stack pointer.
\<close>

theorem push_arguments_main:
  assumes "cuttable m s xs d ds" "unat PHYS_BASE \<le> s" "mapped m (unat PHYS_BASE - 4096) 4096"
    and "length (tokens (set ds) xs) < length argv" "length (tokens (set ds) xs) \<le> length ptrs" "stack_need (tokens (set ds) xs) \<le> 4096"
  shows "\<exists>m' esp. push_arguments m s d argv ptrs = Inr (m', esp) \<and> esp = unat PHYS_BASE - stack_need (tokens (set ds) xs) \<and> 4 dvd esp
     \<and> main_frame m' esp (tokens (set ds) xs) \<and> (\<forall>a<esp. m' a = m a)"
proof -
  obtain m' esp where r: "push_arguments m s d argv ptrs = Inr (m', esp)" "esp = unat PHYS_BASE - stack_need (tokens (set ds) xs)"
      "main_frame m' esp (tokens (set ds) xs)" "\<And>a. a < esp \<or> unat PHYS_BASE \<le> a \<and> (a < s \<or> s + length xs \<le> a) \<Longrightarrow> m' a = m a"
    using push_arguments_ok [OF assms(1) refl assms(2-6)] by blast
  moreover have "4 dvd esp" unfolding r(2) by (intro dvd_diff_nat) (simp_all add: PHYS_BASE_unat stack_need_def)
  ultimately show ?thesis by blast
qed

theorem push_arguments_main_witness:
  "\<exists>m' esp. push_arguments example_mem 3221225472 3221225520 (replicate 100 None) (replicate 100 0) = Inr (m', esp) \<and> esp = 3221225444
     \<and> main_frame m' esp [[97], [98]]"
  using push_arguments_main [OF example_mem_ok(1), of "replicate 100 None" "replicate 100 0"] example_mem_ok(3)
  unfolding example_mem_ok(2) by (auto simp: PHYS_BASE_unat stack_need_def)

text \<open>C24: the parser of command lines does not check the length of its array. It runs past the end exactly when the array is not longer than the
  number of words, so a command line of \<open>MAX_ARGS_COUNT\<close> words overruns the arrays of \<open>setup_stack\<close>; and with
  \<open>set_first_only\<close> it stores a second pointer, so it overruns the array of one element that \<open>process_execute\<close> and \<open>load\<close> pass.
\<close>

theorem parse_command_string_overrun:
  assumes "cuttable m s xs d ds"
  shows "(parse_command_string m s argv False d = Inl Out_of_bounds \<longleftrightarrow> length argv \<le> length (tokens (set ds) xs))
     \<and> (tokens (set ds) xs \<noteq> [] \<and> length one = 1 \<longrightarrow> parse_command_string m s one True d = Inl Out_of_bounds)"
proof (intro conjI impI)
  show "parse_command_string m s argv False d = Inl Out_of_bounds \<longleftrightarrow> length argv \<le> length (tokens (set ds) xs)"
    using parse_overrun [OF assms, of argv] by (metis Inl_Inr_False not_le parse_words [OF assms])
  show "parse_command_string m s one True d = Inl Out_of_bounds" if "tokens (set ds) xs \<noteq> [] \<and> length one = 1"
    using that parse_first(1) [OF assms] by (metis list.exhaust)
qed

theorem parse_command_string_overrun_witness:
  "parse_command_string example_mem 3221225472 [None, None] False 3221225520 = Inl Out_of_bounds
   \<and> parse_command_string example_mem 3221225472 [None, None, None] False 3221225520 \<noteq> Inl Out_of_bounds
   \<and> parse_command_string example_mem 3221225472 [None] True 3221225520 = Inl Out_of_bounds"
  using parse_command_string_overrun [OF example_mem_ok(1), of "[None, None]" "[None]"]
    parse_command_string_overrun [OF example_mem_ok(1), of "[None, None, None]"]
  unfolding example_mem_ok(2) by simp

end
