(* ===== verification/Loader.thy ===== *)
theory Loader
  imports ArgStack Pagedir FsProps
begin

unbundle bit_operations_syntax

text \<open>
  \<^verbatim>\<open>userprog/process.c\<close>, the loader: \<open>load\<close> with its helpers \<open>validate_segment\<close>, \<open>load_segment\<close>, \<open>setup_stack\<close> and
  \<open>install_page\<close>. The state joins the page tables, the file system, the bytes of the frames of user pages by
  kernel address, and the bytes of the kernel's own buffers. The two views of memory do not overlap: frames come from the
  user pool. Taking and releasing \<open>open_close_lock\<close> around the calls of the file system is not part of these definitions.
\<close>

section \<open>State\<close>

record lstate =
  lvm :: vm
  lfs :: fs
  ubytes :: "32 word \<Rightarrow> byte"
  kmem :: mem
  pagedir :: "32 word"
  exec_fp :: "nat option"
  out_of_money :: bool

text \<open>Bytes stored from an address on.\<close>

definition put_at :: "(32 word \<Rightarrow> byte) \<Rightarrow> 32 word \<Rightarrow> byte list \<Rightarrow> 32 word \<Rightarrow> byte" where
  "put_at b k xs = (\<lambda>a. if unat (a - k) < length xs then xs ! unat (a - k) else b a)"

definition get_kpage :: "32 word \<Rightarrow> lstate \<Rightarrow> (lstate \<times> 32 word) res" where
  "get_kpage flags s =
     bind_r (palloc_get_page flags (pm (lvm s))) (\<lambda>(m, k).
     let s = s\<lparr>lvm := (lvm s)\<lparr>pm := m\<rparr>\<rparr> in
     Inr (if k \<noteq> 0 \<and> flags AND PAL_ZERO \<noteq> 0 then s\<lparr>ubytes := put_at (ubytes s) k (replicate PGSIZE 0)\<rparr> else s, k))"

definition free_kpage :: "32 word \<Rightarrow> lstate \<Rightarrow> lstate res" where
  "free_kpage k s =
     bind_r (free_page k (lvm s)) (\<lambda>v. Inr (s\<lparr>lvm := v, ubytes := put_at (ubytes s) k (replicate PGSIZE 0xcc)\<rparr>))"

section \<open>Pages and segments\<close>

definition install_page :: "32 word \<Rightarrow> 32 word \<Rightarrow> bool \<Rightarrow> lstate \<Rightarrow> (lstate \<times> bool) res" where
  "install_page upage kpage writable s =
     bind_r (pagedir_get_page (pagedir s) upage (lvm s)) (\<lambda>p.
     if p = 0
     then bind_r (pagedir_set_page (pagedir s) upage kpage writable (lvm s)) (\<lambda>(v, ok). Inr (s\<lparr>lvm := v\<rparr>, ok))
     else Inr (s, False))"

text \<open>One round of the loop of \<open>load_segment\<close>: fills a page with \<open>page_read_bytes\<close> bytes of the file and zeros, and installs it.\<close>

definition segment_page :: "nat \<Rightarrow> bool \<Rightarrow> 32 word \<Rightarrow> nat \<Rightarrow> lstate \<Rightarrow> (lstate \<times> bool) res" where
  "segment_page f writable upage page_read_bytes s =
     (let page_zero_bytes = PGSIZE - page_read_bytes in
      bind_r (get_kpage PAL_USER s) (\<lambda>(s, kpage).
      if kpage = 0 then Inr (s, False)
      else bind_r (file_read f (int page_read_bytes) (lfs s)) (\<lambda>(t, xs).
        let s = s\<lparr>lfs := t, ubytes := put_at (ubytes s) kpage xs\<rparr> in
        if length xs \<noteq> page_read_bytes then bind_r (free_kpage kpage s) (\<lambda>s. Inr (s, False))
        else ASSERT (kpage + of_nat page_read_bytes \<noteq> 0 \<or> page_zero_bytes = 0)
         (let s = s\<lparr>ubytes := put_at (ubytes s) (kpage + of_nat page_read_bytes) (replicate page_zero_bytes 0)\<rparr> in
          bind_r (install_page upage kpage writable s) (\<lambda>(s, ok).
          if ok then Inr (s, True) else bind_r (free_kpage kpage s) (\<lambda>s. Inr (s, False)))))))"

text \<open>The loop has the state, \<open>upage\<close>, \<open>read_bytes\<close>, \<open>zero_bytes\<close> and whether no round has failed.\<close>

type_synonym segment_state = "lstate \<times> 32 word \<times> nat \<times> nat \<times> bool"

definition segment_cond :: "segment_state \<Rightarrow> bool res" where
  "segment_cond = (\<lambda>(s, upage, rb, zb, ok). Inr (ok \<and> (rb > 0 \<or> zb > 0)))"

definition segment_body :: "nat \<Rightarrow> bool \<Rightarrow> segment_state \<Rightarrow> segment_state res" where
  "segment_body f writable = (\<lambda>(s, upage, rb, zb, ok).
     let page_read_bytes = (if rb < PGSIZE then rb else PGSIZE) in
     bind_r (segment_page f writable upage page_read_bytes s) (\<lambda>(s, ok).
     Inr (if ok then (s, upage + of_nat PGSIZE, rb - page_read_bytes, sub32 zb (PGSIZE - page_read_bytes), True)
          else (s, upage, rb, zb, False))))"

definition load_segment :: "nat \<Rightarrow> int \<Rightarrow> 32 word \<Rightarrow> nat \<Rightarrow> nat \<Rightarrow> bool \<Rightarrow> lstate \<Rightarrow> (lstate \<times> bool) res" where
  "load_segment f ofs upage read_bytes zero_bytes writable s =
     ASSERT (add32 read_bytes zero_bytes mod PGSIZE = 0) (ASSERT (pg_ofs upage = 0) (ASSERT (cmod ofs (int PGSIZE) = 0)
       (bind_r (file_seek f ofs (lfs s)) (\<lambda>t.
        bind_r (while_r segment_cond (segment_body f writable) (s\<lparr>lfs := t\<rparr>, upage, read_bytes, zero_bytes, True))
          (\<lambda>(s, _, _, _, ok). Inr (s, ok))))))"

section \<open>ELF executables\<close>

record Elf32_Ehdr =
  e_ident :: "byte list"
  e_type :: "16 word"
  e_machine :: "16 word"
  e_version :: "32 word"
  e_entry :: "32 word"
  e_phoff :: "32 word"
  e_shoff :: "32 word"
  e_flags :: "32 word"
  e_ehsize :: "16 word"
  e_phentsize :: "16 word"
  e_phnum :: "16 word"
  e_shentsize :: "16 word"
  e_shnum :: "16 word"
  e_shstrndx :: "16 word"

record Elf32_Phdr =
  p_type :: "32 word"
  p_offset :: "32 word"
  p_vaddr :: "32 word"
  p_paddr :: "32 word"
  p_filesz :: "32 word"
  p_memsz :: "32 word"
  p_flags :: "32 word"
  p_align :: "32 word"

definition EHDR_SIZE :: nat where "EHDR_SIZE = 52"
definition PHDR_SIZE :: nat where "PHDR_SIZE = 32"

fun un_le16 :: "byte list \<Rightarrow> 16 word" where
  "un_le16 (a # b # _) = ucast a OR push_bit 8 (ucast b)"
| "un_le16 _ = 0"

text \<open>The structures as the bytes of the file lay them out.\<close>

definition bytes_ehdr :: "byte list \<Rightarrow> Elf32_Ehdr" where
  "bytes_ehdr bs = \<lparr>e_ident = take 16 bs, e_type = un_le16 (drop 16 bs), e_machine = un_le16 (drop 18 bs), e_version = un_le32 (drop 20 bs),
     e_entry = un_le32 (drop 24 bs), e_phoff = un_le32 (drop 28 bs), e_shoff = un_le32 (drop 32 bs), e_flags = un_le32 (drop 36 bs),
     e_ehsize = un_le16 (drop 40 bs), e_phentsize = un_le16 (drop 42 bs), e_phnum = un_le16 (drop 44 bs), e_shentsize = un_le16 (drop 46 bs),
     e_shnum = un_le16 (drop 48 bs), e_shstrndx = un_le16 (drop 50 bs)\<rparr>"

definition bytes_phdr :: "byte list \<Rightarrow> Elf32_Phdr" where
  "bytes_phdr bs = \<lparr>p_type = un_le32 bs, p_offset = un_le32 (drop 4 bs), p_vaddr = un_le32 (drop 8 bs), p_paddr = un_le32 (drop 12 bs),
     p_filesz = un_le32 (drop 16 bs), p_memsz = un_le32 (drop 20 bs), p_flags = un_le32 (drop 24 bs), p_align = un_le32 (drop 28 bs)\<rparr>"

definition PT_NULL :: "32 word" where "PT_NULL = 0"
definition PT_LOAD :: "32 word" where "PT_LOAD = 1"
definition PT_DYNAMIC :: "32 word" where "PT_DYNAMIC = 2"
definition PT_INTERP :: "32 word" where "PT_INTERP = 3"
definition PT_NOTE :: "32 word" where "PT_NOTE = 4"
definition PT_SHLIB :: "32 word" where "PT_SHLIB = 5"
definition PT_PHDR :: "32 word" where "PT_PHDR = 6"
definition PT_STACK :: "32 word" where "PT_STACK = 0x6474e551"
definition PF_X :: "32 word" where "PF_X = 1"
definition PF_W :: "32 word" where "PF_W = 2"
definition PF_R :: "32 word" where "PF_R = 4"

definition valid_ehdr :: "Elf32_Ehdr \<Rightarrow> bool" where
  "valid_ehdr h \<longleftrightarrow> take 7 (e_ident h) = [0x7f, 0x45, 0x4c, 0x46, 1, 1, 1] \<and> e_type h = 2 \<and> e_machine h = 3 \<and> e_version h = 1
     \<and> unat (e_phentsize h) = PHDR_SIZE \<and> unat (e_phnum h) \<le> 1024"

definition validate_segment :: "Elf32_Phdr \<Rightarrow> nat \<Rightarrow> fs \<Rightarrow> bool res" where
  "validate_segment phdr f t =
     (if p_offset phdr AND PGMASK \<noteq> p_vaddr phdr AND PGMASK then Inr False
      else bind_r (file_length f t) (\<lambda>len.
        Inr (\<not> p_offset phdr > of_int len
           \<and> \<not> p_memsz phdr < p_filesz phdr
           \<and> p_memsz phdr \<noteq> 0
           \<and> is_user_vaddr (p_vaddr phdr)
           \<and> is_user_vaddr (p_vaddr phdr + p_memsz phdr)
           \<and> \<not> p_vaddr phdr + p_memsz phdr < p_vaddr phdr
           \<and> \<not> p_vaddr phdr < of_nat PGSIZE)))"

text \<open>The sizes \<open>load\<close> passes to \<open>load_segment\<close>.\<close>

definition segment_read_bytes :: "Elf32_Phdr \<Rightarrow> nat" where
  "segment_read_bytes phdr =
     (if p_filesz phdr > 0 then unat ((p_vaddr phdr AND PGMASK) + p_filesz phdr) else 0)"

definition segment_zero_bytes :: "Elf32_Phdr \<Rightarrow> nat" where
  "segment_zero_bytes phdr =
     (let page_offset = p_vaddr phdr AND PGMASK in
      if p_filesz phdr > 0
      then sub32 (ROUND_UP (unat (page_offset + p_memsz phdr)) PGSIZE) (segment_read_bytes phdr)
      else ROUND_UP (unat (page_offset + p_memsz phdr)) PGSIZE)"

definition load_phdr :: "nat \<Rightarrow> Elf32_Phdr \<Rightarrow> lstate \<Rightarrow> (lstate \<times> bool) res" where
  "load_phdr f phdr s =
     (if p_type phdr = PT_DYNAMIC \<or> p_type phdr = PT_INTERP \<or> p_type phdr = PT_SHLIB then Inr (s, False)
      else if p_type phdr = PT_LOAD
      then bind_r (validate_segment phdr f (lfs s)) (\<lambda>ok.
        if ok
        then load_segment f (sint (p_offset phdr AND NOT PGMASK)) (p_vaddr phdr AND NOT PGMASK)
               (segment_read_bytes phdr) (segment_zero_bytes phdr) (p_flags phdr AND PF_W \<noteq> 0) s
        else Inr (s, False))
      else Inr (s, True))"

text \<open>The loop over the program headers: the state, the index, \<open>file_ofs\<close> and whether no header has failed.\<close>

type_synonym headers_state = "lstate \<times> nat \<times> int \<times> bool"

definition headers_cond :: "nat \<Rightarrow> headers_state \<Rightarrow> bool res" where
  "headers_cond phnum = (\<lambda>(s, i, file_ofs, ok). Inr (ok \<and> i < phnum))"

definition headers_body :: "nat \<Rightarrow> headers_state \<Rightarrow> headers_state res" where
  "headers_body f = (\<lambda>(s, i, file_ofs, ok).
     bind_r (file_length f (lfs s)) (\<lambda>len.
     if file_ofs < 0 \<or> file_ofs > len then Inr (s, i, file_ofs, False)
     else bind_r (file_seek f file_ofs (lfs s)) (\<lambda>t.
       bind_r (file_read f (int PHDR_SIZE) t) (\<lambda>(t, xs).
       let s = s\<lparr>lfs := t\<rparr> in
       if length xs \<noteq> PHDR_SIZE then Inr (s, i, file_ofs, False)
       else bind_r (load_phdr f (bytes_phdr xs) s) (\<lambda>(s, ok).
         Inr (s, i + 1, signed_take_bit 31 (file_ofs + int PHDR_SIZE), ok))))))"

section \<open>The stack\<close>

text \<open>
  The address space in which \<open>setup_stack\<close> works: the kernel's memory, and the page below \<open>PHYS_BASE\<close>, whose frame is at
  \<open>kpage\<close>. A store below that page counts as a fault. \<open>stack_back\<close> puts the memory back into the state.
\<close>

definition stack_base :: nat where "stack_base = unat PHYS_BASE - PGSIZE"

definition stack_view :: "32 word \<Rightarrow> lstate \<Rightarrow> mem" where
  "stack_view kpage s = (\<lambda>a. if a < stack_base then None
     else if a < unat PHYS_BASE then Some (ubytes s (kpage + of_nat (a - stack_base))) else kmem s a)"

definition stack_back :: "32 word \<Rightarrow> mem \<Rightarrow> lstate \<Rightarrow> lstate" where
  "stack_back kpage m s = s\<lparr>kmem := (\<lambda>a. if a < unat PHYS_BASE then kmem s a else m a),
     ubytes := put_at (ubytes s) kpage (map (\<lambda>i. the (m (stack_base + i))) [0..<PGSIZE])\<rparr>"

definition setup_stack :: "nat \<Rightarrow> nat \<Rightarrow> nat option list \<Rightarrow> nat list \<Rightarrow> lstate \<Rightarrow> (lstate \<times> nat \<times> bool) res" where
  "setup_stack file_name space argv ptrs s =
     bind_r (get_kpage (PAL_USER OR PAL_ZERO) s) (\<lambda>(s, kpage).
     if kpage = 0 then Inr (s, 0, False)
     else bind_r (install_page (PHYS_BASE - of_nat PGSIZE) kpage True s) (\<lambda>(s, success).
       if success
       then bind_r (push_arguments (stack_view kpage s) file_name space argv ptrs) (\<lambda>(m, esp). Inr (stack_back kpage m s, esp, True))
       else bind_r (free_kpage kpage s) (\<lambda>s. Inr (s, 0, False))))"

section \<open>Loading\<close>

text \<open>
  The local variables of \<open>load\<close> and \<open>setup_stack\<close>: the addresses of the copies of the command line and of the string of
  delimiters, and the slots of the arrays of pointers. The array \<open>argv\<close> of \<open>load\<close> is declared with one element; \<open>argv1\<close> are
  the slots that can be stored to from it on.
\<close>

record frame =
  no_args :: nat
  cpy :: nat
  space :: nat
  argv1 :: "nat option list"
  argv100 :: "nat option list"
  ptrs100 :: "nat list"

definition read_string :: "mem \<Rightarrow> nat \<Rightarrow> byte list res" where
  "read_string m a = bind_r (strlen m a) (\<lambda>l. Inr (map (\<lambda>i. the (m (a + i))) [0..<l]))"

text \<open>
  Opening the executable. When that fails the code looks the name up once more and opens the file whose name it reads from the memory
  of the inode found, \<open>inode_name\<close>.
\<close>

definition open_executable :: "byte list \<Rightarrow> (nat \<Rightarrow> byte list) \<Rightarrow> fs \<Rightarrow> (fs \<times> nat option) res" where
  "open_executable nm inode_name t =
     bind_r (filesys_open nm t) (\<lambda>(t, r). case r of
       Some f \<Rightarrow> Inr (t, Some f)
     | None \<Rightarrow> bind_r (dir_open_root t) (\<lambda>(t, d).
         bind_r (case d of None \<Rightarrow> Inr (t, None) | Some dd \<Rightarrow> dir_lookup dd nm t) (\<lambda>(t, p).
         bind_r (dir_close d t) (\<lambda>t.
         case p of None \<Rightarrow> Inr (t, None) | Some i \<Rightarrow> filesys_open (inode_name i) t))))"

definition load_file :: "frame \<Rightarrow> nat \<Rightarrow> nat \<Rightarrow> lstate \<Rightarrow> (lstate \<times> 32 word \<times> nat \<times> bool) res" where
  "load_file fr file_name f s =
     bind_r (file_read f (int EHDR_SIZE) (lfs s)) (\<lambda>(t, xs).
     let s = s\<lparr>lfs := t\<rparr>; ehdr = bytes_ehdr xs in
     if length xs \<noteq> EHDR_SIZE \<or> \<not> valid_ehdr ehdr then Inr (s, 0, 0, False)
     else bind_r (while_r (headers_cond (unat (e_phnum ehdr))) (headers_body f) (s, 0, sint (e_phoff ehdr), True)) (\<lambda>(s, _, _, ok).
       if \<not> ok then Inr (s, 0, 0, False)
       else bind_r (strlen (kmem s) file_name) (\<lambda>l.
         bind_r (strlcpy (kmem s) (cpy fr) file_name (l + 1)) (\<lambda>(m, _).
         bind_r (setup_stack (cpy fr) (space fr) (argv100 fr) (ptrs100 fr) (s\<lparr>kmem := m\<rparr>)) (\<lambda>(s, esp, ok).
         if \<not> ok then Inr (s, 0, esp, False) else Inr (s, e_entry ehdr, esp, True))))))"

definition load_done :: "nat option \<Rightarrow> lstate \<times> 32 word \<times> nat \<times> bool \<Rightarrow> (lstate \<times> 32 word \<times> nat \<times> bool) res" where
  "load_done file = (\<lambda>(s, eip, esp, success).
     if \<not> success then Inr (s\<lparr>exec_fp := file, out_of_money := True\<rparr>, eip, esp, False)
     else bind_r (deref file) (\<lambda>f. bind_r (file_deny_write f (lfs s)) (\<lambda>t. Inr (s\<lparr>exec_fp := file, lfs := t\<rparr>, eip, esp, True))))"

definition load :: "frame \<Rightarrow> (nat \<Rightarrow> byte list) \<Rightarrow> nat \<Rightarrow> lstate \<Rightarrow> (lstate \<times> 32 word \<times> nat \<times> bool) res" where
  "load fr inode_name file_name s =
     bind_r (strlen (kmem s) file_name) (\<lambda>l.
     bind_r (strlcpy (kmem s) (no_args fr) file_name (l + 1)) (\<lambda>(m, _).
     bind_r (parse_command_string m (no_args fr) (argv1 fr) True (space fr)) (\<lambda>(m, argv, _).
     bind_r (pagedir_create (lvm s)) (\<lambda>(v, pd).
     let s = s\<lparr>kmem := m, lvm := v, pagedir := pd\<rparr> in
     if pd = 0 then load_done None (s, 0, 0, False)
     else bind_r (pagedir_activate pd (lvm s)) (\<lambda>v.
       bind_r (arr_get argv 0) (\<lambda>a. case a of None \<Rightarrow> Inl Assert_failed | Some a \<Rightarrow>
       bind_r (read_string (kmem s) a) (\<lambda>nm.
       bind_r (open_executable nm inode_name (lfs s)) (\<lambda>(t, file).
       let s = s\<lparr>lvm := v, lfs := t\<rparr> in
       case file of None \<Rightarrow> load_done None (s, 0, 0, False)
       | Some f \<Rightarrow> bind_r (load_file fr file_name f s) (load_done (Some f))))))))))"

end
