(* ===== verification/LoaderPages.thy ===== *)
theory LoaderPages
  imports Loader
begin

unbundle bit_operations_syntax

text \<open>
  The pages of a process: what its address space holds at each user address, and how that changes when the loader takes a page from
  the user pool, fills it and installs it, or gives it back.
\<close>

section \<open>Addresses in a page\<close>

lemma page_ofs_unat:
  assumes "pg_ofs k = 0" "unat d < 4096"
  shows "unat (k + d) = unat k + unat d" "pg_round_down (k + d) = k" "pg_ofs (k + d) = d"
proof -
  obtain q where q: "unat k = 4096 * q" "q < 1048576" using assms(1) by (rule aligned_page)
  show u: "unat (k + d) = unat k + unat d" using q assms(2) by (simp add: unat_word_ariths)
  have "(4096 * q + unat d) div 4096 = q" using assms(2) by (intro div_nat_eqI) simp_all
  then show r: "pg_round_down (k + d) = k" by (simp add: word_unat_eq_iff unat_pg_round_down u q(1))
  show "pg_ofs (k + d) = d" using pg_round_down_plus_ofs [of "k + d"] r by simp
qed

lemma page_of_iff:
  assumes "pg_ofs k = 0"
  shows "unat (a - k) < 4096 \<longleftrightarrow> pg_round_down a = k"
proof
  assume "unat (a - k) < 4096"
  then show "pg_round_down a = k" using page_ofs_unat(2) [OF assms, of "a - k"] by simp
next
  assume "pg_round_down a = k"
  then have "a - k = pg_ofs a" using pg_round_down_plus_ofs [of a] by (metis add_diff_cancel_left')
  then show "unat (a - k) < 4096" by (simp add: unat_pg_ofs)
qed

lemma put_at_other: "pg_ofs k = 0 \<Longrightarrow> length xs \<le> 4096 \<Longrightarrow> pg_round_down a \<noteq> k \<Longrightarrow> put_at b k xs a = b a"
  using page_of_iff [of k a] by (auto simp: put_at_def)

lemma put_at_page: "unat d < length xs \<Longrightarrow> put_at b k xs (k + d) = xs ! unat d"
  by (simp add: put_at_def)

text \<open>A page filled with some bytes and then zeros.\<close>

lemma filled_page:
  fixes b :: "32 word \<Rightarrow> byte"
  assumes k: "pg_ofs k = 0" and l: "length xs \<le> 4096"
  defines "b' \<equiv> put_at (put_at b k xs) (k + of_nat (length xs)) (replicate (4096 - length xs) 0)"
  shows "pg_round_down a \<noteq> k \<Longrightarrow> b' a = b a"
    and "unat d < 4096 \<Longrightarrow> b' (k + d) = (if unat d < length xs then xs ! unat d else 0)"
proof -
  let ?n = "length xs"
  have n: "unat (of_nat ?n :: 32 word) = ?n" using l by (intro unat_of_nat32) simp
  show "b' a = b a" if a: "pg_round_down a \<noteq> k"
  proof -
    have "\<not> unat (a - (k + of_nat ?n)) < 4096 - ?n"
    proof
      assume h: "unat (a - (k + of_nat ?n)) < 4096 - ?n"
      define e where "e = a - (k + of_nat ?n)"
      have "unat (of_nat ?n + e) = ?n + unat e" using h n by (simp add: e_def [symmetric] unat_word_ariths)
      moreover have "of_nat ?n + e = a - k" by (simp add: e_def)
      ultimately have "unat (a - k) < 4096" using h by (simp add: e_def [symmetric])
      then show False using page_of_iff [OF k] a by simp
    qed
    then show ?thesis using put_at_other [OF k l a, of b] by (simp add: b'_def put_at_def)
  qed
  show "b' (k + d) = (if unat d < ?n then xs ! unat d else 0)" if d: "unat d < 4096"
  proof (cases "unat d < ?n")
    case True
    have "unat (d - of_nat ?n) = (unat d + (u32_mod - ?n)) mod u32_mod" using n l True
      by (simp add: unat_sub_if_size word_le_nat_alt word_size)
    then have "\<not> unat (d - of_nat ?n) < 4096 - ?n" using True l by simp
    then show ?thesis using True by (simp add: b'_def put_at_def)
  next
    case False
    then have "unat (d - of_nat ?n) = unat d - ?n" using n by (simp add: unat_sub word_le_nat_alt)
    moreover have "unat d - ?n < 4096 - ?n" using False d l by linarith
    ultimately show ?thesis using False d by (simp add: b'_def put_at_def)
  qed
qed

section \<open>The pools keep their places\<close>

definition pool_span :: "pmem \<Rightarrow> (32 word \<times> nat) \<times> 32 word \<times> nat" where
  "pool_span m = ((base (kernel_pool m), bit_cnt (used_map (kernel_pool m))), base (user_pool m), bit_cnt (used_map (user_pool m)))"

lemma span_pages: "pool_span m' = pool_span m \<Longrightarrow> pool_pages (user_pool m') = pool_pages (user_pool m)"
  by (simp add: pool_span_def pool_pages_def paddr_def)

lemma span_get:
  assumes "pmem_ok m" "palloc_get_page flags m = Inr (m', p)"
  shows "pool_span m' = pool_span m"
proof (rule palloc_get_cases [OF assms(1) zero_less_one, of flags])
  assume "palloc_get_multiple flags 1 m = (if flags AND PAL_ASSERT \<noteq> 0 then Inl Panic else Inr (m, 0))"
  then show ?thesis using assms(2) by (auto simp: palloc_get_page_def split: if_splits)
next
  fix r um assume "bit_cnt um = bit_cnt (used_map (pool_of flags m))"
    "palloc_get_multiple flags 1 m = Inr (zeroed flags (paddr (pool_of flags m) r) 1 (set_pool flags ((pool_of flags m)\<lparr>used_map := um\<rparr>) m), paddr (pool_of flags m) r)"
  then show ?thesis using assms(2) by (auto simp: palloc_get_page_def pool_span_def zeroed_def set_pool_def pool_of_def)
qed

lemma wr32_span [simp]: "pool_span (pm (wr32 a v s)) = pool_span (pm s)"
  by (simp add: wr32_def pool_span_def)

lemma span_set_page:
  assumes ok: "pd_ok s pd" and r: "pagedir_set_page pd upage kpage w s = Inr (s', b)"
  shows "pool_span (pm s') = pool_span (pm s)" "init_ram_pages s' = init_ram_pages s"
proof -
  note P = pagedir_set_page_pre [OF assms]
  obtain e where e: "pte_create_user kpage w = Inr e" using pte_create_user_eq [OF P(4,3)] by blast
  have unf: "bind_r (lookup_page pd upage True s) (\<lambda>(s, pte). if pte \<noteq> 0
       then ASSERT (rd32 s pte AND PTE_P = 0) (Inr (wr32 pte e s, True)) else Inr (s, False)) = Inr (s', b)"
    using r unfolding pagedir_set_page_def e bind_r_Inr using P by (simp add: vtop_kernel)
  obtain t pte where l: "lookup_page pd upage True s = Inr (t, pte)" using unf by (cases "lookup_page pd upage True s") auto
  have t: "s' = t \<or> (\<exists>v. s' = wr32 pte v t)" using unf by (auto simp: l ASSERT_eq_Inr split: if_splits)
  have "pool_span (pm t) = pool_span (pm s) \<and> init_ram_pages t = init_ram_pages s"
  proof (cases "table_of s pd (pd_no upage)")
    case (Some pt)
    then show ?thesis using lookup_page_find(1) [OF ok P(2) Some, of True] l by simp
  next
    case None
    show ?thesis
    proof (rule lookup_page_create [OF ok P(2) None])
      assume "lookup_page pd upage True s = Inr (s, 0)"
      then show ?thesis using l by simp
    next
      fix m pt assume g: "palloc_get_page PAL_ZERO (pm s) = Inr (m, pt)"
        and c: "\<And>e. pde_create pt = Inr e \<Longrightarrow> lookup_page pd upage True s = Inr (wr32 (slot pd (pd_no upage)) e (s\<lparr>pm := m\<rparr>), slot pt (pt_no upage))"
        and ex: "\<exists>e. pde_create pt = Inr e \<and> pde_get_pt e = Inr pt \<and> e \<noteq> 0"
      obtain d where "pde_create pt = Inr d" using ex by blast
      then have "t = wr32 (slot pd (pd_no upage)) d (s\<lparr>pm := m\<rparr>)" using c l by simp
      then show ?thesis using span_get [OF pd_ok_pmem(1) [OF ok] g] by simp
    qed
  qed
  then show "pool_span (pm s') = pool_span (pm s)" "init_ram_pages s' = init_ram_pages s" using t by auto
qed

section \<open>The address space\<close>

text \<open>What a process sees at a user address: the byte, and whether it may write there.\<close>

definition user_view :: "lstate \<Rightarrow> 32 word \<Rightarrow> (byte \<times> bool) option" where
  "user_view s va = (case mapping (lvm s) (pagedir s) va of None \<Rightarrow> None
     | Some e \<Rightarrow> (case pte_get_page e of Inl _ \<Rightarrow> None | Inr q \<Rightarrow> Some (ubytes s (q + pg_ofs va), e AND PTE_W \<noteq> 0)))"

text \<open>The pages of the user pool are pages of memory.\<close>

definition ram_ok :: "vm \<Rightarrow> bool" where
  "ram_ok v \<longleftrightarrow> (\<forall>p\<in>pool_pages (user_pool (pm v)). unat (drop_bit 12 (p - PHYS_BASE)) < init_ram_pages v)"

definition proc_ok :: "lstate \<Rightarrow> bool" where
  "proc_ok s \<longleftrightarrow> pd_owned (lvm s) (pagedir s) \<and> pagedir s \<noteq> init_page_dir (lvm s) \<and> ram_ok (lvm s)"

lemma proc_okD:
  assumes "proc_ok s"
  shows "pd_owned (lvm s) (pagedir s)" "pd_ok (lvm s) (pagedir s)" "pagedir s \<noteq> init_page_dir (lvm s)" "ram_ok (lvm s)" "pmem_ok (pm (lvm s))"
proof -
  show "pd_owned (lvm s) (pagedir s)" "pagedir s \<noteq> init_page_dir (lvm s)" "ram_ok (lvm s)" using assms by (simp_all add: proc_ok_def)
  then show ok: "pd_ok (lvm s) (pagedir s)" by (simp add: pd_owned_def)
  show "pmem_ok (pm (lvm s))" by (rule pd_ok_pmem(1) [OF ok])
qed

lemma of_nat_unat32 [simp]: "of_nat (unat (x :: 32 word)) = x"
  by simp

lemma frame_mapped:
  assumes "is_user_vaddr va" "mapping v pd va = Some e" "pte_get_page e = Inr q"
  shows "q \<in> set (dir_pages v pd 0)"
proof -
  obtain pt where t: "table_of v pd (pd_no va) = Some pt" "e = rd32 v (slot pt (pt_no va))" "e AND PTE_P \<noteq> 0"
    using assms(2) by (auto simp: mapping_def entry_def present_def split: option.splits if_splits)
  have "frame_at v pt (unat (pt_no va)) = [q]" using t assms(3) by (simp add: frame_at_def Let_def)
  then have "q \<in> set (table_pages v pt 0)" using pt_no_less [of va] by (auto simp: table_pages_def intro!: bexI [of _ "unat (pt_no va)"])
  then have "q \<in> set (dir_pages_at v pd (unat (pd_no va)))" using t(1) by (simp add: dir_pages_at_def)
  then show ?thesis using assms(1) by (auto simp: dir_pages_def pd_no_user)
qed

lemma tables_in_pages:
  assumes "table_of v pd i = Some pt" "unat i < 768"
  shows "pt \<in> set (dir_pages v pd 0)"
proof -
  have "pt \<in> set (dir_pages_at v pd (unat i))" using assms(1) by (simp add: dir_pages_at_def)
  then show ?thesis using assms(2) by (auto simp: dir_pages_def)
qed

text \<open>A change of memory that leaves the pages of the directory alone.\<close>

lemma pd_owned_change:
  assumes own: "pd_owned v pd" and o: "pmem_ok (pm v')" "insert pd (set (dir_pages v pd 0)) \<subseteq> owned (pm v')"
    and same: "\<And>a. pg_round_down a \<in> insert pd (set (dir_pages v pd 0)) \<Longrightarrow> rd32 v' a = rd32 v a"
  shows "pd_owned v' pd" "dir_pages v' pd 0 = dir_pages v pd 0" "is_user_vaddr va \<Longrightarrow> mapping v' pd va = mapping v pd va"
proof -
  have ok: "pd_ok v pd" using own by (simp add: pd_owned_def)
  have d: "rd32 v' (slot pd i) = rd32 v (slot pd i)" if "unat i < 768" for i
    using same [of "slot pd i"] slot_page [OF pd_ok_page(1) [OF ok], of i] that by simp
  then have t: "table_of v' pd i = table_of v pd i" if "unat i < 768" for i using that by (simp add: table_of_def)
  have ent: "rd32 v' (slot pt j) = rd32 v (slot pt j)" if p: "table_of v pd i = Some pt" "unat i < 768" "unat j < 1024" for pt i j
    using same [of "slot pt j"] slot_page [OF table_ofD(3) [OF ok p(1,2)] p(3)] tables_in_pages [OF p(1,2)] by simp
  have "dir_pages_at v' pd i = dir_pages_at v pd i" if i: "i < 768" for i
  proof (cases "table_of v pd (of_nat i)")
    case None
    then show ?thesis using t [of "of_nat i"] i by (simp add: dir_pages_at_def unat_index)
  next
    case (Some pt)
    have "frame_at v' pt j = frame_at v pt j" if "j < 1024" for j
      using ent [OF Some, of "of_nat j"] i that by (simp add: frame_at_def unat_index)
    then have "table_pages v' pt 0 = table_pages v pt 0" unfolding table_pages_def by (intro arg_cong [of _ _ concat] map_cong) auto
    then show ?thesis using Some t [of "of_nat i"] i by (simp add: dir_pages_at_def unat_index)
  qed
  then show dp: "dir_pages v' pd 0 = dir_pages v pd 0" unfolding dir_pages_def by (intro arg_cong [of _ _ concat] map_cong) auto
  show mp: "mapping v' pd va = mapping v pd va" if "is_user_vaddr va" for va
    using t [of "pd_no va"] ent [of "pd_no va" _ "pt_no va"] that pt_no_less [of va]
    by (cases "table_of v pd (pd_no va)") (simp_all add: mapping_def entry_def pd_no_user)
  have "pd_ok v' pd" unfolding pd_ok_def
  proof (intro conjI allI impI)
    show "pmem_ok (pm v')" "pd \<in> owned (pm v')" using o by auto
    fix i :: "32 word" assume i: "unat i < 768"
    show "rd32 v' (slot pd i) = 0 \<or> (\<exists>pt. pde_get_pt (rd32 v' (slot pd i)) = Inr pt \<and> pt \<in> owned (pm v') \<and> pt \<noteq> pd)"
    proof (cases "table_of v pd i")
      case (Some pt)
      then show ?thesis using table_ofD [OF ok Some i] tables_in_pages [OF Some i] o(2) d [OF i] by auto
    qed (use table_of_None [OF ok i] d [OF i] in simp)
  next
    fix i j :: "32 word" and pt assume "unat i < 768 \<and> unat j < 768 \<and> table_of v' pd i = Some pt \<and> table_of v' pd j = Some pt"
    then have h: "unat i < 768" "unat j < 768" "table_of v pd i = Some pt" "table_of v pd j = Some pt" using t [of i] t [of j] by simp_all
    show "i = j" by (rule pd_ok_inj [OF ok h])
  qed
  moreover have "set (dir_pages v pd 0) \<subseteq> owned (pm v')" using o(2) by blast
  ultimately show "pd_owned v' pd" using own mp unfolding pd_owned_def dp by metis
qed

lemma user_view_same:
  assumes own: "pd_owned (lvm s) (pagedir s)" and va: "is_user_vaddr va" and m: "mapping (lvm s') (pagedir s') va = mapping (lvm s) (pagedir s) va"
    and k: "k \<notin> set (dir_pages (lvm s) (pagedir s) 0)" and u: "\<And>a. pg_round_down a \<noteq> k \<Longrightarrow> ubytes s' a = ubytes s a"
  shows "user_view s' va = user_view s va"
proof (cases "mapping (lvm s) (pagedir s) va")
  case (Some e)
  show ?thesis
  proof (cases "pte_get_page e")
    case (Inr q)
    have q: "q \<in> set (dir_pages (lvm s) (pagedir s) 0)" by (rule frame_mapped [OF va Some Inr])
    have "pmem_ok (pm (lvm s))" "q \<in> owned (pm (lvm s))" using own pd_ok_pmem(1) q unfolding pd_owned_def by blast+
    then have "pg_ofs q = 0" using pp.held_page by blast
    then have "pg_round_down (q + pg_ofs va) = q" by (rule page_ofs_unat(2)) (simp add: unat_pg_ofs)
    then have "ubytes s' (q + pg_ofs va) = ubytes s (q + pg_ofs va)" using u k q by metis
    then show ?thesis using Some Inr m by (simp add: user_view_def)
  qed (use Some m in \<open>simp add: user_view_def\<close>)
qed (use m in \<open>simp add: user_view_def\<close>)

section \<open>Taking and giving back a page\<close>

lemma get_kpage_ok:
  assumes ok: "proc_ok s" and fl: "flags AND PAL_ASSERT = 0" "flags AND PAL_USER \<noteq> 0"
  obtains (none) "get_kpage flags s = Inr (s, 0)"
    | (page) s' k where "get_kpage flags s = Inr (s', k)" "k \<noteq> 0" "proc_ok s'" "pg_ofs k = 0" "is_kernel_vaddr k"
        "k \<notin> insert (pagedir s) (set (dir_pages (lvm s) (pagedir s) 0))" "k \<in> owned (pm (lvm s'))"
        "unat (drop_bit 12 (k - PHYS_BASE)) < init_ram_pages (lvm s')"
        "\<And>va. is_user_vaddr va \<Longrightarrow> mapping (lvm s') (pagedir s) va = mapping (lvm s) (pagedir s) va"
        "dir_pages (lvm s') (pagedir s) 0 = dir_pages (lvm s) (pagedir s) 0"
        "\<And>va. is_user_vaddr va \<Longrightarrow> user_view s' va = user_view s va"
        "s' = s\<lparr>lvm := lvm s', ubytes := (if flags AND PAL_ZERO \<noteq> 0 then put_at (ubytes s) k (replicate PGSIZE 0) else ubytes s)\<rparr>"
proof -
  note P = proc_okD [OF ok]
  let ?pd = "pagedir s"
  obtain m k where g: "palloc_get_page flags (pm (lvm s)) = Inr (m, k)" using pp.get_total [OF P(5) fl(1)] by auto
  show thesis
  proof (cases "k = 0")
    case True
    then have "m = pm (lvm s)" using pp.get_null [OF P(5)] g by blast
    then show thesis using none g True by (simp add: get_kpage_def)
  next
    case False
    let ?v = "(lvm s)\<lparr>pm := m\<rparr>"
    let ?u = "if flags AND PAL_ZERO \<noteq> 0 then put_at (ubytes s) k (replicate PGSIZE 0) else ubytes s"
    let ?s = "s\<lparr>lvm := ?v, ubytes := ?u\<rparr>"
    note gp = pp.get_page [OF P(5) g False] and gm = pp.get_mem [OF P(5) g False] and gf = pp.get_fresh(1,2) [OF P(5) g False]
    have mine: "insert ?pd (set (dir_pages (lvm s) ?pd 0)) \<subseteq> owned (pm (lvm s))"
      using P(1) pd_ok_pmem(2) [OF P(2)] unfolding pd_owned_def by blast
    have k: "k \<notin> insert ?pd (set (dir_pages (lvm s) ?pd 0))" using gp mine by blast
    have C: "pd_owned ?v ?pd" "dir_pages ?v ?pd 0 = dir_pages (lvm s) ?pd 0" "\<And>va. is_user_vaddr va \<Longrightarrow> mapping ?v ?pd va = mapping (lvm s) ?pd va"
      by (rule pd_owned_change [OF P(1)], (use gp gm mine k in auto))+
    have sp: "pool_pages (user_pool m) = pool_pages (user_pool (pm (lvm s)))" by (rule span_pages [OF span_get [OF P(5) g]])
    have "palloc_get_multiple flags 1 (pm (lvm s)) = Inr (m, k)" using g by (simp add: palloc_get_page_def)
    from palloc_get_spec [OF P(5) zero_less_one this] have "k \<in> pool_pages (user_pool (pm (lvm s)))" using False fl(2) by (simp add: pool_of_def)
    then have ram: "unat (drop_bit 12 (k - PHYS_BASE)) < init_ram_pages ?v" "ram_ok ?v" using P(4) sp by (simp_all add: ram_ok_def)
    have uv: "user_view ?s va = user_view s va" if va: "is_user_vaddr va" for va
      by (rule user_view_same [OF P(1) va, of _ k]) (use C(3) [OF va] k put_at_other [OF gf(1)] in \<open>simp_all add: PGSIZE_def\<close>)
    show thesis
    proof (rule page [of ?s k])
      show "get_kpage flags s = Inr (?s, k)" using g False by (simp add: get_kpage_def)
      show "proc_ok ?s" using C(1) P(3) ram(2) by (simp add: proc_ok_def)
    qed (use False gf gp k ram(1) C(2,3) uv in auto)
  qed
qed

lemma free_kpage_ok:
  assumes own: "pd_owned (lvm s) (pagedir s)" and k: "k \<in> owned (pm (lvm s))" "k \<notin> insert (pagedir s) (set (dir_pages (lvm s) (pagedir s) 0))"
  obtains v u where "free_kpage k s = Inr (s\<lparr>lvm := v, ubytes := u\<rparr>)" "pd_owned v (pagedir s)" "init_page_dir v = init_page_dir (lvm s)"
proof -
  have m: "pmem_ok (pm (lvm s))" "insert (pagedir s) (set (dir_pages (lvm s) (pagedir s) 0)) \<subseteq> owned (pm (lvm s))"
    using own pd_ok_pmem unfolding pd_owned_def by blast+
  obtain v where v: "free_page k (lvm s) = Inr v" "freed (lvm s) {k} v" using free_page_ok [OF m(1) k(1)] by blast
  have "pd_owned v (pagedir s)"
    by (rule pd_owned_change(1) [OF own]) (use v(2) m k(2) in \<open>auto simp: freed_def\<close>)
  then show thesis using v that [of "put_at (ubytes s) k (replicate PGSIZE 0xcc)" v]
    by (simp add: free_kpage_def freed_def)
qed

section \<open>Installing a page\<close>

text \<open>
  Installing a page that the process owns but has not mapped: either the address already has a page or there is no memory for a page table,
  and nothing the process sees changes, or the page appears at the address.
\<close>

lemma install_page_map:
  assumes ok: "proc_ok s" and up: "pg_ofs upage = 0" "is_user_vaddr upage" and kp: "pg_ofs k = 0" "is_kernel_vaddr k"
    and k: "k \<in> owned (pm (lvm s))" "k \<notin> insert (pagedir s) (set (dir_pages (lvm s) (pagedir s) 0))"
    and ram: "unat (drop_bit 12 (k - PHYS_BASE)) < init_ram_pages (lvm s)"
  shows "\<exists>v b e. install_page upage k w s = Inr (s\<lparr>lvm := v\<rparr>, b) \<and> (\<not> b \<longrightarrow> v = lvm s) \<and> pte_get_page e = Inr k \<and> (e AND PTE_W \<noteq> 0 \<longleftrightarrow> w)
     \<and> (b \<longrightarrow> proc_ok (s\<lparr>lvm := v\<rparr>) \<and> (\<forall>va. is_user_vaddr va \<longrightarrow> mapping v (pagedir s) va
          = (if pg_round_down va = upage then Some e else mapping (lvm s) (pagedir s) va)))"
proof -
  note P = proc_okD [OF ok]
  have m: "insert (pagedir s) (set (dir_pages (lvm s) (pagedir s) 0)) \<subseteq> owned (pm (lvm s))"
    using P(1) pd_ok_pmem(2) [OF P(2)] unfolding pd_owned_def by blast
  obtain e where e: "pte_create_user k w = Inr e" "pte_get_page e = Inr k" "e AND PTE_W \<noteq> 0 \<longleftrightarrow> w"
    using pte_create_user_roundtrip_aux [OF kp(2,1), of w] by blast
  show ?thesis
  proof (cases "mapping (lvm s) (pagedir s) upage")
    case (Some t)
    obtain q where q: "pte_get_page t = Inr q" using P(1) Some up(2) unfolding pd_owned_def by blast
    have "q \<in> owned (pm (lvm s))" using frame_mapped [OF up(2) Some q] m by blast
    then have "q \<noteq> 0" using pp.held_page [OF P(5)] by blast
    then have "install_page upage k w s = Inr (s, False)"
      using Some q up by (simp add: install_page_def pagedir_get_page_eq [OF P(2) up(2)])
    then show ?thesis using e by (intro exI [of _ "lvm s"] exI [of _ False] exI [of _ e]) simp
  next
    case None
    obtain v b where v: "pagedir_set_page (pagedir s) upage k w (lvm s) = Inr (v, b)"
        "\<forall>va. is_user_vaddr va \<longrightarrow> mapping v (pagedir s) va = (if b \<and> pg_round_down va = upage then Some e else mapping (lvm s) (pagedir s) va)"
        "\<not> b \<longrightarrow> v = lvm s" "init_page_dir v = init_page_dir (lvm s)"
      using pagedir_set_page_aux [OF P(2) up kp ram P(3) None e(1)] by blast
    have run: "install_page upage k w s = Inr (s\<lparr>lvm := v\<rparr>, b)"
      using None v(1) up by (simp add: install_page_def pagedir_get_page_eq [OF P(2) up(2)])
    have "proc_ok (s\<lparr>lvm := v\<rparr>)" if b: b
    proof -
      have "pd_owned v (pagedir s)" using set_page_owned(1) [OF P(1) v(1) [unfolded eqTrueI [OF b]] k(1)] k(2) by simp
      then show ?thesis using span_pages [OF span_set_page(1) [OF P(2) v(1)]] span_set_page(2) [OF P(2) v(1)] P(3,4) v(4) by (simp add: proc_ok_def ram_ok_def)
    qed
    then show ?thesis using run v(2,3) e(2,3) by (intro exI [of _ v] exI [of _ b] exI [of _ e]) simp
  qed
qed

lemma install_page_ok:
  assumes "proc_ok s" "pg_ofs upage = 0" "is_user_vaddr upage" "pg_ofs k = 0" "is_kernel_vaddr k"
    "k \<in> owned (pm (lvm s))" "k \<notin> insert (pagedir s) (set (dir_pages (lvm s) (pagedir s) 0))"
    "unat (drop_bit 12 (k - PHYS_BASE)) < init_ram_pages (lvm s)"
  shows "\<exists>v b. install_page upage k w s = Inr (s\<lparr>lvm := v\<rparr>, b) \<and> (\<not> b \<longrightarrow> v = lvm s) \<and> (b \<longrightarrow> proc_ok (s\<lparr>lvm := v\<rparr>)
     \<and> (\<forall>va. is_user_vaddr va \<longrightarrow> user_view (s\<lparr>lvm := v\<rparr>) va
          = (if pg_round_down va = upage then Some (ubytes s (k + pg_ofs va), w) else user_view s va)))"
proof -
  obtain v b e where v: "install_page upage k w s = Inr (s\<lparr>lvm := v\<rparr>, b)" "\<not> b \<longrightarrow> v = lvm s" "pte_get_page e = Inr k" "e AND PTE_W \<noteq> 0 \<longleftrightarrow> w"
      "b \<longrightarrow> proc_ok (s\<lparr>lvm := v\<rparr>) \<and> (\<forall>va. is_user_vaddr va \<longrightarrow> mapping v (pagedir s) va
          = (if pg_round_down va = upage then Some e else mapping (lvm s) (pagedir s) va))"
    using install_page_map [OF assms, of w] by (elim exE conjE) (rule that; assumption)
  have "user_view (s\<lparr>lvm := v\<rparr>) va = (if pg_round_down va = upage then Some (ubytes s (k + pg_ofs va), w) else user_view s va)"
    if "b" "is_user_vaddr va" for va using v(3-5) that by (auto simp: user_view_def split: option.split sum.split)
  then show ?thesis using v(1,2,5) by (intro exI [of _ v] exI [of _ b]) blast
qed

end
