(* ===== verification/LoaderSegs.thy ===== *)
theory LoaderSegs
  imports LoaderPages
begin

unbundle bit_operations_syntax

text \<open>
  Segments: a validated program header gives \<open>load_segment\<close> sizes and addresses that satisfy its assertions, and \<open>load_segment\<close> ends
  with the bytes of the file, followed by zeros, at the addresses of the segment, and nothing else changed, or reports failure.
\<close>

section \<open>The open executable\<close>

definition reading :: "nat \<Rightarrow> byte list \<Rightarrow> fs \<Rightarrow> bool" where
  "reading f c t \<longleftrightarrow> fs_ok t \<and> user_file f t \<and> file_data t f = Some c"

lemma reading_read:
  assumes "reading f c t"
  shows "\<exists>t'. file_read f (int n) t = Inr (t', take n (drop (file_pos t f) c)) \<and> reading f c t' \<and> fs_abs t' = fs_abs t
     \<and> file_pos t' f = file_pos t f + min n (length c - file_pos t f)"
proof -
  obtain t' where t': "file_read f (int n) t = Inr (t', take n (drop (file_pos t f) c))" "fs_ok t'" "quiet t t'" "file_data t' f = Some c"
      "file_pos t' f = file_pos t f + min n (length c - file_pos t f)"
    using file_read_spec [of t f c n] assms unfolding reading_def by blast
  have "files t' f \<noteq> None" using t'(4) by (auto simp: file_data_def split: option.splits)
  moreover have "free_map_file t' = free_map_file t" using t'(3) by (simp add: quiet_def)
  ultimately have "reading f c t'" using assms t'(2,4) by (simp add: reading_def user_file_def)
  then show ?thesis using t' quiet_views(10) [OF t'(3)] by blast
qed

lemma reading_seek:
  assumes "reading f c t"
  shows "\<exists>t'. file_seek f (int p) t = Inr t' \<and> reading f c t' \<and> fs_abs t' = fs_abs t \<and> file_pos t' f = p"
proof -
  obtain t' where "file_seek f (int p) t = Inr t'" "fs_ok t'" "user_file f t'" "quiet t t'" "file_data t' f = Some c" "file_pos t' f = p"
    using file_seek_spec [of t f c p] assms unfolding reading_def by blast
  then show ?thesis using quiet_views(10) by (auto simp: reading_def)
qed

lemma reading_length:
  assumes "reading f c t"
  shows "file_length f t = Inr (int (length c))" "length c < 2147483648"
proof -
  obtain x n where x: "files t f = Some x" "inodes t (finode x) = Some n" and i: "inv {} (\<lambda>_. 0) t"
    using user_fileE [of t f] assms unfolding reading_def by metis
  have c: "c = contents (D t (isector n)) t" using assms x by (simp add: reading_def file_data_def)
  have d: "idata n = D t (isector n)" by (rule open_idata [OF i x(2)])
  have e: "0 \<le> ilength (D t (isector n))" "ilength (D t (isector n)) + 511 < 2 ^ 31"
    using live_extent [OF i live_open [OF x(2)]] by (simp_all add: extent_ok_def)
  show "file_length f t = Inr (int (length c))" using x d e(1) by (simp add: file_length_def inode_length_def c)
  show "length c < 2147483648" using e by (simp add: c)
qed

section \<open>One page of a segment\<close>

text \<open>What holds of every state a segment can leave behind.\<close>

definition still :: "nat \<Rightarrow> byte list \<Rightarrow> lstate \<Rightarrow> lstate \<Rightarrow> bool" where
  "still f c s s' \<longleftrightarrow> reading f c (lfs s') \<and> fs_abs (lfs s') = fs_abs (lfs s) \<and> pagedir s' = pagedir s \<and> kmem s' = kmem s
     \<and> exec_fp s' = exec_fp s \<and> out_of_money s' = out_of_money s \<and> pd_owned (lvm s') (pagedir s)"

lemma still_trans: "still f c s s1 \<Longrightarrow> still f c s1 s2 \<Longrightarrow> still f c s s2"
  unfolding still_def by metis

lemma segment_page_ok:
  assumes ok: "proc_ok s" and rd: "reading f c (lfs s)" and up: "pg_ofs upage = 0" "is_user_vaddr upage" and n: "n \<le> 4096"
  defines "pos \<equiv> file_pos (lfs s) f"
  shows "\<exists>s' b. segment_page f w upage n s = Inr (s', b) \<and> still f c s s' \<and> (b \<longrightarrow> proc_ok s' \<and> (0 < n \<longrightarrow> pos + n \<le> length c)
     \<and> file_pos (lfs s') f = pos + n
     \<and> (\<forall>va. is_user_vaddr va \<longrightarrow> user_view s' va = (if pg_round_down va = upage
          then Some (if unat (pg_ofs va) < n then c ! (pos + unat (pg_ofs va)) else 0, w) else user_view s va)))"
proof -
  have st: "still f c s s" using rd proc_okD(1) [OF ok] by (simp add: still_def)
  have fl: "PAL_USER AND PAL_ASSERT = 0" "PAL_USER AND PAL_USER \<noteq> 0" "PAL_USER AND PAL_ZERO = 0" by (simp_all add: pal_consts)
  show ?thesis
  proof (rule get_kpage_ok [OF ok fl(1,2)])
    assume "get_kpage PAL_USER s = Inr (s, 0)"
    then show ?thesis using st by (intro exI [of _ s] exI [of _ False]) (simp add: segment_page_def)
  next
    fix s1 k assume g: "get_kpage PAL_USER s = Inr (s1, k)" "k \<noteq> 0" "proc_ok s1" "pg_ofs k = 0" "is_kernel_vaddr k"
        "k \<notin> insert (pagedir s) (set (dir_pages (lvm s) (pagedir s) 0))" "k \<in> owned (pm (lvm s1))"
        "unat (drop_bit 12 (k - PHYS_BASE)) < init_ram_pages (lvm s1)"
        "dir_pages (lvm s1) (pagedir s) 0 = dir_pages (lvm s) (pagedir s) 0"
      and uv: "\<And>va. is_user_vaddr va \<Longrightarrow> user_view s1 va = user_view s va"
      and s1: "s1 = s\<lparr>lvm := lvm s1, ubytes := (if PAL_USER AND PAL_ZERO \<noteq> 0 then put_at (ubytes s) k (replicate PGSIZE 0) else ubytes s)\<rparr>"
    have s1: "lfs s1 = lfs s" "pagedir s1 = pagedir s" "kmem s1 = kmem s" "exec_fp s1 = exec_fp s" "out_of_money s1 = out_of_money s"
      by (subst s1; simp)+
    let ?xs = "take n (drop pos c)"
    obtain t where t: "file_read f (int n) (lfs s1) = Inr (t, ?xs)" "reading f c t" "fs_abs t = fs_abs (lfs s)"
        "file_pos t f = pos + min n (length c - pos)"
      using reading_read [OF rd, of n] unfolding pos_def s1(1) by blast
    define s2 where "s2 = s1\<lparr>lfs := t, ubytes := put_at (ubytes s1) k ?xs\<rparr>"
    define s3 where "s3 = s2\<lparr>ubytes := put_at (ubytes s2) (k + of_nat n) (replicate (PGSIZE - n) 0)\<rparr>"
    have kn: "k \<notin> insert (pagedir s1) (set (dir_pages (lvm s1) (pagedir s1) 0))" using g(6,9) s1(2) by simp
    have own: "pd_owned (lvm s1) (pagedir s1)" by (rule proc_okD(1) [OF g(3)])
    have fail: "\<exists>s'. free_kpage k u = Inr s' \<and> still f c s s'" if u: "u = s2 \<or> u = s3" for u
    proof -
      have e: "lvm u = lvm s1" "pagedir u = pagedir s1" "lfs u = t" "kmem u = kmem s" "exec_fp u = exec_fp s" "out_of_money u = out_of_money s"
        using u s1 by (auto simp: s2_def s3_def)
      obtain v b where v: "free_kpage k u = Inr (u\<lparr>lvm := v, ubytes := b\<rparr>)" "pd_owned v (pagedir u)"
        by (rule free_kpage_ok [of u k]) (use own g(7) kn in \<open>simp_all add: e\<close>)
      then show ?thesis using t(2,3) s1(2) by (simp add: still_def e)
    qed
    have un: "segment_page f w upage n s = (if length ?xs \<noteq> n then bind_r (free_kpage k s2) (\<lambda>s. Inr (s, False))
         else ASSERT (k + of_nat n \<noteq> 0 \<or> PGSIZE - n = 0) (bind_r (install_page upage k w s3) (\<lambda>(s, ok).
           if ok then Inr (s, True) else bind_r (free_kpage k s) (\<lambda>s. Inr (s, False)))))"
      using g(1,2) t(1) by (simp add: segment_page_def Let_def s2_def s3_def)
    show ?thesis
    proof (cases "length ?xs = n")
      case False
      then show ?thesis using fail [of s2] un by auto
    next
      case True
      have n0: "k + of_nat n \<noteq> 0 \<or> PGSIZE - n = 0"
      proof (cases "n < 4096")
        case True
        then have "unat (k + of_nat n) = unat k + n" using page_ofs_unat(1) [OF g(4), of "of_nat n"] by (simp add: unat_of_nat32)
        then have "unat (k + of_nat n) \<noteq> 0" using g(2) by (simp add: unat_eq_0)
        then show ?thesis by (metis unat_0)
      qed (simp add: PGSIZE_def)
      have e3: "lvm s3 = lvm s1" "pagedir s3 = pagedir s1" by (simp_all add: s3_def s2_def)
      have fill: "ubytes s3 = put_at (put_at (ubytes s1) k ?xs) (k + of_nat (length ?xs)) (replicate (4096 - length ?xs) 0)"
        using True by (simp add: s3_def s2_def PGSIZE_def)
      note F = filled_page [OF g(4), where xs = ?xs and b = "ubytes s1", unfolded True, OF n, folded fill [unfolded True]]
      have "proc_ok s3" using g(3) by (simp add: proc_ok_def e3)
      from install_page_ok [OF this up g(4,5), of w] g(7,8) kn e3
      obtain v b where v: "install_page upage k w s3 = Inr (s3\<lparr>lvm := v\<rparr>, b)" "\<not> b \<longrightarrow> v = lvm s3" "b \<longrightarrow> proc_ok (s3\<lparr>lvm := v\<rparr>)
           \<and> (\<forall>va. is_user_vaddr va \<longrightarrow> user_view (s3\<lparr>lvm := v\<rparr>) va
                = (if pg_round_down va = upage then Some (ubytes s3 (k + pg_ofs va), w) else user_view s3 va))"
        by auto
      show ?thesis
      proof (cases b)
        case False
        then have "s3\<lparr>lvm := v\<rparr> = s3" using v(2) by simp
        then show ?thesis using fail [of s3] un n0 v(1) False True by auto
      next
        case b: True
        let ?s = "s3\<lparr>lvm := v\<rparr>"
        have run: "segment_page f w upage n s = Inr (?s, True)" using un n0 v(1) b True by simp
        have "still f c s ?s" using v(3) b t(2,3) s1 proc_okD(1) [of ?s] by (simp add: still_def s3_def s2_def)
        moreover have "user_view ?s va = (if pg_round_down va = upage
            then Some (if unat (pg_ofs va) < n then c ! (pos + unat (pg_ofs va)) else 0, w) else user_view s va)" if va: "is_user_vaddr va" for va
        proof -
          have "user_view s3 va = user_view s1 va"
            by (rule user_view_same [OF own va, of _ k]) (use kn F(1) in \<open>simp_all add: e3\<close>)
          moreover have "ubytes s3 (k + pg_ofs va) = (if unat (pg_ofs va) < n then c ! (pos + unat (pg_ofs va)) else 0)"
            using F(2) [of "pg_ofs va"] True by (auto simp: unat_pg_ofs)
          ultimately show ?thesis using v(3) b va uv [OF va] by simp
        qed
        moreover have "0 < n \<longrightarrow> pos + n \<le> length c" using True by auto
        moreover have "file_pos (lfs ?s) f = pos + n" using t(4) True by (auto simp: s3_def s2_def)
        ultimately show ?thesis using run v(3) b by (intro exI [of _ ?s] exI [of _ True]) simp
      qed
    qed
  qed
qed

section \<open>A whole segment\<close>

lemma in_page:
  assumes "pg_ofs k = 0"
  shows "pg_round_down a = k \<longleftrightarrow> unat k \<le> unat a \<and> unat a < unat k + 4096"
    and "pg_round_down a = k \<Longrightarrow> unat (pg_ofs a) = unat a - unat k"
proof -
  obtain q where q: "unat k = 4096 * q" using assms by (rule aligned_page)
  have "pg_round_down a = k \<longleftrightarrow> unat a div 4096 = q" by (simp add: word_unat_eq_iff unat_pg_round_down q)
  also have "\<dots> \<longleftrightarrow> 4096 * q \<le> unat a \<and> unat a < 4096 * q + 4096"
    using div_nat_eqI [of q 4096 "unat a"] by (auto simp: mult.commute)
  finally show "pg_round_down a = k \<longleftrightarrow> unat k \<le> unat a \<and> unat a < unat k + 4096" by (simp add: q)
  show "unat (pg_ofs a) = unat a - unat k" if "pg_round_down a = k"
    using that minus_div_mult_eq_mod [of "unat a" 4096] by (simp add: unat_pg_ofs unat_pg_round_down [symmetric] del: unat_pg_round_down) 
qed

lemma is_user_unat: "is_user_vaddr va \<longleftrightarrow> unat va < unat PHYS_BASE"
  by (simp add: is_user_vaddr_def word_less_nat_alt)

text \<open>What the process sees after a segment: bytes of the file and then zeros.\<close>

definition segment_image :: "byte list \<Rightarrow> nat \<Rightarrow> 32 word \<Rightarrow> nat \<Rightarrow> nat \<Rightarrow> bool \<Rightarrow> (32 word \<Rightarrow> (byte \<times> bool) option) \<Rightarrow> 32 word \<Rightarrow> (byte \<times> bool) option" where
  "segment_image c pos upage rb zb w old va =
     (if unat upage \<le> unat va \<and> unat va < unat upage + rb + zb
      then Some (if unat va - unat upage < rb then c ! (pos + (unat va - unat upage)) else 0, w) else old va)"

lemma segment_loop:
  assumes "proc_ok s" "reading f c (lfs s)" "pg_ofs upage = 0" "rb + zb = 4096 * n" "unat upage + 4096 * n \<le> unat PHYS_BASE"
  shows "\<exists>s' u r z b. while_r segment_cond (segment_body f w) (s, upage, rb, zb, True) = Inr (s', u, r, z, b) \<and> still f c s s'
     \<and> (b \<longrightarrow> proc_ok s' \<and> (0 < rb \<longrightarrow> file_pos (lfs s) f + rb \<le> length c)
        \<and> (\<forall>va. is_user_vaddr va \<longrightarrow> user_view s' va = segment_image c (file_pos (lfs s) f) upage rb zb w (user_view s) va))"
  using assms
proof (induction n arbitrary: s upage rb zb)
  case 0
  then have "while_r segment_cond (segment_body f w) (s, upage, rb, zb, True) = Inr (s, upage, rb, zb, True)"
    by (intro while_r_False) (simp add: segment_cond_def)
  moreover have "still f c s s" using 0(2) proc_okD(1) [OF 0(1)] by (simp add: still_def)
  moreover have "segment_image c (file_pos (lfs s) f) upage rb zb w (user_view s) va = user_view s va" for va
    using 0(4) by (auto simp: segment_image_def)
  ultimately show ?case using 0(1,4) by (intro exI [of _ s] exI [of _ upage] exI [of _ rb] exI [of _ zb] exI [of _ True]) simp
next
  case (Suc n)
  let ?W = "while_r segment_cond (segment_body f w)" and ?pos = "file_pos (lfs s) f"
  have T: "unat PHYS_BASE < u32_mod" "unat PHYS_BASE = 3221225472" by (simp_all add: PHYS_BASE_unat)
  have u: "is_user_vaddr upage" using Suc.prems(5) by (simp add: is_user_unat)
  define p where "p = (if rb < PGSIZE then rb else PGSIZE)"
  have p: "p \<le> 4096" "p \<le> rb" "4096 - p \<le> zb" "rb < 4096 \<Longrightarrow> p = rb" "4096 \<le> rb \<Longrightarrow> p = 4096"
    using Suc.prems(4) by (auto simp: p_def PGSIZE_def)
  obtain s1 b where s1: "segment_page f w upage p s = Inr (s1, b)" "still f c s s1" "b \<longrightarrow> proc_ok s1 \<and> (0 < p \<longrightarrow> ?pos + p \<le> length c)
       \<and> file_pos (lfs s1) f = ?pos + p \<and> (\<forall>va. is_user_vaddr va \<longrightarrow> user_view s1 va = (if pg_round_down va = upage
            then Some (if unat (pg_ofs va) < p then c ! (?pos + unat (pg_ofs va)) else 0, w) else user_view s va))"
    using segment_page_ok [OF Suc.prems(1-3) u p(1), of w] by (elim exE conjE) (rule that; assumption)
  have c1: "segment_cond (s, upage, rb, zb, True) = Inr True" using Suc.prems(4) by (auto simp: segment_cond_def)
  note step = while_r_step [of segment_cond "(s, upage, rb, zb, True)" "segment_body f w", OF c1]
  show ?case
  proof (cases b)
    case False
    have "segment_body f w (s, upage, rb, zb, True) = Inr (s1, upage, rb, zb, False)"
      using s1(1) False by (simp add: segment_body_def p_def [symmetric])
    then have "?W (s, upage, rb, zb, True) = ?W (s1, upage, rb, zb, False)" by (rule step)
    also have "\<dots> = Inr (s1, upage, rb, zb, False)" by (rule while_r_False) (simp add: segment_cond_def)
    finally show ?thesis using s1(2) by blast
  next
    case True
    have zb: "zb < u32_mod" using Suc.prems(4,5) T by simp
    have up1: "unat (upage + of_nat PGSIZE) = unat upage + 4096" using Suc.prems(5) T by (simp add: PGSIZE_def unat_word_ariths)
    have h: "proc_ok s1" "reading f c (lfs s1)" "pg_ofs (upage + of_nat PGSIZE) = 0" "rb - p + (zb - (4096 - p)) = 4096 * n"
        "unat (upage + of_nat PGSIZE) + 4096 * n \<le> unat PHYS_BASE"
      using s1(2,3) True Suc.prems(3-5) p by (auto simp: still_def word_unat_eq_iff unat_pg_ofs up1)
    obtain s' v r z b' where ih: "?W (s1, upage + of_nat PGSIZE, rb - p, zb - (4096 - p), True) = Inr (s', v, r, z, b')" "still f c s1 s'"
        "b' \<longrightarrow> proc_ok s' \<and> (0 < rb - p \<longrightarrow> file_pos (lfs s1) f + (rb - p) \<le> length c) \<and> (\<forall>va. is_user_vaddr va \<longrightarrow>
           user_view s' va = segment_image c (file_pos (lfs s1) f) (upage + of_nat PGSIZE) (rb - p) (zb - (4096 - p)) w (user_view s1) va)"
      using Suc.IH [OF h] by (elim exE conjE) (rule that; assumption)
    have "segment_body f w (s, upage, rb, zb, True) = Inr (s1, upage + of_nat PGSIZE, rb - p, zb - (4096 - p), True)"
      using s1(1) True p(3) zb by (simp add: segment_body_def p_def [symmetric]) (simp add: PGSIZE_def)
    then have run: "?W (s, upage, rb, zb, True) = Inr (s', v, r, z, b')" using step ih(1) by simp
    have "0 < rb \<longrightarrow> ?pos + rb \<le> length c" if b' using ih(3) s1(3) True that p by (cases "rb < 4096") auto
    moreover have "user_view s' va = segment_image c ?pos upage rb zb w (user_view s) va" if b: b' and va: "is_user_vaddr va" for va
    proof -
      have sum: "unat upage + rb + zb = unat upage + 4096 + (rb - p) + (zb - (4096 - p))" using p Suc.prems(4) by linarith
      have v': "user_view s' va = segment_image c (?pos + p) (upage + of_nat PGSIZE) (rb - p) (zb - (4096 - p)) w (user_view s1) va"
        using ih(3) s1(3) True b va by simp
      have v1: "user_view s1 va = (if pg_round_down va = upage
            then Some (if unat (pg_ofs va) < p then c ! (?pos + unat (pg_ofs va)) else 0, w) else user_view s va)" using s1(3) True va by blast
      show ?thesis
      proof (cases "pg_round_down va = upage")
        case pg: True
        have d: "unat upage \<le> unat va" "unat va < unat upage + 4096" "unat (pg_ofs va) = unat va - unat upage"
          using in_page [OF Suc.prems(3), of va] pg by simp_all
        have "unat va - unat upage < p \<longleftrightarrow> unat va - unat upage < rb" using d(1,2) p(2,4,5) by linarith
        then show ?thesis using v' v1 pg d sum by (simp add: segment_image_def up1)
      next
        case pg: False
        have d: "\<not> (unat upage \<le> unat va \<and> unat va < unat upage + 4096)" using in_page(1) [OF Suc.prems(3), of va] pg by simp
        show ?thesis
        proof (cases "unat upage + 4096 \<le> unat va")
          case hi: True
          have rng: "unat (upage + of_nat PGSIZE) \<le> unat va \<and> unat va < unat (upage + of_nat PGSIZE) + (rb - p) + (zb - (4096 - p))
              \<longleftrightarrow> unat upage \<le> unat va \<and> unat va < unat upage + rb + zb" unfolding up1 sum using hi by linarith
          have "unat va - unat (upage + of_nat PGSIZE) < rb - p \<longleftrightarrow> unat va - unat upage < rb" unfolding up1 using hi p(2,4,5) by linarith
          moreover have "c ! (?pos + p + (unat va - unat (upage + of_nat PGSIZE))) = c ! (?pos + (unat va - unat upage))" if "unat va - unat upage < rb"
            unfolding up1 using hi that p(5) by (intro arg_cong [of _ _ "\<lambda>i. c ! i"]) linarith
          ultimately have img: "(if unat va - unat (upage + of_nat PGSIZE) < rb - p then c ! (?pos + p + (unat va - unat (upage + of_nat PGSIZE))) else 0)
              = (if unat va - unat upage < rb then c ! (?pos + (unat va - unat upage)) else 0)" by (rule if_cong [OF _ _ refl])
          show ?thesis unfolding v' segment_image_def rng img using v1 pg by simp
        qed (use v' v1 pg d in \<open>simp add: segment_image_def up1\<close>)
      qed
    qed
    ultimately show ?thesis using run still_trans [OF s1(2) ih(2)] ih(3) by blast
  qed
qed

lemma load_segment_ok:
  assumes ok: "proc_ok s" "reading f c (lfs s)" and up: "pg_ofs upage = 0" "rb + zb = 4096 * n" "unat upage + 4096 * n \<le> unat PHYS_BASE"
    and ofs: "ofs mod 4096 = 0"
  shows "\<exists>s' b. load_segment f (int ofs) upage rb zb w s = Inr (s', b) \<and> still f c s s'
     \<and> (b \<longrightarrow> proc_ok s' \<and> (0 < rb \<longrightarrow> ofs + rb \<le> length c)
        \<and> (\<forall>va. is_user_vaddr va \<longrightarrow> user_view s' va = segment_image c ofs upage rb zb w (user_view s) va))"
proof -
  have "unat PHYS_BASE < u32_mod" by (simp add: PHYS_BASE_unat)
  then have "rb + zb < u32_mod" using up(2,3) by linarith
  then have a: "add32 rb zb mod PGSIZE = 0" using up(2) by (simp add: PGSIZE_def)
  obtain q where "ofs = 4096 * q" using ofs by (metis mod_0_imp_dvd dvd_def)
  then have m: "cmod (int ofs) (int PGSIZE) = 0" by (simp add: cmod_def cdiv_def PGSIZE_def)
  obtain t where t: "file_seek f (int ofs) (lfs s) = Inr t" "reading f c t" "fs_abs t = fs_abs (lfs s)" "file_pos t f = ofs"
    using reading_seek [OF ok(2)] by blast
  let ?s = "s\<lparr>lfs := t\<rparr>"
  have p: "proc_ok ?s" using ok(1) by (simp add: proc_ok_def)
  have uv: "user_view ?s = user_view s" by (simp add: user_view_def fun_eq_iff split: option.split sum.split)
  obtain s' u r z b where w: "while_r segment_cond (segment_body f w) (?s, upage, rb, zb, True) = Inr (s', u, r, z, b)" "still f c ?s s'"
      "b \<longrightarrow> proc_ok s' \<and> (0 < rb \<longrightarrow> file_pos (lfs ?s) f + rb \<le> length c)
        \<and> (\<forall>va. is_user_vaddr va \<longrightarrow> user_view s' va = segment_image c (file_pos (lfs ?s) f) upage rb zb w (user_view ?s) va)"
    using segment_loop [OF p _ up, of f c w] t(2) by auto
  have "load_segment f (int ofs) upage rb zb w s = Inr (s', b)" using a m t(1) w(1) up(1) by (simp add: load_segment_def)
  moreover have "still f c s s'" using w(2) t(3) by (simp add: still_def)
  ultimately show ?thesis using w(3) t(4) uv by auto
qed

section \<open>Validated segments\<close>

text \<open>The facts about a header that \<open>validate_segment\<close> establishes, as numbers.\<close>

definition valid_phdr :: "Elf32_Phdr \<Rightarrow> byte list \<Rightarrow> bool" where
  "valid_phdr h c \<longleftrightarrow> unat (p_offset h) mod 4096 = unat (p_vaddr h) mod 4096 \<and> unat (p_offset h) \<le> length c
     \<and> unat (p_filesz h) \<le> unat (p_memsz h) \<and> 0 < unat (p_memsz h) \<and> 4096 \<le> unat (p_vaddr h)
     \<and> unat (p_vaddr h) + unat (p_memsz h) < unat PHYS_BASE"

lemma word_add_range:
  fixes a b :: "32 word"
  assumes "\<not> a + b < a"
  shows "unat (a + b) = unat a + unat b"
proof -
  have "a \<le> a + b" using assms by (simp add: not_less)
  then show ?thesis by (rule unat_plus_simple [THEN iffD1])
qed

lemma validate_segment_iff:
  assumes "reading f c t"
  shows "validate_segment h f t = Inr (valid_phdr h c)"
proof -
  have l: "file_length f t = Inr (int (length c))" "length c < 2147483648" by (rule reading_length [OF assms])+
  have lc: "unat (of_nat (length c) :: 32 word) = length c" using l(2) by (intro unat_of_nat32) simp
  have ofs: "p_offset h AND PGMASK = p_vaddr h AND PGMASK \<longleftrightarrow> unat (p_offset h) mod 4096 = unat (p_vaddr h) mod 4096"
    by (simp add: pg_ofs_def [symmetric] word_unat_eq_iff unat_pg_ofs)
  have le: "\<not> p_offset h > of_int (int (length c)) \<longleftrightarrow> unat (p_offset h) \<le> length c" using lc by (simp add: not_less word_le_nat_alt)
  have sz: "\<not> p_memsz h < p_filesz h \<longleftrightarrow> unat (p_filesz h) \<le> unat (p_memsz h)" "p_memsz h \<noteq> 0 \<longleftrightarrow> 0 < unat (p_memsz h)"
      "\<not> p_vaddr h < of_nat PGSIZE \<longleftrightarrow> 4096 \<le> unat (p_vaddr h)"
    by (simp_all add: not_less word_le_nat_alt PGSIZE_def unat_gt_0)
  have rng: "is_user_vaddr (p_vaddr h) \<and> is_user_vaddr (p_vaddr h + p_memsz h) \<and> \<not> p_vaddr h + p_memsz h < p_vaddr h
      \<longleftrightarrow> unat (p_vaddr h) + unat (p_memsz h) < unat PHYS_BASE"
  proof
    assume "is_user_vaddr (p_vaddr h) \<and> is_user_vaddr (p_vaddr h + p_memsz h) \<and> \<not> p_vaddr h + p_memsz h < p_vaddr h"
    then show "unat (p_vaddr h) + unat (p_memsz h) < unat PHYS_BASE" using word_add_range [of "p_vaddr h" "p_memsz h"] by (simp add: is_user_unat)
  next
    assume a: "unat (p_vaddr h) + unat (p_memsz h) < unat PHYS_BASE"
    then have "unat (p_vaddr h + p_memsz h) = unat (p_vaddr h) + unat (p_memsz h)" by (simp add: unat_word_ariths PHYS_BASE_unat)
    then show "is_user_vaddr (p_vaddr h) \<and> is_user_vaddr (p_vaddr h + p_memsz h) \<and> \<not> p_vaddr h + p_memsz h < p_vaddr h"
      using a by (simp add: is_user_unat not_less word_le_nat_alt)
  qed
  show ?thesis
    unfolding validate_segment_def l(1) bind_r_Inr valid_phdr_def using ofs le sz rng by (auto simp del: not_less)
qed

lemma PHYS_BASE_pages: "unat PHYS_BASE = 4096 * 786432"
  by (simp add: PHYS_BASE_unat)

lemma round_down_mask: "x AND NOT PGMASK = pg_round_down x"
  by (simp add: pg_round_down_def)

lemma sint_small:
  fixes w :: "32 word"
  assumes "unat w < 2147483648"
  shows "sint w = int (unat w)"
proof -
  define n where "n = unat w"
  have u: "uint w = int n" by (simp add: n_def)
  have "int n < 2 ^ 31" using assms by (simp add: n_def [symmetric])
  then have "signed_take_bit 31 (int n) = int n" by (intro signed_take_bit_int_eq_self) simp_all
  moreover have "sint w = signed_take_bit 31 (uint w)" by (simp add: sint_uint)
  ultimately show ?thesis unfolding u n_def by simp
qed

text \<open>The sizes and addresses of a validated segment meet the requirements of \<open>load_segment\<close>.\<close>

lemma segment_sizes:
  assumes v: "valid_phdr h c" and l: "length c < 2147483648"
  defines "d \<equiv> unat (p_vaddr h) mod 4096"
  defines "n \<equiv> (d + unat (p_memsz h) + 4095) div 4096"
  shows "segment_read_bytes h = (if 0 < unat (p_filesz h) then d + unat (p_filesz h) else 0)"
    and "segment_read_bytes h + segment_zero_bytes h = 4096 * n"
    and "unat (p_vaddr h AND NOT PGMASK) + d = unat (p_vaddr h)"
    and "unat (p_vaddr h AND NOT PGMASK) + 4096 * n \<le> unat PHYS_BASE"
    and "\<exists>ofs. sint (p_offset h AND NOT PGMASK) = int ofs \<and> ofs + d = unat (p_offset h) \<and> ofs mod 4096 = 0"
proof -
  let ?va = "unat (p_vaddr h)" and ?ms = "unat (p_memsz h)" and ?fz = "unat (p_filesz h)"
  have V: "unat (p_offset h) mod 4096 = d" "unat (p_offset h) \<le> length c" "?fz \<le> ?ms" "0 < ?ms" "?va + ?ms < unat PHYS_BASE"
    using v by (simp_all add: valid_phdr_def d_def)
  have T: "unat PHYS_BASE + 8192 < u32_mod" by (simp add: PHYS_BASE_unat)
  obtain q where q: "?va = 4096 * q + d" unfolding d_def by (metis mult_div_mod_eq)
  have d: "d < 4096" by (simp add: d_def)
  have po: "unat (p_vaddr h AND PGMASK) = d" by (simp add: pg_ofs_def [symmetric] unat_pg_ofs d_def)
  have small: "d + ?ms < unat PHYS_BASE" "d + ?fz < u32_mod" "d + ?ms < u32_mod" "d + ?ms + 4095 < u32_mod" using V(3,5) q T d by linarith+
  have sum: "unat ((p_vaddr h AND PGMASK) + p_memsz h) = d + ?ms" "unat ((p_vaddr h AND PGMASK) + p_filesz h) = d + ?fz"
    using small(2,3) by (simp_all add: unat_word_ariths po)
  show rb: "segment_read_bytes h = (if 0 < ?fz then d + ?fz else 0)"
    using sum(2) by (simp add: segment_read_bytes_def word_greater_zero_iff unat_gt_0)
  have nn: "4096 * n \<le> d + ?ms + 4095" "d + ?ms \<le> 4096 * n" unfolding n_def by linarith+
  have ru: "ROUND_UP (d + ?ms) PGSIZE = 4096 * n" using small(4) nn(1) by (simp add: ROUND_UP_def PGSIZE_def n_def mult.commute)
  have "segment_read_bytes h \<le> 4096 * n" using rb nn(2) V(3) by simp
  then have "sub32 (4096 * n) (segment_read_bytes h) = 4096 * n - segment_read_bytes h" using nn(1) small(4) by (intro sub32_small) linarith+
  then show "segment_read_bytes h + segment_zero_bytes h = 4096 * n"
    using \<open>segment_read_bytes h \<le> 4096 * n\<close> rb unfolding segment_zero_bytes_def Let_def sum(1) ru
    by (cases "0 < p_filesz h") (auto simp: word_greater_zero_iff unat_gt_0)
  have up: "unat (p_vaddr h AND NOT PGMASK) = 4096 * q" using q d by (simp add: round_down_mask unat_pg_round_down)
  then show "unat (p_vaddr h AND NOT PGMASK) + d = ?va" using q by simp
  have q': "q \<le> 786432" using V(5) q unfolding PHYS_BASE_pages by linarith
  then obtain r where r: "q + r = 786432" by (metis le_add_diff_inverse)
  have "d + ?ms \<le> 4096 * r" using V(5) q r unfolding PHYS_BASE_pages by linarith
  then have "d + ?ms + 4095 < Suc r * 4096" by simp
  then have "n < Suc r" unfolding n_def by (rule less_mult_imp_div_less)
  then show "unat (p_vaddr h AND NOT PGMASK) + 4096 * n \<le> unat PHYS_BASE" unfolding up PHYS_BASE_pages using r by linarith
  obtain r where r: "unat (p_offset h) = 4096 * r + d" using V(1) by (metis mult_div_mod_eq)
  have u: "unat (p_offset h AND NOT PGMASK) = 4096 * r" using r d by (simp add: round_down_mask unat_pg_round_down)
  have "4096 * r < 2147483648" using r V(2) l by linarith
  then have "sint (p_offset h AND NOT PGMASK) = int (4096 * r)" using sint_small [of "p_offset h AND NOT PGMASK"] u by simp
  then show "\<exists>ofs. sint (p_offset h AND NOT PGMASK) = int ofs \<and> ofs + d = unat (p_offset h) \<and> ofs mod 4096 = 0" using r by (intro exI [of _ "4096 * r"]) simp
qed

end
