(* ===== verification/LoaderProps.thy ===== *)
theory LoaderProps
  imports LoaderSegs
begin

unbundle bit_operations_syntax

text \<open>
  What the loader promises: for any contents of the executable it ends without a fault, and when it reports success the process sees the
  segments of the executable and the frame of \<open>main\<close>.
\<close>

section \<open>Program headers\<close>

text \<open>What the process sees after the segment of a header is loaded from a file with contents \<open>c\<close>.\<close>

definition phdr_image :: "byte list \<Rightarrow> Elf32_Phdr \<Rightarrow> (32 word \<Rightarrow> (byte \<times> bool) option) \<Rightarrow> 32 word \<Rightarrow> (byte \<times> bool) option" where
  "phdr_image c h old = (if p_type h = PT_LOAD
     then segment_image c (nat (sint (p_offset h AND NOT PGMASK))) (p_vaddr h AND NOT PGMASK) (segment_read_bytes h) (segment_zero_bytes h)
            (p_flags h AND PF_W \<noteq> 0) old
     else old)"

definition good_phdr :: "byte list \<Rightarrow> Elf32_Phdr \<Rightarrow> bool" where
  "good_phdr c h \<longleftrightarrow> p_type h \<notin> {PT_DYNAMIC, PT_INTERP, PT_SHLIB} \<and> (p_type h = PT_LOAD \<longrightarrow> valid_phdr h c)"

lemma phdr_image_cong: "old va = old' va \<Longrightarrow> phdr_image c h old va = phdr_image c h old' va"
  by (simp add: phdr_image_def segment_image_def)

lemma load_phdr_ok:
  assumes ok: "proc_ok s" and rd: "reading f c (lfs s)"
  shows "\<exists>s' b. load_phdr f h s = Inr (s', b) \<and> still f c s s' \<and> (b \<longrightarrow> proc_ok s' \<and> good_phdr c h
     \<and> (\<forall>va. is_user_vaddr va \<longrightarrow> user_view s' va = phdr_image c h (user_view s) va))"
proof -
  have st: "still f c s s" using rd proc_okD(1) [OF ok] by (simp add: still_def)
  consider (bad) "p_type h = PT_DYNAMIC \<or> p_type h = PT_INTERP \<or> p_type h = PT_SHLIB"
    | (ignored) "\<not> (p_type h = PT_DYNAMIC \<or> p_type h = PT_INTERP \<or> p_type h = PT_SHLIB)" "p_type h \<noteq> PT_LOAD"
    | (invalid) "p_type h = PT_LOAD" "\<not> valid_phdr h c" | (valid) "p_type h = PT_LOAD" "valid_phdr h c" by blast
  then show ?thesis
  proof cases
    case bad
    then show ?thesis using st by (intro exI [of _ s] exI [of _ False]) (simp add: load_phdr_def)
  next
    case ignored
    then show ?thesis using st ok by (intro exI [of _ s] exI [of _ True]) (simp add: load_phdr_def good_phdr_def phdr_image_def)
  next
    case invalid
    then show ?thesis using st validate_segment_iff [OF rd, of h]
      by (intro exI [of _ s] exI [of _ False]) (simp add: load_phdr_def PT_LOAD_def PT_DYNAMIC_def PT_INTERP_def PT_SHLIB_def)
  next
    case valid
    note S = segment_sizes [OF valid(2) reading_length(2) [OF rd]]
    obtain ofs where ofs: "sint (p_offset h AND NOT PGMASK) = int ofs" "ofs mod 4096 = 0" using S(5) by (elim exE conjE) (rule that)
    have up: "pg_ofs (p_vaddr h AND NOT PGMASK) = 0"
      by (simp add: round_down_mask word_unat_eq_iff unat_pg_ofs unat_pg_round_down)
    obtain s' b where r: "load_segment f (int ofs) (p_vaddr h AND NOT PGMASK) (segment_read_bytes h) (segment_zero_bytes h) (p_flags h AND PF_W \<noteq> 0) s = Inr (s', b)"
        "still f c s s'" "b \<longrightarrow> proc_ok s' \<and> (0 < segment_read_bytes h \<longrightarrow> ofs + segment_read_bytes h \<le> length c) \<and> (\<forall>va. is_user_vaddr va \<longrightarrow> user_view s' va
           = segment_image c ofs (p_vaddr h AND NOT PGMASK) (segment_read_bytes h) (segment_zero_bytes h) (p_flags h AND PF_W \<noteq> 0) (user_view s) va)"
      using load_segment_ok [OF ok rd up S(2,4) ofs(2), of "p_flags h AND PF_W \<noteq> 0"] by (elim exE conjE) (rule that; assumption)
    have "load_phdr f h s = Inr (s', b)"
      using r(1) valid validate_segment_iff [OF rd, of h] by (simp add: load_phdr_def ofs(1) PT_LOAD_def PT_DYNAMIC_def PT_INTERP_def PT_SHLIB_def)
    moreover have "good_phdr c h" using valid by (simp add: good_phdr_def PT_LOAD_def PT_DYNAMIC_def PT_INTERP_def PT_SHLIB_def)
    ultimately show ?thesis using r(2,3) valid(1) ofs(1) by (intro exI [of _ s'] exI [of _ b]) (simp add: phdr_image_def)
  qed
qed

primrec phdrs :: "byte list \<Rightarrow> nat \<Rightarrow> nat \<Rightarrow> Elf32_Phdr list" where
  "phdrs c ofs 0 = []"
| "phdrs c ofs (Suc k) = bytes_phdr (take PHDR_SIZE (drop ofs c)) # phdrs c (ofs + PHDR_SIZE) k"

lemma fold_image_cong: "old va = old' va \<Longrightarrow> fold (phdr_image c) hs old va = fold (phdr_image c) hs old' va"
proof (induction hs arbitrary: old old')
  case (Cons h hs)
  have "phdr_image c h old va = phdr_image c h old' va" using Cons.prems by (rule phdr_image_cong)
  then have "fold (phdr_image c) hs (phdr_image c h old) va = fold (phdr_image c) hs (phdr_image c h old') va" by (rule Cons.IH)
  then show ?case by simp
qed simp

lemma headers_loop:
  assumes "proc_ok s" "reading f c (lfs s)" "i + k = n"
  shows "\<exists>s' i' ofs' b. while_r (headers_cond n) (headers_body f) (s, i, ofs, True) = Inr (s', i', ofs', b) \<and> still f c s s'
     \<and> (b \<longrightarrow> proc_ok s' \<and> (\<forall>h\<in>set (phdrs c (nat ofs) k). good_phdr c h) \<and> (0 < k \<longrightarrow> 0 \<le> ofs \<and> nat ofs + PHDR_SIZE * k \<le> length c)
        \<and> (\<forall>va. is_user_vaddr va \<longrightarrow> user_view s' va = fold (phdr_image c) (phdrs c (nat ofs) k) (user_view s) va))"
  using assms
proof (induction k arbitrary: s i ofs)
  case 0
  have "while_r (headers_cond n) (headers_body f) (s, i, ofs, True) = Inr (s, i, ofs, True)"
    by (rule while_r_False) (use 0(3) in \<open>simp add: headers_cond_def\<close>)
  moreover have "still f c s s" using 0(2) proc_okD(1) [OF 0(1)] by (simp add: still_def)
  ultimately show ?case using 0(1) by (intro exI [of _ s] exI [of _ i] exI [of _ ofs] exI [of _ True]) simp
next
  case (Suc k)
  let ?W = "while_r (headers_cond n) (headers_body f)"
  have st: "still f c s s" using Suc.prems(2) proc_okD(1) [OF Suc.prems(1)] by (simp add: still_def)
  note L = reading_length [OF Suc.prems(2)]
  have c1: "headers_cond n (s, i, ofs, True) = Inr True" using Suc.prems(3) by (simp add: headers_cond_def)
  note step = while_r_step [of "headers_cond n" "(s, i, ofs, True)" "headers_body f", OF c1]
  have stop: "?W (s', j, ofs', False) = Inr (s', j, ofs', False)" for s' j ofs' by (rule while_r_False) (simp add: headers_cond_def)
  have fail: ?case if "?W (s, i, ofs, True) = ?W (s', j, ofs', False)" "still f c s s'" for s' j ofs'
    using that stop by (intro exI [of _ s'] exI [of _ j] exI [of _ ofs'] exI [of _ False]) simp
  show ?case
  proof (cases "ofs < 0 \<or> ofs > int (length c)")
    case True
    have "?W (s, i, ofs, True) = ?W (s, i, ofs, False)" by (rule step) (use True L(1) in \<open>simp add: headers_body_def\<close>)
    then show ?thesis using st by (rule fail)
  next
    case False
    then obtain p where p: "ofs = int p" "p \<le> length c" using nat_0_le [of ofs] by (metis not_less of_nat_le_iff)
    obtain t where t: "file_seek f (int p) (lfs s) = Inr t" "reading f c t" "fs_abs t = fs_abs (lfs s)" "file_pos t f = p"
      using reading_seek [OF Suc.prems(2)] by blast
    define xs where "xs = take PHDR_SIZE (drop p c)"
    obtain t' where t': "file_read f (int PHDR_SIZE) t = Inr (t', xs)" "reading f c t'" "fs_abs t' = fs_abs t"
      using reading_read [OF t(2), of PHDR_SIZE] unfolding t(4) xs_def by blast
    let ?s = "s\<lparr>lfs := t'\<rparr>"
    have ok: "proc_ok ?s" "reading f c (lfs ?s)" "still f c s ?s" "user_view ?s = user_view s"
      using Suc.prems(1) t(3) t'(2,3) st by (simp_all add: proc_ok_def still_def user_view_def fun_eq_iff split: option.split sum.split)
    have body: "headers_body f (s, i, ofs, True) = (if length xs \<noteq> PHDR_SIZE then Inr (?s, i, ofs, False)
        else bind_r (load_phdr f (bytes_phdr xs) ?s) (\<lambda>(s, ok). Inr (s, i + 1, signed_take_bit 31 (ofs + int PHDR_SIZE), ok)))"
      unfolding headers_body_def prod.case L(1) bind_r_Inr if_not_P [OF False]
      unfolding p(1) t(1) t'(1) bind_r_Inr prod.case Let_def ..
    show ?thesis
    proof (cases "length xs = PHDR_SIZE")
      case False
      then have "?W (s, i, ofs, True) = ?W (?s, i, ofs, False)" by (intro step) (use body in simp)
      then show ?thesis using ok(3) by (rule fail)
    next
      case True
      then have fits: "p + PHDR_SIZE \<le> length c" by (auto simp: xs_def PHDR_SIZE_def)
      have ofs': "signed_take_bit 31 (ofs + int PHDR_SIZE) = int (p + PHDR_SIZE)"
        using fits L(2) by (subst signed_take_bit_int_eq_self) (simp_all add: p(1))
      obtain s1 b where s1: "load_phdr f (bytes_phdr xs) ?s = Inr (s1, b)" "still f c ?s s1" "b \<longrightarrow> proc_ok s1 \<and> good_phdr c (bytes_phdr xs)
          \<and> (\<forall>va. is_user_vaddr va \<longrightarrow> user_view s1 va = phdr_image c (bytes_phdr xs) (user_view s) va)"
        using load_phdr_ok [OF ok(1,2), of "bytes_phdr xs"] unfolding ok(4) by blast
      have still: "still f c s s1" by (rule still_trans [OF ok(3) s1(2)])
      have run: "?W (s, i, ofs, True) = ?W (s1, i + 1, int (p + PHDR_SIZE), b)" by (rule step) (use body True s1(1) ofs' in simp)
      show ?thesis
      proof (cases b)
        case False
        show ?thesis by (rule fail [OF _ still]) (use run False in simp)
      next
        case b: True
        have "reading f c (lfs s1)" "proc_ok s1" "i + 1 + k = n" using s1(2,3) b Suc.prems(3) by (simp_all add: still_def)
        from Suc.IH [OF this(2,1,3), of "int (p + PHDR_SIZE)", unfolded nat_int] obtain s' i' o' b' where
          ih: "?W (s1, i + 1, int (p + PHDR_SIZE), True) = Inr (s', i', o', b')" "still f c s1 s'"
            "b' \<longrightarrow> proc_ok s' \<and> (\<forall>h\<in>set (phdrs c (p + PHDR_SIZE) k). good_phdr c h) \<and> (0 < k \<longrightarrow> 0 \<le> int (p + PHDR_SIZE) \<and> p + PHDR_SIZE + PHDR_SIZE * k \<le> length c)
              \<and> (\<forall>va. is_user_vaddr va \<longrightarrow> user_view s' va = fold (phdr_image c) (phdrs c (p + PHDR_SIZE) k) (user_view s1) va)"
          by (elim exE conjE) (rule that; assumption)
        have "user_view s' va = fold (phdr_image c) (phdrs c (nat ofs) (Suc k)) (user_view s) va" if "b'" "is_user_vaddr va" for va
          using ih(3) s1(3) b that fold_image_cong [of "user_view s1" va "phdr_image c (bytes_phdr xs) (user_view s)" c] by (simp add: p(1) xs_def [symmetric])
        moreover have "nat ofs + PHDR_SIZE * Suc k \<le> length c" if b' using ih(3) that fits by (cases k) (simp_all add: p(1))
        moreover have "?W (s, i, ofs, True) = Inr (s', i', o', b')" using run ih(1) b by simp
        ultimately show ?thesis using ih(3) s1(3) b still_trans [OF still ih(2)]
          by (intro exI [of _ s'] exI [of _ i'] exI [of _ o'] exI [of _ b']) (simp add: p(1) xs_def [symmetric])
      qed
    qed
  qed
qed

section \<open>The stack\<close>

text \<open>The bytes a process sees, as a memory.\<close>

definition user_mem :: "lstate \<Rightarrow> mem" where
  "user_mem s a = (if a < unat PHYS_BASE then map_option fst (user_view s (of_nat a)) else None)"

lemma main_frame_mono:
  assumes m: "main_frame m esp ws" and sub: "\<And>a b. esp \<le> a \<Longrightarrow> a < unat PHYS_BASE \<Longrightarrow> m a = Some b \<Longrightarrow> m' a = Some b"
    and le: "esp + 16 + 4 * length ws \<le> unat PHYS_BASE"
  shows "main_frame m' esp ws"
proof -
  have w: "word_at m' a v" if "word_at m a v" "esp \<le> a" "a + 4 \<le> unat PHYS_BASE" for a v
    using that sub by (auto simp: word_at_def bytes_at_def)
  have c: "cstr m' a x" if "cstr m a x" "esp \<le> a" "a + length x < unat PHYS_BASE" for a x
    using that sub by (auto simp: cstr_def bytes_at_def)
  have "\<exists>a. word_at m' (esp + 12 + 4 * i) (of_nat a) \<and> esp + 16 + 4 * length ws \<le> a \<and> a + length (ws ! i) < unat PHYS_BASE \<and> cstr m' a (ws ! i)"
    if i: "i < length ws" for i
  proof -
    obtain a where a: "word_at m (esp + 12 + 4 * i) (of_nat a)" "esp + 16 + 4 * length ws \<le> a" "a + length (ws ! i) < unat PHYS_BASE" "cstr m a (ws ! i)"
      using m i unfolding main_frame_def by blast
    then show ?thesis using w [OF a(1)] c [OF a(4)] i le by (intro exI [of _ a]) simp
  qed
  moreover have "word_at m' esp 0" "word_at m' (esp + 4) (of_nat (length ws))" "word_at m' (esp + 8) (of_nat (esp + 12))" "word_at m' (esp + 12 + 4 * length ws) 0"
    using m w le unfolding main_frame_def by simp_all
  ultimately show ?thesis unfolding main_frame_def by blast
qed

lemma cuttable_cong:
  assumes "cuttable m s xs d ds" "\<And>a. T \<le> a \<Longrightarrow> m' a = m a" "T \<le> s" "T \<le> d"
  shows "cuttable m' s xs d ds"
  using assms cstr_cong [of xs m' s m] cstr_cong [of ds m' d m] by (simp add: cuttable_def)

lemma stack_page: "pg_ofs (PHYS_BASE - of_nat PGSIZE) = 0" "is_user_vaddr (PHYS_BASE - of_nat PGSIZE)"
  "unat (PHYS_BASE - of_nat PGSIZE) = stack_base" "stack_base + 4096 = unat PHYS_BASE"
  by (simp_all add: pg_ofs_def PGMASK_def PHYS_BASE_def PGSIZE_def is_user_vaddr_def stack_base_def)

lemma setup_stack_ok:
  assumes ok: "proc_ok s" and c: "cuttable (kmem s) a xs d ds" and t: "tokens (set ds) xs = ws"
    and hi: "unat PHYS_BASE \<le> a" "unat PHYS_BASE \<le> d"
    and l: "length ws < length argv" "length ws \<le> length ptrs" and fit: "stack_need ws \<le> 4096"
  shows "\<exists>s' esp b. setup_stack a d argv ptrs s = Inr (s', esp, b) \<and> lfs s' = lfs s \<and> pagedir s' = pagedir s \<and> exec_fp s' = exec_fp s
     \<and> out_of_money s' = out_of_money s \<and> pd_owned (lvm s') (pagedir s)
     \<and> (b \<longrightarrow> esp = unat PHYS_BASE - stack_need ws \<and> main_frame (user_mem s') esp ws
        \<and> (\<forall>va. is_user_vaddr va \<and> unat va < stack_base \<longrightarrow> user_view s' va = user_view s va))"
proof -
  let ?T = "unat PHYS_BASE"
  have fl: "(PAL_USER OR PAL_ZERO) AND PAL_ASSERT = 0" "(PAL_USER OR PAL_ZERO) AND PAL_USER \<noteq> 0" by (simp_all add: pal_consts)
  show ?thesis
  proof (rule get_kpage_ok [OF ok fl])
    assume "get_kpage (PAL_USER OR PAL_ZERO) s = Inr (s, 0)"
    then show ?thesis using proc_okD(1) [OF ok] by (intro exI [of _ s] exI [of _ 0] exI [of _ False]) (simp add: setup_stack_def)
  next
    fix s1 k assume g: "get_kpage (PAL_USER OR PAL_ZERO) s = Inr (s1, k)" "k \<noteq> 0" "proc_ok s1" "pg_ofs k = 0" "is_kernel_vaddr k"
        "k \<notin> insert (pagedir s) (set (dir_pages (lvm s) (pagedir s) 0))" "k \<in> owned (pm (lvm s1))"
        "unat (drop_bit 12 (k - PHYS_BASE)) < init_ram_pages (lvm s1)"
        "dir_pages (lvm s1) (pagedir s) 0 = dir_pages (lvm s) (pagedir s) 0"
      and uv: "\<And>va. is_user_vaddr va \<Longrightarrow> user_view s1 va = user_view s va"
      and s1: "s1 = s\<lparr>lvm := lvm s1, ubytes := (if (PAL_USER OR PAL_ZERO) AND PAL_ZERO \<noteq> 0 then put_at (ubytes s) k (replicate PGSIZE 0) else ubytes s)\<rparr>"
    have s1: "lfs s1 = lfs s" "pagedir s1 = pagedir s" "kmem s1 = kmem s" "exec_fp s1 = exec_fp s" "out_of_money s1 = out_of_money s"
      by (subst s1; simp)+
    have kn: "k \<notin> insert (pagedir s1) (set (dir_pages (lvm s1) (pagedir s1) 0))" using g(6,9) s1(2) by simp
    note own = proc_okD(1) [OF g(3)]
    obtain v b e where v: "install_page (PHYS_BASE - of_nat PGSIZE) k True s1 = Inr (s1\<lparr>lvm := v\<rparr>, b)" "\<not> b \<longrightarrow> v = lvm s1" "pte_get_page e = Inr k"
        "e AND PTE_W \<noteq> 0 \<longleftrightarrow> True" "b \<longrightarrow> proc_ok (s1\<lparr>lvm := v\<rparr>) \<and> (\<forall>va. is_user_vaddr va \<longrightarrow> mapping v (pagedir s1) va
          = (if pg_round_down va = PHYS_BASE - of_nat PGSIZE then Some e else mapping (lvm s1) (pagedir s1) va))"
      using install_page_map [OF g(3) stack_page(1,2) g(4,5,7) kn g(8), of True] by (elim exE conjE) (rule that; assumption)
    show ?thesis
    proof (cases b)
      case False
      obtain v' u where f: "free_kpage k s1 = Inr (s1\<lparr>lvm := v', ubytes := u\<rparr>)" "pd_owned v' (pagedir s1)" by (rule free_kpage_ok [OF own g(7) kn])
      then have "setup_stack a d argv ptrs s = Inr (s1\<lparr>lvm := v', ubytes := u\<rparr>, 0, False)" using g(1,2) v(1,2) False by (simp add: setup_stack_def)
      then show ?thesis using f(2) s1 by auto
    next
      case True
      let ?s2 = "s1\<lparr>lvm := v\<rparr>"
      let ?m = "stack_view k ?s2"
      have hiv: "?m x = kmem s x" if "?T \<le> x" for x using that stack_page(4) s1(3) by (simp add: stack_view_def)
      have cut: "cuttable ?m a xs d ds" by (rule cuttable_cong [OF c hiv hi])
      have "?T - 4096 = stack_base" by (simp add: stack_base_def PGSIZE_def)
      then have mp: "mapped ?m (?T - 4096) 4096" using stack_page(4) by (auto simp: mapped_def stack_view_def)
      obtain m esp where m: "push_arguments ?m a d argv ptrs = Inr (m, esp)" "esp = ?T - stack_need ws" "main_frame m esp ws"
        by (rule push_arguments_ok [OF cut t hi(1) mp l fit])
      let ?s3 = "stack_back k m ?s2"
      have run: "setup_stack a d argv ptrs s = Inr (?s3, esp, True)" using g(1,2) v(1) True m(1) by (simp add: setup_stack_def)
      have page: "user_view ?s3 va = Some (the (m (stack_base + unat (pg_ofs va))), True)"
        if "is_user_vaddr va" "pg_round_down va = PHYS_BASE - of_nat PGSIZE" for va
      proof -
        have "unat (pg_ofs va) < PGSIZE" by (simp add: unat_pg_ofs PGSIZE_def)
        then have "ubytes ?s3 (k + pg_ofs va) = the (m (stack_base + unat (pg_ofs va)))"
          by (simp add: stack_back_def put_at_page)
        then show ?thesis using v(3-5) True that by (simp add: user_view_def stack_back_def)
      qed
      have other: "user_view ?s3 va = user_view s va" if va: "is_user_vaddr va" "unat va < stack_base" for va
      proof -
        have "pg_round_down va \<noteq> PHYS_BASE - of_nat PGSIZE" using in_page(1) [OF stack_page(1), of va] va(2) stack_page(3) by simp
        then have "user_view ?s3 va = user_view s1 va"
          using user_view_same [OF own va(1), of ?s3 k] v(5) True va(1) kn put_at_other [OF g(4)] by (simp add: stack_back_def PGSIZE_def)
        then show ?thesis using uv [OF va(1)] by simp
      qed
      have sub: "user_mem ?s3 x = Some y" if x: "esp \<le> x" "x < ?T" "m x = Some y" for x y
      proof -
        have lo: "stack_base \<le> x" using x(1) m(2) fit stack_page(4) by linarith
        have u: "unat (of_nat x :: 32 word) = x" using x(2) by (intro unat_of_nat32) (simp add: PHYS_BASE_unat)
        have pg: "pg_round_down (of_nat x) = PHYS_BASE - of_nat PGSIZE"
          using in_page(1) [OF stack_page(1), of "of_nat x"] lo x(2) stack_page(3,4) u by simp
        then have "stack_base + unat (pg_ofs (of_nat x :: 32 word)) = x" using in_page(2) [OF stack_page(1) pg] stack_page(3) u lo by simp
        then show ?thesis using page [of "of_nat x"] pg u x(2,3) by (simp add: user_mem_def is_user_unat)
      qed
      have "4 * length ws + 16 \<le> stack_need ws" by (simp add: stack_need_def)
      then have "esp + 16 + 4 * length ws \<le> ?T" using m(2) fit stack_page(4) by linarith
      then have "main_frame (user_mem ?s3) esp ws" by (intro main_frame_mono [OF m(3)] sub)
      moreover have "pd_owned (lvm ?s3) (pagedir s)" using v(5) True proc_okD(1) [of ?s2] s1(2) by (simp add: stack_back_def)
      moreover have "lfs ?s3 = lfs s" "pagedir ?s3 = pagedir s" "exec_fp ?s3 = exec_fp s" "out_of_money ?s3 = out_of_money s" using s1 by (simp_all add: stack_back_def)
      ultimately show ?thesis using run other m(2) by (intro exI [of _ ?s3] exI [of _ esp] exI [of _ True]) blast
    qed
  qed
qed

section \<open>The executable file\<close>

lemma reading_deny:
  assumes "reading f c t"
  shows "\<exists>t'. file_deny_write f t = Inr t' \<and> reading f c t' \<and> fs_abs t' = fs_abs t \<and> denied t' f"
proof -
  have ok: "fs_ok t" "user_file f t" "file_data t f = Some c" using assms by (simp_all add: reading_def)
  obtain x n where x: "files t f = Some x" "inodes t (finode x) = Some n" "isector n \<noteq> FREE_MAP_SECTOR" and i: "inv {} (\<lambda>_. 0) t"
    using user_fileE [OF ok(1,2)] by metis
  obtain t' m where t': "file_deny_write f t = Inr t'" "quiet t t'" "files t' = (files t)(f \<mapsto> x\<lparr>deny_write := True\<rparr>)"
      "inodes t' (finode x) = Some m" "deny_write_cnt m \<noteq> 0" "isector m = isector n" using file_deny_write_ok [OF i x] by blast
  have "fs_ok t'" using exec_file_ok(4) [OF ok(1,2), of 0] t'(1) by (simp add: run_op_def)
  moreover have "file_data t' f = Some c" using t' ok(3) x by (simp add: file_data_def quiet_views [OF t'(2)])
  moreover have "user_file f t'" using t'(2,3) ok(2) by (simp add: user_file_def quiet_def)
  moreover have "denied t' f" using t'(3-5) by (simp add: denied_def)
  ultimately show ?thesis using t'(1) quiet_views(10) [OF t'(2)] by (auto simp: reading_def)
qed

lemma open_executable_ok:
  assumes ok: "fs_ok t"
  shows "\<exists>t' r. open_executable nm g t = Inr (t', r) \<and> fs_ok t' \<and> fs_abs t' = fs_abs t \<and> (r = None \<longleftrightarrow> fs_abs t nm = None)
     \<and> (\<forall>f c. r = Some f \<and> fs_abs t nm = Some c \<longrightarrow> reading f c t' \<and> file_pos t' f = 0)"
proof -
  obtain t1 r where o: "filesys_open nm t = Inr (t1, r)" "fs_ok t1" "fs_abs t1 = fs_abs t" "r = None \<longleftrightarrow> fs_abs t nm = None"
      "case r of None \<Rightarrow> files t1 = files t
        | Some f \<Rightarrow> files t f = None \<and> file_data t1 f = fs_abs t nm \<and> file_pos t1 f = 0 \<and> (\<exists>x. files t1 = (files t)(f \<mapsto> x)) \<and> user_file f t1"
    using filesys_open_spec [OF ok, of nm] by (elim exE conjE) (rule that; assumption)
  show ?thesis
  proof (cases r)
    case (Some f)
    then show ?thesis using o by (intro exI [of _ t1] exI [of _ r]) (simp add: open_executable_def reading_def)
  next
    case None
    have i: "inv {} (\<lambda>_. 0) t1" "files_ok t1" using o(2) by (simp_all add: fs_ok_def)
    let ?d = "\<lambda>p. \<lparr>dinode = p, dpos = 0\<rparr>"
    obtain u p where u: "dir_open_root t1 = Inr (u, Some (?d p))" "inv {} (bump p (\<lambda>_. 0)) u" "files_ok u" "kept t1 u" "at_root p u"
      using dir_open_root_ok [OF i] by blast
    have none: "dir_map (entries u) nm = None" using None o(3,4) kept_entries [OF u(4)] by (metis fs_abs_def option.map_disc_iff)
    have rt: "at_root (dinode (?d p)) u" using u(5) by simp
    obtain w where w: "lookup (?d p) nm u = Inr (w, None)" "same_data u w"
      by (rule lookup_ok [OF u(2) rt, of nm]) (use none that in auto)
    have rw: "at_root p w" using u(5) by (simp add: at_root_def same_data_files [OF w(2)])
    obtain v where v: "dir_close (Some (?d p)) w = Inr v" "inv {} (\<lambda>_. 0) v" "files_ok v" "kept w v"
      using dir_close_ok [OF same_data_inv [OF u(2) w(2)] same_data_files_ok [OF w(2) u(3)] rw] by auto
    have "open_executable nm g t = Inr (v, None)"
      using o(1) None u(1) w(1) v(1) by (simp add: open_executable_def dir_lookup_def)
    moreover have "fs_abs v = fs_abs t" using kept_abs [OF v(4)] kept_abs [OF same_data_kept [OF w(2)]] kept_abs [OF u(4)] o(3) by simp
    ultimately show ?thesis using v(2,3) o(4) None by (intro exI [of _ v] exI [of _ None]) (simp add: fs_ok_def)
  qed
qed

section \<open>Loading an executable\<close>

text \<open>What the caller provides: the command line, and buffers for its copies, in kernel memory.\<close>

definition apart :: "nat \<Rightarrow> nat \<Rightarrow> nat \<Rightarrow> nat \<Rightarrow> bool" where
  "apart a n b m \<longleftrightarrow> a + n \<le> b \<or> b + m \<le> a"

definition command_ok :: "frame \<Rightarrow> nat \<Rightarrow> byte list \<Rightarrow> mem \<Rightarrow> bool" where
  "command_ok fr a xs m \<longleftrightarrow> cstr m a xs \<and> cstr m (space fr) [32] \<and> (\<forall>p\<in>{a, no_args fr, cpy fr, space fr}. unat PHYS_BASE \<le> p)
     \<and> mapped m (no_args fr) (length xs + 1) \<and> mapped m (cpy fr) (length xs + 1)
     \<and> apart a (length xs + 1) (no_args fr) (length xs + 1) \<and> apart a (length xs + 1) (cpy fr) (length xs + 1)
     \<and> apart (no_args fr) (length xs + 1) (cpy fr) (length xs + 1)
     \<and> apart (space fr) 2 (no_args fr) (length xs + 1) \<and> apart (space fr) 2 (cpy fr) (length xs + 1)"

text \<open>The command line has a word, and its words fit the arrays and the page of the stack.\<close>

definition words_ok :: "frame \<Rightarrow> byte list list \<Rightarrow> bool" where
  "words_ok fr ws \<longleftrightarrow> ws \<noteq> [] \<and> 1 < length (argv1 fr) \<and> length ws < length (argv100 fr) \<and> length ws \<le> length (ptrs100 fr) \<and> stack_need ws \<le> 4096"

lemma copy_command:
  assumes "cstr m a xs" "cstr m d [32]" "mapped m b (length xs + 1)" "apart a (length xs + 1) b (length xs + 1)"
    "apart d 2 b (length xs + 1)" "a \<noteq> 0" "b \<noteq> 0" "d \<noteq> 0"
  shows "strlen m a = Inr (length xs)" "strlcpy m b a (length xs + 1) = Inr (put m b (xs @ [0]), length xs)"
    "cuttable (put m b (xs @ [0])) b xs d [32]"
proof -
  show "strlen m a = Inr (length xs)" by (rule strlen_eq [OF assms(1,6)])
  show "strlcpy m b a (length xs + 1) = Inr (put m b (xs @ [0]), length xs)"
    using strlcpy_eq [OF assms(1,3) _ assms(7,6)] assms(4) by (auto simp: apart_def)
  have "cstr (put m b (xs @ [0])) b xs" using assms(1) unfolding cstr_def by simp
  moreover have "cstr (put m b (xs @ [0])) d [32]" using assms(2,5) by (auto simp: put_def apart_def)
  ultimately show "cuttable (put m b (xs @ [0])) b xs d [32]" using assms(5,7,8) by (auto simp: cuttable_def apart_def)
qed

text \<open>What a successful load leaves behind, for an executable with contents \<open>c\<close> and a command line of words \<open>ws\<close>.\<close>

definition loaded :: "byte list \<Rightarrow> byte list list \<Rightarrow> lstate \<Rightarrow> 32 word \<Rightarrow> nat \<Rightarrow> bool" where
  "loaded c ws s eip esp \<longleftrightarrow>
     (let h = bytes_ehdr (take EHDR_SIZE c); hs = phdrs c (nat (sint (e_phoff h))) (unat (e_phnum h)) in
      EHDR_SIZE \<le> length c \<and> valid_ehdr h \<and> eip = e_entry h \<and> (\<forall>p\<in>set hs. good_phdr c p)
      \<and> (\<forall>va. is_user_vaddr va \<and> unat va < stack_base \<longrightarrow> user_view s va = fold (phdr_image c) hs (\<lambda>_. None) va)
      \<and> esp = unat PHYS_BASE - stack_need ws \<and> main_frame (user_mem s) esp ws)"

lemma load_file_ok:
  assumes ok: "proc_ok s" and rd: "reading f c (lfs s)" "file_pos (lfs s) f = 0" and empty: "\<forall>va. is_user_vaddr va \<longrightarrow> user_view s va = None"
    and cmd: "cstr (kmem s) a xs" "cstr (kmem s) (space fr) [32]" "mapped (kmem s) (cpy fr) (length xs + 1)"
      "apart a (length xs + 1) (cpy fr) (length xs + 1)" "apart (space fr) 2 (cpy fr) (length xs + 1)"
      "unat PHYS_BASE \<le> a" "unat PHYS_BASE \<le> cpy fr" "unat PHYS_BASE \<le> space fr"
    and ws: "tokens {32} xs = ws" "words_ok fr ws"
  shows "\<exists>s' eip esp b. load_file fr a f s = Inr (s', eip, esp, b) \<and> reading f c (lfs s') \<and> fs_abs (lfs s') = fs_abs (lfs s)
     \<and> pd_owned (lvm s') (pagedir s) \<and> pagedir s' = pagedir s \<and> (b \<longrightarrow> loaded c ws s' eip esp)"
proof -
  obtain t where t: "file_read f (int EHDR_SIZE) (lfs s) = Inr (t, take EHDR_SIZE c)" "reading f c t" "fs_abs t = fs_abs (lfs s)"
    using reading_read [OF rd(1), of EHDR_SIZE] unfolding rd(2) by auto
  define h where "h = bytes_ehdr (take EHDR_SIZE c)"
  let ?s = "s\<lparr>lfs := t\<rparr>"
  have ok1: "proc_ok ?s" "reading f c (lfs ?s)" "user_view ?s = user_view s"
    using ok t(2) by (simp_all add: proc_ok_def user_view_def fun_eq_iff split: option.split sum.split)
  have un: "load_file fr a f s = (if length (take EHDR_SIZE c) \<noteq> EHDR_SIZE \<or> \<not> valid_ehdr h then Inr (?s, 0, 0, False)
     else bind_r (while_r (headers_cond (unat (e_phnum h))) (headers_body f) (?s, 0, sint (e_phoff h), True)) (\<lambda>(s, _, _, ok).
       if \<not> ok then Inr (s, 0, 0, False)
       else bind_r (strlen (kmem s) a) (\<lambda>l.
         bind_r (strlcpy (kmem s) (cpy fr) a (l + 1)) (\<lambda>(m, _).
         bind_r (setup_stack (cpy fr) (space fr) (argv100 fr) (ptrs100 fr) (s\<lparr>kmem := m\<rparr>)) (\<lambda>(s, esp, ok).
         if \<not> ok then Inr (s, 0, esp, False) else Inr (s, e_entry h, esp, True))))))"
    unfolding load_file_def t(1) bind_r_Inr prod.case Let_def h_def ..
  show ?thesis
  proof (cases "length (take EHDR_SIZE c) \<noteq> EHDR_SIZE \<or> \<not> valid_ehdr h")
    case True
    have "load_file fr a f s = Inr (?s, 0, 0, False)" unfolding un if_P [OF True] ..
    then show ?thesis using t(2,3) proc_okD(1) [OF ok] by auto
  next
    case False
    then have val: "EHDR_SIZE \<le> length c" "valid_ehdr h" by auto
    define hs where "hs = phdrs c (nat (sint (e_phoff h))) (unat (e_phnum h))"
    obtain s1 i o1 b where l: "while_r (headers_cond (unat (e_phnum h))) (headers_body f) (?s, 0, sint (e_phoff h), True) = Inr (s1, i, o1, b)" "still f c ?s s1"
        "b \<longrightarrow> proc_ok s1 \<and> (\<forall>p\<in>set hs. good_phdr c p) \<and> (0 < unat (e_phnum h) \<longrightarrow> 0 \<le> sint (e_phoff h) \<and> nat (sint (e_phoff h)) + PHDR_SIZE * unat (e_phnum h) \<le> length c)
          \<and> (\<forall>va. is_user_vaddr va \<longrightarrow> user_view s1 va = fold (phdr_image c) hs (user_view ?s) va)"
      using headers_loop [OF ok1(1,2) add_0 [of "unat (e_phnum h)"], where ofs = "sint (e_phoff h)", folded hs_def] by (elim exE conjE) (rule that; assumption)
    have s1: "reading f c (lfs s1)" "fs_abs (lfs s1) = fs_abs (lfs s)" "pagedir s1 = pagedir s" "kmem s1 = kmem s" "pd_owned (lvm s1) (pagedir s)"
      using l(2) t(3) by (simp_all add: still_def)
    show ?thesis
    proof (cases b)
      case b: False
      have "load_file fr a f s = Inr (s1, 0, 0, False)" unfolding un if_not_P [OF False] l(1) bind_r_Inr prod.case using b by simp
      then show ?thesis using s1 by auto
    next
      case b: True
      have nz: "a \<noteq> 0" "cpy fr \<noteq> 0" "space fr \<noteq> 0" using cmd(6-8) by (auto simp: PHYS_BASE_unat)
      note C = copy_command [OF cmd(1,2,3,4,5) nz]
      let ?s1 = "s1\<lparr>kmem := put (kmem s) (cpy fr) (xs @ [0])\<rparr>"
      have p1: "proc_ok ?s1" "user_view ?s1 = user_view s1"
        using l(3) b by (simp_all add: proc_ok_def user_view_def fun_eq_iff split: option.split sum.split)
      have W: "length ws < length (argv100 fr)" "length ws \<le> length (ptrs100 fr)" "stack_need ws \<le> 4096" using ws(2) by (simp_all add: words_ok_def)
      have cut: "cuttable (kmem ?s1) (cpy fr) xs (space fr) [32]" using C(3) by simp
      have tk: "tokens (set [32]) xs = ws" using ws(1) by simp
      obtain s2 esp b2 where st: "setup_stack (cpy fr) (space fr) (argv100 fr) (ptrs100 fr) ?s1 = Inr (s2, esp, b2)" "lfs s2 = lfs ?s1" "pagedir s2 = pagedir ?s1"
          "pd_owned (lvm s2) (pagedir ?s1)" "b2 \<longrightarrow> esp = unat PHYS_BASE - stack_need ws \<and> main_frame (user_mem s2) esp ws
             \<and> (\<forall>va. is_user_vaddr va \<and> unat va < stack_base \<longrightarrow> user_view s2 va = user_view ?s1 va)"
        using setup_stack_ok [OF p1(1) cut tk cmd(7,8) W] by (elim exE conjE) (rule that; assumption)
      have run: "load_file fr a f s = Inr (s2, if b2 then e_entry h else 0, esp, b2)"
        unfolding un if_not_P [OF False] l(1) bind_r_Inr prod.case using b C(1,2) s1(4) st(1) by simp
      have "user_view s2 va = fold (phdr_image c) hs (\<lambda>_. None) va" if "b2" "is_user_vaddr va" "unat va < stack_base" for va
        using st(5) that p1(2) l(3) b ok1(3) empty fold_image_cong [of "user_view s" va "\<lambda>_. None" c hs] by simp
      then have "loaded c ws s2 (e_entry h) esp" if b2
        using st(5) that val l(3) b unfolding loaded_def Let_def h_def [symmetric] hs_def [symmetric] by blast
      then show ?thesis using run st(2-4) s1 by (intro exI [of _ s2] exI [of _ "if b2 then e_entry h else 0"] exI [of _ esp] exI [of _ b2]) simp
    qed
  qed
qed

text \<open>The state of the kernel when a process is started: the page allocator, the initial page directory and the file system are in order.\<close>

definition kernel_ok :: "lstate \<Rightarrow> bool" where
  "kernel_ok s \<longleftrightarrow> pmem_ok (pm (lvm s)) \<and> init_page_dir (lvm s) \<in> owned (pm (lvm s))
     \<and> (\<forall>i. unat i < 768 \<longrightarrow> rd32 (lvm s) (slot (init_page_dir (lvm s)) i) = 0) \<and> ram_ok (lvm s) \<and> fs_ok (lfs s)"

lemma new_directory:
  assumes "kernel_ok s"
  shows "\<exists>v pd. pagedir_create (lvm s) = Inr (v, pd) \<and> (pd \<noteq> 0 \<longrightarrow> (\<exists>v'. pagedir_activate pd v = Inr v'
     \<and> proc_ok (s\<lparr>lvm := v', pagedir := pd\<rparr>) \<and> (\<forall>va. is_user_vaddr va \<longrightarrow> mapping v' pd va = None)))"
proof -
  have K: "pmem_ok (pm (lvm s))" "init_page_dir (lvm s) \<in> owned (pm (lvm s))" "\<And>i. unat i < 768 \<Longrightarrow> rd32 (lvm s) (slot (init_page_dir (lvm s)) i) = 0"
      "ram_ok (lvm s)" using assms by (simp_all add: kernel_ok_def)
  obtain v pd where c: "pagedir_create (lvm s) = Inr (v, pd)" "if pd = 0 then v = lvm s
     else pd_owned v pd \<and> dir_pages v pd 0 = [] \<and> pd \<notin> owned (pm (lvm s)) \<and> owned (pm v) = insert pd (owned (pm (lvm s)))
       \<and> (\<forall>i. unat i < 1024 \<longrightarrow> rd32 v (slot pd i) = rd32 (lvm s) (slot (init_page_dir (lvm s)) i))"
    using pagedir_create_ok [OF K(1-3)] by blast
  have "\<exists>v'. pagedir_activate pd v = Inr v' \<and> proc_ok (s\<lparr>lvm := v', pagedir := pd\<rparr>) \<and> (\<forall>va. is_user_vaddr va \<longrightarrow> mapping v' pd va = None)"
    if nz: "pd \<noteq> 0"
  proof -
    have own: "pd_owned v pd" "pd \<notin> owned (pm (lvm s))" and z: "\<And>i. unat i < 768 \<Longrightarrow> rd32 v (slot pd i) = 0"
      using c(2) nz K(3) by simp_all
    obtain m where m: "palloc_get_page 0 (pm (lvm s)) = Inr (m, pd)" "pool_span (pm v) = pool_span m" "init_page_dir v = init_page_dir (lvm s)"
        "init_ram_pages v = init_ram_pages (lvm s)"
      using c(1) nz by (auto simp: pagedir_create_def Let_def pool_span_def bind_r_eq_Inr)
    have sp: "pool_pages (user_pool (pm v)) = pool_pages (user_pool (pm (lvm s)))" using span_pages [of "pm v" "pm (lvm s)"] m(2) span_get [OF K(1) m(1)] by simp
    have pok: "pd_ok v pd" using own(1) by (simp add: pd_owned_def)
    let ?v = "v\<lparr>cr3 := pd - PHYS_BASE, tlb := (\<lambda>_. None)\<rparr>"
    have "pagedir_activate pd v = Inr ?v" by (rule activate_result(1) [OF pd_ok_page(2,3) [OF pok]])
    moreover have "pd_owned ?v pd"
      by (rule pd_owned_change(1) [OF own(1)]) (use own(1) pd_ok_pmem [OF pok] in \<open>auto simp: pd_owned_def\<close>)
    moreover have "ram_ok ?v" using K(4) sp m(4) by (simp add: ram_ok_def)
    moreover have "pd \<noteq> init_page_dir ?v" using own(2) K(2) m(3) by auto
    moreover have "mapping ?v pd va = None" if "is_user_vaddr va" for va
      using z [of "pd_no va"] that by (simp add: mapping_def entry_def table_of_def pd_no_user)
    ultimately show ?thesis by (intro exI [of _ ?v]) (simp add: proc_ok_def)
  qed
  then show ?thesis using c(1) by blast
qed

lemma read_string_eq: "cstr m a w \<Longrightarrow> a \<noteq> 0 \<Longrightarrow> read_string m a = Inr w"
  unfolding read_string_def
  by (auto simp: strlen_eq cstr_def bytes_at_def nth_append intro!: nth_equalityI)

lemma load_done_fail: "load_done file (s, eip, esp, False) = Inr (s\<lparr>exec_fp := file, out_of_money := True\<rparr>, eip, esp, False)"
  by (simp add: load_done_def)

lemma loaded_cong: "user_view s' = user_view s \<Longrightarrow> loaded d ws s' eip esp \<longleftrightarrow> loaded d ws s eip esp"
  unfolding loaded_def user_mem_def [abs_def] by (simp cong: if_cong)

lemma load_spec:
  assumes K: "kernel_ok s" and cmd: "command_ok fr a xs (kmem s)" and ws: "tokens {32} xs = w # ws" "words_ok fr (w # ws)"
  shows "\<exists>s' eip esp b. load fr g a s = Inr (s', eip, esp, b) \<and> fs_ok (lfs s') \<and> fs_abs (lfs s') = fs_abs (lfs s) \<and> (\<not> b \<longrightarrow> out_of_money s')
     \<and> (pagedir s' = 0 \<or> pd_owned (lvm s') (pagedir s'))
     \<and> (b \<longrightarrow> (\<exists>c f. fs_abs (lfs s) w = Some c \<and> loaded c (w # ws) s' eip esp \<and> exec_fp s' = Some f \<and> file_data (lfs s') f = Some c \<and> denied (lfs s') f))"
proof -
  let ?n = "length xs + 1"
  have A: "cstr (kmem s) a xs" "cstr (kmem s) (space fr) [32]" "mapped (kmem s) (no_args fr) ?n" "mapped (kmem s) (cpy fr) ?n"
      "apart a ?n (no_args fr) ?n" "apart a ?n (cpy fr) ?n" "apart (no_args fr) ?n (cpy fr) ?n" "apart (space fr) 2 (no_args fr) ?n" "apart (space fr) 2 (cpy fr) ?n"
      "unat PHYS_BASE \<le> a" "unat PHYS_BASE \<le> no_args fr" "unat PHYS_BASE \<le> cpy fr" "unat PHYS_BASE \<le> space fr"
    using cmd by (simp_all add: command_ok_def)
  have nz: "a \<noteq> 0" "no_args fr \<noteq> 0" "space fr \<noteq> 0" using A(10,11,13) by (auto simp: PHYS_BASE_unat)
  note C = copy_command [OF A(1,2,3,5,8) nz]
  have "1 < length (argv1 fr)" using ws(2) by (simp add: words_ok_def)
  then obtain m argv q where p: "parse_command_string (put (kmem s) (no_args fr) (xs @ [0])) (no_args fr) (argv1 fr) True (space fr) = Inr (m, argv, 1)"
      "argv ! 0 = Some q" "length argv = length (argv1 fr)" "no_args fr \<le> q" "cstr m q w"
      "\<forall>x. x < no_args fr \<or> no_args fr + length xs \<le> x \<longrightarrow> m x = put (kmem s) (no_args fr) (xs @ [0]) x"
    using parse_first(2) [OF C(3), of w ws "argv1 fr"] ws(1) by auto
  have keep: "m x = kmem s x" if "x < no_args fr \<or> no_args fr + ?n \<le> x" for x using p(6) that by (auto simp: put_def)
  have B: "cstr m a xs" "cstr m (space fr) [32]" "mapped m (cpy fr) ?n"
    using A(1,2,4,5,7,8) cstr_cong [of xs m a "kmem s"] cstr_cong [of "[32]" m "space fr" "kmem s"] keep
    by (auto simp: apart_def mapped_def simp del: cstr_Cons)
  have fk: "fs_ok (lfs s)" using K by (simp add: kernel_ok_def)
  obtain v pd where c: "pagedir_create (lvm s) = Inr (v, pd)" "pd \<noteq> 0 \<longrightarrow> (\<exists>v'. pagedir_activate pd v = Inr v'
     \<and> proc_ok (s\<lparr>lvm := v', pagedir := pd\<rparr>) \<and> (\<forall>va. is_user_vaddr va \<longrightarrow> mapping v' pd va = None))" using new_directory [OF K] by blast
  have ag: "arr_get argv 0 = Inr (Some q)" using p(2,3) \<open>1 < length (argv1 fr)\<close> by (auto simp: arr_get_def)
  have un: "load fr g a s = (let s = s\<lparr>kmem := m, lvm := v, pagedir := pd\<rparr> in
     if pd = 0 then load_done None (s, 0, 0, False)
     else bind_r (pagedir_activate pd (lvm s)) (\<lambda>v.
       bind_r (open_executable w g (lfs s)) (\<lambda>(t, file).
       let s = s\<lparr>lvm := v, lfs := t\<rparr> in
       case file of None \<Rightarrow> load_done None (s, 0, 0, False)
       | Some f \<Rightarrow> bind_r (load_file fr a f s) (load_done (Some f)))))"
    using C(1,2) p(1) ag c(1) read_string_eq [OF p(5)] p(4) nz(2) by (simp add: load_def Let_def)
  show ?thesis
  proof (cases "pd = 0")
    case True
    then show ?thesis using un fk by (auto simp: load_done_fail Let_def)
  next
    case False
    obtain v' where v': "pagedir_activate pd v = Inr v'" "proc_ok (s\<lparr>lvm := v', pagedir := pd\<rparr>)" "\<forall>va. is_user_vaddr va \<longrightarrow> mapping v' pd va = None"
      using c(2) False by blast
    obtain t r where o: "open_executable w g (lfs s) = Inr (t, r)" "fs_ok t" "fs_abs t = fs_abs (lfs s)" "r = None \<longleftrightarrow> fs_abs (lfs s) w = None"
        "\<forall>f c. r = Some f \<and> fs_abs (lfs s) w = Some c \<longrightarrow> reading f c t \<and> file_pos t f = 0" using open_executable_ok [OF fk, of w g] by (elim exE conjE) (rule that; assumption)
    define s1 where "s1 = s\<lparr>kmem := m, pagedir := pd, lvm := v', lfs := t\<rparr>"
    have un1: "load fr g a s = (case r of None \<Rightarrow> load_done None (s1, 0, 0, False) | Some f \<Rightarrow> bind_r (load_file fr a f s1) (load_done (Some f)))"
      unfolding un using False v'(1) o(1) by (simp add: s1_def Let_def split: option.split)
    have p1: "proc_ok s1" using v'(2) by (simp add: proc_ok_def s1_def)
    have e1: "\<forall>va. is_user_vaddr va \<longrightarrow> user_view s1 va = None" using v'(3) by (simp add: user_view_def s1_def)
    show ?thesis
    proof (cases r)
      case None
      then show ?thesis using un1 o(2,3) proc_okD(1) [OF p1] by (auto simp: load_done_fail s1_def)
    next
      case (Some f)
      obtain d where d: "fs_abs (lfs s) w = Some d" using o(4) Some by auto
      have rd: "reading f d (lfs s1)" "file_pos (lfs s1) f = 0" using o(5) Some d by (simp_all add: s1_def)
      have k1: "cstr (kmem s1) a xs" "cstr (kmem s1) (space fr) [32]" "mapped (kmem s1) (cpy fr) ?n" using B by (simp_all add: s1_def)
      obtain s2 eip esp b where l: "load_file fr a f s1 = Inr (s2, eip, esp, b)" "reading f d (lfs s2)" "fs_abs (lfs s2) = fs_abs (lfs s1)"
          "pd_owned (lvm s2) (pagedir s1)" "pagedir s2 = pagedir s1" "b \<longrightarrow> loaded d (w # ws) s2 eip esp"
        using load_file_ok [OF p1 rd e1 k1 A(6,9,10,12,13) ws] by (elim exE conjE) (rule that; assumption)
      have abs: "fs_abs (lfs s2) = fs_abs (lfs s)" "fs_ok (lfs s2)" using l(2,3) o(3) by (simp_all add: s1_def reading_def)
      show ?thesis
      proof (cases b)
        case False
        then show ?thesis using un1 Some l(1,4,5) abs by (auto simp: load_done_fail)
      next
        case True
        obtain t2 where t2: "file_deny_write f (lfs s2) = Inr t2" "reading f d t2" "fs_abs t2 = fs_abs (lfs s2)" "denied t2 f" using reading_deny [OF l(2)] by blast
        let ?s = "s2\<lparr>exec_fp := Some f, lfs := t2\<rparr>"
        have "load fr g a s = Inr (?s, eip, esp, True)" using un1 Some l(1) True t2(1) by (simp add: load_done_def)
        moreover have "user_view ?s = user_view s2" by (simp add: user_view_def fun_eq_iff split: option.split sum.split)
        then have "loaded d (w # ws) ?s eip esp" using l(6) True loaded_cong by blast
        ultimately show ?thesis using t2 abs l(4,5) d by (intro exI [of _ ?s] exI [of _ eip] exI [of _ esp] exI [of _ True]) (auto simp: reading_def)
      qed
    qed
  qed
qed

section \<open>Properties\<close>

text \<open>The example of the page tables and of the file system, with the command line of the example of the arguments.\<close>

definition example_frame :: frame where
  "example_frame = \<lparr>no_args = 3221225488, cpy = 3221225504, space = 3221225520, argv1 = [None, None], argv100 = replicate 100 None, ptrs100 = replicate 100 0\<rparr>"

definition example_state :: "fs \<Rightarrow> lstate" where
  "example_state t = \<lparr>lvm = vm_example, lfs = t, ubytes = (\<lambda>_. 0), kmem = example_mem, pagedir = 0, exec_fp = None, out_of_money = False\<rparr>"

lemma example_state_ok: "fs_ok t \<Longrightarrow> kernel_ok (example_state t)"
proof -
  have "\<forall>i\<in>set [0..<8]. unat (drop_bit 12 (paddr (user_pool palloc_example) i - PHYS_BASE)) < 1024"
    by (simp add: upt_conv_Cons paddr_def palloc_example_def PHYS_BASE_def)
  then have "ram_ok vm_example" by (auto simp: ram_ok_def vm_example_def pool_pages_def palloc_example_def)
  then show "fs_ok t \<Longrightarrow> kernel_ok (example_state t)"
    using vm_example_owned by (simp add: kernel_ok_def example_state_def) (simp add: vm_example_def)
qed

lemma example_command_ok: "command_ok example_frame 3221225472 [97, 32, 98] (kmem (example_state t))"
  by (simp add: command_ok_def example_frame_def example_state_def example_mem_def put_def mapped_def apart_def PHYS_BASE_unat)



end
