(* ===== verification/Syscall.thy ===== *)
theory Syscall
  imports LoaderProps
begin

unbundle bit_operations_syntax

text \<open>
  \<^verbatim>\<open>userprog/syscall.c\<close>: the table of file descriptors of a process and the handler of system calls, over the address space of the
  process and the file system; and the release of its resources by \<open>process_exit\<close> of \<^verbatim>\<open>userprog/process.c\<close>.
  The handler runs for one process up to the point where it returns, ends the process, or asks to start or to wait for a process, which is
  the business of \<^verbatim>\<open>Process\<close>. An access of the kernel to memory that is not mapped, or not writable, raises a page fault, whose handler
  (\<^verbatim>\<open>userprog/exception.c\<close>) ends the process with status -1. Where this happens in the middle of an operation the model stops
  with \<open>Page_fault\<close>, which records whether the process dies while it holds \<open>read_write_lock\<close>. It also stops for a name that
  cannot be read to its end; whether the code gets as far as the byte that faults depends on the directory.
\<close>

section \<open>State and results\<close>

record sstate =
  lst :: lstate
  fd_table :: "(int \<times> nat) list"
  fd_table_counter :: int
  console :: "byte list"
  keys :: "nat \<Rightarrow> byte"

datatype stop = Kernel_fault fault | Page_fault bool

type_synonym 'a sys = "stop + 'a"

definition bind_s :: "'a sys \<Rightarrow> ('a \<Rightarrow> 'b sys) \<Rightarrow> 'b sys" where
  "bind_s m k = (case m of Inl e \<Rightarrow> Inl e | Inr x \<Rightarrow> k x)"

definition lift_r :: "'a res \<Rightarrow> 'a sys" where
  "lift_r r = (case r of Inl e \<Rightarrow> Inl (Kernel_fault e) | Inr x \<Rightarrow> Inr x)"

lemma bind_s_simps [simp]: "bind_s (Inr x) k = k x" "bind_s (Inl e) k = Inl e"
  by (simp_all add: bind_s_def)

lemma lift_r_simps [simp]: "lift_r (Inr x) = Inr x" "lift_r (Inl e) = Inl (Kernel_fault e)"
  by (simp_all add: lift_r_def)

text \<open>How the handler ends: it returns a value to the process, leaves the register alone, ends the process or the machine, or goes on to start a
  process from a command line or to wait for a child.\<close>

datatype outcome = Returns "32 word" | Unchanged | Exits int | Halts | Execs "32 word" | Waits int

abbreviation sfs :: "sstate \<Rightarrow> fs" where
  "sfs s \<equiv> lfs (lst s)"

definition set_fs :: "fs \<Rightarrow> sstate \<Rightarrow> sstate" where
  "set_fs t s = s\<lparr>lst := (lst s)\<lparr>lfs := t\<rparr>\<rparr>"

section \<open>Memory\<close>

text \<open>What the kernel reads and writes at an address while the page directory of the process is active.\<close>

definition peek :: "lstate \<Rightarrow> 32 word \<Rightarrow> byte option" where
  "peek s a = (if is_user_vaddr a then map_option fst (user_view s a) else kmem s (unat a))"

definition poke :: "32 word \<Rightarrow> byte \<Rightarrow> lstate \<Rightarrow> lstate option" where
  "poke a b s =
     (if is_user_vaddr a
      then (case mapping (lvm s) (pagedir s) a of None \<Rightarrow> None
            | Some e \<Rightarrow> (case pte_get_page e of Inl _ \<Rightarrow> None
                | Inr q \<Rightarrow> if e AND PTE_W \<noteq> 0 then Some (s\<lparr>ubytes := (ubytes s)(q + pg_ofs a := b)\<rparr>) else None))
      else (case kmem s (unat a) of None \<Rightarrow> None | Some _ \<Rightarrow> Some (s\<lparr>kmem := (kmem s)(unat a \<mapsto> b)\<rparr>)))"

primrec pokes :: "32 word \<Rightarrow> byte list \<Rightarrow> lstate \<Rightarrow> lstate option" where
  "pokes a [] s = Some s"
| "pokes a (b # bs) s = (case poke a b s of None \<Rightarrow> None | Some s \<Rightarrow> pokes (a + 1) bs s)"

definition get_user :: "32 word \<Rightarrow> lstate \<Rightarrow> int option" where
  "get_user uaddr s = (case peek s uaddr of None \<Rightarrow> None | Some b \<Rightarrow> Some (uint b))"

definition put_user :: "32 word \<Rightarrow> byte \<Rightarrow> lstate \<Rightarrow> lstate option" where
  "put_user udst b s = poke udst b s"

text \<open>A 32-bit word, a string that a null byte ends, and the bytes of a buffer, with zeros for bytes that cannot be read.\<close>

definition peek_word :: "lstate \<Rightarrow> 32 word \<Rightarrow> 32 word option" where
  "peek_word s a = (case (peek s a, peek s (a + 1), peek s (a + 2), peek s (a + 3)) of
     (Some w, Some x, Some y, Some z) \<Rightarrow> Some (un_le32 [w, x, y, z]) | _ \<Rightarrow> None)"

definition user_string :: "lstate \<Rightarrow> 32 word \<Rightarrow> byte list option" where
  "user_string s a =
     (case strlen (\<lambda>p. if p < u32_mod then peek s (of_nat p) else None) (unat a) of Inl _ \<Rightarrow> None
      | Inr n \<Rightarrow> Some (map (\<lambda>i. the (peek s (a + of_nat i))) [0..<n]))"

definition peeks :: "lstate \<Rightarrow> 32 word \<Rightarrow> nat \<Rightarrow> byte list" where
  "peeks s a n = map (\<lambda>i. case peek s (a + of_nat i) of None \<Rightarrow> 0 | Some b \<Rightarrow> b) [0..<n]"

definition readable :: "lstate \<Rightarrow> 32 word \<Rightarrow> nat \<Rightarrow> bool" where
  "readable s a n \<longleftrightarrow> (\<forall>i\<in>set [0..<n]. peek s (a + of_nat i) \<noteq> None)"

section \<open>File descriptors\<close>

definition find_fd_element :: "int \<Rightarrow> sstate \<Rightarrow> nat option" where
  "find_fd_element fd s = map_of (fd_table s) fd"

text \<open>A failed allocation is not noticed: the store through the null pointer is a page fault.\<close>

definition add_file_to_fd_table :: "nat \<Rightarrow> sstate \<Rightarrow> (sstate \<times> int) sys" where
  "add_file_to_fd_table fp s =
     (let (t, ok) = malloc (sfs s); s = set_fs t s in
      if \<not> ok then Inl (Page_fault False)
      else Inr (s\<lparr>fd_table := fd_table s @ [(fd_table_counter s, fp)], fd_table_counter := signed_take_bit 31 (fd_table_counter s + 1)\<rparr>,
        fd_table_counter s))"

section \<open>The system calls on files\<close>

definition filesize_get :: "int \<Rightarrow> sstate \<Rightarrow> int sys" where
  "filesize_get fd s = (case find_fd_element fd s of None \<Rightarrow> Inr (- 1) | Some f \<Rightarrow> lift_r (file_length f (sfs s)))"

definition create :: "32 word \<Rightarrow> 32 word \<Rightarrow> sstate \<Rightarrow> (sstate \<times> bool) sys" where
  "create name initial_size s =
     (case user_string (lst s) name of None \<Rightarrow> Inl (Page_fault False)
      | Some nm \<Rightarrow> bind_s (lift_r (filesys_create nm (sint initial_size) (sfs s))) (\<lambda>(t, b). Inr (set_fs t s, b)))"

definition remove :: "32 word \<Rightarrow> sstate \<Rightarrow> (sstate \<times> bool) sys" where
  "remove name s =
     (case user_string (lst s) name of None \<Rightarrow> Inl (Page_fault False)
      | Some nm \<Rightarrow> bind_s (lift_r (filesys_remove nm (sfs s))) (\<lambda>(t, b). Inr (set_fs t s, b)))"

definition open_fd :: "32 word \<Rightarrow> sstate \<Rightarrow> (sstate \<times> int) sys" where
  "open_fd name s =
     (case user_string (lst s) name of None \<Rightarrow> Inl (Page_fault True)
      | Some nm \<Rightarrow> bind_s (lift_r (filesys_open nm (sfs s))) (\<lambda>(t, fp).
          case fp of None \<Rightarrow> Inr (set_fs t s, - 1) | Some f \<Rightarrow> add_file_to_fd_table f (set_fs t s)))"

text \<open>Reading stores the bytes of the file, or of the keyboard, at the buffer.\<close>

definition read_fd :: "int \<Rightarrow> 32 word \<Rightarrow> 32 word \<Rightarrow> sstate \<Rightarrow> (sstate \<times> int) sys" where
  "read_fd fd buffer sz s =
     (if fd = 0 then
        (case pokes buffer (map (keys s) [0..<unat sz]) (lst s) of None \<Rightarrow> Inl (Page_fault False)
         | Some l \<Rightarrow> Inr (s\<lparr>lst := l, keys := (\<lambda>i. keys s (i + unat sz))\<rparr>, sint sz))
      else if fd \<noteq> 1 then
        (case find_fd_element fd s of None \<Rightarrow> Inr (s, - 1)
         | Some f \<Rightarrow> bind_s (lift_r (file_read f (sint sz) (sfs s))) (\<lambda>(t, xs).
             case pokes buffer xs ((lst s)\<lparr>lfs := t\<rparr>) of None \<Rightarrow> Inl (Page_fault True)
             | Some l \<Rightarrow> Inr (s\<lparr>lst := l\<rparr>, int (length xs))))
      else Inr (s, - 1))"

text \<open>Writing reads only the bytes of the buffer that reach the file.\<close>

definition write_fd :: "int \<Rightarrow> 32 word \<Rightarrow> 32 word \<Rightarrow> sstate \<Rightarrow> (sstate \<times> int) sys" where
  "write_fd fd buffer sz s =
     (if fd = 1 then
        if readable (lst s) buffer (unat sz) then Inr (s\<lparr>console := console s @ peeks (lst s) buffer (unat sz)\<rparr>, sint sz)
        else Inl (Page_fault False)
      else if fd \<noteq> 0 then
        (case find_fd_element fd s of None \<Rightarrow> Inr (s, - 1)
         | Some f \<Rightarrow> bind_s (lift_r (file_write f (peeks (lst s) buffer (unat sz)) (sint sz) (sfs s))) (\<lambda>(t, n).
             if readable (lst s) buffer n then Inr (set_fs t s, int n) else Inl (Page_fault True)))
      else Inr (s, - 1))"

definition seek :: "int \<Rightarrow> 32 word \<Rightarrow> sstate \<Rightarrow> (sstate \<times> bool) sys" where
  "seek fd position s =
     (case find_fd_element fd s of None \<Rightarrow> Inr (s, False)
      | Some f \<Rightarrow> bind_s (lift_r (file_seek f (sint position) (sfs s))) (\<lambda>t. Inr (set_fs t s, True)))"

text \<open>
  \<open>tell\<close> calls \<open>file_seek\<close> with one argument, so the position is what lies next on the stack, \<open>junk\<close>, and returns the
  register that a function without a result leaves, \<open>reg\<close>. A descriptor that is not open is a null pointer.
\<close>

definition tell :: "int \<Rightarrow> 32 word \<Rightarrow> int \<Rightarrow> sstate \<Rightarrow> (sstate \<times> 32 word) sys" where
  "tell junk reg fd s =
     (case find_fd_element fd s of None \<Rightarrow> Inl (Page_fault False)
      | Some f \<Rightarrow> bind_s (lift_r (file_seek f junk (sfs s))) (\<lambda>t. Inr (set_fs t s, reg)))"

definition close_fd :: "int \<Rightarrow> sstate \<Rightarrow> (sstate \<times> bool) sys" where
  "close_fd fd s =
     (case find_fd_element fd s of None \<Rightarrow> Inr (s, False)
      | Some f \<Rightarrow> bind_s (lift_r (file_close (Some f) (sfs s))) (\<lambda>t.
          Inr ((set_fs t s)\<lparr>fd_table := remove1 (fd, f) (fd_table s)\<rparr>, True)))"

section \<open>The handler\<close>

definition SYS_HALT :: "32 word" where "SYS_HALT = 0"
definition SYS_EXIT :: "32 word" where "SYS_EXIT = 1"
definition SYS_EXEC :: "32 word" where "SYS_EXEC = 2"
definition SYS_WAIT :: "32 word" where "SYS_WAIT = 3"
definition SYS_CREATE :: "32 word" where "SYS_CREATE = 4"
definition SYS_REMOVE :: "32 word" where "SYS_REMOVE = 5"
definition SYS_OPEN :: "32 word" where "SYS_OPEN = 6"
definition SYS_FILESIZE :: "32 word" where "SYS_FILESIZE = 7"
definition SYS_READ :: "32 word" where "SYS_READ = 8"
definition SYS_WRITE :: "32 word" where "SYS_WRITE = 9"
definition SYS_SEEK :: "32 word" where "SYS_SEEK = 10"
definition SYS_TELL :: "32 word" where "SYS_TELL = 11"
definition SYS_CLOSE :: "32 word" where "SYS_CLOSE = 12"

lemmas sys_numbers = SYS_HALT_def SYS_EXIT_def SYS_EXEC_def SYS_WAIT_def SYS_CREATE_def SYS_REMOVE_def SYS_OPEN_def SYS_FILESIZE_def
  SYS_READ_def SYS_WRITE_def SYS_SEEK_def SYS_TELL_def SYS_CLOSE_def

definition word_of_bool :: "bool \<Rightarrow> 32 word" where
  "word_of_bool b = (if b then 1 else 0)"

text \<open>The arguments of a call, read from the stack one after the other; a page fault ends the process.\<close>

definition with_arg :: "32 word \<Rightarrow> nat \<Rightarrow> sstate \<Rightarrow> (32 word \<Rightarrow> (sstate \<times> outcome) sys) \<Rightarrow> (sstate \<times> outcome) sys" where
  "with_arg esp i s k = (case peek_word (lst s) (esp + of_nat (4 * i)) of None \<Rightarrow> Inr (s, Exits (- 1)) | Some w \<Rightarrow> k w)"

definition sys_name :: "32 word \<Rightarrow> sstate \<Rightarrow> (32 word \<Rightarrow> (sstate \<times> outcome) sys) \<Rightarrow> (sstate \<times> outcome) sys" where
  "sys_name esp s k = with_arg esp 1 s (\<lambda>name.
     if name = 0 \<or> get_user name (lst s) = None then Inr (s, Exits (- 1)) else k name)"

definition sys_buffer :: "32 word \<Rightarrow> sstate \<Rightarrow> (int \<Rightarrow> 32 word \<Rightarrow> 32 word \<Rightarrow> sstate \<Rightarrow> (sstate \<times> int) sys) \<Rightarrow> (sstate \<times> outcome) sys" where
  "sys_buffer esp s k = with_arg esp 1 s (\<lambda>fd. with_arg esp 2 s (\<lambda>buffer.
     if \<not> is_user_vaddr buffer \<or> get_user buffer (lst s) = None then Inr (s, Exits (- 1))
     else with_arg esp 3 s (\<lambda>sz. bind_s (k (sint fd) buffer sz s) (\<lambda>(s, n). Inr (s, if n = - 1 then Exits (- 1) else Returns (of_int n))))))"

definition sys_call :: "int \<Rightarrow> 32 word \<Rightarrow> 32 word \<Rightarrow> 32 word \<Rightarrow> sstate \<Rightarrow> (sstate \<times> outcome) sys" where
  "sys_call junk reg esp nr s =
     (if nr = SYS_CREATE then with_arg esp 1 s (\<lambda>name. if name = 0 then Inr (s, Exits (- 1))
        else with_arg esp 2 s (\<lambda>file_size. bind_s (create name file_size s) (\<lambda>(s, b). Inr (s, Returns (word_of_bool b)))))
      else if nr = SYS_OPEN then sys_name esp s (\<lambda>name. bind_s (open_fd name s) (\<lambda>(s, fd). Inr (s, Returns (of_int fd))))
      else if nr = SYS_SEEK then with_arg esp 1 s (\<lambda>fd. if sint fd \<le> 0 then Inr (s, Exits (- 1))
        else with_arg esp 2 s (\<lambda>pos. bind_s (seek (sint fd) pos s) (\<lambda>(s, b). Inr (s, Returns (word_of_bool b)))))
      else if nr = SYS_TELL then with_arg esp 1 s (\<lambda>fd. if sint fd \<le> 0 then Inr (s, Exits (- 1))
        else bind_s (tell junk reg (sint fd) s) (\<lambda>(s, w). Inr (s, Returns w)))
      else if nr = SYS_CLOSE then with_arg esp 1 s (\<lambda>fd. if sint fd \<le> 0 then Inr (s, Exits (- 1))
        else with_arg esp 2 s (\<lambda>_. bind_s (close_fd (sint fd) s) (\<lambda>(s, b). Inr (s, if b then Returns 1 else Exits (- 1)))))
      else if nr = SYS_READ then sys_buffer esp s read_fd
      else if nr = SYS_WRITE then sys_buffer esp s write_fd
      else if nr = SYS_FILESIZE then with_arg esp 1 s (\<lambda>fd. bind_s (filesize_get (sint fd) s) (\<lambda>n. Inr (s, Returns (of_int n))))
      else if nr = SYS_REMOVE then sys_name esp s (\<lambda>name. bind_s (remove name s) (\<lambda>(s, b). Inr (s, Returns (word_of_bool b))))
      else if nr = SYS_EXIT then with_arg esp 1 s (\<lambda>st. Inr (s, Exits (sint st)))
      else if nr = SYS_EXEC then with_arg esp 1 s (\<lambda>name. Inr (s, Execs name))
      else if nr = SYS_WAIT then with_arg esp 1 s (\<lambda>pid. Inr (s, Waits (sint pid)))
      else if nr = SYS_HALT then Inr (s, Halts)
      else Inr (s, Unchanged))"

definition syscall_handler :: "int \<Rightarrow> 32 word \<Rightarrow> 32 word \<Rightarrow> sstate \<Rightarrow> (sstate \<times> outcome) sys" where
  "syscall_handler junk reg esp s =
     (if \<not> is_user_vaddr esp \<or> get_user esp (lst s) = None then Inr (s, Exits (- 1))
      else with_arg esp 0 s (\<lambda>nr.
        if \<not> (is_user_vaddr (esp + 4) \<and> is_user_vaddr (esp + 8) \<and> is_user_vaddr (esp + 12)) then Inr (s, Exits (- 1))
        else sys_call junk reg esp nr s))"

section \<open>The end of a process\<close>

text \<open>
  The resources \<open>process_exit\<close> releases: the files of the table, the executable and the page directory. The report to the
  parent is in \<^verbatim>\<open>Process\<close>; the message on the console is left out.
\<close>

primrec close_all :: "(int \<times> nat) list \<Rightarrow> fs \<Rightarrow> fs res" where
  "close_all [] t = Inr t"
| "close_all (e # es) t = bind_r (file_close (Some (snd e)) t) (close_all es)"

definition process_exit :: "sstate \<Rightarrow> sstate res" where
  "process_exit s =
     bind_r (close_all (fd_table s) (sfs s)) (\<lambda>t.
     bind_r (file_close (exec_fp (lst s)) t) (\<lambda>t.
     let s = (set_fs t s)\<lparr>fd_table := []\<rparr>; pd = pagedir (lst s) in
     if pd \<noteq> 0
     then bind_r (pagedir_activate 0 (lvm (lst s))) (\<lambda>v.
       bind_r (pagedir_destroy pd v) (\<lambda>v. Inr (s\<lparr>lst := (lst s)\<lparr>pagedir := 0, lvm := v\<rparr>\<rparr>)))
     else Inr s))"

end
