(* ===== verification/SyscallProps.thy ===== *)
theory SyscallProps
  imports Syscall
begin

unbundle bit_operations_syntax

text \<open>
  What the handler of system calls promises: whatever a process passes, the handler keeps the file system and the table of descriptors in
  order, or ends the process; and \<open>process_exit\<close> releases what the process holds.
\<close>

section \<open>Operations on one open file\<close>

text \<open>The open files of user processes stay open.\<close>

definition still_open :: "fs \<Rightarrow> fs \<Rightarrow> bool" where
  "still_open t t' \<longleftrightarrow> (\<forall>g. user_file g t \<longrightarrow> user_file g t')"

lemma still_open_upd: "files t' = (files t)(f \<mapsto> y) \<Longrightarrow> free_map_file t' = free_map_file t \<Longrightarrow> still_open t t'"
  by (auto simp: still_open_def user_file_def)

lemma upd_file_same: "files t f = Some x \<Longrightarrow> upd_file f (\<lambda>x. x\<lparr>fpos := fpos x + 0\<rparr>) t = t"
  by (cases t) (auto simp: upd_file_def fun_eq_iff)

lemma fkept_still_open:
  assumes "fs_ok t" "fs_ok t'" "fkept t t'"
  shows "still_open t t'"
  unfolding still_open_def
proof (intro allI impI)
  fix g assume g: "user_file g t"
  obtain x n where x: "files t g = Some x" "inodes t (finode x) = Some n" "isector n \<noteq> FREE_MAP_SECTOR" by (rule user_fileE [OF assms(1) g])
  obtain m where m: "inodes t' (finode x) = Some m" "isector m = isector n" "files t' g = Some x" using assms(3) x unfolding fkept_def by metis
  have "inv {} (\<lambda>_. 0) t'" using assms(2) by (simp add: fs_ok_def)
  then obtain h y k where "free_map_file t' = Some h" "files t' h = Some y" "inodes t' (finode y) = Some k" "isector k = FREE_MAP_SECTOR"
    using invD(3) free_map_inode by metis
  then show "user_file g t'" using m x(3) by (auto simp: user_file_def)
qed

lemma file_read_any:
  assumes "fs_ok t" "user_file f t"
  shows "\<exists>t' xs. file_read f sz t = Inr (t', xs) \<and> fs_ok t' \<and> fs_abs t' = fs_abs t \<and> still_open t t'"
proof -
  obtain x n where x: "files t f = Some x" "0 \<le> fpos x" "inodes t (finode x) = Some n" "inv {} (\<lambda>_. 0) t" "files_ok t" by (rule user_fileE [OF assms])
  show ?thesis
  proof (cases "0 \<le> sz")
    case True
    obtain t' xs where t': "file_read f (int (nat sz)) t = Inr (t', xs)" "inv {} (\<lambda>_. 0) t'" "quiet t t'" "inodes t' = inodes t"
        "files t' = (files t)(f \<mapsto> x\<lparr>fpos := fpos x + int (length xs)\<rparr>)" using file_read_ok [OF x(4,1,2,3), of "nat sz"] by blast
    have "files_ok t'" by (rule files_ok_upd [OF x(4,5,1) _ _ t'(5) quiet_free_map_file [OF t'(3)] secs_kept_same [OF t'(4)]]) (use x(2) in simp_all)
    then show ?thesis using t' True quiet_views(10) [OF t'(3)] still_open_upd [OF t'(5) quiet_free_map_file [OF t'(3)]] by (simp add: fs_ok_def)
  next
    case False
    then have "file_read f sz t = Inr (t, [])"
      using x(1,3) upd_file_same [OF x(1)] by (simp add: file_read_def inode_read_at_def read_loop.simps)
    then show ?thesis using assms(1) by (simp add: still_open_def)
  qed
qed

lemma file_write_any:
  assumes "fs_ok t" "user_file f t" "sz \<le> int (length buf)"
  shows "\<exists>t' k. file_write f buf sz t = Inr (t', k) \<and> fs_ok t' \<and> still_open t t'"
proof -
  obtain x n where x: "files t f = Some x" "0 \<le> fpos x" "inodes t (finode x) = Some n" "isector n \<noteq> FREE_MAP_SECTOR" "isector n \<noteq> ROOT_DIR_SECTOR"
    "inv {} (\<lambda>_. 0) t" "files_ok t" by (rule user_fileE [OF assms(1,2)])
  show ?thesis
  proof (cases "deny_write_cnt n = 0 \<and> 0 \<le> sz")
    case True
    then have b: "nat sz \<le> length buf" "int (nat sz) = sz" using assms(3) by auto
    have "isector n \<notin> {FREE_MAP_SECTOR, ROOT_DIR_SECTOR}" using x(4,5) by simp
    then obtain t' k where t': "file_write f buf (int (nat sz)) t = Inr (t', k)" "inv {} (\<lambda>_. 0) t'" "inodes t' = inodes t"
        "free_map_file t' = free_map_file t" "files t' = (files t)(f \<mapsto> x\<lparr>fpos := fpos x + int k\<rparr>)"
      using file_write_ok [OF x(6,1,2,3) _ conjunct1 [OF True] b(1)] by blast
    have "files_ok t'" by (rule files_ok_upd [OF x(6,7,1) _ _ t'(5,4) secs_kept_same [OF t'(3)]]) (use x(2) in simp_all)
    then show ?thesis using t' b(2) still_open_upd [OF t'(5,4)] by (simp add: fs_ok_def)
  next
    case False
    then have "file_write f buf sz t = Inr (t, 0)"
      using x(1,3) upd_file_same [OF x(1)] by (auto simp: file_write_def inode_write_at_def write_loop.simps)
    then show ?thesis using assms(1) by (simp add: still_open_def)
  qed
qed

lemma file_seek_any:
  assumes "fs_ok t" "user_file f t"
  shows "0 \<le> pos \<Longrightarrow> \<exists>t'. file_seek f pos t = Inr t' \<and> fs_ok t' \<and> still_open t t'" "pos < 0 \<Longrightarrow> file_seek f pos t = Inl Assert_failed"
proof -
  obtain x where x: "files t f = Some x" by (rule user_fileE [OF assms])
  show "pos < 0 \<Longrightarrow> file_seek f pos t = Inl Assert_failed" using x by (simp add: file_seek_def ASSERT_def)
  show "\<exists>t'. file_seek f pos t = Inr t' \<and> fs_ok t' \<and> still_open t t'" if "0 \<le> pos"
    using exec_file_ok(3) [OF assms that] that x by (auto simp: run_op_def file_seek_def still_open_def user_file_def)
qed

lemma file_close_any:
  assumes "fs_ok t" "user_file f t"
  shows "\<exists>t'. file_close (Some f) t = Inr t' \<and> fs_ok t' \<and> fs_abs t' = fs_abs t \<and> files t' = (files t)(f := None) \<and> free_map_file t' = free_map_file t"
proof -
  obtain x m where x: "files t f = Some x" "0 \<le> fpos x" "inodes t (finode x) = Some m" "isector m \<noteq> FREE_MAP_SECTOR" "isector m \<noteq> ROOT_DIR_SECTOR"
    "inv {} (\<lambda>_. 0) t" "files_ok t" "free_map_file t \<noteq> Some f" by (rule user_fileE [OF assms])
  obtain a where a: "file_close (Some f) t = Inr a" "inv {} (\<lambda>_. 0) a" "kept t a" "files a = (files t)(f := None)" "secs_kept t a"
    using file_close_ok [OF x(6,1,8,4,3)] by blast
  have "files_ok a" by (rule files_ok_sub [OF x(6,7) _ kept_free_map_file [OF a(3)] a(5)]) (simp add: a(4) split: if_splits)
  then show ?thesis using a kept_abs [OF a(3)] kept_free_map_file [OF a(3)] by (simp add: fs_ok_def)
qed

section \<open>The invariant of a process\<close>

text \<open>
  Descriptors are distinct, at least 2 and below the counter, and stand for distinct open files, none of which is the
  executable.
\<close>

definition sys_ok :: "sstate \<Rightarrow> bool" where
  "sys_ok s \<longleftrightarrow> fs_ok (sfs s) \<and> distinct (map fst (fd_table s)) \<and> distinct (map snd (fd_table s)) \<and> 2 \<le> fd_table_counter s
     \<and> (\<forall>(fd, f)\<in>set (fd_table s). 2 \<le> fd \<and> fd < fd_table_counter s \<and> user_file f (sfs s))
     \<and> (\<forall>f. exec_fp (lst s) = Some f \<longrightarrow> user_file f (sfs s) \<and> f \<notin> snd ` set (fd_table s))"

lemma sys_okD:
  assumes "sys_ok s"
  shows "fs_ok (sfs s)" "find_fd_element fd s = Some f \<Longrightarrow> user_file f (sfs s) \<and> (fd, f) \<in> set (fd_table s)"
  using assms by (auto simp: sys_ok_def find_fd_element_def dest!: map_of_SomeD)

lemma sys_ok_same:
  assumes "sys_ok s" "fs_ok (sfs s')" "still_open (sfs s) (sfs s')" "fd_table s' = fd_table s" "fd_table_counter s' = fd_table_counter s"
    "exec_fp (lst s') = exec_fp (lst s)"
  shows "sys_ok s'"
  using assms unfolding sys_ok_def still_open_def by (auto split: prod.splits)

lemma set_fs_simps [simp]: "sfs (set_fs t s) = t" "fd_table (set_fs t s) = fd_table s" "fd_table_counter (set_fs t s) = fd_table_counter s"
  "exec_fp (lst (set_fs t s)) = exec_fp (lst s)" "lvm (lst (set_fs t s)) = lvm (lst s)" "pagedir (lst (set_fs t s)) = pagedir (lst s)"
  "kmem (lst (set_fs t s)) = kmem (lst s)" "ubytes (lst (set_fs t s)) = ubytes (lst s)" "console (set_fs t s) = console s" "keys (set_fs t s) = keys s"
  by (simp_all add: set_fs_def)

lemma sys_ok_set_fs: "sys_ok s \<Longrightarrow> fs_ok t \<Longrightarrow> still_open (sfs s) t \<Longrightarrow> sys_ok (set_fs t s)"
  by (rule sys_ok_same) simp_all

lemma poke_keeps: "poke a b l = Some l' \<Longrightarrow> lfs l' = lfs l \<and> lvm l' = lvm l \<and> pagedir l' = pagedir l \<and> exec_fp l' = exec_fp l"
  by (auto simp: poke_def split: if_splits option.splits sum.splits)

lemma pokes_keeps: "pokes a bs l = Some l' \<Longrightarrow> lfs l' = lfs l \<and> lvm l' = lvm l \<and> pagedir l' = pagedir l \<and> exec_fp l' = exec_fp l"
  by (induction bs arbitrary: a l) (auto split: option.splits dest!: poke_keeps)

text \<open>What a string of the process is.\<close>

lemma strlen_inv:
  assumes "strlen m a = Inr n"
  shows "\<forall>i<n. m (a + i) \<noteq> None \<and> m (a + i) \<noteq> Some 0"
proof -
  let ?c = "\<lambda>p. bind_r (rd m p) (\<lambda>x. Inr (x \<noteq> 0))" and ?I = "\<lambda>p. a \<le> p \<and> (\<forall>i<p - a. m (a + i) \<noteq> None \<and> m (a + i) \<noteq> Some 0)"
  obtain p where p: "while_r ?c (\<lambda>p. Inr (p + 1)) a = Inr p" "n = p - a" using assms by (auto simp: strlen_def res_inv)
  have "?I p \<and> ?c p = Inr False"
  proof (rule while_r_inv [where I = ?I, OF p(1)])
    fix u v assume "?I u" "?c u = Inr True" "Inr (u + 1) = Inr v"
    then show "?I v" by (auto simp: rd_def res_inv Suc_diff_le less_Suc_eq split: option.splits)
  qed simp
  then show ?thesis using p(2) by simp
qed

lemma user_string_nz:
  assumes "user_string l a = Some nm"
  shows "0 \<notin> set nm"
proof
  assume z: "0 \<in> set nm"
  obtain n where n: "strlen (\<lambda>p. if p < u32_mod then peek l (of_nat p) else None) (unat a) = Inr n"
      "nm = map (\<lambda>i. the (peek l (a + of_nat i))) [0..<n]" using assms by (auto simp: user_string_def split: sum.splits)
  then obtain i where i: "i < n" "the (peek l (a + of_nat i)) = 0" using z by auto
  then show False using strlen_inv [OF n(1)] by (auto split: if_splits)
qed

section \<open>The calls keep the invariant\<close>

text \<open>A result without a fault of the kernel that keeps the invariant.\<close>

definition safe :: "(sstate \<times> 'a) sys \<Rightarrow> bool" where
  "safe r = (case r of Inl (Kernel_fault e) \<Rightarrow> False | Inl (Page_fault h) \<Rightarrow> True | Inr (s, x) \<Rightarrow> sys_ok s)"

lemma safe_simps [simp]: "safe (Inr (s, x)) = sys_ok s" "safe (Inl (Page_fault h))" "\<not> safe (Inl (Kernel_fault e))"
  by (simp_all add: safe_def)

lemma safe_bind: "safe m \<Longrightarrow> safe (bind_s m (\<lambda>(s, x). Inr (s, g s x)))"
  by (auto simp: safe_def bind_s_def split: sum.splits stop.splits)

lemma safe_with_arg: "sys_ok s \<Longrightarrow> (\<And>w. peek_word (lst s) (esp + of_nat (4 * i)) = Some w \<Longrightarrow> safe (k w)) \<Longrightarrow> safe (with_arg esp i s k)"
  by (simp add: with_arg_def split: option.split)

lemma safe_name: "sys_ok s \<Longrightarrow> (\<And>name. safe (k name)) \<Longrightarrow> safe (sys_name esp s k)"
  unfolding sys_name_def by (rule safe_with_arg) simp_all

lemma safe_buffer: "sys_ok s \<Longrightarrow> (\<And>fd buf sz. safe (k fd buf sz s)) \<Longrightarrow> safe (sys_buffer esp s k)"
  unfolding sys_buffer_def by (intro safe_with_arg) (simp_all add: safe_with_arg safe_bind)

lemma create_safe:
  assumes "sys_ok s" "0 \<le> sint sz" "sint sz + 511 < 2 ^ 31"
  shows "safe (create name sz s)"
proof (cases "user_string (lst s) name")
  case (Some nm)
  obtain t b where "filesys_create nm (sint sz) (sfs s) = Inr (t, b)" "fs_ok t" "files t = files (sfs s)" "free_map_file t = free_map_file (sfs s)"
    using filesys_create_ok [OF sys_okD(1) [OF assms(1)] user_string_nz [OF Some] assms(2,3)] by (elim exE conjE) (rule that; assumption)
  then show ?thesis using Some sys_ok_set_fs [OF assms(1), of t] by (simp add: create_def still_open_def user_file_def)
qed (simp add: create_def)

lemma remove_safe:
  assumes "sys_ok s"
  shows "safe (remove name s)"
proof (cases "user_string (lst s) name")
  case (Some nm)
  obtain t where "filesys_remove nm (sfs s) = Inr (t, dir_map (entries (sfs s)) nm \<noteq> None)" "fs_ok t" "data_kept (sfs s) t" "files t = files (sfs s)" "fkept (sfs s) t"
    using filesys_remove_ok [OF sys_okD(1) [OF assms], of nm] by (elim exE conjE) (rule that; assumption)
  then show ?thesis using Some sys_ok_set_fs [OF assms, of t] fkept_still_open [OF sys_okD(1) [OF assms]] by (simp add: remove_def)
qed (simp add: remove_def)

lemma open_safe:
  assumes "sys_ok s" "fd_table_counter s + 1 < 2 ^ 31"
  shows "safe (open_fd name s)"
proof (cases "user_string (lst s) name")
  case (Some nm)
  note ok = sys_okD(1) [OF assms(1)]
  show ?thesis
  proof (cases "dir_map (entries (sfs s)) nm")
    case None
    obtain t where t: "filesys_open nm (sfs s) = Inr (t, None)" "fs_ok t" "kept (sfs s) t" "files t = files (sfs s)" using filesys_open_ok(1) [OF ok None] by blast
    then have "still_open (sfs s) t" using kept_free_map_file [OF t(3)] by (simp add: still_open_def user_file_def)
    then show ?thesis using Some t(1) sys_ok_set_fs [OF assms(1) t(2)] by (simp add: open_fd_def)
  next
    case ent: (Some k)
    obtain t f x where t: "filesys_open nm (sfs s) = Inr (t, Some f)" "fs_ok t" "kept (sfs s) t" "files (sfs s) f = None" "files t = (files (sfs s))(f \<mapsto> x)"
      using filesys_open_ok(2) [OF ok ent] by blast
    note fm = kept_free_map_file [OF t(3)]
    have so: "still_open (sfs s) t" using fm t(5) by (simp add: still_open_def user_file_def)
    obtain h y where "free_map_file (sfs s) = Some h" "files (sfs s) h = Some y" using ok invD(3) free_map_inode unfolding fs_ok_def by metis
    then have uf: "user_file f t" using fm t(4,5) by (auto simp: user_file_def)
    have new: "f \<notin> snd ` set (fd_table s)" "exec_fp (lst s) \<noteq> Some f" using assms(1) t(4) by (auto simp: sys_ok_def user_file_def)
    obtain u b where u: "malloc t = (u, b)" by fastforce
    have d: "same_data t u" "b" using malloc_same [OF u] t(2) invD(2) unfolding fs_ok_def by blast+
    have U: "fs_ok u" "still_open t u" "user_file f u"
      using t(2) same_data_inv [OF _ d(1)] same_data_files_ok [OF d(1)] uf by (auto simp: fs_ok_def still_open_def user_file_def same_data_files [OF d(1)])
    define s' where "s' = (set_fs u (set_fs t s))\<lparr>fd_table := fd_table s @ [(fd_table_counter s, f)], fd_table_counter := fd_table_counter s + 1\<rparr>"
    have "signed_take_bit 31 (fd_table_counter s + 1) = fd_table_counter s + 1"
      using assms by (intro signed_take_bit_int_eq_self) (simp_all add: sys_ok_def)
    then have "open_fd name s = Inr (s', fd_table_counter s)"
      using Some t(1) u d(2) by (simp add: open_fd_def add_file_to_fd_table_def s'_def Let_def)
    moreover have "sys_ok s'" using assms(1) U so new unfolding sys_ok_def s'_def still_open_def by force
    ultimately show ?thesis by simp
  qed
qed (simp add: open_fd_def)

lemma read_safe:
  assumes "sys_ok s"
  shows "safe (read_fd fd buf sz s)"
proof -
  have keep: "sys_ok (s\<lparr>lst := l, keys := k\<rparr>)" if "pokes a xs (lst s) = Some l" for a xs l k
    by (rule sys_ok_same [OF assms]) (use that sys_okD(1) [OF assms] in \<open>auto simp: still_open_def dest!: pokes_keeps\<close>)
  have onfile: "safe (read_fd fd buf sz s)" if f: "find_fd_element fd s = Some f" "fd \<noteq> 0" "fd \<noteq> 1" for f
  proof -
    obtain t xs where t: "file_read f (sint sz) (sfs s) = Inr (t, xs)" "fs_ok t" "still_open (sfs s) t"
      using file_read_any [OF sys_okD(1) [OF assms]] sys_okD(2) [OF assms f(1)] by blast
    have "sys_ok (s\<lparr>lst := l\<rparr>)" if "pokes buf xs ((lst s)\<lparr>lfs := t\<rparr>) = Some l" for l
      by (rule sys_ok_same [OF assms]) (use t that in \<open>auto dest!: pokes_keeps\<close>)
    then show ?thesis using t(1) f by (simp add: read_fd_def split: option.split)
  qed
  show ?thesis
  proof (cases "fd = 0 \<or> fd = 1 \<or> find_fd_element fd s = None")
    case True
    then show ?thesis using keep assms by (auto simp: read_fd_def split: option.split)
  qed (use onfile in auto)
qed

lemma sint_le_unat: "sint (w :: 32 word) \<le> int (unat w)"
proof -
  have "- (2 ^ 31) \<le> uint w" by (rule order_trans [OF _ uint_ge_0]) simp
  then show ?thesis by (simp add: sint_uint signed_take_bit_int_less_eq_self_iff)
qed

lemma write_safe:
  assumes "sys_ok s"
  shows "safe (write_fd fd buf sz s)"
proof -
  have console: "sys_ok (s\<lparr>console := k\<rparr>)" for k by (rule sys_ok_same [OF assms]) (use sys_okD(1) [OF assms] in \<open>simp_all add: still_open_def\<close>)
  have onfile: "safe (write_fd fd buf sz s)" if f: "find_fd_element fd s = Some f" "fd \<noteq> 0" "fd \<noteq> 1" for f
  proof -
    have "sint sz \<le> int (length (peeks (lst s) buf (unat sz)))" using sint_le_unat by (simp add: peeks_def)
    then obtain t k where "file_write f (peeks (lst s) buf (unat sz)) (sint sz) (sfs s) = Inr (t, k)" "fs_ok t" "still_open (sfs s) t"
      using file_write_any [OF sys_okD(1) [OF assms]] sys_okD(2) [OF assms f(1)] by blast
    then show ?thesis using f sys_ok_set_fs [OF assms] by (simp add: write_fd_def)
  qed
  show ?thesis
  proof (cases "fd = 0 \<or> fd = 1 \<or> find_fd_element fd s = None")
    case True
    then show ?thesis using console assms by (auto simp: write_fd_def)
  qed (use onfile in auto)
qed

lemma seek_safe:
  assumes "sys_ok s" "0 \<le> sint pos"
  shows "safe (seek fd pos s)"
proof (cases "find_fd_element fd s")
  case (Some f)
  obtain t where "file_seek f (sint pos) (sfs s) = Inr t" "fs_ok t" "still_open (sfs s) t"
    using file_seek_any(1) [OF sys_okD(1) [OF assms(1)]] sys_okD(2) [OF assms(1) Some] assms(2) by blast
  then show ?thesis using Some sys_ok_set_fs [OF assms(1)] by (simp add: seek_def)
qed (use assms in \<open>simp add: seek_def\<close>)

lemma tell_safe:
  assumes "sys_ok s" "0 \<le> junk"
  shows "safe (tell junk reg fd s)"
proof (cases "find_fd_element fd s")
  case (Some f)
  obtain t where "file_seek f junk (sfs s) = Inr t" "fs_ok t" "still_open (sfs s) t"
    using file_seek_any(1) [OF sys_okD(1) [OF assms(1)]] sys_okD(2) [OF assms(1) Some] assms(2) by blast
  then show ?thesis using Some sys_ok_set_fs [OF assms(1)] by (simp add: tell_def)
qed (simp add: tell_def)

lemma filesize_safe:
  assumes "sys_ok s"
  shows "\<exists>n. filesize_get fd s = Inr n"
proof (cases "find_fd_element fd s")
  case (Some f)
  obtain x n where "files (sfs s) f = Some x" "inodes (sfs s) (finode x) = Some n"
    using user_fileE [OF sys_okD(1) [OF assms]] sys_okD(2) [OF assms Some] by metis
  then show ?thesis using Some by (simp add: filesize_get_def file_length_def inode_length_def)
qed (simp add: filesize_get_def)

lemma close_spec:
  assumes "sys_ok s" "find_fd_element fd s = Some f"
  shows "\<exists>t. close_fd fd s = Inr ((set_fs t s)\<lparr>fd_table := remove1 (fd, f) (fd_table s)\<rparr>, True) \<and> fs_abs t = fs_abs (sfs s)
     \<and> files t = (files (sfs s))(f := None) \<and> sys_ok ((set_fs t s)\<lparr>fd_table := remove1 (fd, f) (fd_table s)\<rparr>)"
proof -
  have f: "user_file f (sfs s)" "(fd, f) \<in> set (fd_table s)" using sys_okD(2) [OF assms] by simp_all
  obtain t where t: "file_close (Some f) (sfs s) = Inr t" "fs_ok t" "fs_abs t = fs_abs (sfs s)" "files t = (files (sfs s))(f := None)"
      "free_map_file t = free_map_file (sfs s)" using file_close_any [OF sys_okD(1) [OF assms(1)] f(1)] by blast
  obtain as bs where l: "fd_table s = as @ (fd, f) # bs" "(fd, f) \<notin> set as" using f(2) by (meson split_list_first)
  have "remove1 (fd, f) (fd_table s) = as @ bs" using l by (simp add: remove1_append)
  moreover have "sys_ok ((set_fs t s)\<lparr>fd_table := as @ bs\<rparr>)"
  proof -
    have d: "distinct (map fst (as @ bs))" "distinct (map snd (as @ bs))" "f \<notin> snd ` set (as @ bs)" using assms(1) unfolding sys_ok_def l(1) by auto
    have old: "user_file g t" if "user_file g (sfs s)" "g \<noteq> f" for g using that t(4,5) by (simp add: user_file_def)
    have e: "2 \<le> i \<and> i < fd_table_counter s \<and> user_file g (sfs s)" if "(i, g) \<in> set (as @ bs)" for i g
      using assms(1) that unfolding sys_ok_def l(1) by auto
    have "2 \<le> i \<and> i < fd_table_counter s \<and> user_file g t" if "(i, g) \<in> set (as @ bs)" for i g
      using e [OF that] old [of g] d(3) that by force
    then have "\<forall>(i, g)\<in>set (as @ bs). 2 \<le> i \<and> i < fd_table_counter s \<and> user_file g t" by blast
    moreover have "2 \<le> fd_table_counter s" using assms(1) by (simp add: sys_ok_def)
    moreover have "user_file g t \<and> g \<notin> snd ` set (as @ bs)" if "exec_fp (lst s) = Some g" for g
      using assms(1) old [of g] that unfolding sys_ok_def l(1) by auto
    ultimately show ?thesis using d(1,2) t(2) unfolding sys_ok_def by simp
  qed
  ultimately show ?thesis using t assms(2) by (intro exI [of _ t]) (simp add: close_fd_def)
qed

lemma close_safe: "sys_ok s \<Longrightarrow> safe (close_fd fd s)"
  using close_spec [of s fd] by (cases "find_fd_element fd s") (auto simp: close_fd_def)

text \<open>The calls that make the kernel fail an assertion: a file of a negative size or close to the largest, and a negative position.\<close>

definition hostile :: "int \<Rightarrow> 32 word \<Rightarrow> sstate \<Rightarrow> bool" where
  "hostile junk esp s = (case (peek_word (lst s) esp, peek_word (lst s) (esp + 8)) of
     (Some nr, Some w) \<Rightarrow> nr = SYS_CREATE \<and> (sint w < 0 \<or> 2 ^ 31 \<le> sint w + 511) \<or> nr = SYS_SEEK \<and> sint w < 0 \<or> nr = SYS_TELL \<and> junk < 0
   | (Some nr, None) \<Rightarrow> nr = SYS_TELL \<and> junk < 0 | _ \<Rightarrow> False)"

lemma sys_call_safe:
  assumes ok: "sys_ok s" "fd_table_counter s + 1 < 2 ^ 31" and nr: "peek_word (lst s) esp = Some nr" and h: "\<not> hostile junk esp s"
  shows "safe (sys_call junk reg esp nr s)"
proof -
  have size2: "nr = SYS_CREATE \<Longrightarrow> 0 \<le> sint w \<and> sint w + 511 < 2 ^ 31" "nr = SYS_SEEK \<Longrightarrow> 0 \<le> sint w" if "peek_word (lst s) (esp + 8) = Some w" for w
    using h nr that by (auto simp: hostile_def)
  have junk: "0 \<le> junk" if "nr = SYS_TELL" using h nr that by (auto simp: hostile_def split: option.splits)
  consider "nr = SYS_CREATE" | "nr = SYS_OPEN" | "nr = SYS_SEEK" | "nr = SYS_TELL" | "nr = SYS_CLOSE" | "nr = SYS_READ" | "nr = SYS_WRITE"
    | "nr = SYS_FILESIZE" | "nr = SYS_REMOVE" | "nr \<notin> {SYS_CREATE, SYS_OPEN, SYS_SEEK, SYS_TELL, SYS_CLOSE, SYS_READ, SYS_WRITE, SYS_FILESIZE, SYS_REMOVE}" by blast
  then show ?thesis
  proof cases
    case 1
    have "safe (create name w s)" if "peek_word (lst s) (esp + of_nat (4 * 2)) = Some w" for name w
      using size2(1) [of w] that 1 by (intro create_safe [OF ok(1)]) simp_all
    then show ?thesis using 1 ok(1) by (auto simp: sys_call_def intro!: safe_with_arg safe_bind)
  next
    case 2
    then show ?thesis using ok open_safe by (simp add: sys_call_def sys_numbers safe_name safe_bind)
  next
    case 3
    have "safe (seek fd w s)" if "peek_word (lst s) (esp + of_nat (4 * 2)) = Some w" for fd w
      using size2(2) [of w] that 3 by (intro seek_safe [OF ok(1)]) simp_all
    then show ?thesis using 3 ok(1) by (auto simp: sys_call_def sys_numbers intro!: safe_with_arg safe_bind)
  next
    case 4
    then show ?thesis using ok(1) tell_safe junk by (simp add: sys_call_def sys_numbers safe_with_arg safe_bind)
  next
    case 5
    then show ?thesis using ok(1) close_safe by (simp add: sys_call_def sys_numbers safe_with_arg safe_bind)
  next
    case 6
    then show ?thesis using ok(1) read_safe safe_buffer by (simp add: sys_call_def sys_numbers)
  next
    case 7
    then show ?thesis using ok(1) write_safe safe_buffer by (simp add: sys_call_def sys_numbers)
  next
    case 8
    have "safe (bind_s (filesize_get fd s) (\<lambda>n. Inr (s, g n)))" for fd and g :: "int \<Rightarrow> outcome" using filesize_safe [OF ok(1), of fd] ok(1) by auto
    then show ?thesis using 8 ok(1) by (simp add: sys_call_def sys_numbers safe_with_arg)
  next
    case 9
    then show ?thesis using ok(1) remove_safe by (simp add: sys_call_def sys_numbers safe_name safe_bind)
  next
    case 10
    then show ?thesis using ok(1) by (simp add: sys_call_def safe_with_arg)
  qed
qed

section \<open>The end of a process\<close>

lemma close_all_ok:
  assumes "fs_ok t" "\<forall>e\<in>set es. user_file (snd e) t" "distinct (map snd es)"
  shows "\<exists>t'. close_all es t = Inr t' \<and> fs_ok t' \<and> fs_abs t' = fs_abs t \<and> files t' = (\<lambda>g. if g \<in> snd ` set es then None else files t g)
     \<and> free_map_file t' = free_map_file t"
  using assms
proof (induction es arbitrary: t)
  case (Cons e es)
  obtain u where u: "file_close (Some (snd e)) t = Inr u" "fs_ok u" "fs_abs u = fs_abs t" "files u = (files t)(snd e := None)" "free_map_file u = free_map_file t"
    using file_close_any [of t "snd e"] Cons.prems(1,2) by auto
  have "user_file (snd x) u" if x: "x \<in> set es" for x
  proof -
    have "snd x \<noteq> snd e" using Cons.prems(3) x by (metis distinct.simps(2) image_eqI list.map(2) list.set_map)
    then show ?thesis using Cons.prems(2) x u(4,5) by (simp add: user_file_def)
  qed
  then obtain t' where "close_all es u = Inr t'" "fs_ok t'" "fs_abs t' = fs_abs u" "files t' = (\<lambda>g. if g \<in> snd ` set es then None else files u g)"
      "free_map_file t' = free_map_file u" using Cons.IH [OF u(2)] Cons.prems(3) by auto
  then show ?case using u by (auto simp: fun_eq_iff)
qed simp

text \<open>The pages of a process: its directory, the tables and the frames.\<close>

definition process_pages :: "lstate \<Rightarrow> 32 word set" where
  "process_pages l = (if pagedir l = 0 then {} else insert (pagedir l) (set (dir_pages (lvm l) (pagedir l) 0)))"

definition process_files :: "sstate \<Rightarrow> nat set" where
  "process_files s = snd ` set (fd_table s) \<union> set_option (exec_fp (lst s))"

lemma process_exit_ok:
  assumes ok: "sys_ok s" and pd: "pagedir (lst s) \<noteq> 0 \<longrightarrow> pd_owned (lvm (lst s)) (pagedir (lst s)) \<and> pagedir (lst s) \<noteq> init_page_dir (lvm (lst s))"
    and i: "init_page_dir (lvm (lst s)) \<in> owned (pm (lvm (lst s)))" "pmem_ok (pm (lvm (lst s)))"
  shows "\<exists>s'. process_exit s = Inr s' \<and> fs_ok (sfs s') \<and> fs_abs (sfs s') = fs_abs (sfs s) \<and> fd_table s' = [] \<and> pagedir (lst s') = 0
     \<and> files (sfs s') = (\<lambda>g. if g \<in> process_files s then None else files (sfs s) g)
     \<and> owned (pm (lvm (lst s'))) = owned (pm (lvm (lst s))) - process_pages (lst s)"
proof -
  let ?v = "lvm (lst s)" and ?pd = "pagedir (lst s)"
  have e: "\<forall>e\<in>set (fd_table s). user_file (snd e) (sfs s)" "distinct (map snd (fd_table s))" using ok by (auto simp: sys_ok_def)
  obtain t where t: "close_all (fd_table s) (sfs s) = Inr t" "fs_ok t" "fs_abs t = fs_abs (sfs s)"
      "files t = (\<lambda>g. if g \<in> snd ` set (fd_table s) then None else files (sfs s) g)" "free_map_file t = free_map_file (sfs s)"
    using close_all_ok [OF sys_okD(1) [OF ok] e] by blast
  obtain u where u: "file_close (exec_fp (lst s)) t = Inr u" "fs_ok u" "fs_abs u = fs_abs t" "files u = (\<lambda>g. if g \<in> process_files s then None else files (sfs s) g)"
  proof (cases "exec_fp (lst s)")
    case None
    then show ?thesis using that [of t] t by (simp add: file_close_def process_files_def)
  next
    case (Some f)
    then have "user_file f t" using ok t(4,5) by (simp add: sys_ok_def user_file_def)
    from file_close_any [OF t(2) this] show ?thesis using that t(4) Some by (auto simp: process_files_def fun_eq_iff)
  qed
  let ?s = "(set_fs u s)\<lparr>fd_table := []\<rparr>"
  show ?thesis
  proof (cases "?pd = 0")
    case True
    then have "process_exit s = Inr ?s" using t(1) u(1) by (simp add: process_exit_def Let_def)
    then show ?thesis using True t u by (simp add: process_pages_def)
  next
    case False
    have own: "pd_owned ?v ?pd" "?pd \<noteq> init_page_dir ?v" using pd False by simp_all
    have k: "init_page_dir ?v \<noteq> 0" "is_kernel_vaddr (init_page_dir ?v)" using pp.held_page [OF i(2,1)] by auto
    let ?w = "?v\<lparr>cr3 := init_page_dir ?v - PHYS_BASE, tlb := (\<lambda>_. None)\<rparr>"
    have a: "pagedir_activate 0 ?v = Inr ?w" using k by (simp add: pagedir_activate_def vtop_kernel)
    have w: "pd_owned ?w ?pd" "dir_pages ?w ?pd 0 = dir_pages ?v ?pd 0"
      using pd_owned_change(1,2) [OF own(1), of ?w] own(1) i(2) pd_ok_pmem(2) by (auto simp: pd_owned_def)
    have "?pd \<in> owned (pm ?w)" using w(1) pd_ok_pmem(2) unfolding pd_owned_def by blast
    then obtain x where x: "pagedir_destroy ?pd ?w = Inr x" "owned (pm x) = owned (pm ?w) - insert ?pd (set (dir_pages ?w ?pd 0))"
      using pagedir_destroy_aux [OF pd_owned_dir_ok [OF w(1)]] own(2) by (auto simp: freed_def)
    then have "process_exit s = Inr (?s\<lparr>lst := (lst ?s)\<lparr>pagedir := 0, lvm := x\<rparr>\<rparr>)" using t(1) u(1) a False by (simp add: process_exit_def Let_def)
    then show ?thesis using False t u x w(2) by (simp add: process_pages_def)
  qed
qed

end
