(* ===== verification/UserCalls.thy ===== *)
theory UserCalls
  imports SyscallProps
begin

unbundle bit_operations_syntax

text \<open>
  The system calls as a process sees them: what the memory of the process and its files hold after a call, and the properties of the handler.
\<close>

section \<open>Memory after a store\<close>

lemma distinct_concat_inj:
  assumes "distinct (concat (map f xs))" "distinct xs" "i \<in> set xs" "j \<in> set xs" "x \<in> set (f i)" "x \<in> set (f j)"
  shows "i = j"
  using assms by (induction xs) auto

text \<open>Distinct pages of a process have distinct frames.\<close>

lemma frame_inj:
  assumes own: "pd_owned v pd" and u: "is_user_vaddr a" "is_user_vaddr b" and m: "mapping v pd a = Some e" "mapping v pd b = Some e'"
    and q: "pte_get_page e = Inr q" "pte_get_page e' = Inr q"
  shows "pg_round_down a = pg_round_down b"
proof -
  have at: "\<exists>pt. table_of v pd (pd_no va) = Some pt \<and> q \<in> set (frame_at v pt (unat (pt_no va)))"
    if h: "mapping v pd va = Some x" "pte_get_page x = Inr q" for va x
  proof -
    obtain pt where t: "table_of v pd (pd_no va) = Some pt" "x = rd32 v (slot pt (pt_no va))" "x AND PTE_P \<noteq> 0"
      using h(1) by (auto simp: mapping_def entry_def present_def split: option.splits if_splits)
    then have "frame_at v pt (unat (pt_no va)) = [q]" using h(2) by (simp add: frame_at_def Let_def)
    then show ?thesis using t(1) by simp
  qed
  obtain pt where pt: "table_of v pd (pd_no a) = Some pt" "q \<in> set (frame_at v pt (unat (pt_no a)))" using at m(1) q(1) by blast
  obtain pt' where pt': "table_of v pd (pd_no b) = Some pt'" "q \<in> set (frame_at v pt' (unat (pt_no b)))" using at m(2) q(2) by blast
  have tp: "q \<in> set (table_pages v pt 0)" "q \<in> set (table_pages v pt' 0)"
    using pt(2) pt'(2) pt_no_less [of a] pt_no_less [of b] by (auto simp: table_pages_def)
  have dp: "q \<in> set (dir_pages_at v pd (unat (pd_no a)))" "q \<in> set (dir_pages_at v pd (unat (pd_no b)))"
    using tp pt(1) pt'(1) by (simp_all add: dir_pages_at_def)
  have d: "distinct (concat (map (dir_pages_at v pd) [0..<768]))" using own by (simp add: pd_owned_def dir_pages_def)
  have n: "unat (pd_no a) = unat (pd_no b)"
    by (rule distinct_concat_inj [OF d _ _ _ dp]) (use u in \<open>simp_all add: pd_no_user\<close>)
  then have n': "pd_no a = pd_no b" by (simp add: word_unat_eq_iff)
  then have "pt' = pt" using pt(1) pt'(1) by simp
  have "dir_pages_at v pd (unat (pd_no a)) = table_pages v pt 0 @ [pt]" using pt(1) by (simp add: dir_pages_at_def)
  moreover have "dir_pages_at v pd (unat (pd_no a)) \<in> set (map (dir_pages_at v pd) [0..<768])" using u(1) by (simp add: pd_no_user)
  ultimately have "distinct (table_pages v pt 0)" using d by (metis distinct_append distinct_concat_iff)
  then have "unat (pt_no a) = unat (pt_no b)"
    unfolding table_pages_def
    by (rule distinct_concat_inj [where f = "frame_at v pt", OF _ _ _ _ pt(2) pt'(2) [unfolded \<open>pt' = pt\<close>]]) (use pt_no_less [of a] pt_no_less [of b] in simp_all)
  then show ?thesis using n' unfolding page_eq_iff by (simp add: word_unat_eq_iff)
qed

definition writable :: "lstate \<Rightarrow> 32 word \<Rightarrow> bool" where
  "writable l a \<longleftrightarrow> (if is_user_vaddr a then (case user_view l a of None \<Rightarrow> False | Some x \<Rightarrow> snd x) else kmem l (unat a) \<noteq> None)"

lemma poke_cases:
  assumes "writable l a"
  obtains (user) e q where "is_user_vaddr a" "mapping (lvm l) (pagedir l) a = Some e" "pte_get_page e = Inr q"
      "poke a b l = Some (l\<lparr>ubytes := (ubytes l)(q + pg_ofs a := b)\<rparr>)"
    | (kernel) "\<not> is_user_vaddr a" "poke a b l = Some (l\<lparr>kmem := (kmem l)(unat a \<mapsto> b)\<rparr>)"
  using assms by (auto simp: writable_def poke_def user_view_def split: if_splits option.splits sum.splits)

lemma pd_owned_page: "pd_owned v pd \<Longrightarrow> is_user_vaddr a \<Longrightarrow> mapping v pd a = Some e \<Longrightarrow> pte_get_page e = Inr q \<Longrightarrow> pg_ofs q = 0"
  using frame_mapped [of a v pd e q] pp.held_page pd_ok_pmem(1) unfolding pd_owned_def by blast

lemma poke_views:
  assumes own: "pd_owned (lvm l) (pagedir l)" and w: "writable l a"
  shows "\<exists>l'. poke a b l = Some l' \<and> (\<forall>x. peek l' x = (if x = a then Some b else peek l x)) \<and> (\<forall>x. writable l' x = writable l x)"
proof (cases rule: poke_cases [OF w, where b = b, case_names user kernel])
  case (user e q)
  let ?l = "l\<lparr>ubytes := (ubytes l)(q + pg_ofs a := b)\<rparr>"
  have uv: "user_view ?l x = (if x = a then map_option (\<lambda>(_, w). (b, w)) (user_view l x) else user_view l x)" if x: "is_user_vaddr x" for x
  proof (cases "mapping (lvm l) (pagedir l) x")
    case (Some e')
    obtain q' where q': "pte_get_page e' = Inr q'" using own x Some unfolding pd_owned_def by blast
    have "q' + pg_ofs x = q + pg_ofs a \<longleftrightarrow> x = a"
    proof
      assume eq: "q' + pg_ofs x = q + pg_ofs a"
      have ofs: "pg_ofs q' = 0" "pg_ofs q = 0" using pd_owned_page [OF own] x Some q' user by blast+
      have "pg_round_down (q' + pg_ofs x) = q'" "pg_round_down (q + pg_ofs a) = q" "pg_ofs (q' + pg_ofs x) = pg_ofs x" "pg_ofs (q + pg_ofs a) = pg_ofs a"
        using page_ofs_unat(2,3) [OF ofs(1), of "pg_ofs x"] page_ofs_unat(2,3) [OF ofs(2), of "pg_ofs a"] by (simp_all add: unat_pg_ofs)
      then have e: "q' = q" "pg_ofs x = pg_ofs a" using eq by metis+
      then have "pg_round_down x = pg_round_down a" using frame_inj [OF own x user(1) Some user(2)] q' user(3) by simp
      then show "x = a" using e(2) by (metis pg_round_down_plus_ofs)
    qed (use Some user q' in auto)
    then show ?thesis using Some q' by (auto simp: user_view_def)
  qed (auto simp: user_view_def)
  have "peek ?l x = (if x = a then Some b else peek l x)" for x using uv [of x] user by (auto simp: peek_def user_view_def)
  moreover have "writable ?l x = writable l x" for x using uv [of x] by (auto simp: writable_def split: option.splits)
  ultimately show ?thesis using user(4) by blast
next
  case kernel
  let ?l = "l\<lparr>kmem := (kmem l)(unat a \<mapsto> b)\<rparr>"
  have uv: "user_view ?l x = user_view l x" for x by (simp add: user_view_def split: option.split sum.split)
  have "peek ?l x = (if x = a then Some b else peek l x)" for x using kernel(1) uv [of x] by (auto simp: peek_def dest: word_unat_eq_iff [THEN iffD2])
  moreover have "writable ?l x = writable l x" for x using uv [of x] w kernel(1) by (auto simp: writable_def)
  ultimately show ?thesis using kernel(2) by blast
qed

lemma pokes_views:
  assumes "pd_owned (lvm l) (pagedir l)" "\<forall>i<length bs. writable l (a + of_nat i)" "length bs \<le> u32_mod"
  shows "\<exists>l'. pokes a bs l = Some l' \<and> (\<forall>x. peek l' x = (if unat (x - a) < length bs then Some (bs ! unat (x - a)) else peek l x))"
  using assms
proof (induction bs arbitrary: a l)
  case (Cons b bs)
  have "writable l a" using Cons.prems(2) by force
  then obtain l1 where l1: "poke a b l = Some l1" "\<And>x. peek l1 x = (if x = a then Some b else peek l x)" "\<And>x. writable l1 x = writable l x"
    using poke_views [OF Cons.prems(1), of a b] by blast
  have own: "pd_owned (lvm l1) (pagedir l1)" using poke_keeps [OF l1(1)] Cons.prems(1) by simp
  have "writable l1 (a + 1 + of_nat i)" if "i < length bs" for i
    using Cons.prems(2) [rule_format, of "Suc i"] that l1(3) by (simp add: add.assoc)
  then obtain l' where l': "pokes (a + 1) bs l1 = Some l'" "\<And>x. peek l' x = (if unat (x - (a + 1)) < length bs then Some (bs ! unat (x - (a + 1))) else peek l1 x)"
    using Cons.IH [OF own, of "a + 1"] Cons.prems(3) by auto
  have "peek l' x = (if unat (x - a) < length (b # bs) then Some ((b # bs) ! unat (x - a)) else peek l x)" for x
  proof (cases "x = a")
    case True
    have "unat (- 1 :: 32 word) = 4294967295" by (simp add: unsigned_minus_1_eq_mask mask_eq_exp_minus_1)
    then show ?thesis using True l'(2) [of a] l1(2) Cons.prems(3) by simp
  next
    case False
    then have "x - a \<noteq> 0" by simp
    then have "unat (x - a - 1) = unat (x - a) - 1" "0 < unat (x - a)" by (simp_all add: unat_minus_one unat_gt_0)
    then have "unat (x - a) = Suc (unat (x - (a + 1)))" by (simp add: diff_diff_add)
    then show ?thesis using l'(2) [of x] l1(2) [of x] False by simp
  qed
  then show ?case using l1(1) l'(1) by simp
qed simp

section \<open>Reading\<close>

lemma peek_fs [simp]: "peek (l\<lparr>lfs := t\<rparr>) = peek l" "writable (l\<lparr>lfs := t\<rparr>) = writable l"
  by (auto simp: fun_eq_iff peek_def writable_def user_view_def split: option.split sum.split)

lemma sint_unat:
  fixes w :: "32 word"
  assumes "0 \<le> sint w"
  shows "sint w = int (unat w)"
proof -
  have "sint w < 2 ^ 31" using sint_lt [of w] by simp
  then have "take_bit 32 (sint w) = sint w" using assms by (intro take_bit_int_eq_self) simp_all
  moreover have "uint (of_int k :: 32 word) = take_bit 32 k" for k by (simp add: unsigned_of_int)
  from this [of "sint w"] have "uint w = take_bit 32 (sint w)" by simp
  ultimately show ?thesis by simp
qed

lemma read_fd_spec:
  assumes ok: "sys_ok s" "pd_owned (lvm (lst s)) (pagedir (lst s))" and f: "find_fd_element fd s = Some f" "file_data (sfs s) f = Some c"
    and sz: "0 \<le> sint sz" and xs: "xs = take (unat sz) (drop (file_pos (sfs s) f) c)" and w: "\<forall>i<length xs. writable (lst s) (buf + of_nat i)"
  shows "\<exists>s'. read_fd fd buf sz s = Inr (s', int (length xs)) \<and> sys_ok s'
     \<and> (\<forall>x. peek (lst s') x = (if unat (x - buf) < length xs then Some (xs ! unat (x - buf)) else peek (lst s) x))
     \<and> file_data (sfs s') f = Some c \<and> file_pos (sfs s') f = file_pos (sfs s) f + length xs \<and> fs_abs (sfs s') = fs_abs (sfs s) \<and> fd_table s' = fd_table s"
proof -
  have uf: "user_file f (sfs s)" "(fd, f) \<in> set (fd_table s)" using sys_okD(2) [OF ok(1) f(1)] by simp_all
  then have fd: "fd \<noteq> 0" "fd \<noteq> 1" using ok(1) by (auto simp: sys_ok_def)
  have n: "sint sz = int (unat sz)" by (rule sint_unat [OF sz])
  obtain t where t: "file_read f (int (unat sz)) (sfs s) = Inr (t, xs)" "fs_ok t" "quiet (sfs s) t" "file_data t f = Some c"
      "file_pos t f = file_pos (sfs s) f + min (unat sz) (length c - file_pos (sfs s) f)"
    using file_read_spec [OF sys_okD(1) [OF ok(1)] uf(1) f(2), of "unat sz", folded xs] by blast
  let ?l = "(lst s)\<lparr>lfs := t\<rparr>"
  have "unat sz < u32_mod" using unsigned_less [of sz] by simp
  then have len: "length xs \<le> u32_mod" by (simp add: xs)
  obtain l where l: "pokes buf xs ?l = Some l" "\<forall>x. peek l x = (if unat (x - buf) < length xs then Some (xs ! unat (x - buf)) else peek ?l x)"
    using pokes_views [of ?l xs buf] ok(2) w len by auto
  have r: "read_fd fd buf sz s = Inr (s\<lparr>lst := l\<rparr>, int (length xs))" using fd f(1) t(1) n l(1) by (simp add: read_fd_def)
  moreover have "sys_ok (s\<lparr>lst := l\<rparr>)" using read_safe [OF ok(1), of fd buf sz] r by simp
  moreover have "file_pos t f = file_pos (sfs s) f + length xs" using t(5) by (simp add: xs min.commute)
  moreover have "lfs l = t" using pokes_keeps [OF l(1)] by simp
  ultimately show ?thesis using l(2) t(3,4) quiet_views(10) by (intro exI [of _ "s\<lparr>lst := l\<rparr>"]) simp
qed

lemma pokes_fail:
  assumes "pd_owned (lvm l) (pagedir l)" "i < length bs" "\<not> writable l (a + of_nat i)"
  shows "pokes a bs l = None"
  using assms
proof (induction bs arbitrary: a l i)
  case (Cons b bs)
  show ?case
  proof (cases "poke a b l")
    case (Some l1)
    have w: "writable l a" using Some by (auto simp: poke_def writable_def user_view_def split: if_splits option.splits sum.splits)
    have l1: "\<And>x. writable l1 x = writable l x" using poke_views [OF Cons.prems(1) w, of b] Some by auto
    obtain j where j: "i = Suc j" using w Cons.prems(3) by (cases i) auto
    have "pokes (a + 1) bs l1 = None"
      by (rule Cons.IH [of _ j]) (use poke_keeps [OF Some] Cons.prems l1 j in \<open>simp_all add: add.assoc\<close>)
    then show ?thesis using Some by simp
  qed simp
qed simp

text \<open>The arguments of a call on the stack of the process.\<close>

definition stack_args :: "32 word \<Rightarrow> 32 word list \<Rightarrow> sstate \<Rightarrow> bool" where
  "stack_args esp ws s \<longleftrightarrow> (\<forall>i\<in>{..<length ws}. is_user_vaddr (esp + of_nat (4 * i)) \<and> peek_word (lst s) (esp + of_nat (4 * i)) = Some (ws ! i))"

lemma handler_read:
  assumes a: "stack_args esp [SYS_READ, fd, buf, sz] s" and b: "is_user_vaddr buf" "peek (lst s) buf \<noteq> None"
  shows "syscall_handler junk reg esp s
     = bind_s (read_fd (sint fd) buf sz s) (\<lambda>(s, n). Inr (s, if n = - 1 then Exits (- 1) else Returns (of_int n)))"
proof -
  let ?l = "lst s"
  have w: "peek_word ?l esp = Some SYS_READ" "peek_word ?l (esp + 4) = Some fd" "peek_word ?l (esp + 8) = Some buf" "peek_word ?l (esp + 12) = Some sz"
      "is_user_vaddr esp" "is_user_vaddr (esp + 4)" "is_user_vaddr (esp + 8)" "is_user_vaddr (esp + 12)"
    using a by (simp_all add: stack_args_def lessThan_Suc numeral_eq_Suc)
  have "peek ?l esp \<noteq> None" using w(1) by (auto simp: peek_word_def split: option.splits)
  then obtain y z where "get_user esp ?l = Some y" "get_user buf ?l = Some z" using b(2) by (auto simp: get_user_def)
  then show ?thesis using w b(1) by (simp add: syscall_handler_def with_arg_def sys_call_def sys_numbers sys_buffer_def)
qed

section \<open>An example\<close>

text \<open>A process with one page, the stack, a file open as descriptor 2, and a call that reads ten bytes to the last four bytes of the
  page and beyond.\<close>

definition example_call :: "32 word list" where
  "example_call = [SYS_READ, 2, 0xbffffffc, 10]"

definition example_bytes :: "32 word \<Rightarrow> byte" where
  "example_bytes = put_at (\<lambda>_. 0) 0xc0103fe0 (concat (map le32 example_call))"

definition example_proc :: "fs \<Rightarrow> nat \<Rightarrow> vm \<Rightarrow> sstate" where
  "example_proc t f v = \<lparr>lst = (example_state t)\<lparr>ubytes := example_bytes, pagedir := 0xc0102000, lvm := v\<rparr>, fd_table = [(2, f)], fd_table_counter = 3,
     console = [], keys = (\<lambda>_. 0)\<rparr>"

lemma example_stack_set:
  "case pagedir_set_page 0xc0102000 0xbffff000 0xc0103000 True vm_example of Inl _ \<Rightarrow> False | Inr (s, b) \<Rightarrow> b"
  by code_simp

lemma example_vm:
  "\<exists>v. pd_owned v 0xc0102000 \<and> 0xc0102000 \<noteq> init_page_dir v \<and> init_page_dir v \<in> owned (pm v) \<and> pmem_ok (pm v)
     \<and> (\<forall>t f va. is_user_vaddr va \<longrightarrow> user_view (lst (example_proc t f v)) va
          = (if pg_round_down va = 0xbffff000 then Some (example_bytes (0xc0103000 + pg_ofs va), True) else None))"
proof -
  obtain v where v: "pagedir_set_page 0xc0102000 0xbffff000 0xc0103000 True vm_example = Inr (v, True)"
    using example_stack_set by (auto split: sum.splits)
  have d: "pd_owned vm_example 0xc0102000" "dir_pages vm_example 0xc0102000 0 = []" using vm_example_dirs(1) [of "0xc0102000"] by simp_all
  then have ok: "pd_ok vm_example 0xc0102000" by (simp add: pd_owned_def)
  have o: "0xc0103000 \<in> owned (pm vm_example)" "0xc0101000 \<in> owned (pm vm_example)" using vm_example_owned(2) by simp_all
  have O: "pd_owned v 0xc0102000" "owned (pm vm_example) \<subseteq> owned (pm v)" using set_page_owned [OF d(1) v o(1)] d(2) by auto
  obtain e where e: "pte_create_user 0xc0103000 True = Inr e" "init_page_dir v = init_page_dir vm_example"
      "\<And>va. is_user_vaddr va \<Longrightarrow> mapping v 0xc0102000 va = (if pg_round_down va = 0xbffff000 then Some e else mapping vm_example 0xc0102000 va)"
    by (rule pagedir_set_page_result [OF ok v]) simp
  have p: "pte_get_page e = Inr 0xc0103000" "e AND PTE_W \<noteq> 0"
    using pte_create_user_roundtrip_aux [of "0xc0103000" True] e(1) by (auto simp: is_kernel_vaddr_def PHYS_BASE_def pg_ofs_def PGMASK_def)
  have "user_view (lst (example_proc t f v)) va = (if pg_round_down va = 0xbffff000 then Some (example_bytes (0xc0103000 + pg_ofs va), True) else None)"
    if "is_user_vaddr va" for t f va
    using that e(3) p vm_example_dirs(2) [of "0xc0102000" va] by (simp add: user_view_def example_proc_def)
  moreover have "pmem_ok (pm v)" using O(1) pd_ok_pmem(1) unfolding pd_owned_def by blast
  moreover have "init_page_dir v = 0xc0101000" using e(2) by (simp add: vm_example_def)
  ultimately show ?thesis using O o(2) by (intro exI [of _ v]) auto
qed

lemma example_addresses:
  "list_all (\<lambda>i. is_user_vaddr (0xbfffffe0 + of_nat i) \<and> pg_round_down (0xbfffffe0 + of_nat i) = 0xbffff000 \<and> 0xc0103000 + pg_ofs (0xbfffffe0 + of_nat i) = 0xc0103fe0 + of_nat i)
     [0..<32]"
  by code_simp

lemma example_words:
  "list_all (\<lambda>i. un_le32 (map (\<lambda>j. example_bytes (0xc0103fe0 + of_nat (4 * i + j))) [0, 1, 2, 3]) = example_call ! i) [0..<4]"
  by code_simp

lemma example_kernel:
  "list_all (\<lambda>i. \<not> is_user_vaddr (0xbffffffc + of_nat i) \<and> example_mem (unat (0xbffffffc + of_nat i :: 32 word)) \<noteq> None) [4..<10]"
  by code_simp

lemma list_all_upt: "list_all P [a..<b] \<Longrightarrow> a \<le> i \<Longrightarrow> i < b \<Longrightarrow> P i"
  by (simp add: list_all_iff)

lemma example_process:
  "\<exists>s f. sys_ok s \<and> pd_owned (lvm (lst s)) (pagedir (lst s)) \<and> pagedir (lst s) \<noteq> init_page_dir (lvm (lst s)) \<and> pagedir (lst s) \<noteq> 0
     \<and> init_page_dir (lvm (lst s)) \<in> owned (pm (lvm (lst s))) \<and> pmem_ok (pm (lvm (lst s))) \<and> fd_table_counter s = 3
     \<and> find_fd_element 2 s = Some f \<and> file_data (sfs s) f = Some (replicate 10 0) \<and> file_pos (sfs s) f = 0
     \<and> stack_args 0xbfffffe0 example_call s \<and> (\<forall>i<10. writable (lst s) (0xbffffffc + of_nat i)) \<and> peek (lst s) 0xbffffffc \<noteq> None
     \<and> (\<forall>a. kmem (lst s) a = example_mem a)"
proof -
  obtain t f where t: "fs_ok t" "user_file f t" "file_data t f = Some (replicate 10 0)" "file_pos t f = 0" using example_open by blast
  obtain v where v: "pd_owned v 0xc0102000" "0xc0102000 \<noteq> init_page_dir v" "init_page_dir v \<in> owned (pm v)" "pmem_ok (pm v)"
      "\<And>va. is_user_vaddr va \<Longrightarrow> user_view (lst (example_proc t f v)) va
          = (if pg_round_down va = 0xbffff000 then Some (example_bytes (0xc0103000 + pg_ofs va), True) else None)" using example_vm by blast
  let ?s = "example_proc t f v"
  have fields: "sfs ?s = t" "lvm (lst ?s) = v" "pagedir (lst ?s) = 0xc0102000" "kmem (lst ?s) = example_mem"
    by (simp_all add: example_proc_def example_state_def)
  have at: "is_user_vaddr (0xbfffffe0 + of_nat i) \<and> user_view (lst ?s) (0xbfffffe0 + of_nat i) = Some (example_bytes (0xc0103fe0 + of_nat i), True)" if "i < 32" for i
    using list_all_upt [OF example_addresses, of i] v(5) [of "0xbfffffe0 + of_nat i"] that by simp
  have pk: "peek (lst ?s) (0xbfffffe0 + of_nat i) = Some (example_bytes (0xc0103fe0 + of_nat i))" if "i < 32" for i
    using at [OF that] by (simp add: peek_def)
  have "peek_word (lst ?s) (0xbfffffe0 + of_nat (4 * i)) = Some (example_call ! i)" if "i < 4" for i
  proof -
    have "un_le32 (map (\<lambda>j. example_bytes (0xc0103fe0 + of_nat (4 * i + j))) [0, 1, 2, 3]) = example_call ! i"
      using list_all_upt [OF example_words, of i] that by simp
    then show ?thesis using pk [of "4 * i"] pk [of "4 * i + 1"] pk [of "4 * i + 2"] pk [of "4 * i + 3"] that by (simp add: peek_word_def add.assoc)
  qed
  moreover have "is_user_vaddr (0xbfffffe0 + of_nat (4 * i))" if "i < 4" for i using at [of "4 * i"] that by simp
  moreover have "length example_call = 4" by (simp add: example_call_def)
  ultimately have "stack_args 0xbfffffe0 example_call ?s" unfolding stack_args_def by (metis lessThan_iff)
  moreover have "writable (lst ?s) (0xbffffffc + of_nat i)" if "i < 10" for i
  proof (cases "i < 4")
    case True
    then show ?thesis using at [of "28 + i"] by (simp add: writable_def add.assoc [symmetric])
  next
    case False
    then show ?thesis using list_all_upt [OF example_kernel, of i] that fields(4) by (simp add: writable_def)
  qed
  moreover have "peek (lst ?s) 0xbffffffc \<noteq> None" using pk [of 28] by simp
  moreover have "sys_ok ?s" using t by (simp add: sys_ok_def fields) (simp add: example_proc_def example_state_def)
  moreover have "find_fd_element 2 ?s = Some f" "fd_table_counter ?s = 3" by (simp_all add: example_proc_def find_fd_element_def)
  ultimately show ?thesis using v(1-4) t(3,4) fields by (intro exI [of _ ?s] exI [of _ f]) simp
qed

section \<open>Properties\<close>





text \<open>C25: the handler checks only the first byte of a buffer. A read whose buffer runs past the top of the user space overwrites memory of the kernel,
  and a read that meets a byte the process may not write ends the process while it holds \<open>read_write_lock\<close>, which is never released.\<close>

theorem read_syscall_unchecked:
  assumes "sys_ok s" "pd_owned (lvm (lst s)) (pagedir (lst s))" "stack_args esp [SYS_READ, fd, buf, sz] s" "is_user_vaddr buf" "peek (lst s) buf \<noteq> None"
    and "find_fd_element (sint fd) s = Some f" "file_data (sfs s) f = Some c" "0 \<le> sint sz"
    and "xs = take (unat sz) (drop (file_pos (sfs s) f) c)" "i < length xs"
  shows "if \<forall>j<length xs. writable (lst s) (buf + of_nat j)
     then \<exists>s' out. syscall_handler junk reg esp s = Inr (s', out) \<and> (is_user_vaddr (buf + of_nat i) \<or> kmem (lst s') (unat (buf + of_nat i)) = Some (xs ! i))
     else syscall_handler junk reg esp s = Inl (Page_fault True)"
proof (cases "\<forall>j<length xs. writable (lst s) (buf + of_nat j)")
  case True
  obtain s' where s': "read_fd (sint fd) buf sz s = Inr (s', int (length xs))"
      "\<forall>x. peek (lst s') x = (if unat (x - buf) < length xs then Some (xs ! unat (x - buf)) else peek (lst s) x)"
    using read_fd_spec [OF assms(1,2,6-9) True] by (elim exE conjE) (rule that; assumption)
  have "unat sz < u32_mod" using unsigned_less [of sz] by simp
  then have "unat (of_nat i :: 32 word) = i" using assms(9,10) by (simp add: unat_of_nat)
  then have "peek (lst s') (buf + of_nat i) = Some (xs ! i)" using s'(2) assms(10) by simp
  then show ?thesis using True handler_read [OF assms(3-5)] s'(1) by (auto simp: peek_def split: if_splits)
next
  case False
  have uf: "user_file f (sfs s)" "(sint fd, f) \<in> set (fd_table s)" using sys_okD(2) [OF assms(1,6)] by simp_all
  then have fd: "sint fd \<noteq> 0" "sint fd \<noteq> 1" using assms(1) by (auto simp: sys_ok_def)
  obtain t where t: "file_read f (int (unat sz)) (sfs s) = Inr (t, xs)"
    using file_read_spec [OF sys_okD(1) [OF assms(1)] uf(1) assms(7), of "unat sz", folded assms(9)] by blast
  have "pokes buf xs ((lst s)\<lparr>lfs := t\<rparr>) = None" using pokes_fail [of "(lst s)\<lparr>lfs := t\<rparr>"] False assms(2) by auto
  then have "read_fd (sint fd) buf sz s = Inl (Page_fault True)" using fd assms(6) t sint_unat [OF assms(8)] by (simp add: read_fd_def)
  then show ?thesis using False handler_read [OF assms(3-5)] by simp
qed

theorem read_syscall_unchecked_witness:
  "\<exists>s s' out. stack_args 0xbfffffe0 [SYS_READ, 2, 0xbffffffc, 10] s \<and> kmem (lst s) 3221225472 = Some 97
     \<and> syscall_handler 0 0 0xbfffffe0 s = Inr (s', out) \<and> kmem (lst s') 3221225472 = Some 0"
proof -
  obtain s f where s: "sys_ok s" "pd_owned (lvm (lst s)) (pagedir (lst s))" "find_fd_element 2 s = Some f" "file_data (sfs s) f = Some (replicate 10 0)"
      "file_pos (sfs s) f = 0" "stack_args 0xbfffffe0 example_call s" "\<forall>i<10. writable (lst s) (0xbffffffc + of_nat i)" "peek (lst s) 0xbffffffc \<noteq> None"
      "\<forall>a. kmem (lst s) a = example_mem a"
    using example_process by (elim exE conjE) (rule that; assumption)
  have xs: "replicate 10 0 = take (unat (10 :: 32 word)) (drop (file_pos (sfs s) f) (replicate 10 0))" by (simp add: s(5))
  have a: "stack_args 0xbfffffe0 [SYS_READ, 2, 0xbffffffc, 10] s" using s(6) by (simp add: example_call_def)
  have "kmem (lst s) 3221225472 = Some 97" using s(9) by (simp add: example_mem_def put_def)
  then show ?thesis
    using read_syscall_unchecked [OF s(1,2) a _ s(8) _ s(4) _ xs, of 4 0 0] s(3,7) a by (auto simp: is_user_vaddr_def PHYS_BASE_def)
qed



end
