(* ===== verification/Spec2Isabelle.thy ===== *)
theory Spec2Isabelle
  imports Arith64 Vaddr Bitmap Intq KlistMore Hash Stdlib Pagedir SchedProps FsProps UserCalls
begin

text \<open>
  A verification of the Pintos kernel.
\<close>

end
